(* ===== verification/Ps_Prelude.thy ===== *)
theory Ps_Prelude
  imports Main "HOL-Library.Word" "HOL-Library.Monad_Syntax" "HOL-Library.Multiset"
begin

text \<open>
  Shared vocabulary of the development: addresses and the null pointer, the C integer types,
  and the generic lemmas about options, lists and finite stores that the components share.

  A C function that may fail to return a defined result is a HOL function into \<open>option\<close>:
  \<open>None\<close> stands for a run that does not come back with a defined value, i.e. a null or dangling
  dereference, an index outside an array, a variadic argument of the wrong type, a lock taken
  twice by its holder, or a wait that nobody ends. Error codes that the C code returns are
  ordinary values.
\<close>

section \<open>Addresses, C integers\<close>

type_synonym addr = nat

abbreviation (input) NULL :: addr where "NULL \<equiv> 0"

type_synonym u8 = "8 word"
type_synonym u32 = "32 word"
type_synonym i32 = "32 word"
type_synonym u64 = "64 word"
type_synonym i64 = "64 word"

named_theorems frame_simps \<open>fields that an operation leaves alone\<close>
named_theorems option_run \<open>running the option monad\<close>

section \<open>Options\<close>

text \<open>\<open>guard_ok\<close> is an assertion of the C code or of the memory model: it faults when false.\<close>

definition guard_ok :: "bool \<Rightarrow> unit option" where
  "guard_ok b = (if b then Some () else None)"

lemma guard_ok_True [simp, option_run]: "guard_ok True = Some ()"
  by (simp add: guard_ok_def)

lemma guard_ok_False [simp, option_run]: "guard_ok False = None"
  by (simp add: guard_ok_def)

lemma guard_ok_Some_iff [simp]: "guard_ok b = Some u \<longleftrightarrow> b"
  by (simp add: guard_ok_def)

lemmas bind_Some_iff = bind_eq_Some_conv

lemma bind_Some_E:
  assumes "Option.bind x f = Some y"
  obtains z where "x = Some z" and "f z = Some y"
  using assms by (auto simp: bind_Some_iff)

section \<open>Lists\<close>

text \<open>Reading and writing an array slot, faulting outside the bounds as C does (undefined).\<close>

definition arr_get :: "'a list \<Rightarrow> nat \<Rightarrow> 'a option" where
  "arr_get xs i = (if i < length xs then Some (xs ! i) else None)"

definition arr_set :: "'a list \<Rightarrow> nat \<Rightarrow> 'a \<Rightarrow> 'a list option" where
  "arr_set xs i v = (if i < length xs then Some (xs[i := v]) else None)"

lemma arr_get_Some_iff: "arr_get xs i = Some x \<longleftrightarrow> i < length xs \<and> x = xs ! i"
  by (auto simp: arr_get_def)

lemma arr_get_in [simp, option_run]: "i < length xs \<Longrightarrow> arr_get xs i = Some (xs ! i)"
  by (simp add: arr_get_def)

lemma arr_get_out [simp]: "length xs \<le> i \<Longrightarrow> arr_get xs i = None"
  by (simp add: arr_get_def)

lemma arr_set_in [simp, option_run]: "i < length xs \<Longrightarrow> arr_set xs i v = Some (xs[i := v])"
  by (simp add: arr_set_def)

lemma arr_set_out [simp]: "length xs \<le> i \<Longrightarrow> arr_set xs i v = None"
  by (simp add: arr_set_def)

text \<open>The first element of a list, or a default.\<close>

definition hd_or :: "'a \<Rightarrow> 'a list \<Rightarrow> 'a" where
  "hd_or d xs = (case xs of [] \<Rightarrow> d | x # _ \<Rightarrow> x)"

definition last_or :: "'a \<Rightarrow> 'a list \<Rightarrow> 'a" where
  "last_or d xs = (if xs = [] then d else last xs)"

lemma hd_or_simps [simp]: "hd_or d [] = d" "hd_or d (x # xs) = x"
  by (simp_all add: hd_or_def)

lemma last_or_Nil [simp]: "last_or d [] = d"
  by (simp add: last_or_def)

lemma last_or_snoc [simp]: "last_or d (xs @ [x]) = x"
  by (simp add: last_or_def)

lemma last_or_Cons [simp]: "last_or d (x # xs) = last_or x xs"
  by (simp add: last_or_def)

lemma last_or_append: "last_or d (xs @ ys) = last_or (last_or d xs) ys"
  by (simp add: last_or_def)

lemma hd_or_append: "hd_or d (xs @ ys) = hd_or (hd_or d ys) xs"
  by (simp add: hd_or_def split: list.split)

lemma hd_or_append_Cons [simp]: "hd_or d (xs @ y # ys) = hd_or y xs"
  by (simp add: hd_or_def split: list.split)

lemma last_or_append_Cons [simp]: "last_or d (xs @ y # ys) = last_or y ys"
  by (simp add: last_or_def)

lemma hd_or_in_set: "xs \<noteq> [] \<Longrightarrow> hd_or d xs \<in> set xs"
  by (cases xs) auto

lemma last_or_in_set: "xs \<noteq> [] \<Longrightarrow> last_or d xs \<in> set xs"
  by (simp add: last_or_def)

lemma concat_list_update:
  "i < length xss \<Longrightarrow> concat (xss[i := ys]) = concat (take i xss) @ ys @ concat (drop (Suc i) xss)"
  by (simp add: upd_conv_take_nth_drop)

lemma concat_split_nth:
  "i < length xss \<Longrightarrow> concat xss = concat (take i xss) @ xss ! i @ concat (drop (Suc i) xss)"
  by (metis concat.simps(2) concat_append id_take_nth_drop)

section \<open>Sums over a store\<close>

text \<open>
  \<open>hsum f h\<close> adds \<open>f\<close> over every object allocated in the store \<open>h\<close>. It is how reference
  counts are related to the places that hold a reference.
\<close>

definition hsum :: "('b \<Rightarrow> nat) \<Rightarrow> ('a \<rightharpoonup> 'b) \<Rightarrow> nat" where
  "hsum f h = (\<Sum>a\<in>dom h. f (the (h a)))"

lemma hsum_empty [simp]: "hsum f Map.empty = 0"
  by (simp add: hsum_def)

lemma hsum_insert:
  "finite (dom h) \<Longrightarrow> h a = None \<Longrightarrow> hsum f (h(a \<mapsto> x)) = f x + hsum f h"
  unfolding hsum_def by (subst dom_fun_upd) (auto simp: sum.insert_if domIff intro!: sum.cong)

lemma hsum_remove:
  assumes "finite (dom h)" and "h a = Some x"
  shows "hsum f h = f x + hsum f (h(a := None))"
proof -
  have "(\<Sum>b\<in>dom h. f (the (h b))) = f (the (h a)) + (\<Sum>b\<in>dom h - {a}. f (the (h b)))"
    using assms by (intro sum.remove) auto
  also have "(\<Sum>b\<in>dom h - {a}. f (the (h b))) = hsum f (h(a := None))"
    unfolding hsum_def by (auto intro!: sum.cong)
  finally show ?thesis using assms(2) by (simp add: hsum_def)
qed

lemma hsum_update:
  assumes "finite (dom h)" and "h a = Some x"
  shows "hsum f (h(a \<mapsto> y)) + f x = hsum f h + f y"
proof -
  have "hsum f ((h(a := None))(a \<mapsto> y)) = f y + hsum f (h(a := None))"
    using assms(1) by (intro hsum_insert) auto
  then show ?thesis using hsum_remove [OF assms, of f] by simp
qed

lemma hsum_update_same:
  "finite (dom h) \<Longrightarrow> h a = Some x \<Longrightarrow> f y = f x \<Longrightarrow> hsum f (h(a \<mapsto> y)) = hsum f h"
  using hsum_update [of h a x f y] by simp

lemma hsum_ge: "finite (dom h) \<Longrightarrow> h a = Some x \<Longrightarrow> f x \<le> hsum f h"
  using hsum_remove [of h a x f] by simp

lemma hsum_mono: "(\<And>a x. h a = Some x \<Longrightarrow> f x \<le> g x) \<Longrightarrow> hsum f h \<le> hsum g h"
  unfolding hsum_def by (rule sum_mono) auto

lemma hsum_zeroI: "(\<And>a x. h a = Some x \<Longrightarrow> f x = 0) \<Longrightarrow> hsum f h = 0"
  unfolding hsum_def by (rule sum.neutral) auto

lemma hsum_const_1: "hsum (\<lambda>_. 1) h = card (dom h)"
  by (simp add: hsum_def)

section \<open>Machine counters\<close>

lemma unat_inc32: "unat (w :: u32) + 1 < 2 ^ 32 \<Longrightarrow> unat (w + 1) = unat w + 1"
  by (simp add: unat_word_ariths)

lemma unat_dec32: "0 < unat (w :: u32) \<Longrightarrow> unat (w - 1) = unat w - 1"
  by (metis One_nat_def Suc_leI unat_gt_0 unat_minus_one unat_0 less_irrefl)

lemma dec32_eq_0: "0 < unat (w :: u32) \<Longrightarrow> w - 1 = 0 \<longleftrightarrow> unat w = 1"
  by (metis unat_dec32 unat_0 unat_eq_zero diff_is_0_eq' le_refl Suc_leI le_antisym One_nat_def
      diff_is_0_eq)

end
