(* ===== verification/Cdouble.thy ===== *)
theory Cdouble
  imports Ps_Prelude
begin

text \<open>
  The conversions between \<open>int64_t\<close> and \<open>double\<close> that the value accessors of \<open>src/pubsub.c\<close>
  perform implicitly. A \<open>double\<close> is its 64 bit pattern (IEEE 754 binary64: one sign bit, eleven
  exponent bits biased by 1023, 52 fraction bits). Integers are rounded to nearest, ties to even;
  the conversion to an integer truncates, and is undefined (\<open>None\<close>) for infinities, NaN and values
  that \<open>int64_t\<close> cannot hold.
\<close>

type_synonym dbl = "64 word"

fun ilog2 :: "nat \<Rightarrow> nat" where
  "ilog2 n = (if n < 2 then 0 else Suc (ilog2 (n div 2)))"

declare ilog2.simps [simp del]

text \<open>\<open>a / 2 ^ k\<close> rounded to nearest, ties to even.\<close>

definition round_even :: "nat \<Rightarrow> nat \<Rightarrow> nat" where
  "round_even a k =
     (let q = a div 2 ^ k; r = 2 * (a mod 2 ^ k) in
      if r > 2 ^ k \<or> r = 2 ^ k \<and> odd q then q + 1 else q)"

text \<open>The bits: a carry out of the fraction increments the exponent, as in the format.\<close>

definition dbl_of_int64 :: "i64 \<Rightarrow> dbl" where
  "dbl_of_int64 w =
     (let n = sint w; a = nat \<bar>n\<bar>; e = ilog2 a;
          q = (if e \<le> 52 then a * 2 ^ (52 - e) else round_even a (e - 52)) in
      if a = 0 then 0
      else of_nat ((if n < 0 then 2 ^ 63 else 0) + ((e + 1023) * 2 ^ 52 + (q - 2 ^ 52))))"

definition dbl_sign :: "dbl \<Rightarrow> bool" where
  "dbl_sign d = (unat d div 2 ^ 63 = 1)"

definition dbl_exponent :: "dbl \<Rightarrow> nat" where
  "dbl_exponent d = unat d div 2 ^ 52 mod 2 ^ 11"

definition dbl_fraction :: "dbl \<Rightarrow> nat" where
  "dbl_fraction d = unat d mod 2 ^ 52"

definition int64_of_dbl :: "dbl \<Rightarrow> i64 option" where
  "int64_of_dbl d =
     (let e = dbl_exponent d; m = 2 ^ 52 + dbl_fraction d;
          a = (if e < 1023 then 0 else if e < 1075 then m div 2 ^ (1075 - e) else m * 2 ^ (e - 1075));
          v = (if dbl_sign d then - int a else int a) in
      if e = 2047 then None
      else if - (2 ^ 63) \<le> v \<and> v < 2 ^ 63 then Some (word_of_int v)
      else None)"

text \<open>\<open>d != 0.0\<close>: false for both zeros, true for NaN.\<close>

definition dbl_nonzero :: "dbl \<Rightarrow> bool" where
  "dbl_nonzero d = (unat d mod 2 ^ 63 \<noteq> 0)"

section \<open>Integers up to 2 ^ 53 survive the round trip\<close>

lemma ilog2_bounds: "0 < n \<Longrightarrow> 2 ^ ilog2 n \<le> n \<and> n < 2 ^ Suc (ilog2 n)"
proof (induction n rule: ilog2.induct)
  case (1 n)
  show ?case
  proof (cases "n < 2")
    case True
    with 1 show ?thesis by (simp add: ilog2.simps [of n])
  next
    case False
    with 1 have "2 ^ ilog2 (n div 2) \<le> n div 2 \<and> n div 2 < 2 ^ Suc (ilog2 (n div 2))" by auto
    with False show ?thesis by (auto simp: ilog2.simps [of n])
  qed
qed

lemma ilog2_le: "0 < n \<Longrightarrow> n < 2 ^ Suc k \<Longrightarrow> ilog2 n \<le> k"
  using ilog2_bounds [of n] by (metis le_less_trans less_Suc_eq_le nat_power_less_imp_less zero_less_numeral)

text \<open>Taking apart a bit pattern built from sign, exponent and fraction.\<close>

lemma dbl_fields:
  assumes "e < 2048" and "m < 2 ^ 52" and d: "d = of_nat ((if s then 2 ^ 63 else 0) + (e * 2 ^ 52 + m))"
  shows "dbl_sign d = s" and "dbl_exponent d = e" and "dbl_fraction d = m"
    and "dbl_nonzero d \<longleftrightarrow> \<not> (e = 0 \<and> m = 0)"
proof -
  let ?n = "(if s then 2 ^ 63 else 0) + (e * 2 ^ 52 + m) :: nat"
  have em: "e * 2 ^ 52 + m < 2 ^ 63" using assms(1,2) by simp
  then have "?n < 2 ^ 64" by simp
  then have u: "unat d = ?n" unfolding d by (subst unat_of_nat) simp
  show "dbl_sign d = s" using em by (cases s) (simp_all add: dbl_sign_def u div_add_self1)
  have "?n div 2 ^ 52 = (if s then 2 ^ 11 else 0) + e" using assms(2) by auto
  then show "dbl_exponent d = e" using assms(1) by (simp add: dbl_exponent_def u)
  have "?n mod 2 ^ 52 = (m + ((if s then 2 ^ 11 else 0) + e) * 2 ^ 52) mod 2 ^ 52"
    by (simp add: algebra_simps)
  also have "\<dots> = m" using assms(2) by (metis mod_mult_self1 mod_less)
  finally show "dbl_fraction d = m" by (simp add: dbl_fraction_def u)
  show "dbl_nonzero d \<longleftrightarrow> \<not> (e = 0 \<and> m = 0)" using em by (simp add: dbl_nonzero_def u)
qed

lemma dbl_fields_of_int:
  assumes "sint w \<noteq> 0" and "\<bar>sint w\<bar> \<le> 2 ^ 53"
  defines "a \<equiv> nat \<bar>sint w\<bar>"
  obtains q where "ilog2 a \<le> 53" and "2 ^ 52 \<le> q" and "q < 2 ^ 53"
    and "dbl_of_int64 w = of_nat ((if sint w < 0 then 2 ^ 63 else 0)
          + ((ilog2 a + 1023) * 2 ^ 52 + (q - 2 ^ 52)))"
    and "ilog2 a \<le> 52 \<Longrightarrow> q = a * 2 ^ (52 - ilog2 a)"
    and "ilog2 a = 53 \<Longrightarrow> 2 * q = a"
proof -
  have a: "0 < a" "a \<le> 2 ^ 53" using assms by auto
  let ?e = "ilog2 a"
  note b = ilog2_bounds [OF a(1)]
  have e: "?e \<le> 53" using a by (intro ilog2_le) auto
  define q where "q = (if ?e \<le> 52 then a * 2 ^ (52 - ?e) else round_even a (?e - 52))"
  have q2: "2 * q = a" if "?e = 53"
  proof -
    have "a = 2 ^ 53" using that b a(2) by simp
    then show ?thesis using that by (simp add: q_def round_even_def)
  qed
  have "2 ^ 52 \<le> q \<and> q < 2 ^ 53"
  proof (cases "?e \<le> 52")
    case True
    then have "2 ^ ?e * 2 ^ (52 - ?e) = (2 :: nat) ^ 52" by (metis le_add_diff_inverse power_add)
    moreover have "2 ^ ?e * 2 ^ (52 - ?e) \<le> a * 2 ^ (52 - ?e)"
      and "a * 2 ^ (52 - ?e) < 2 * (2 ^ ?e * 2 ^ (52 - ?e))"
      using b by (simp_all add: mult.assoc [symmetric])
    ultimately show ?thesis using True by (simp add: q_def)
  next
    case False
    with e have "?e = 53" by simp
    moreover have "a = 2 ^ 53" using calculation b a(2) by simp
    ultimately show ?thesis using q2 by simp
  qed
  moreover have "dbl_of_int64 w = of_nat ((if sint w < 0 then 2 ^ 63 else 0)
          + ((?e + 1023) * 2 ^ 52 + (q - 2 ^ 52)))"
    using a(1) unfolding dbl_of_int64_def Let_def q_def a_def by simp
  moreover have "?e \<le> 52 \<Longrightarrow> q = a * 2 ^ (52 - ?e)" by (simp add: q_def)
  ultimately show ?thesis using that e q2 by blast
qed

lemma int64_dbl_roundtrip:
  assumes "\<bar>sint w\<bar> \<le> 2 ^ 53"
  shows "int64_of_dbl (dbl_of_int64 w) = Some w"
proof (cases "sint w = 0")
  case True
  then have "w = 0" by (simp add: signed_eq_0_iff)
  then show ?thesis
    by (simp add: dbl_of_int64_def int64_of_dbl_def dbl_exponent_def dbl_fraction_def dbl_sign_def Let_def)
next
  case False
  obtain q where q: "ilog2 (nat \<bar>sint w\<bar>) \<le> 53" "2 ^ 52 \<le> q" "q < 2 ^ 53"
    and d: "dbl_of_int64 w = of_nat ((if sint w < 0 then 2 ^ 63 else 0)
          + ((ilog2 (nat \<bar>sint w\<bar>) + 1023) * 2 ^ 52 + (q - 2 ^ 52)))"
    and e1: "ilog2 (nat \<bar>sint w\<bar>) \<le> 52 \<Longrightarrow> q = nat \<bar>sint w\<bar> * 2 ^ (52 - ilog2 (nat \<bar>sint w\<bar>))"
    and e2: "ilog2 (nat \<bar>sint w\<bar>) = 53 \<Longrightarrow> 2 * q = nat \<bar>sint w\<bar>"
    using dbl_fields_of_int [OF False assms] by blast
  define e where "e = ilog2 (nat \<bar>sint w\<bar>)"
  have flds: "dbl_sign (dbl_of_int64 w) = (sint w < 0)" "dbl_exponent (dbl_of_int64 w) = e + 1023"
    "dbl_fraction (dbl_of_int64 w) = q - 2 ^ 52"
    using dbl_fields [OF _ _ d] q by (simp_all add: e_def)
  have mag: "(if e + 1023 < 1023 then 0 else if e + 1023 < 1075 then (2 ^ 52 + (q - 2 ^ 52)) div 2 ^ (1075 - (e + 1023))
      else (2 ^ 52 + (q - 2 ^ 52)) * 2 ^ (e + 1023 - 1075)) = nat \<bar>sint w\<bar>"
  proof (cases "e \<le> 52")
    case True
    then have q': "q = nat \<bar>sint w\<bar> * 2 ^ (52 - e)" using e1 by (simp add: e_def)
    have "1075 - (e + 1023) = 52 - e" using True by simp
    then show ?thesis using True q q' by (cases "e = 52") auto
  next
    case False
    then have "e = 53" using q by (simp add: e_def)
    with e2 q show ?thesis by (simp add: e_def [symmetric] mult.commute)
  qed
  have "(if sint w < 0 then - int (nat \<bar>sint w\<bar>) else int (nat \<bar>sint w\<bar>)) = sint w" by simp
  moreover have "- (2 ^ 63) \<le> sint w \<and> sint w < 2 ^ 63" using assms by auto
  moreover have "e + 1023 \<noteq> 2047" using q by (simp add: e_def)
  ultimately show ?thesis
    unfolding int64_of_dbl_def Let_def flds mag by simp
qed

lemma dbl_of_int64_nonzero:
  assumes "\<bar>sint w\<bar> \<le> 2 ^ 53"
  shows "dbl_nonzero (dbl_of_int64 w) \<longleftrightarrow> w \<noteq> 0"
proof (cases "sint w = 0")
  case True
  then have "w = 0" by (simp add: signed_eq_0_iff)
  then show ?thesis by (simp add: dbl_of_int64_def dbl_nonzero_def)
next
  case False
  obtain q where q: "ilog2 (nat \<bar>sint w\<bar>) \<le> 53" "2 ^ 52 \<le> q" "q < 2 ^ 53"
    and d: "dbl_of_int64 w = of_nat ((if sint w < 0 then 2 ^ 63 else 0)
          + ((ilog2 (nat \<bar>sint w\<bar>) + 1023) * 2 ^ 52 + (q - 2 ^ 52)))"
    using dbl_fields_of_int [OF False assms] by blast
  have "dbl_nonzero (dbl_of_int64 w)"
    using dbl_fields(4) [OF _ _ d] q by simp
  with False show ?thesis by auto
qed

end
