(* ===== verification/Cstring.thy ===== *)
theory Cstring
  imports Ps_Prelude "HOL-Library.Char_ord"
begin

text \<open>
  The string work of \<open>src/pubsub.c\<close>. A C string is the list of its characters before the
  terminating null. The definitions here are the pieces that several API functions share:
  cutting the flags off a topic, reading the flags, walking from a topic to its parents,
  matching a prefix, and printing the number of a response topic.
\<close>

abbreviation SPACE :: char where "SPACE \<equiv> CHR '' ''"
abbreviation DOT :: char where "DOT \<equiv> CHR ''.''"
abbreviation NUL :: char where "NUL \<equiv> CHR 0x00"

section \<open>Standard string functions\<close>

text \<open>\<open>char_at\<close> reads \<open>s[i]\<close>: the terminating null is at index \<open>strlen(s)\<close>, beyond it is a fault.\<close>

definition char_at :: "string \<Rightarrow> nat \<Rightarrow> char option" where
  "char_at s i = (if i < length s then Some (s ! i) else if i = length s then Some NUL else None)"

definition strncmp_eq :: "string \<Rightarrow> string \<Rightarrow> nat \<Rightarrow> bool" where
  "strncmp_eq a b n \<longleftrightarrow> take n a = take n b"

definition isdigit :: "char \<Rightarrow> bool" where
  "isdigit c \<longleftrightarrow> (48 :: nat) \<le> of_char c \<and> of_char c \<le> (57 :: nat)"

section \<open>Topic and flags\<close>

text \<open>
  \<open>cut_topic\<close> is \<open>strchr(topic, ' ')\<close> followed by \<open>*fl_str = 0\<close>: what is left of the topic.
  \<open>flag_chars\<close> is the string after the space, empty if there is none.
\<close>

definition cut_topic :: "string \<Rightarrow> string" where
  "cut_topic s = takeWhile (\<lambda>c. c \<noteq> SPACE) s"

definition flag_chars :: "string \<Rightarrow> string" where
  "flag_chars s = tl (dropWhile (\<lambda>c. c \<noteq> SPACE) s)"

record sub_flags =
  fl_hidden :: bool
  fl_on_empty :: bool
  fl_no_sticky :: bool
  fl_child_sticky :: bool
  fl_priority :: u8

definition no_flags :: sub_flags where
  "no_flags = \<lparr>fl_hidden = False, fl_on_empty = False, fl_no_sticky = False, fl_child_sticky = False, fl_priority = 0\<rparr>"

text \<open>One turn of the \<open>switch\<close>: the character \<open>c\<close> and the one after it.\<close>

definition flag_step :: "char \<Rightarrow> char \<Rightarrow> sub_flags \<Rightarrow> sub_flags" where
  "flag_step c nx f =
     (if c = CHR ''h'' then f\<lparr>fl_hidden := True\<rparr>
      else if c = CHR ''s'' then f\<lparr>fl_no_sticky := True\<rparr>
      else if c = CHR ''S'' then f\<lparr>fl_child_sticky := True\<rparr>
      else if c = CHR ''e'' then f\<lparr>fl_on_empty := True\<rparr>
      else if c = CHR ''p'' \<and> isdigit nx then f\<lparr>fl_priority := of_nat (of_char nx - 48 :: nat)\<rparr>
      else f)"

fun parse_flags :: "string \<Rightarrow> sub_flags \<Rightarrow> sub_flags" where
  "parse_flags [] f = f"
| "parse_flags (c # cs) f = parse_flags cs (flag_step c (hd_or NUL cs) f)"

section \<open>Parents of a topic\<close>

text \<open>
  The inner \<open>for\<close> of \<open>ps_publish\<close> and \<open>ps_subs_count\<close>: characters are overwritten with null from
  the end, up to and including the last dot. Writing null at index \<open>n\<close> leaves \<open>take n\<close>.
\<close>

fun cut_loop :: "string \<Rightarrow> nat \<Rightarrow> string" where
  "cut_loop topic 0 = topic"
| "cut_loop topic (Suc n) =
     (if topic ! n = DOT then take n topic else cut_loop (take n topic) n)"

definition parent :: "string \<Rightarrow> string" where
  "parent topic = cut_loop topic (length topic)"

section \<open>Prefix test of the sticky functions\<close>

definition topic_match :: "string \<Rightarrow> string \<Rightarrow> bool option" where
  "topic_match prefix topic =
     (let pl = length prefix in
      if pl = 0 then Some True
      else if strncmp_eq prefix topic pl then do {
        c \<leftarrow> char_at topic pl;
        Some (c = NUL \<or> c = DOT)
      } else Some False)"

section \<open>The string tests of the message functions\<close>

definition has_topic_prefix_str :: "string \<Rightarrow> string \<Rightarrow> bool" where
  "has_topic_prefix_str topic pre =
     (let len = length (takeWhile (\<lambda>c. c \<noteq> SPACE) pre) in strncmp_eq pre topic len)"

definition has_topic_suffix_str :: "string \<Rightarrow> string \<Rightarrow> bool" where
  "has_topic_suffix_str topic suf =
     (let lsuf = length suf; ltopic = length topic in
      if lsuf > ltopic then False else drop (ltopic - lsuf) topic = suf)"

definition has_topic_str :: "string \<Rightarrow> string \<Rightarrow> bool" where
  "has_topic_str topic t =
     (let len = length (takeWhile (\<lambda>c. c \<noteq> SPACE) t) in strncmp_eq t topic len)"

section \<open>Printing an unsigned number\<close>

text \<open>The \<open>%u\<close> conversion of \<open>snprintf\<close>.\<close>

fun print_u :: "nat \<Rightarrow> string" where
  "print_u n = (if n < 10 then [char_of (48 + n)] else print_u (n div 10) @ [char_of (48 + n mod 10)])"

declare print_u.simps [simp del]

definition rtopic_of :: "u32 \<Rightarrow> string" where
  "rtopic_of n = ''$r.'' @ print_u (unat n)"

section \<open>Lemmas: parents and ancestors\<close>

lemma cut_loop_no_dot: "DOT \<notin> set (take n t) \<Longrightarrow> n \<le> length t \<Longrightarrow> cut_loop (take n t) n = []"
proof (induction n)
  case 0
  then show ?case by simp
next
  case (Suc n)
  then have "DOT \<notin> set (take n t)" and "t ! n \<noteq> DOT"
    by (auto simp: take_Suc_conv_app_nth)
  with Suc show ?case by (simp add: min_def)
qed

lemma parent_no_dot: "DOT \<notin> set t \<Longrightarrow> parent t = []"
  using cut_loop_no_dot [of "length t" t] by (simp add: parent_def)

lemma cut_loop_dot:
  "DOT \<notin> set l \<Longrightarrow> cut_loop (q @ DOT # l) (length q + 1 + length l) = q"
proof (induction l rule: rev_induct)
  case Nil
  then show ?case by simp
next
  case (snoc x l)
  then show ?case by (auto simp: nth_append)
qed

lemma parent_dot: "DOT \<notin> set l \<Longrightarrow> parent (q @ DOT # l) = q"
  using cut_loop_dot [of l q] by (simp add: parent_def)

lemma topic_cases:
  obtains (nodot) "DOT \<notin> set t" | (dot) q l where "t = q @ DOT # l" and "DOT \<notin> set l"
  by (metis split_list_last)

lemma parent_Nil [simp]: "parent [] = []"
  by (simp add: parent_def)

lemma length_parent: "t \<noteq> [] \<Longrightarrow> length (parent t) < length t"
  by (cases t rule: topic_cases) (simp_all add: parent_no_dot parent_dot)

function ancestors :: "string \<Rightarrow> string list" where
  "ancestors t = (if t = [] then [[]] else t # ancestors (parent t))"
  by pat_completeness auto
termination
  by (relation "measure length") (auto simp: length_parent)

declare ancestors.simps [simp del]

lemma ancestors_Nil [simp]: "ancestors [] = [[]]"
  by (simp add: ancestors.simps)

lemma ancestors_step: "t \<noteq> [] \<Longrightarrow> ancestors t = t # ancestors (parent t)"
  by (simp add: ancestors.simps [of t])

lemma ancestors_self: "t \<in> set (ancestors t)"
  by (simp add: ancestors.simps [of t])

lemma ancestors_root: "[] \<in> set (ancestors t)"
  by (induction t rule: ancestors.induct) (metis ancestors.simps list.set_intros)

lemma ancestors_not_Nil [simp]: "ancestors t \<noteq> []"
  by (simp add: ancestors.simps [of t])

lemma length_ancestor: "a \<in> set (ancestors t) \<Longrightarrow> length a \<le> length t"
proof (induction t rule: ancestors.induct)
  case (1 t)
  then show ?case
    using length_parent [of t] by (cases "t = []") (auto simp: ancestors_step)
qed

lemma distinct_ancestors: "distinct (ancestors t)"
proof (induction t rule: ancestors.induct)
  case (1 t)
  show ?case
  proof (cases "t = []")
    case False
    have "t \<notin> set (ancestors (parent t))"
      using length_ancestor [of t "parent t"] length_parent [OF False] by auto
    with 1 False show ?thesis by (simp add: ancestors_step)
  qed simp
qed

lemma topic_match_iff:
  "topic_match p t = Some (p = [] \<or> p = t \<or> (\<exists>r. t = p @ DOT # r))" if "NUL \<notin> set t"
proof (cases "take (length p) t = p \<and> p \<noteq> []")
  case True
  then obtain s where t: "t = p @ s" by (metis append_take_drop_id)
  with True that show ?thesis
    by (cases s) (auto simp: topic_match_def strncmp_eq_def char_at_def Let_def)
next
  case False
  then show ?thesis
    by (auto simp: topic_match_def strncmp_eq_def Let_def)
qed

lemma in_ancestors_iff: "p \<in> set (ancestors t) \<longleftrightarrow> p = [] \<or> p = t \<or> (\<exists>r. t = p @ DOT # r)"
proof (induction t rule: ancestors.induct)
  case (1 t)
  show ?case
  proof (cases "t = []")
    case False
    note IH = 1 [OF False]
    show ?thesis
    proof (cases t rule: topic_cases)
      case nodot
      with False show ?thesis
        by (auto simp: ancestors_step parent_no_dot)
    next
      case (dot q l)
      have "(\<exists>r. q @ DOT # l = p @ DOT # r) \<longleftrightarrow> p = q \<or> (\<exists>r. q = p @ DOT # r)"
        using dot(2) by (auto simp: append_eq_append_conv2 append_eq_Cons_conv Cons_eq_append_conv)
      with False IH show ?thesis
        by (auto simp: ancestors_step dot parent_dot)
    qed
  qed simp
qed

section \<open>Lemmas: flags\<close>

lemma flag_step_fields:
  "fl_hidden (flag_step c nx f) \<longleftrightarrow> fl_hidden f \<or> c = CHR ''h''"
  "fl_on_empty (flag_step c nx f) \<longleftrightarrow> fl_on_empty f \<or> c = CHR ''e''"
  "fl_no_sticky (flag_step c nx f) \<longleftrightarrow> fl_no_sticky f \<or> c = CHR ''s''"
  "fl_child_sticky (flag_step c nx f) \<longleftrightarrow> fl_child_sticky f \<or> c = CHR ''S''"
  "fl_priority (flag_step c nx f) =
     (if c = CHR ''p'' \<and> isdigit nx then of_nat (of_char nx - 48 :: nat) else fl_priority f)"
  by (auto simp: flag_step_def)

lemma parse_flags_bools:
  "fl_hidden (parse_flags s f) \<longleftrightarrow> fl_hidden f \<or> CHR ''h'' \<in> set s"
  "fl_on_empty (parse_flags s f) \<longleftrightarrow> fl_on_empty f \<or> CHR ''e'' \<in> set s"
  "fl_no_sticky (parse_flags s f) \<longleftrightarrow> fl_no_sticky f \<or> CHR ''s'' \<in> set s"
  "fl_child_sticky (parse_flags s f) \<longleftrightarrow> fl_child_sticky f \<or> CHR ''S'' \<in> set s"
  by (induction s arbitrary: f) (auto simp: flag_step_fields)

lemma digit_value: "isdigit c \<Longrightarrow> unat (of_nat (of_char c - 48 :: nat) :: u8) = of_char c - 48"
  proof -
  assume "isdigit c"
  then have "of_char c - 48 < (256 :: nat)" unfolding isdigit_def by linarith
  then show ?thesis by (simp add: unat_of_nat del: of_nat_diff)
qed

lemma digit_value_lt: "isdigit c \<Longrightarrow> unat (of_nat (of_char c - 48 :: nat) :: u8) < 10"
  by (subst digit_value) (auto simp: isdigit_def)

lemma parse_flags_priority_bound:
  "unat (fl_priority f) < 10 \<Longrightarrow> unat (fl_priority (parse_flags s f)) < 10"
  by (induction s arbitrary: f) (auto simp: flag_step_fields digit_value_lt)

lemma parse_flags_priority_none: "CHR ''p'' \<notin> set s \<Longrightarrow> fl_priority (parse_flags s f) = fl_priority f"
  by (induction s arbitrary: f) (auto simp: flag_step_fields)

text \<open>The last \<open>p\<close> that a digit follows decides the priority.\<close>

lemma parse_flags_priority_last:
  assumes "isdigit d" and "CHR ''p'' \<notin> set r"
  shows "fl_priority (parse_flags (s @ CHR ''p'' # d # r) f) = of_nat (of_char d - 48 :: nat)"
proof (induction s arbitrary: f)
  case Nil
  have "d \<noteq> CHR ''p''" using assms(1) by (auto simp: isdigit_def)
  with assms show ?case by (simp add: flag_step_fields parse_flags_priority_none)
next
  case (Cons c s)
  then show ?case by simp
qed

section \<open>Lemmas: printed numbers\<close>

definition read_u :: "string \<Rightarrow> nat" where
  "read_u s = foldl (\<lambda>a c. 10 * a + (of_char c - 48)) 0 s"

lemma read_print_u: "read_u (print_u n) = n"
proof (induction n rule: print_u.induct)
  case (1 n)
  then show ?case
    by (subst print_u.simps) (auto simp: read_u_def)
qed

lemma print_u_inj: "print_u m = print_u n \<Longrightarrow> m = n"
  by (metis read_print_u)

lemma print_u_digits: "c \<in> set (print_u n) \<Longrightarrow> isdigit c"
proof (induction n rule: print_u.induct)
  case (1 n)
  then show ?case
    by (subst (asm) (2) print_u.simps) (auto simp: isdigit_def split: if_splits)
qed

lemma length_print_u: "n < 10 ^ Suc k \<Longrightarrow> length (print_u n) \<le> Suc k"
proof (induction k arbitrary: n)
  case 0
  then show ?case by (simp add: print_u.simps [of n])
next
  case (Suc k)
  then have "n div 10 < 10 ^ Suc k" by (auto simp: less_mult_imp_div_less)
  from Suc.IH [OF this] show ?case by (simp add: print_u.simps [of n])
qed

lemma rtopic_of_inj: "rtopic_of a = rtopic_of b \<Longrightarrow> a = b"
  by (auto simp: rtopic_of_def word_unat_eq_iff dest!: print_u_inj)

lemma digit_no_special: "isdigit c \<Longrightarrow> c \<noteq> SPACE \<and> c \<noteq> NUL \<and> c \<noteq> DOT"
  by (auto simp: isdigit_def)

lemma rtopic_of_chars: "SPACE \<notin> set (rtopic_of n)" "NUL \<notin> set (rtopic_of n)"
  by (auto simp: rtopic_of_def dest!: print_u_digits digit_no_special)

lemma cut_topic_id: "SPACE \<notin> set t \<Longrightarrow> cut_topic t = t"
  by (simp add: cut_topic_def takeWhile_eq_all_conv) (metis)

lemma cut_topic_no_space: "SPACE \<notin> set (cut_topic t)"
  by (auto simp: cut_topic_def dest: set_takeWhileD)

lemma cut_topic_subset: "set (cut_topic t) \<subseteq> set t"
  by (auto simp: cut_topic_def dest: set_takeWhileD)

lemma length_rtopic_of: "length (rtopic_of n) < 32"
proof -
  have "unat n < 10 ^ Suc 9" proof -
    have "unat n < 2 ^ LENGTH(32)" by (rule unsigned_less)
    then show ?thesis by simp
  qed
  then have "length (print_u (unat n)) \<le> Suc 9" by (rule length_print_u)
  then show ?thesis by (simp add: rtopic_of_def)
qed

section \<open>Lemmas: the topic tests\<close>

lemma has_topic_is_prefix: "has_topic_str topic t = has_topic_prefix_str topic t"
  by (simp add: has_topic_str_def has_topic_prefix_str_def)

lemma has_topic_prefix_iff: "has_topic_prefix_str topic pre \<longleftrightarrow> (\<exists>r. topic = cut_topic pre @ r)"
proof -
  have "take (length (cut_topic pre)) pre = cut_topic pre"
    by (metis append_eq_conv_conj cut_topic_def takeWhile_dropWhile_id)
  then show ?thesis
    by (auto simp: has_topic_prefix_str_def strncmp_eq_def Let_def cut_topic_def)
       (metis append_take_drop_id)
qed

lemma has_topic_suffix_iff: "has_topic_suffix_str topic suf \<longleftrightarrow> (\<exists>r. topic = r @ suf)"
  by (auto simp: has_topic_suffix_str_def Let_def) (metis append_take_drop_id)

end
