(* ===== verification/Message.thy ===== *)
theory Message
  imports Cdouble Cstring
begin

text \<open>
  Messages of \<open>src/pubsub.h\<close> and \<open>src/pubsub.c\<close>: the flag word, the tagged union, the reference
  count and every operation on a message. Messages live in a store \<open>mheap\<close>; a message pointer is
  an address, and each access goes through the store. Strings that a message owns (they are
  always copied with \<open>strdup\<close>) are held by value; buffers are not copied by \<open>ps_new_msg\<close>, so they
  live in a store of their own, together with the log of user destructors that were called.
\<close>

unbundle bit_operations_syntax

section \<open>Flag words\<close>

definition PS_FL_STICKY :: u32 where "PS_FL_STICKY = push_bit 0 1"
definition PS_FL_NONRECURSIVE :: u32 where "PS_FL_NONRECURSIVE = push_bit 1 1"
definition PS_FL_EXTERNAL :: u32 where "PS_FL_EXTERNAL = push_bit 2 1"
definition PS_FL_UNTRUSTED :: u32 where "PS_FL_UNTRUSTED = push_bit 3 1"
definition PS_INT_TYP :: u32 where "PS_INT_TYP = 0x100"
definition PS_DBL_TYP :: u32 where "PS_DBL_TYP = 0x200"
definition PS_PTR_TYP :: u32 where "PS_PTR_TYP = 0x300"
definition PS_STR_TYP :: u32 where "PS_STR_TYP = 0x400"
definition PS_BUF_TYP :: u32 where "PS_BUF_TYP = 0x500"
definition PS_BOOL_TYP :: u32 where "PS_BOOL_TYP = 0x600"
definition PS_ERR_TYP :: u32 where "PS_ERR_TYP = 0x700"
definition PS_NIL_TYP :: u32 where "PS_NIL_TYP = 0x800"
definition PS_MSK_TYP :: u32 where "PS_MSK_TYP = 0xF00"
definition PS_MSK_ENC :: u32 where "PS_MSK_ENC = 0xF0000"
definition PS_MSK_VALUE :: u32 where "PS_MSK_VALUE = PS_MSK_TYP OR PS_MSK_ENC"

lemmas flag_defs = PS_FL_STICKY_def PS_FL_NONRECURSIVE_def PS_FL_EXTERNAL_def PS_FL_UNTRUSTED_def
lemmas typ_defs = PS_INT_TYP_def PS_DBL_TYP_def PS_PTR_TYP_def PS_STR_TYP_def PS_BUF_TYP_def
  PS_BOOL_TYP_def PS_ERR_TYP_def PS_NIL_TYP_def
lemmas msk_defs = PS_MSK_TYP_def PS_MSK_ENC_def PS_MSK_VALUE_def

section \<open>Data\<close>

text \<open>A destructor is \<open>free\<close> of the C library or a function of the user.\<close>

datatype dtor = D_free | D_user nat

text \<open>
  The anonymous union of \<open>ps_msg_t\<close>, by the member last stored. \<open>V_zero\<close> is the all-zero state
  that \<open>calloc\<close> leaves; \<open>V_freed\<close> is a pointer member whose target has been freed.
\<close>

datatype mval =
    V_zero
  | V_dbl dbl
  | V_int i64
  | V_bool i32
  | V_ptr addr
  | V_str "string option"
  | V_buf addr u64 "dtor option"
  | V_err i32 "string option"
  | V_freed

record msg =
  m_ref :: u32
  m_topic :: "string option"
  m_rtopic :: "string option"
  m_flags :: u32
  m_priority :: u8
  m_val :: mval

record mheap =
  mh_msgs :: "addr \<rightharpoonup> msg"
  mh_bufs :: "addr \<rightharpoonup> u8 list"
  mh_brk :: addr
  mh_live :: u32
  mh_dtors :: "(nat \<times> addr) list"

abbreviation put_msg :: "addr \<Rightarrow> msg \<Rightarrow> mheap \<Rightarrow> mheap" where
  "put_msg a m h \<equiv> h\<lparr>mh_msgs := (mh_msgs h)(a \<mapsto> m)\<rparr>"

text \<open>Reading a pointer member of the union: zero is null, any other member is a fault.\<close>

fun rd_str :: "mval \<Rightarrow> string option option" where
  "rd_str V_zero = Some None"
| "rd_str (V_str s) = Some s"
| "rd_str _ = None"

fun rd_buf :: "mval \<Rightarrow> (addr \<times> u64 \<times> dtor option) option" where
  "rd_buf V_zero = Some (NULL, 0, None)"
| "rd_buf (V_buf p sz d) = Some (p, sz, d)"
| "rd_buf _ = None"

fun rd_err :: "mval \<Rightarrow> (i32 \<times> string option) option" where
  "rd_err V_zero = Some (0, None)"
| "rd_err (V_err i d) = Some (i, d)"
| "rd_err _ = None"

fun rd_int :: "mval \<Rightarrow> i64 option" where
  "rd_int V_zero = Some 0"
| "rd_int (V_int i) = Some i"
| "rd_int _ = None"

fun rd_dbl :: "mval \<Rightarrow> dbl option" where
  "rd_dbl V_zero = Some 0"
| "rd_dbl (V_dbl d) = Some d"
| "rd_dbl _ = None"

fun rd_bool :: "mval \<Rightarrow> i32 option" where
  "rd_bool V_zero = Some 0"
| "rd_bool (V_bool b) = Some b"
| "rd_bool _ = None"

section \<open>Type tests\<close>

definition msg_typ :: "msg \<Rightarrow> u32" where
  "msg_typ m = m_flags m AND PS_MSK_TYP"

definition is_typ :: "u32 \<Rightarrow> addr \<Rightarrow> mheap \<Rightarrow> bool option" where
  "is_typ t a h = (if a = NULL then Some False else do { m \<leftarrow> mh_msgs h a; Some (msg_typ m = t) })"

definition PS_IS_INT :: "addr \<Rightarrow> mheap \<Rightarrow> bool option" where "PS_IS_INT = is_typ PS_INT_TYP"
definition PS_IS_DBL :: "addr \<Rightarrow> mheap \<Rightarrow> bool option" where "PS_IS_DBL = is_typ PS_DBL_TYP"
definition PS_IS_BOOL :: "addr \<Rightarrow> mheap \<Rightarrow> bool option" where "PS_IS_BOOL = is_typ PS_BOOL_TYP"
definition PS_IS_PTR :: "addr \<Rightarrow> mheap \<Rightarrow> bool option" where "PS_IS_PTR = is_typ PS_PTR_TYP"
definition PS_IS_STR :: "addr \<Rightarrow> mheap \<Rightarrow> bool option" where "PS_IS_STR = is_typ PS_STR_TYP"
definition PS_IS_BUF :: "addr \<Rightarrow> mheap \<Rightarrow> bool option" where "PS_IS_BUF = is_typ PS_BUF_TYP"
definition PS_IS_ERR :: "addr \<Rightarrow> mheap \<Rightarrow> bool option" where "PS_IS_ERR = is_typ PS_ERR_TYP"
definition PS_IS_NIL :: "addr \<Rightarrow> mheap \<Rightarrow> bool option" where "PS_IS_NIL = is_typ PS_NIL_TYP"

definition PS_IS_NUMBER :: "addr \<Rightarrow> mheap \<Rightarrow> bool option" where
  "PS_IS_NUMBER a h = do {
     b \<leftarrow> PS_IS_INT a h;
     if b then Some True else do {
       b \<leftarrow> PS_IS_DBL a h;
       if b then Some True else PS_IS_BOOL a h } }"

lemmas is_typ_defs = is_typ_def PS_IS_INT_def PS_IS_DBL_def PS_IS_BOOL_def PS_IS_PTR_def
  PS_IS_STR_def PS_IS_BUF_def PS_IS_ERR_def PS_IS_NIL_def

section \<open>Freeing and setting the value\<close>

definition call_dtor :: "dtor \<Rightarrow> addr \<Rightarrow> mheap \<Rightarrow> mheap option" where
  "call_dtor d p h = (case d of
     D_free \<Rightarrow> do { _ \<leftarrow> mh_bufs h p; Some (h\<lparr>mh_bufs := (mh_bufs h)(p := None)\<rparr>) }
   | D_user k \<Rightarrow> Some (h\<lparr>mh_dtors := mh_dtors h @ [(k, p)]\<rparr>))"

definition ps_msg_free_value :: "addr \<Rightarrow> mheap \<Rightarrow> mheap option" where
  "ps_msg_free_value a h = do {
     m \<leftarrow> mh_msgs h a;
     (v, h) \<leftarrow>
       (if msg_typ m = PS_STR_TYP then do {
          _ \<leftarrow> rd_str (m_val m);
          Some (V_freed, h)
        } else if msg_typ m = PS_BUF_TYP then do {
          (p, sz, d) \<leftarrow> rd_buf (m_val m);
          (case d of
             Some d \<Rightarrow> if p \<noteq> NULL then do { h \<leftarrow> call_dtor d p h; Some (V_freed, h) }
                        else Some (m_val m, h)
           | None \<Rightarrow> Some (m_val m, h))
        } else if msg_typ m = PS_ERR_TYP then do {
          _ \<leftarrow> rd_err (m_val m);
          Some (V_freed, h)
        } else Some (m_val m, h));
     Some (put_msg a (m\<lparr>m_val := v, m_flags := (m_flags m AND NOT PS_MSK_VALUE) OR PS_NIL_TYP\<rparr>) h)
   }"

text \<open>The variadic arguments, with the type they were passed as; \<open>va_arg\<close> with another type faults.\<close>

datatype va =
    VA_int64 i64
  | VA_double dbl
  | VA_ptr addr
  | VA_str "string option"
  | VA_int i32
  | VA_size u64
  | VA_dtor "dtor option"

definition strdup :: "string option \<Rightarrow> string option" where
  "strdup s = s"

definition va_value :: "u32 \<Rightarrow> va list \<Rightarrow> mval \<Rightarrow> mval option" where
  "va_value t args v =
     (if t = PS_INT_TYP then (case args of VA_int64 i # _ \<Rightarrow> Some (V_int i) | _ \<Rightarrow> None)
      else if t = PS_DBL_TYP then (case args of VA_double d # _ \<Rightarrow> Some (V_dbl d) | _ \<Rightarrow> None)
      else if t = PS_PTR_TYP then (case args of VA_ptr p # _ \<Rightarrow> Some (V_ptr p) | _ \<Rightarrow> None)
      else if t = PS_STR_TYP then (case args of
         VA_str s # _ \<Rightarrow> do { s \<leftarrow> strdup s; Some (V_str (Some s)) } | _ \<Rightarrow> None)
      else if t = PS_BOOL_TYP then (case args of VA_int b # _ \<Rightarrow> Some (V_bool b) | _ \<Rightarrow> None)
      else if t = PS_BUF_TYP then (case args of
         VA_ptr p # VA_size sz # VA_dtor d # _ \<Rightarrow> Some (V_buf p sz d) | _ \<Rightarrow> None)
      else if t = PS_ERR_TYP then (case args of
         VA_int i # VA_str s # _ \<Rightarrow> do { s \<leftarrow> strdup s; Some (V_err i (Some s)) } | _ \<Rightarrow> None)
      else Some v)"

definition ps_msg_set_vvalue :: "addr \<Rightarrow> u32 \<Rightarrow> va list \<Rightarrow> mheap \<Rightarrow> mheap option" where
  "ps_msg_set_vvalue a flags args h = do {
     h \<leftarrow> ps_msg_free_value a h;
     m \<leftarrow> mh_msgs h a;
     let m = m\<lparr>m_flags := (m_flags m AND NOT PS_MSK_VALUE) OR (flags AND PS_MSK_VALUE)\<rparr>;
     v \<leftarrow> va_value (msg_typ m) args (m_val m);
     Some (put_msg a (m\<lparr>m_val := v\<rparr>) h)
   }"

section \<open>Creating, duplicating, changing\<close>

definition ps_new_msg :: "string option \<Rightarrow> u32 \<Rightarrow> va list \<Rightarrow> mheap \<Rightarrow> (addr \<times> mheap) option" where
  "ps_new_msg topic flags args h =
     (case topic of
        None \<Rightarrow> Some (NULL, h)
      | Some t \<Rightarrow> do {
          let a = mh_brk h;
          let h = put_msg a \<lparr>m_ref = 1, m_topic = Some t, m_rtopic = None, m_flags = flags,
                             m_priority = 0, m_val = V_zero\<rparr> (h\<lparr>mh_brk := a + 1\<rparr>);
          h \<leftarrow> ps_msg_set_vvalue a flags args h;
          Some (a, h\<lparr>mh_live := mh_live h + 1\<rparr>)
        })"

definition ps_dup_msg :: "addr \<Rightarrow> mheap \<Rightarrow> (addr \<times> mheap) option" where
  "ps_dup_msg a h = do {
     m \<leftarrow> mh_msgs h a;
     let a' = mh_brk h;
     let h = h\<lparr>mh_brk := a' + 1\<rparr>;
     (v, h) \<leftarrow>
       (if msg_typ m = PS_STR_TYP then do {
          s \<leftarrow> rd_str (m_val m);
          Some (V_str s, h)
        } else if msg_typ m = PS_BUF_TYP then do {
          (p, sz, d) \<leftarrow> rd_buf (m_val m);
          bs \<leftarrow> mh_bufs h p;
          guard_ok (unat sz \<le> length bs);
          let p' = mh_brk h;
          Some (V_buf p' sz (Some D_free),
                h\<lparr>mh_brk := p' + 1, mh_bufs := (mh_bufs h)(p' \<mapsto> take (unat sz) bs)\<rparr>)
        } else if msg_typ m = PS_ERR_TYP then do {
          (i, d) \<leftarrow> rd_err (m_val m);
          Some (V_err i d, h)
        } else Some (m_val m, h));
     Some (a', (put_msg a' (m\<lparr>m_ref := 1, m_val := v\<rparr>) h)\<lparr>mh_live := mh_live h + 1\<rparr>)
   }"

definition ps_msg_set_topic :: "addr \<Rightarrow> string option \<Rightarrow> mheap \<Rightarrow> mheap option" where
  "ps_msg_set_topic a topic h = do {
     m \<leftarrow> mh_msgs h a;
     Some (put_msg a (m\<lparr>m_topic := topic\<rparr>) h) }"

definition ps_msg_set_rtopic :: "addr \<Rightarrow> string option \<Rightarrow> mheap \<Rightarrow> mheap option" where
  "ps_msg_set_rtopic a rtopic h = do {
     m \<leftarrow> mh_msgs h a;
     Some (put_msg a (m\<lparr>m_rtopic := rtopic\<rparr>) h) }"

definition ps_msg_set_value :: "addr \<Rightarrow> u32 \<Rightarrow> va list \<Rightarrow> mheap \<Rightarrow> mheap option" where
  "ps_msg_set_value a flags args h = ps_msg_set_vvalue a flags args h"

definition ps_msg_set_value_int :: "addr \<Rightarrow> i64 \<Rightarrow> mheap \<Rightarrow> mheap option" where
  "ps_msg_set_value_int a v h = ps_msg_set_value a PS_INT_TYP [VA_int64 v] h"

definition ps_msg_set_value_double :: "addr \<Rightarrow> dbl \<Rightarrow> mheap \<Rightarrow> mheap option" where
  "ps_msg_set_value_double a v h = ps_msg_set_value a PS_DBL_TYP [VA_double v] h"

definition ps_msg_set_value_string :: "addr \<Rightarrow> string option \<Rightarrow> mheap \<Rightarrow> mheap option" where
  "ps_msg_set_value_string a v h = ps_msg_set_value a PS_STR_TYP [VA_str v] h"

definition ps_msg_set_value_boolean :: "addr \<Rightarrow> bool \<Rightarrow> mheap \<Rightarrow> mheap option" where
  "ps_msg_set_value_boolean a v h = ps_msg_set_value a PS_BOOL_TYP [VA_int (of_bool v)] h"

definition ps_msg_set_value_nil :: "addr \<Rightarrow> mheap \<Rightarrow> mheap option" where
  "ps_msg_set_value_nil a h = ps_msg_set_value a PS_NIL_TYP [] h"

definition ps_msg_set_value_buffer ::
    "addr \<Rightarrow> addr \<Rightarrow> u64 \<Rightarrow> dtor option \<Rightarrow> u32 \<Rightarrow> mheap \<Rightarrow> mheap option" where
  "ps_msg_set_value_buffer a buf sz dtor encoding h =
     ps_msg_set_value a (PS_BUF_TYP OR (encoding AND PS_MSK_ENC)) [VA_ptr buf, VA_size sz, VA_dtor dtor] h"

section \<open>Reading the value\<close>

definition ps_msg_value_int :: "addr \<Rightarrow> mheap \<Rightarrow> i64 option" where
  "ps_msg_value_int a h =
     (if a = NULL then Some 0 else do {
        m \<leftarrow> mh_msgs h a;
        if msg_typ m = PS_INT_TYP then rd_int (m_val m)
        else if msg_typ m = PS_DBL_TYP then do { d \<leftarrow> rd_dbl (m_val m); int64_of_dbl d }
        else if msg_typ m = PS_BOOL_TYP then do { b \<leftarrow> rd_bool (m_val m); Some (scast b) }
        else Some 0 })"

definition ps_msg_value_double :: "addr \<Rightarrow> mheap \<Rightarrow> dbl option" where
  "ps_msg_value_double a h =
     (if a = NULL then Some 0 else do {
        m \<leftarrow> mh_msgs h a;
        if msg_typ m = PS_INT_TYP then do { i \<leftarrow> rd_int (m_val m); Some (dbl_of_int64 i) }
        else if msg_typ m = PS_DBL_TYP then rd_dbl (m_val m)
        else if msg_typ m = PS_BOOL_TYP then do { b \<leftarrow> rd_bool (m_val m); Some (dbl_of_int64 (scast b)) }
        else Some 0 })"

definition ps_msg_value_bool :: "addr \<Rightarrow> mheap \<Rightarrow> bool option" where
  "ps_msg_value_bool a h =
     (if a = NULL then Some False else do {
        m \<leftarrow> mh_msgs h a;
        if msg_typ m = PS_INT_TYP then do { i \<leftarrow> rd_int (m_val m); Some (i \<noteq> 0) }
        else if msg_typ m = PS_DBL_TYP then do { d \<leftarrow> rd_dbl (m_val m); Some (dbl_nonzero d) }
        else if msg_typ m = PS_BOOL_TYP then do { b \<leftarrow> rd_bool (m_val m); Some (b \<noteq> 0) }
        else Some False })"

section \<open>Reference counting\<close>

definition ps_ref_msg :: "addr \<Rightarrow> mheap \<Rightarrow> mheap option" where
  "ps_ref_msg a h =
     (if a \<noteq> NULL then do {
        m \<leftarrow> mh_msgs h a;
        Some (put_msg a (m\<lparr>m_ref := m_ref m + 1\<rparr>) h)
      } else Some h)"

definition ps_unref_msg :: "addr \<Rightarrow> mheap \<Rightarrow> mheap option" where
  "ps_unref_msg a h =
     (if a = NULL then Some h else do {
        m \<leftarrow> mh_msgs h a;
        let m = m\<lparr>m_ref := m_ref m - 1\<rparr>;
        let h = put_msg a m h;
        if m_ref m = 0 then do {
          h \<leftarrow> ps_msg_free_value a h;
          Some (h\<lparr>mh_msgs := (mh_msgs h)(a := None), mh_live := mh_live h - 1\<rparr>)
        } else Some h })"

definition ps_stats_live_msg :: "mheap \<Rightarrow> int" where
  "ps_stats_live_msg h = sint (mh_live h)"

section \<open>Topic tests\<close>

definition ps_has_topic_prefix :: "addr \<Rightarrow> string \<Rightarrow> mheap \<Rightarrow> bool option" where
  "ps_has_topic_prefix a pre h =
     (if a = NULL then Some False else do {
        m \<leftarrow> mh_msgs h a; t \<leftarrow> m_topic m; Some (has_topic_prefix_str t pre) })"

definition ps_has_topic_suffix :: "addr \<Rightarrow> string \<Rightarrow> mheap \<Rightarrow> bool option" where
  "ps_has_topic_suffix a suf h =
     (if a = NULL then Some False else do {
        m \<leftarrow> mh_msgs h a; t \<leftarrow> m_topic m; Some (has_topic_suffix_str t suf) })"

definition ps_has_topic :: "addr \<Rightarrow> string \<Rightarrow> mheap \<Rightarrow> bool option" where
  "ps_has_topic a topic h =
     (if a = NULL then Some False else do {
        m \<leftarrow> mh_msgs h a; t \<leftarrow> m_topic m; Some (has_topic_str t topic) })"

section \<open>Lemmas: the flag word\<close>

lemma value_flags_typ:
  "((x AND NOT PS_MSK_VALUE) OR (f AND PS_MSK_VALUE)) AND PS_MSK_TYP = f AND PS_MSK_TYP"
  unfolding PS_MSK_VALUE_def by (rule bit_word_eqI) (auto simp: bit_simps)

lemma value_flags_keep:
  "((x AND NOT PS_MSK_VALUE) OR (f AND PS_MSK_VALUE)) AND NOT PS_MSK_VALUE = x AND NOT PS_MSK_VALUE"
  by (rule bit_word_eqI) (auto simp: bit_simps)

lemma value_flags_self: "(f AND NOT PS_MSK_VALUE) OR (f AND PS_MSK_VALUE) = f"
  by (rule bit_word_eqI) (auto simp: bit_simps)

lemma nil_in_value: "PS_NIL_TYP AND NOT PS_MSK_VALUE = 0"
  by (simp add: PS_NIL_TYP_def msk_defs)

lemma nil_flags_keep: "((x AND NOT PS_MSK_VALUE) OR PS_NIL_TYP) AND NOT PS_MSK_VALUE = x AND NOT PS_MSK_VALUE"
  using nil_in_value by (simp add: bit.conj_disj_distrib2 and.assoc)

lemma nil_flags_typ: "((x AND NOT PS_MSK_VALUE) OR PS_NIL_TYP) AND PS_MSK_TYP = PS_NIL_TYP"
proof -
  have "NOT PS_MSK_VALUE AND PS_MSK_TYP = 0" and "PS_NIL_TYP AND PS_MSK_TYP = PS_NIL_TYP"
    by (simp_all add: PS_NIL_TYP_def msk_defs)
  then show ?thesis by (simp add: bit.conj_disj_distrib2 and.assoc)
qed

lemma typ_masked:
  "PS_INT_TYP AND PS_MSK_TYP = PS_INT_TYP" "PS_DBL_TYP AND PS_MSK_TYP = PS_DBL_TYP"
  "PS_STR_TYP AND PS_MSK_TYP = PS_STR_TYP" "PS_BOOL_TYP AND PS_MSK_TYP = PS_BOOL_TYP"
  "PS_PTR_TYP AND PS_MSK_TYP = PS_PTR_TYP" "PS_BUF_TYP AND PS_MSK_TYP = PS_BUF_TYP"
  "PS_ERR_TYP AND PS_MSK_TYP = PS_ERR_TYP" "PS_NIL_TYP AND PS_MSK_TYP = PS_NIL_TYP"
  by (simp_all add: typ_defs msk_defs)

end
