(* ===== verification/Message_Ok.thy ===== *)
theory Message_Ok
  imports Message
begin

text \<open>
  The invariant of the message store and the proof that every operation of \<open>Message\<close> keeps it:
  the union member matches the type tag, each block that a message will \<open>free\<close> is allocated and
  has one owner, \<open>stat_live_msg\<close> counts the messages in the store, and the reference count of a
  message is the number of references \<open>n\<close> that exist. Under it no operation faults.
\<close>

unbundle bit_operations_syntax

section \<open>The store invariant\<close>

text \<open>The union member a message holds is one that its type tag may read.\<close>

definition tag_ok :: "u32 \<Rightarrow> mval \<Rightarrow> bool" where
  "tag_ok t v \<longleftrightarrow>
     (t = PS_INT_TYP \<longrightarrow> rd_int v \<noteq> None) \<and> (t = PS_DBL_TYP \<longrightarrow> rd_dbl v \<noteq> None) \<and>
     (t = PS_BOOL_TYP \<longrightarrow> rd_bool v \<noteq> None) \<and> (t = PS_STR_TYP \<longrightarrow> rd_str v \<noteq> None) \<and>
     (t = PS_BUF_TYP \<longrightarrow> rd_buf v \<noteq> None) \<and> (t = PS_ERR_TYP \<longrightarrow> rd_err v \<noteq> None)"

text \<open>The heap block that a message will release with \<open>free\<close>.\<close>

definition owned_buf :: "msg \<Rightarrow> addr option" where
  "owned_buf m =
     (if msg_typ m = PS_BUF_TYP then
        (case m_val m of V_buf p _ (Some D_free) \<Rightarrow> if p \<noteq> NULL then Some p else None | _ \<Rightarrow> None)
      else None)"

definition owns :: "mheap \<Rightarrow> addr \<Rightarrow> addr \<Rightarrow> bool" where
  "owns h a p \<longleftrightarrow> (\<exists>m. mh_msgs h a = Some m \<and> owned_buf m = Some p)"

definition bufs_ok :: "mheap \<Rightarrow> bool" where
  "bufs_ok h \<longleftrightarrow> (\<forall>a p. owns h a p \<longrightarrow> p \<in> dom (mh_bufs h)) \<and> (\<forall>a b p. owns h a p \<and> owns h b p \<longrightarrow> a = b)"

definition mheap_wf :: "mheap \<Rightarrow> bool" where
  "mheap_wf h \<longleftrightarrow>
     finite (dom (mh_msgs h)) \<and> 0 < mh_brk h \<and> NULL \<notin> dom (mh_msgs h) \<and>
     (\<forall>a \<in> dom (mh_msgs h) \<union> dom (mh_bufs h). a < mh_brk h) \<and>
     (\<forall>a m. mh_msgs h a = Some m \<longrightarrow> tag_ok (msg_typ m) (m_val m)) \<and>
     bufs_ok h"

text \<open>\<open>stat_live_msg\<close> is the number of messages in the store, modulo \<open>2 ^ 32\<close>.\<close>

definition mheap_ok :: "mheap \<Rightarrow> bool" where
  "mheap_ok h \<longleftrightarrow> mheap_wf h \<and> mh_live h = of_nat (card (dom (mh_msgs h)))"

text \<open>\<open>refs_match n h\<close>: the count of each message is \<open>n\<close>, and only messages with references live.\<close>

definition refs_match :: "(addr \<Rightarrow> nat) \<Rightarrow> mheap \<Rightarrow> bool" where
  "refs_match n h \<longleftrightarrow>
     (\<forall>a. 0 < n a \<longleftrightarrow> a \<in> dom (mh_msgs h)) \<and>
     (\<forall>a m. mh_msgs h a = Some m \<longrightarrow> unat (m_ref m) = n a)"

definition heap_ok :: "(addr \<Rightarrow> nat) \<Rightarrow> mheap \<Rightarrow> bool" where
  "heap_ok n h \<longleftrightarrow> mheap_ok h \<and> refs_match n h"

definition mheap_init :: mheap where
  "mheap_init = \<lparr>mh_msgs = Map.empty, mh_bufs = Map.empty, mh_brk = 1, mh_live = 0, mh_dtors = []\<rparr>"

lemma heap_ok_init: "heap_ok (\<lambda>_. 0) mheap_init"
  by (simp add: heap_ok_def mheap_ok_def mheap_wf_def refs_match_def bufs_ok_def owns_def mheap_init_def)

lemma heap_ok_D:
  assumes "heap_ok n h"
  shows "mheap_ok h" and "refs_match n h" and "n NULL = 0"
    and "\<And>a. 0 < n a \<longleftrightarrow> (\<exists>m. mh_msgs h a = Some m)"
    and "\<And>a m. mh_msgs h a = Some m \<Longrightarrow> unat (m_ref m) = n a"
  using assms unfolding heap_ok_def refs_match_def mheap_ok_def mheap_wf_def by auto

lemma heap_ok_live: "heap_ok n h \<Longrightarrow> 0 < n a \<Longrightarrow> \<exists>m. mh_msgs h a = Some m \<and> a \<noteq> NULL \<and> unat (m_ref m) = n a"
  using heap_ok_D [of n h] by (metis less_irrefl)

lemma owns_put [simp]:
  "owns (put_msg a m h) b p \<longleftrightarrow> (if b = a then owned_buf m = Some p else owns h b p)"
  by (auto simp: owns_def)

lemma mheap_wf_D: "mheap_wf h \<Longrightarrow> mh_msgs h a = Some m \<Longrightarrow> a \<noteq> NULL \<and> a < mh_brk h"
  unfolding mheap_wf_def by auto

lemma mheap_wf_tag: "mheap_wf h \<Longrightarrow> mh_msgs h a = Some m \<Longrightarrow> tag_ok (msg_typ m) (m_val m)"
  by (simp add: mheap_wf_def)

lemma mheap_wf_owned: "mheap_wf h \<Longrightarrow> mh_msgs h a = Some m \<Longrightarrow> owned_buf m = Some p \<Longrightarrow> p \<in> dom (mh_bufs h)"
  unfolding mheap_wf_def bufs_ok_def owns_def by blast

text \<open>Changing the count alone keeps everything but the counts.\<close>

lemma mheap_ok_put_same:
  assumes "mheap_ok h" and "mh_msgs h a = Some m"
    and "m_flags m' = m_flags m" and "m_val m' = m_val m"
  shows "mheap_ok (put_msg a m' h)"
proof -
  have "owned_buf m' = owned_buf m" "msg_typ m' = msg_typ m"
    using assms(3,4) by (simp_all add: owned_buf_def msg_typ_def)
  then have "owns (put_msg a m' h) = owns h" using assms(2) by (auto simp: fun_eq_iff owns_def)
  then have "bufs_ok (put_msg a m' h)" using assms(1) by (simp add: mheap_ok_def mheap_wf_def bufs_ok_def)
  moreover have "dom (mh_msgs (put_msg a m' h)) = dom (mh_msgs h)" using assms(2) by auto
  ultimately show ?thesis
    using assms \<open>msg_typ m' = msg_typ m\<close> unfolding mheap_ok_def mheap_wf_def by (auto split: if_splits)
qed

lemma refs_match_put:
  "refs_match n h \<Longrightarrow> 0 < k \<Longrightarrow> unat (m_ref m) = k \<Longrightarrow> refs_match (n(a := k)) (put_msg a m h)"
  by (simp add: refs_match_def)

lemma refs_match_remove:
  "refs_match n h \<Longrightarrow> mh_msgs h' = (mh_msgs h)(a := None) \<Longrightarrow> refs_match (n(a := 0)) h'"
  by (simp add: refs_match_def)

lemma ps_ref_msg_ok:
  assumes "heap_ok n h" and "0 < n a" and "n a + 1 < 2 ^ 32"
  shows "\<exists>m h'. mh_msgs h a = Some m \<and> ps_ref_msg a h = Some h' \<and> h' = put_msg a (m\<lparr>m_ref := m_ref m + 1\<rparr>) h
      \<and> heap_ok (n(a := n a + 1)) h'"
proof -
  obtain m where m: "mh_msgs h a = Some m" "a \<noteq> NULL" "unat (m_ref m) = n a"
    using heap_ok_live [OF assms(1,2)] by blast
  let ?h = "put_msg a (m\<lparr>m_ref := m_ref m + 1\<rparr>) h"
  have "mheap_ok ?h"
    using assms(1) m(1) by (intro mheap_ok_put_same) (auto simp: heap_ok_def)
  moreover have "unat (m_ref m + 1) = n a + 1"
    using m(3) assms(3) by (simp add: unat_inc32)
  then have "refs_match (n(a := n a + 1)) ?h"
    using assms(1) by (auto simp: heap_ok_def intro: refs_match_put)
  ultimately show ?thesis using m by (auto simp: ps_ref_msg_def heap_ok_def)
qed

text \<open>What releasing the value does: the tag becomes nil, and an owned block is given back.\<close>

definition release_buf :: "msg \<Rightarrow> (addr \<rightharpoonup> u8 list) \<Rightarrow> (addr \<rightharpoonup> u8 list)" where
  "release_buf m b = (case owned_buf m of None \<Rightarrow> b | Some p \<Rightarrow> b(p := None))"

lemma ex_same_val [simp]:
  "\<exists>v. f(a \<mapsto> m\<lparr>m_flags := x\<rparr>) = f(a \<mapsto> m\<lparr>m_val := v, m_flags := x\<rparr>)"
  by (rule exI [of _ "m_val m"]) simp

lemma ps_msg_free_value_run:
  assumes "mh_msgs h a = Some m" and "tag_ok (msg_typ m) (m_val m)"
    and "\<And>p. owned_buf m = Some p \<Longrightarrow> p \<in> dom (mh_bufs h)"
  shows "\<exists>v h'. ps_msg_free_value a h = Some h'
      \<and> mh_msgs h' = (mh_msgs h)(a \<mapsto> m\<lparr>m_val := v, m_flags := (m_flags m AND NOT PS_MSK_VALUE) OR PS_NIL_TYP\<rparr>)
      \<and> mh_bufs h' = release_buf m (mh_bufs h)
      \<and> mh_brk h' = mh_brk h \<and> mh_live h' = mh_live h
      \<and> (\<exists>l. mh_dtors h' = mh_dtors h @ l)"
proof -
  consider (str) "msg_typ m = PS_STR_TYP" | (buf) "msg_typ m = PS_BUF_TYP" | (err) "msg_typ m = PS_ERR_TYP"
    | (other) "msg_typ m \<noteq> PS_STR_TYP" "msg_typ m \<noteq> PS_BUF_TYP" "msg_typ m \<noteq> PS_ERR_TYP" by blast
  then show ?thesis
  proof cases
    case str
    with assms show ?thesis
      by (auto simp: ps_msg_free_value_def tag_ok_def release_buf_def owned_buf_def typ_defs)
  next
    case err
    with assms show ?thesis
      by (auto simp: ps_msg_free_value_def tag_ok_def release_buf_def owned_buf_def typ_defs)
  next
    case other
    with assms show ?thesis
      by (auto simp: ps_msg_free_value_def release_buf_def owned_buf_def intro!: exI [of _ "m_val m"])
  next
    case buf
    with assms(2) obtain p sz d where v: "rd_buf (m_val m) = Some (p, sz, d)"
      by (auto simp: tag_ok_def)
    then have mv: "m_val m = V_zero \<and> p = NULL \<and> d = None \<or> m_val m = V_buf p sz d"
      by (cases "m_val m") auto
    show ?thesis
      using assms(1,3) buf v mv
      by (cases d; cases "p = NULL"; cases "the d")
        (auto simp: ps_msg_free_value_def call_dtor_def owned_buf_def release_buf_def typ_defs)
  qed
qed

text \<open>When a message gives up its block, the other messages still own theirs.\<close>

lemma bufs_ok_release:
  assumes "mheap_wf h" and m: "mh_msgs h a = Some m"
    and owns': "\<And>b p. owns h' b p \<longleftrightarrow> b \<noteq> a \<and> owns h b p"
    and bufs': "mh_bufs h' = release_buf m (mh_bufs h)"
  shows "bufs_ok h'" and "dom (mh_bufs h') \<subseteq> dom (mh_bufs h)"
proof -
  have own: "owns h a p" if "owned_buf m = Some p" for p
    using m that by (auto simp: owns_def)
  have live: "\<And>b p. owns h b p \<Longrightarrow> p \<in> dom (mh_bufs h)"
    and uniq: "\<And>b c p. owns h b p \<Longrightarrow> owns h c p \<Longrightarrow> b = c"
    using assms(1) unfolding mheap_wf_def bufs_ok_def by blast+
  have "p \<in> dom (mh_bufs h')" if "owns h' b p" for b p
    using that live [of b p] own uniq [of b p a]
    by (auto simp: owns' bufs' release_buf_def split: option.splits)
  then show "bufs_ok h'" using uniq unfolding bufs_ok_def owns' by blast
  show "dom (mh_bufs h') \<subseteq> dom (mh_bufs h)"
    by (auto simp: bufs' release_buf_def split: option.splits if_splits)
qed

lemma mheap_ok_remove:
  assumes "mheap_ok h" and m: "mh_msgs h a = Some m"
    and h': "mh_msgs h' = (mh_msgs h)(a := None)" "mh_bufs h' = release_buf m (mh_bufs h)"
      "mh_brk h' = mh_brk h" "mh_live h' = mh_live h - 1"
  shows "mheap_ok h'"
proof -
  have owns': "owns h' b p \<longleftrightarrow> b \<noteq> a \<and> owns h b p" for b p
    by (auto simp: owns_def h')
  have wf: "mheap_wf h" using assms(1) by (simp add: mheap_ok_def)
  note rel = bufs_ok_release [OF wf m owns' h'(2)]
  have "0 < card (dom (mh_msgs h))"
    using assms(1) m by (auto simp: mheap_ok_def mheap_wf_def card_gt_0_iff)
  then have "mh_live h' = of_nat (card (dom (mh_msgs h')))"
    using assms(1) m by (simp add: h' mheap_ok_def mheap_wf_def card_Diff_singleton of_nat_diff domIff)
  then show ?thesis
    using assms(1) rel unfolding mheap_ok_def mheap_wf_def by (auto simp: h' split: if_splits)
qed

lemma mheap_wf_retag:
  assumes "mheap_wf h" and m: "mh_msgs h a = Some m"
    and h': "mh_msgs h' = (mh_msgs h)(a \<mapsto> m')" "mh_bufs h' = release_buf m (mh_bufs h)"
      "mh_brk h' = mh_brk h"
    and m': "owned_buf m' = None" "tag_ok (msg_typ m') (m_val m')"
  shows "mheap_wf h'"
proof -
  have "owns h' b p \<longleftrightarrow> b \<noteq> a \<and> owns h b p" for b p
    using m' by (auto simp: owns_def h')
  note rel = bufs_ok_release [OF assms(1,2) this h'(2)]
  have dom: "dom (mh_msgs h') = dom (mh_msgs h)" using m by (auto simp: h')
  have "tag_ok (msg_typ x) (m_val x)" if "mh_msgs h' b = Some x" for b x
    using that m' assms(1) by (auto simp: h' mheap_wf_def split: if_splits)
  then show ?thesis
    using assms(1) rel unfolding mheap_wf_def dom h'(3) by blast
qed

text \<open>Storing a message that may own a fresh block.\<close>

lemma mheap_wf_store:
  assumes "mheap_wf h" and a: "a \<noteq> NULL" "a < mh_brk h" and "tag_ok (msg_typ m') (m_val m')"
    and "\<And>p. owned_buf m' = Some p \<Longrightarrow> p \<in> dom (mh_bufs h) \<and> (\<forall>b. b \<noteq> a \<longrightarrow> \<not> owns h b p)"
  shows "mheap_wf (put_msg a m' h)"
proof -
  have live: "\<And>b p. owns h b p \<Longrightarrow> p \<in> dom (mh_bufs h)"
    and uniq: "\<And>b c p. owns h b p \<Longrightarrow> owns h c p \<Longrightarrow> b = c"
    using assms(1) unfolding mheap_wf_def bufs_ok_def by blast+
  have "b = c" if "owns (put_msg a m' h) b p" "owns (put_msg a m' h) c p" for b c p
    using that assms(5) uniq unfolding owns_put by metis
  moreover have "p \<in> dom (mh_bufs h)" if o: "owns (put_msg a m' h) b p" for b p
  proof (cases "b = a")
    case True
    with o have "owned_buf m' = Some p" by simp
    from assms(5) [OF this] show ?thesis by (rule conjunct1)
  next
    case False
    with o have "owns h b p" by simp
    then show ?thesis by (rule live)
  qed
  ultimately have "bufs_ok (put_msg a m' h)"
    unfolding bufs_ok_def by (intro conjI allI impI) (auto simp del: owns_put)
  then show ?thesis
    using assms(1-4) unfolding mheap_wf_def by (auto split: if_splits)
qed

lemma ps_unref_msg_ok:
  assumes "heap_ok n h" and "0 < n a"
  shows "\<exists>m h'. mh_msgs h a = Some m \<and> ps_unref_msg a h = Some h' \<and> heap_ok (n(a := n a - 1)) h'
      \<and> mh_msgs h' = (if n a = 1 then (mh_msgs h)(a := None)
                     else (mh_msgs h)(a \<mapsto> m\<lparr>m_ref := m_ref m - 1\<rparr>))
      \<and> mh_bufs h' = (if n a = 1 then release_buf m (mh_bufs h) else mh_bufs h)
      \<and> mh_brk h' = mh_brk h"
proof -
  obtain m where m: "mh_msgs h a = Some m" "a \<noteq> NULL" "unat (m_ref m) = n a"
    using heap_ok_live [OF assms] by blast
  have ok: "mheap_ok h" "refs_match n h" using assms(1) by (simp_all add: heap_ok_def)
  then have wf: "mheap_wf h" by (simp add: mheap_ok_def)
  let ?m = "m\<lparr>m_ref := m_ref m - 1\<rparr>"
  let ?h = "put_msg a ?m h"
  have h: "mheap_ok ?h" using ok(1) m(1) by (intro mheap_ok_put_same) auto
  show ?thesis
  proof (cases "n a = 1")
    case False
    then have gt: "1 < n a" using assms(2) by simp
    then have "unat (m_ref m - 1) = n a - 1" and "m_ref m - 1 \<noteq> 0"
      using m(3) unat_dec32 [of "m_ref m"] dec32_eq_0 [of "m_ref m"] by auto
    moreover have "refs_match (n(a := n a - 1)) ?h"
      by (rule refs_match_put [OF ok(2)]) (use gt calculation(1) in simp_all)
    ultimately show ?thesis using m False h by (simp add: ps_unref_msg_def heap_ok_def Let_def)
  next
    case True
    then have z: "m_ref m - 1 = 0" using m(3) dec32_eq_0 [of "m_ref m"] by simp
    have same: "owned_buf ?m = owned_buf m" "release_buf ?m = release_buf m"
      by (simp_all add: owned_buf_def msg_typ_def release_buf_def fun_eq_iff)
    have "tag_ok (msg_typ ?m) (m_val ?m)" "owned_buf ?m = Some p \<Longrightarrow> p \<in> dom (mh_bufs ?h)" for p
      using mheap_wf_tag [OF wf m(1)] mheap_wf_owned [OF wf m(1), of p]
      unfolding same by (simp_all add: msg_typ_def)
    then obtain v h1 where h1: "ps_msg_free_value a ?h = Some h1"
      "mh_msgs h1 = (mh_msgs ?h)(a \<mapsto> ?m\<lparr>m_val := v, m_flags := (m_flags ?m AND NOT PS_MSK_VALUE) OR PS_NIL_TYP\<rparr>)"
      "mh_bufs h1 = release_buf m (mh_bufs h)" "mh_brk h1 = mh_brk h" "mh_live h1 = mh_live h"
      using ps_msg_free_value_run [of ?h a ?m] unfolding same by auto
    let ?h' = "h1\<lparr>mh_msgs := (mh_msgs h1)(a := None), mh_live := mh_live h1 - 1\<rparr>"
    have "mheap_ok ?h'"
      using h1 by (intro mheap_ok_remove [OF ok(1) m(1)]) auto
    moreover have "refs_match (n(a := n a - 1)) ?h'"
      using refs_match_remove [OF ok(2), of ?h' a] True h1 by simp
    ultimately show ?thesis
      using m True z h1 by (simp add: ps_unref_msg_def heap_ok_def Let_def)
  qed
qed

section \<open>Storing a value\<close>

text \<open>What the variadic arguments must provide: the right types, and an unowned block for \<open>free\<close>.\<close>

definition va_ok :: "u32 \<Rightarrow> va list \<Rightarrow> mheap \<Rightarrow> bool" where
  "va_ok t args h \<longleftrightarrow>
     (\<exists>v. va_value t args V_zero = Some v \<and>
        (\<forall>p sz. v = V_buf p sz (Some D_free) \<and> p \<noteq> NULL \<longrightarrow>
           p \<in> dom (mh_bufs h) \<and> (\<forall>b. \<not> owns h b p)))"

definition value_typs :: "u32 set" where
  "value_typs = {PS_INT_TYP, PS_DBL_TYP, PS_PTR_TYP, PS_STR_TYP, PS_BOOL_TYP, PS_BUF_TYP, PS_ERR_TYP}"

lemma va_value_known: "t \<in> value_typs \<Longrightarrow> va_value t args v = va_value t args w"
  unfolding value_typs_def by (elim insertE) (simp_all add: va_value_def)

lemma va_value_unknown: "t \<notin> value_typs \<Longrightarrow> va_value t args v = Some v"
  by (simp add: value_typs_def va_value_def)

lemma va_value_idem: "va_value t args v = Some w \<Longrightarrow> va_value t args w = Some w"
  using va_value_known [of t args w v] va_value_unknown [of t args] by (cases "t \<in> value_typs") auto

lemma tag_ok_unknown: "t \<notin> value_typs \<Longrightarrow> tag_ok t v"
  by (simp add: value_typs_def tag_ok_def)

lemma va_value_tag_ok: "va_value t args v = Some v' \<Longrightarrow> tag_ok t v'"
proof (cases "t \<in> value_typs")
  case True
  assume "va_value t args v = Some v'"
  with True show ?thesis
    unfolding value_typs_def
    by (elim insertE; clarsimp simp: va_value_def tag_ok_def typ_defs strdup_def bind_Some_iff
        split: list.splits va.splits)
qed (rule tag_ok_unknown)

lemma ps_msg_set_vvalue_ok:
  assumes "mheap_wf h" and m: "mh_msgs h a = Some m" and "va_ok (f AND PS_MSK_TYP) args h"
  shows "\<exists>v h'. ps_msg_set_vvalue a f args h = Some h'
      \<and> mh_msgs h' = (mh_msgs h)(a \<mapsto> m\<lparr>m_flags := (m_flags m AND NOT PS_MSK_VALUE) OR (f AND PS_MSK_VALUE), m_val := v\<rparr>)
      \<and> va_value (f AND PS_MSK_TYP) args v = Some v
      \<and> mheap_wf h' \<and> mh_brk h' = mh_brk h \<and> mh_live h' = mh_live h"
proof -
  obtain v1 h1 where h1: "ps_msg_free_value a h = Some h1"
    "mh_msgs h1 = (mh_msgs h)(a \<mapsto> m\<lparr>m_val := v1, m_flags := (m_flags m AND NOT PS_MSK_VALUE) OR PS_NIL_TYP\<rparr>)"
    "mh_bufs h1 = release_buf m (mh_bufs h)" "mh_brk h1 = mh_brk h" "mh_live h1 = mh_live h"
    using ps_msg_free_value_run [OF m mheap_wf_tag [OF assms(1) m] mheap_wf_owned [OF assms(1) m]] by auto
  let ?m1 = "m\<lparr>m_val := v1, m_flags := (m_flags m AND NOT PS_MSK_VALUE) OR PS_NIL_TYP\<rparr>"
  have nil: "msg_typ ?m1 = PS_NIL_TYP" by (simp add: msg_typ_def nil_flags_typ)
  have own1: "owned_buf ?m1 = None" unfolding owned_buf_def nil by (simp add: typ_defs)
  have "tag_ok (msg_typ ?m1) (m_val ?m1)"
    unfolding nil by (rule tag_ok_unknown) (simp add: value_typs_def typ_defs)
  note ok1 = mheap_wf_retag [OF assms(1) m h1(2-4) own1 this]
  obtain v where v: "va_value (f AND PS_MSK_TYP) args v1 = Some v"
    using assms(3) va_value_known [of "f AND PS_MSK_TYP" args v1 V_zero]
      va_value_unknown [of "f AND PS_MSK_TYP" args v1]
    by (cases "f AND PS_MSK_TYP \<in> value_typs") (auto simp: va_ok_def)
  note vv = va_value_idem [OF v]
  let ?m2 = "m\<lparr>m_flags := (m_flags m AND NOT PS_MSK_VALUE) OR (f AND PS_MSK_VALUE), m_val := v\<rparr>"
  have flags2: "(m_flags ?m1 AND NOT PS_MSK_VALUE) OR (f AND PS_MSK_VALUE) = m_flags ?m2"
    by (simp add: nil_flags_keep)
  have typ2: "msg_typ ?m2 = f AND PS_MSK_TYP" by (simp add: msg_typ_def value_flags_typ)
  have run: "ps_msg_set_vvalue a f args h = Some (put_msg a ?m2 h1)"
    using h1 v flags2 typ2 by (simp add: ps_msg_set_vvalue_def Let_def msg_typ_def)
  have own2: "p \<in> dom (mh_bufs h1) \<and> (\<forall>b. b \<noteq> a \<longrightarrow> \<not> owns h1 b p)" if p: "owned_buf ?m2 = Some p" for p
  proof -
    from p obtain sz where "f AND PS_MSK_TYP = PS_BUF_TYP" "v = V_buf p sz (Some D_free)" "p \<noteq> NULL"
      unfolding owned_buf_def typ2 by (auto split: if_splits mval.splits option.splits dtor.splits)
    moreover from this have "va_value (f AND PS_MSK_TYP) args V_zero = Some v"
      using v va_value_known [of PS_BUF_TYP args V_zero v1] by (simp add: value_typs_def)
    ultimately have "p \<in> dom (mh_bufs h)" and no: "\<not> owns h b p" for b
      using assms(3) by (auto simp: va_ok_def)
    moreover have "owned_buf m \<noteq> Some p" using no [of a] m by (auto simp: owns_def)
    ultimately have "p \<in> dom (mh_bufs h1)"
      by (auto simp: h1 release_buf_def split: option.splits)
    moreover have "\<not> owns h1 b p" if "b \<noteq> a" for b using no [of b] that by (auto simp: owns_def h1)
    ultimately show ?thesis by blast
  qed
  have "mheap_wf (put_msg a ?m2 h1)"
    using own2 va_value_tag_ok [OF v] mheap_wf_D [OF assms(1) m]
    by (intro mheap_wf_store [OF ok1]) (simp_all add: h1 typ2)
  then show ?thesis using run h1 v vv by auto
qed

section \<open>Creating and duplicating\<close>

lemma mheap_wf_fresh: "mheap_wf h \<Longrightarrow> mh_msgs h (mh_brk h) = None \<and> mh_bufs h (mh_brk h) = None \<and> mh_brk h \<noteq> NULL"
  unfolding mheap_wf_def by (metis Un_iff domIff less_irrefl)

lemma mheap_wf_skip:
  assumes "mheap_wf h"
  shows "mheap_wf (h\<lparr>mh_brk := mh_brk h + 1\<rparr>)"
proof -
  have "owns (h\<lparr>mh_brk := mh_brk h + 1\<rparr>) = owns h" by (simp add: owns_def fun_eq_iff)
  then show ?thesis using assms by (auto simp: mheap_wf_def bufs_ok_def less_Suc_eq)
qed

lemma mheap_wf_new:
  assumes "mheap_wf h" and "owned_buf m = None" and "tag_ok (msg_typ m) (m_val m)"
  shows "mheap_wf (put_msg (mh_brk h) m (h\<lparr>mh_brk := mh_brk h + 1\<rparr>))"
  using mheap_wf_fresh [OF assms(1)] assms(2,3)
  by (intro mheap_wf_store [OF mheap_wf_skip [OF assms(1)]]) simp_all

lemma mheap_wf_malloc:
  assumes "mheap_wf h"
  shows "mheap_wf (h\<lparr>mh_brk := mh_brk h + 1, mh_bufs := (mh_bufs h)(mh_brk h \<mapsto> bs)\<rparr>)"
proof -
  let ?h = "h\<lparr>mh_brk := mh_brk h + 1, mh_bufs := (mh_bufs h)(mh_brk h \<mapsto> bs)\<rparr>"
  have "owns ?h = owns h" by (simp add: owns_def fun_eq_iff)
  then have "bufs_ok ?h" using assms by (auto simp: mheap_wf_def bufs_ok_def)
  then show ?thesis using assms unfolding mheap_wf_def by (auto simp: less_Suc_eq split: if_splits)
qed

lemma refs_match_new:
  "refs_match n h \<Longrightarrow> mh_msgs h' = (mh_msgs h)(a \<mapsto> m) \<Longrightarrow> m_ref m = 1 \<Longrightarrow> refs_match (n(a := 1)) h'"
  by (simp add: refs_match_def)

text \<open>Counting one more message.\<close>

lemma heap_ok_count:
  assumes "mheap_wf h1" and "heap_ok n h" and "mh_msgs h1 = (mh_msgs h)(a \<mapsto> m)" and "mh_msgs h a = None"
    and "mh_live h1 = mh_live h" and "m_ref m = 1"
  shows "heap_ok (n(a := 1)) (h1\<lparr>mh_live := mh_live h1 + 1\<rparr>)" (is "heap_ok _ ?h")
proof -
  have "owns ?h = owns h1" by (simp add: owns_def fun_eq_iff)
  then have "mheap_wf ?h" using assms(1) by (simp add: mheap_wf_def bufs_ok_def)
  moreover have "mh_live ?h = of_nat (card (dom (mh_msgs ?h)))"
    using assms(2,3,4,5) by (simp add: heap_ok_def mheap_ok_def mheap_wf_def card_insert_if domIff)
  moreover have "refs_match (n(a := 1)) ?h"
    using assms(2,3,6) by (intro refs_match_new [of n h]) (simp_all add: heap_ok_def)
  ultimately show ?thesis by (simp add: heap_ok_def mheap_ok_def)
qed

lemma ps_new_msg_ok:
  assumes "heap_ok n h" and "va_ok (f AND PS_MSK_TYP) args h"
  shows "\<exists>v h'. ps_new_msg (Some t) f args h = Some (mh_brk h, h')
      \<and> mh_msgs h' = (mh_msgs h)(mh_brk h \<mapsto> \<lparr>m_ref = 1, m_topic = Some t, m_rtopic = None, m_flags = f,
                                       m_priority = 0, m_val = v\<rparr>)
      \<and> va_value (f AND PS_MSK_TYP) args v = Some v
      \<and> heap_ok (n(mh_brk h := 1)) h' \<and> mh_brk h' = mh_brk h + 1"
proof -
  have wf: "mheap_wf h" using assms(1) by (simp add: heap_ok_def mheap_ok_def)
  let ?a = "mh_brk h"
  let ?m0 = "\<lparr>m_ref = 1, m_topic = Some t, m_rtopic = None, m_flags = f, m_priority = 0, m_val = V_zero\<rparr>"
  let ?h0 = "put_msg ?a ?m0 (h\<lparr>mh_brk := ?a + 1\<rparr>)"
  have own0: "owned_buf ?m0 = None" by (simp add: owned_buf_def)
  have wf0: "mheap_wf ?h0" by (rule mheap_wf_new [OF wf own0]) (simp add: tag_ok_def)
  have "\<not> owns ?h0 b p" if "\<not> owns h b p" for b p
    using that own0 by (auto simp: owns_def split: if_splits)
  then have "va_ok (f AND PS_MSK_TYP) args ?h0" using assms(2) unfolding va_ok_def by auto
  then obtain v h1 where h1: "ps_msg_set_vvalue ?a f args ?h0 = Some h1"
    "mh_msgs h1 = (mh_msgs ?h0)(?a \<mapsto> ?m0\<lparr>m_flags := (m_flags ?m0 AND NOT PS_MSK_VALUE) OR (f AND PS_MSK_VALUE), m_val := v\<rparr>)"
    "va_value (f AND PS_MSK_TYP) args v = Some v" "mheap_wf h1" "mh_brk h1 = ?a + 1" "mh_live h1 = mh_live h"
    using ps_msg_set_vvalue_ok [OF wf0, of ?a ?m0 f args] by auto
  have msgs: "mh_msgs h1 = (mh_msgs h)(?a \<mapsto> \<lparr>m_ref = 1, m_topic = Some t, m_rtopic = None, m_flags = f,
                                       m_priority = 0, m_val = v\<rparr>)"
    using h1(2) by (simp add: value_flags_self)
  have "heap_ok (n(?a := 1)) (h1\<lparr>mh_live := mh_live h1 + 1\<rparr>)"
    using mheap_wf_fresh [OF wf] by (intro heap_ok_count [OF h1(4) assms(1) msgs]) (simp_all add: h1)
  then show ?thesis using h1(1,3,5,6) msgs by (auto simp: ps_new_msg_def Let_def)
qed

lemma ps_dup_msg_ok:
  assumes ok: "heap_ok n h" and m: "mh_msgs h a = Some m"
    and buf: "msg_typ m = PS_BUF_TYP \<Longrightarrow>
       \<exists>p sz d bs. m_val m = V_buf p sz d \<and> mh_bufs h p = Some bs \<and> unat sz \<le> length bs"
  shows "\<exists>v h'. ps_dup_msg a h = Some (mh_brk h, h')
      \<and> mh_msgs h' = (mh_msgs h)(mh_brk h \<mapsto> m\<lparr>m_ref := 1, m_val := v\<rparr>)
      \<and> heap_ok (n(mh_brk h := 1)) h'
      \<and> (msg_typ m = PS_STR_TYP \<longrightarrow> rd_str v = rd_str (m_val m))
      \<and> (msg_typ m = PS_ERR_TYP \<longrightarrow> rd_err v = rd_err (m_val m))
      \<and> (msg_typ m = PS_BUF_TYP \<longrightarrow> (\<exists>p sz d bs p'. m_val m = V_buf p sz d \<and> mh_bufs h p = Some bs
           \<and> v = V_buf p' sz (Some D_free) \<and> p' \<noteq> p \<and> mh_bufs h' = (mh_bufs h)(p' \<mapsto> take (unat sz) bs)))
      \<and> (msg_typ m \<notin> {PS_STR_TYP, PS_ERR_TYP, PS_BUF_TYP} \<longrightarrow> v = m_val m)"
proof -
  have wf: "mheap_wf h" using ok by (simp add: heap_ok_def mheap_ok_def)
  let ?a = "mh_brk h" and ?h1 = "h\<lparr>mh_brk := mh_brk h + 1\<rparr>"
  have wf1: "mheap_wf ?h1" by (rule mheap_wf_skip [OF wf])
  note fresh = mheap_wf_fresh [OF wf] and fresh1 = mheap_wf_fresh [OF wf1]
  note tag = mheap_wf_tag [OF wf m]
  have finish: "heap_ok (n(?a := 1)) ((put_msg ?a m' g)\<lparr>mh_live := mh_live (put_msg ?a m' g) + 1\<rparr>)"
    if "mheap_wf (put_msg ?a m' g)" "mh_msgs g = mh_msgs h" "mh_live g = mh_live h" "m_ref m' = 1" for m' g
    using that fresh by (intro heap_ok_count [OF that(1) ok]) simp_all
  show ?thesis
  proof (cases "msg_typ m = PS_BUF_TYP")
    case False
    define v where "v = (if msg_typ m = PS_STR_TYP then V_str (the (rd_str (m_val m)))
       else if msg_typ m = PS_ERR_TYP then case_prod V_err (the (rd_err (m_val m))) else m_val m)"
    let ?m = "m\<lparr>m_ref := 1, m_val := v\<rparr>"
    have ty: "msg_typ ?m = msg_typ m" by (simp add: msg_typ_def)
    have own: "owned_buf ?m = None" using False ty by (simp add: owned_buf_def)
    have "tag_ok (msg_typ m) v"
      using tag False by (auto simp: v_def tag_ok_def typ_defs)
    then have "mheap_wf (put_msg ?a ?m ?h1)"
      using mheap_wf_new [OF wf own] ty by simp
    note fin = finish [OF this]
    have run: "ps_dup_msg a h = Some (?a, (put_msg ?a ?m ?h1)\<lparr>mh_live := mh_live h + 1\<rparr>)"
      using m False tag by (auto simp: ps_dup_msg_def Let_def v_def tag_ok_def typ_defs)
    show ?thesis
      using run fin False tag by (auto simp: v_def tag_ok_def typ_defs)
  next
    case True
    then obtain p sz d bs where b: "m_val m = V_buf p sz d" "mh_bufs h p = Some bs" "unat sz \<le> length bs"
      using buf by blast
    let ?p = "mh_brk h + 1"
    let ?h2 = "h\<lparr>mh_brk := ?p + 1, mh_bufs := (mh_bufs h)(?p \<mapsto> take (unat sz) bs)\<rparr>"
    let ?m = "m\<lparr>m_ref := 1, m_val := V_buf ?p sz (Some D_free)\<rparr>"
    have wf2: "mheap_wf ?h2" using mheap_wf_malloc [OF wf1] by simp
    have ty: "msg_typ ?m = PS_BUF_TYP" using True by (simp add: msg_typ_def)
    have own: "owned_buf ?m = Some ?p" using ty by (simp add: owned_buf_def)
    have "\<not> owns ?h2 c ?p" for c
    proof
      assume "owns ?h2 c ?p"
      then have "owns h c ?p" by (simp add: owns_def)
      then have "?p \<in> dom (mh_bufs h)" using wf unfolding mheap_wf_def bufs_ok_def by blast
      then show False using fresh1 by (simp add: domIff)
    qed
    then have "mheap_wf (put_msg ?a ?m ?h2)"
      using fresh own ty by (intro mheap_wf_store [OF wf2]) (auto simp: tag_ok_def typ_defs)
    note fin = finish [OF this]
    have run: "ps_dup_msg a h = Some (?a, (put_msg ?a ?m ?h2)\<lparr>mh_live := mh_live h + 1\<rparr>)"
      using m True b by (simp add: ps_dup_msg_def Let_def typ_defs)
    have "p \<noteq> ?p" using b fresh1 by auto
    then show ?thesis
      using run fin True b by (auto simp: typ_defs)
  qed
qed

text \<open>An integer message, as \<open>PS_PUB_INT_FL\<close> and \<open>PS_CALL_INT\<close> make it.\<close>

lemma new_int_msg:
  assumes "heap_ok n h" and "f AND PS_MSK_TYP = PS_INT_TYP"
  obtains h' where "ps_new_msg (Some t) f [VA_int64 i] h = Some (mh_brk h, h')"
    and "mh_msgs h' = (mh_msgs h)(mh_brk h \<mapsto> \<lparr>m_ref = 1, m_topic = Some t, m_rtopic = None, m_flags = f,
                                       m_priority = 0, m_val = V_int i\<rparr>)"
    and "heap_ok (n(mh_brk h := 1)) h'" and "mh_brk h' = mh_brk h + 1"
proof -
  have "va_ok (f AND PS_MSK_TYP) [VA_int64 i] h" by (simp add: assms(2) va_ok_def va_value_def)
  from ps_new_msg_ok [OF assms(1) this, of t] show ?thesis
    using that by (auto simp: assms(2) va_value_def)
qed

lemma mheap_init_simps [simp]:
  "mh_msgs mheap_init = Map.empty" "mh_bufs mheap_init = Map.empty" "mh_brk mheap_init = 1" "mh_live mheap_init = 0"
  by (simp_all add: mheap_init_def)

end
