(* ===== verification/Sync.thy ===== *)
theory Sync
  imports Ps_Prelude "HOL-Library.Signed_Division"
begin

text \<open>
  The synchronisation layer of \<open>src/sync.h\<close> with the Linux backend \<open>src/sync_linux.c\<close>, as one thread
  sees it. A mutex is its "locked" bit; locking a mutex that the caller already holds never
  returns (\<open>None\<close>). A semaphore is its count. Waiting without a limit on an empty semaphore does
  not return by itself (\<open>None\<close>); a timed wait that finds it empty comes back with \<open>-1\<close>.
\<close>

section \<open>Mutexes\<close>

type_synonym mutex = bool

definition mutex_init :: mutex where
  "mutex_init = False"

definition mutex_lock :: "mutex \<Rightarrow> mutex option" where
  "mutex_lock m = (if m then None else Some True)"

definition mutex_unlock :: "mutex \<Rightarrow> mutex option" where
  "mutex_unlock m = (if m then Some False else None)"

text \<open>Destroying gives the new contents of the variable, null. POSIX leaves the destruction of a locked mutex undefined.\<close>

definition mutex_destroy :: "mutex \<Rightarrow> addr option" where
  "mutex_destroy m = (if m then None else Some NULL)"

lemmas mutex_defs = mutex_init_def mutex_lock_def mutex_unlock_def mutex_destroy_def

section \<open>Deadlines\<close>

record timespec =
  tv_sec :: int
  tv_nsec :: int

definition deadline_ms :: "int \<Rightarrow> timespec \<Rightarrow> timespec" where
  "deadline_ms ms now =
     (let tout = now;
          tout = tout\<lparr>tv_sec := tv_sec tout + ms sdiv 1000\<rparr>;
          tout = tout\<lparr>tv_nsec := tv_nsec tout + ms smod 1000 * 1000000\<rparr> in
      if tv_nsec tout > 1000000000
      then tout\<lparr>tv_sec := tv_sec tout + 1, tv_nsec := tv_nsec tout - 1000000000\<rparr>
      else tout)"

text \<open>POSIX: an absolute time is valid when its nanoseconds are in \<open>[0, 10 ^ 9)\<close>.\<close>

definition valid_timespec :: "timespec \<Rightarrow> bool" where
  "valid_timespec t \<longleftrightarrow> 0 \<le> tv_nsec t \<and> tv_nsec t < 1000000000"

definition ns_of :: "timespec \<Rightarrow> int" where
  "ns_of t = tv_sec t * 1000000000 + tv_nsec t"

section \<open>Semaphores\<close>

type_synonym semaphore = nat

definition SEM_VALUE_MAX :: nat where
  "SEM_VALUE_MAX = 2147483647"

text \<open>
  \<open>sem_timedwait\<close> takes an available unit whatever the deadline says; otherwise it times out, or
  rejects at once a deadline that is not a valid time.
\<close>

datatype wait_end = Acquired | Timed_Out | Rejected

definition sem_timedwait :: "semaphore \<Rightarrow> timespec \<Rightarrow> wait_end \<times> semaphore" where
  "sem_timedwait s tout =
     (if 0 < s then (Acquired, s - 1)
      else if valid_timespec tout then (Timed_Out, s)
      else (Rejected, s))"

definition sem_wait :: "semaphore \<Rightarrow> semaphore option" where
  "sem_wait s = (if 0 < s then Some (s - 1) else None)"

definition semaphore_init :: "nat \<Rightarrow> semaphore" where
  "semaphore_init v = v"

definition semaphore_wait :: "timespec \<Rightarrow> semaphore \<Rightarrow> i32 \<Rightarrow> (int \<times> semaphore) option" where
  "semaphore_wait now s timeout_ms =
     (if timeout_ms <s 0 then do { s \<leftarrow> sem_wait s; Some (0, s) }
      else (case sem_timedwait s (deadline_ms (sint timeout_ms) now) of
              (Acquired, s) \<Rightarrow> Some (0, s)
            | (_, s) \<Rightarrow> Some (-1, s)))"

definition semaphore_post :: "semaphore \<Rightarrow> int \<times> semaphore" where
  "semaphore_post s = (if s < SEM_VALUE_MAX then (0, s + 1) else (-1, s))"

definition semaphore_get :: "semaphore \<Rightarrow> int" where
  "semaphore_get s = int s"

definition semaphore_destroy :: "semaphore \<Rightarrow> addr" where
  "semaphore_destroy s = NULL"

section \<open>Lemmas\<close>

lemma semaphore_wait_pos [simp]: "0 < s \<Longrightarrow> semaphore_wait now s t = Some (0, s - 1)"
  by (simp add: semaphore_wait_def sem_wait_def sem_timedwait_def)

lemma semaphore_wait_zero:
  "semaphore_wait now 0 t = (if t <s 0 then None else Some (-1, 0))"
  by (simp add: semaphore_wait_def sem_wait_def sem_timedwait_def)

text \<open>The clock decides how long a timed wait lasts, not what it returns.\<close>

lemma semaphore_wait_clock: "semaphore_wait now s t = semaphore_wait now' s t"
  by (cases "0 < s") (simp_all add: semaphore_wait_zero)

lemma deadline_split:
  assumes "0 \<le> (ms :: int)"
  shows "ms sdiv 1000 = ms div 1000" and "ms smod 1000 = ms mod 1000"
  using assms by (simp_all add: signed_divide_int_def signed_modulo_int_def sgn_if abs_if)

lemma deadline_ns:
  assumes "0 \<le> ms"
  shows "ns_of (deadline_ms ms now) = ns_of now + ms * 1000000"
proof -
  define q r where "q = ms div 1000" and "r = ms mod 1000"
  have "ms = 1000 * q + r" by (simp add: q_def r_def)
  then have "q * 1000000000 + r * 1000000 = ms * 1000000" by simp
  moreover have "ns_of (deadline_ms ms now) = ns_of now + (q * 1000000000 + r * 1000000)"
    using assms by (simp add: deadline_ms_def ns_of_def Let_def deadline_split
        q_def [symmetric] r_def [symmetric])
  ultimately show ?thesis by simp
qed

lemma deadline_nsec:
  assumes "0 \<le> ms" and "valid_timespec now"
  shows "0 \<le> tv_nsec (deadline_ms ms now)" and "tv_nsec (deadline_ms ms now) \<le> 1000000000"
    and "tv_nsec (deadline_ms ms now) = 1000000000 \<longleftrightarrow> tv_nsec now + ms mod 1000 * 1000000 = 1000000000"
proof -
  have "0 \<le> ms mod 1000" "ms mod 1000 \<le> 999" by simp_all
  then show "0 \<le> tv_nsec (deadline_ms ms now)" "tv_nsec (deadline_ms ms now) \<le> 1000000000"
    "tv_nsec (deadline_ms ms now) = 1000000000 \<longleftrightarrow> tv_nsec now + ms mod 1000 * 1000000 = 1000000000"
    using assms by (auto simp: deadline_ms_def valid_timespec_def Let_def deadline_split)
qed

section \<open>The order of times\<close>

text \<open>
  Times are compared by their seconds first, as the kernel does with a deadline; on valid times
  this is the order of the instants. (The record's extension slot takes part for the sake of the
  class; for \<open>timespec\<close> itself it is the unit.)
\<close>

instantiation timespec_ext :: (linorder) linorder
begin

definition less_eq_timespec_ext :: "'a timespec_scheme \<Rightarrow> 'a timespec_scheme \<Rightarrow> bool" where
  "less_eq_timespec_ext a b \<longleftrightarrow>
     tv_sec a < tv_sec b \<or> tv_sec a = tv_sec b
       \<and> (tv_nsec a < tv_nsec b \<or> tv_nsec a = tv_nsec b \<and> timespec.more a \<le> timespec.more b)"

definition less_timespec_ext :: "'a timespec_scheme \<Rightarrow> 'a timespec_scheme \<Rightarrow> bool" where
  "less_timespec_ext a b \<longleftrightarrow> a \<le> b \<and> \<not> b \<le> a"

instance
  by standard (auto simp: less_eq_timespec_ext_def less_timespec_ext_def intro: timespec.equality)

end

lemma timespec_le_iff:
  "a \<le> (b :: timespec) \<longleftrightarrow> tv_sec a < tv_sec b \<or> tv_sec a = tv_sec b \<and> tv_nsec a \<le> tv_nsec b"
  by (auto simp: less_eq_timespec_ext_def)

lemma timespec_le_ns: "valid_timespec a \<Longrightarrow> valid_timespec b \<Longrightarrow> a \<le> b \<longleftrightarrow> ns_of a \<le> ns_of b"
  by (auto simp: timespec_le_iff valid_timespec_def ns_of_def)

lemma deadline_mono:
  assumes "0 \<le> ms" "ms \<le> ms'" "valid_timespec (deadline_ms ms now)" "valid_timespec (deadline_ms ms' now)"
  shows "deadline_ms ms now \<le> deadline_ms ms' now"
  using assms by (simp add: timespec_le_ns deadline_ns)

lemma deadline_later:
  assumes "0 \<le> ms" "valid_timespec now" "valid_timespec (deadline_ms ms now)"
  shows "now \<le> deadline_ms ms now"
  using assms by (simp add: timespec_le_ns deadline_ns)

end
