(* ===== verification/Psqueue.thy ===== *)
theory Psqueue
  imports Message_Ok Sync
begin

text \<open>
  The interface of \<open>src/psqueue.h\<close>, which both queue implementations provide and the broker uses.
  The five functions are a record of operations, so that the broker is written once, over the
  implementation that is compiled in. The locale \<open>msg_queue\<close> is the contract: what a queue holds
  (\<open>msgs\<close>, in the order in which they will be pulled), how many it can hold (\<open>cap\<close>), and what each
  operation does to that. \<open>fifo_queue\<close> adds the order of a queue without priorities.
\<close>

definition PS_QUEUE_OK :: int where "PS_QUEUE_OK = 0"
definition PS_QUEUE_EFULL :: int where "PS_QUEUE_EFULL = -1"
definition PS_QUEUE_EOVERFLOW :: int where "PS_QUEUE_EOVERFLOW = -2"

lemmas queue_codes = PS_QUEUE_OK_def PS_QUEUE_EFULL_def PS_QUEUE_EOVERFLOW_def

record 'q qops =
  q_new :: "nat \<Rightarrow> 'q option"
  q_free :: "'q \<Rightarrow> mheap \<Rightarrow> mheap option"
  q_push :: "'q \<Rightarrow> addr \<Rightarrow> u8 \<Rightarrow> mheap \<Rightarrow> (int \<times> 'q \<times> mheap) option"
  q_pull :: "'q \<Rightarrow> i64 \<Rightarrow> (addr \<times> 'q) option"
  q_waiting :: "'q \<Rightarrow> nat option"

text \<open>
  \<open>ps_queue_pull\<close> hands its \<open>int64_t\<close> timeout to \<open>semaphore_wait\<close>, whose parameter is \<open>int32_t\<close>.
\<close>

definition pull_timeout :: "i64 \<Rightarrow> i32" where
  "pull_timeout t = ucast t"

definition epoch :: timespec where
  "epoch = \<lparr>tv_sec = 0, tv_nsec = 0\<rparr>"

text \<open>Dropping a list of references.\<close>

fun unref_all :: "addr list \<Rightarrow> mheap \<Rightarrow> mheap option" where
  "unref_all [] h = Some h"
| "unref_all (m # ms) h = do { h \<leftarrow> ps_unref_msg m h; unref_all ms h }"

lemma unref_all_append: "unref_all (xs @ ys) h = do { h \<leftarrow> unref_all xs h; unref_all ys h }"
proof (induction xs arbitrary: h)
  case (Cons x xs)
  then show ?case by (cases "ps_unref_msg x h") simp_all
qed simp

locale msg_queue =
  fixes Q :: "'q qops"
    and inv :: "'q \<Rightarrow> bool"
    and msgs :: "'q \<Rightarrow> addr list"
    and cap :: "'q \<Rightarrow> nat"
  assumes new: "n \<le> SEM_VALUE_MAX \<Longrightarrow> \<exists>q. q_new Q n = Some q \<and> inv q \<and> msgs q = [] \<and> cap q = n"
    and bound: "inv q \<Longrightarrow> length (msgs q) \<le> cap q"
    and nonnull: "inv q \<Longrightarrow> NULL \<notin> set (msgs q)"
    and push_room: "inv q \<Longrightarrow> m \<noteq> NULL \<Longrightarrow> unat p < 10 \<Longrightarrow> length (msgs q) < cap q \<Longrightarrow>
      \<exists>q'. q_push Q q m p h = Some (PS_QUEUE_OK, q', h) \<and> inv q' \<and> cap q' = cap q
         \<and> mset (msgs q') = add_mset m (mset (msgs q))"
    and push_full: "inv q \<Longrightarrow> m \<noteq> NULL \<Longrightarrow> unat p < 10 \<Longrightarrow> length (msgs q) = cap q \<Longrightarrow>
      q_push Q q m p h = Some (PS_QUEUE_EFULL, q, h)
      \<or> (\<exists>e q'. e \<in> set (msgs q) \<and> inv q' \<and> cap q' = cap q
           \<and> mset (msgs q') = add_mset m (mset (msgs q) - {#e#})
           \<and> q_push Q q m p h = map_option (\<lambda>h'. (PS_QUEUE_EOVERFLOW, q', h')) (ps_unref_msg e h))"
    and pull_some: "inv q \<Longrightarrow> msgs q = m # ms \<Longrightarrow>
      \<exists>q'. q_pull Q q t = Some (m, q') \<and> inv q' \<and> msgs q' = ms \<and> cap q' = cap q"
    and pull_none: "inv q \<Longrightarrow> msgs q = [] \<Longrightarrow> \<not> pull_timeout t <s 0 \<Longrightarrow> q_pull Q q t = Some (NULL, q)"
    and waiting: "inv q \<Longrightarrow> q_waiting Q q = Some (length (msgs q))"
    and free: "inv q \<Longrightarrow> msgs q = [] \<Longrightarrow> q_free Q q h = Some h"

text \<open>A run of pushes: the final queue and the messages that were accepted, in order.\<close>

fun push_all :: "'q qops \<Rightarrow> 'q \<Rightarrow> (addr \<times> u8) list \<Rightarrow> mheap \<Rightarrow> ('q \<times> addr list) option" where
  "push_all Q q [] h = Some (q, [])"
| "push_all Q q ((m, p) # ms) h = do {
     (r, q', h') \<leftarrow> q_push Q q m p h;
     (q'', acc) \<leftarrow> push_all Q q' ms h';
     Some (q'', if r = PS_QUEUE_OK then m # acc else acc) }"

text \<open>A run of \<open>n\<close> pulls.\<close>

fun pull_all :: "'q qops \<Rightarrow> nat \<Rightarrow> 'q \<Rightarrow> (addr list \<times> 'q) option" where
  "pull_all Q 0 q = Some ([], q)"
| "pull_all Q (Suc n) q = do {
     (m, q') \<leftarrow> q_pull Q q 0;
     (ms, q'') \<leftarrow> pull_all Q n q';
     Some (m # ms, q'') }"

locale fifo_queue = msg_queue Q inv msgs cap
  for Q :: "'q qops" and inv :: "'q \<Rightarrow> bool" and msgs :: "'q \<Rightarrow> addr list" and cap :: "'q \<Rightarrow> nat" +
  assumes push_end: "inv q \<Longrightarrow> m \<noteq> NULL \<Longrightarrow> q_push Q q m p h = Some (PS_QUEUE_OK, q', h') \<Longrightarrow>
      msgs q' = msgs q @ [m]"
    and full_reject: "inv q \<Longrightarrow> m \<noteq> NULL \<Longrightarrow> length (msgs q) = cap q \<Longrightarrow>
      q_push Q q m p h = Some (PS_QUEUE_EFULL, q, h)"

context msg_queue
begin

lemma pull_all_drains: "inv q \<Longrightarrow> \<exists>q'. pull_all Q (length (msgs q)) q = Some (msgs q, q') \<and> inv q' \<and> msgs q' = []"
proof (induction "msgs q" arbitrary: q)
  case Nil
  then show ?case by (metis list.size(3) pull_all.simps(1))
next
  case (Cons m ms)
  obtain q' where q': "q_pull Q q 0 = Some (m, q')" "inv q'" "msgs q' = ms"
    using pull_some [OF Cons.prems Cons.hyps(2) [symmetric], of 0] by blast
  from Cons.hyps(1) [OF q'(3) [symmetric] q'(2)] q' show ?case
    by (auto simp: Cons.hyps(2) [symmetric])
qed

end

context fifo_queue
begin

lemma push_all_fifo:
  "inv q \<Longrightarrow> NULL \<notin> fst ` set ms \<Longrightarrow> (\<And>x. x \<in> set ms \<Longrightarrow> unat (snd x) < 10) \<Longrightarrow>
   \<exists>q' acc. push_all Q q ms h = Some (q', acc) \<and> inv q' \<and> cap q' = cap q \<and> msgs q' = msgs q @ acc
      \<and> acc = map fst (take (cap q - length (msgs q)) ms)"
proof (induction ms arbitrary: q)
  case Nil
  then show ?case by simp
next
  case (Cons x ms)
  obtain m p where x: "x = (m, p)" by (cases x)
  have m: "m \<noteq> NULL" and p: "unat p < 10"
    using Cons.prems(2) Cons.prems(3) [of x] by (auto simp: x)
  show ?case
  proof (cases "length (msgs q) < cap q")
    case True
    obtain q' where q': "q_push Q q m p h = Some (PS_QUEUE_OK, q', h)" "inv q'" "cap q' = cap q"
      using push_room [OF Cons.prems(1) m p True] by blast
    have "msgs q' = msgs q @ [m]" using push_end [OF Cons.prems(1) m q'(1)] by simp
    moreover have "\<exists>r. cap q - length (msgs q) = Suc r \<and> cap q' - length (msgs q @ [m]) = r"
      using True q'(3) by (intro exI [of _ "cap q - length (msgs q) - 1"]) simp
    ultimately show ?thesis
      using Cons.IH [OF q'(2)] Cons.prems q' by (auto simp: x)
  next
    case False
    then have full: "length (msgs q) = cap q" using bound [OF Cons.prems(1)] by simp
    from full_reject [OF Cons.prems(1) m full] Cons.IH [OF Cons.prems(1)] Cons.prems(2,3) full
    show ?thesis by (auto simp: x queue_codes)
  qed
qed

end

end
