(* ===== verification/Utlist.thy ===== *)
theory Utlist
  imports Ps_Prelude
begin

text \<open>
  The doubly linked list macros of \<open>src/utlist.h\<close> that the library uses, on an explicit store of
  links. A struct with \<open>prev\<close>/\<open>next\<close> members is an address; \<open>dlheap\<close> maps each allocated address
  to its two link fields. Every read and write of a field goes through the store and faults on
  an address that is not allocated. \<open>DL h head xs\<close> says that the macros' list at \<open>head\<close> is the
  sequence of nodes \<open>xs\<close>: the head's \<open>prev\<close> is the last node, the last node's \<open>next\<close> is null.
\<close>

section \<open>Link fields\<close>

record link =
  prev :: addr
  "next" :: addr

type_synonym dlheap = "addr \<rightharpoonup> link"

definition rd_prev :: "dlheap \<Rightarrow> addr \<Rightarrow> addr option" where
  "rd_prev h a = map_option prev (h a)"

definition rd_next :: "dlheap \<Rightarrow> addr \<Rightarrow> addr option" where
  "rd_next h a = map_option next (h a)"

definition wr_prev :: "dlheap \<Rightarrow> addr \<Rightarrow> addr \<Rightarrow> dlheap option" where
  "wr_prev h a v = map_option (\<lambda>l. h(a \<mapsto> l\<lparr>prev := v\<rparr>)) (h a)"

definition wr_next :: "dlheap \<Rightarrow> addr \<Rightarrow> addr \<Rightarrow> dlheap option" where
  "wr_next h a v = map_option (\<lambda>l. h(a \<mapsto> l\<lparr>next := v\<rparr>)) (h a)"

section \<open>The macros\<close>

definition DL_APPEND :: "addr \<Rightarrow> addr \<Rightarrow> dlheap \<Rightarrow> (addr \<times> dlheap) option" where
  "DL_APPEND head add h =
     (if head \<noteq> NULL then do {
        tl \<leftarrow> rd_prev h head;
        h \<leftarrow> wr_prev h add tl;
        tl \<leftarrow> rd_prev h head;
        h \<leftarrow> wr_next h tl add;
        h \<leftarrow> wr_prev h head add;
        h \<leftarrow> wr_next h add NULL;
        Some (head, h)
      } else do {
        h \<leftarrow> wr_prev h add add;
        h \<leftarrow> wr_next h add NULL;
        Some (add, h)
      })"

definition DL_DELETE :: "addr \<Rightarrow> addr \<Rightarrow> dlheap \<Rightarrow> (addr \<times> dlheap) option" where
  "DL_DELETE head del h = do {
     guard_ok (head \<noteq> NULL);
     dp \<leftarrow> rd_prev h del;
     guard_ok (dp \<noteq> NULL);
     if dp = del then Some (NULL, h)
     else if del = head then do {
       dn \<leftarrow> rd_next h del;
       h \<leftarrow> wr_prev h dn dp;
       dn \<leftarrow> rd_next h del;
       Some (dn, h)
     } else do {
       dn \<leftarrow> rd_next h del;
       h \<leftarrow> wr_next h dp dn;
       dn \<leftarrow> rd_next h del;
       if dn \<noteq> NULL then do {
         h \<leftarrow> wr_prev h dn dp;
         Some (head, h)
       } else do {
         h \<leftarrow> wr_prev h head dp;
         Some (head, h)
       }
     }
   }"

text \<open>
  \<open>DL_FOREACH\<close> visits the nodes from \<open>el\<close> along \<open>next\<close>: the list of nodes it visits, \<open>None\<close> if it
  runs into memory that is not allocated or never reaches null.
\<close>

partial_function (option) DL_FOREACH :: "dlheap \<Rightarrow> addr \<Rightarrow> addr list option" where
  "DL_FOREACH h el =
     (if el = NULL then Some []
      else do {
        nx \<leftarrow> rd_next h el;
        els \<leftarrow> DL_FOREACH h nx;
        Some (el # els)
      })"

text \<open>\<open>DL_SEARCH_SCALAR\<close>: the first node whose field equals \<open>val\<close>, or null.\<close>

partial_function (option) DL_SEARCH_SCALAR ::
    "dlheap \<Rightarrow> (addr \<Rightarrow> 'v option) \<Rightarrow> 'v \<Rightarrow> addr \<Rightarrow> addr option" where
  "DL_SEARCH_SCALAR h field val out =
     (if out = NULL then Some NULL
      else do {
        f \<leftarrow> field out;
        if f = val then Some out
        else do {
          nx \<leftarrow> rd_next h out;
          DL_SEARCH_SCALAR h field val nx
        }
      })"

text \<open>\<open>DL_COUNT\<close>: the counter is incremented once per visited node.\<close>

partial_function (option) DL_COUNT :: "dlheap \<Rightarrow> addr \<Rightarrow> nat \<Rightarrow> nat option" where
  "DL_COUNT h el counter =
     (if el = NULL then Some counter
      else do {
        nx \<leftarrow> rd_next h el;
        DL_COUNT h nx (Suc counter)
      })"

section \<open>Linked segments\<close>

text \<open>
  \<open>links p xs e h\<close>: the nodes \<open>xs\<close> are linked in this order in \<open>h\<close>; the first one's \<open>prev\<close> is \<open>p\<close>
  and the last one's \<open>next\<close> is \<open>e\<close>.
\<close>

fun links :: "addr \<Rightarrow> addr list \<Rightarrow> addr \<Rightarrow> dlheap \<Rightarrow> bool" where
  "links p [] e h = True"
| "links p (x # xs) e h = (h x = Some \<lparr>prev = p, next = hd_or e xs\<rparr> \<and> links x xs e h)"

lemma links_append:
  "links p (xs @ ys) e h \<longleftrightarrow> links p xs (hd_or e ys) h \<and> links (last_or p xs) ys e h"
  by (induction xs arbitrary: p) (auto simp: hd_or_append)

lemma links_frame: "(\<And>x. x \<in> set xs \<Longrightarrow> h' x = h x) \<Longrightarrow> links p xs e h' = links p xs e h"
  by (induction xs arbitrary: p) auto

lemma links_upd [simp]: "a \<notin> set xs \<Longrightarrow> links p xs e (h(a := l)) = links p xs e h"
  by (rule links_frame) auto

lemma links_allocated: "links p xs e h \<Longrightarrow> x \<in> set xs \<Longrightarrow> h x \<noteq> None"
  by (induction xs arbitrary: p) auto

definition DL :: "dlheap \<Rightarrow> addr \<Rightarrow> addr list \<Rightarrow> bool" where
  "DL h head xs \<longleftrightarrow>
     head = hd_or NULL xs \<and> distinct xs \<and> NULL \<notin> set xs \<and> links (last_or NULL xs) xs NULL h"

lemma DL_Nil [simp]: "DL h NULL []"
  by (simp add: DL_def)

lemma DL_frame: "(\<And>x. x \<in> set xs \<Longrightarrow> h' x = h x) \<Longrightarrow> DL h' head xs = DL h head xs"
  unfolding DL_def using links_frame by blast

lemma DL_distinct: "DL h head xs \<Longrightarrow> distinct xs"
  by (simp add: DL_def)

lemma DL_null_iff: "DL h head xs \<Longrightarrow> head = NULL \<longleftrightarrow> xs = []"
  by (cases xs) (auto simp: DL_def)

lemma DL_allocated: "DL h head xs \<Longrightarrow> x \<in> set xs \<Longrightarrow> h x \<noteq> None"
  unfolding DL_def using links_allocated by blast

lemma DL_head: "DL h head xs \<Longrightarrow> xs \<noteq> [] \<Longrightarrow> head = hd xs"
  by (cases xs) (auto simp: DL_def)

lemma DL_head_prev: "DL h head xs \<Longrightarrow> xs \<noteq> [] \<Longrightarrow> rd_prev h head = Some (last xs)"
  by (cases xs) (auto simp: DL_def rd_prev_def last_or_def)

section \<open>Appending and deleting are the list operations\<close>

lemma link_swap: "l\<lparr>next := y, prev := x\<rparr> = l\<lparr>prev := x, next := y\<rparr>" for l :: link
  by (cases l) simp

lemmas dl_access = rd_prev_def rd_next_def wr_prev_def wr_next_def

text \<open>The list macros touch both ends: no node, one node, or two different end nodes.\<close>

lemma two_ended_cases:
  obtains "xs = []" | x where "xs = [x]" | x ms t where "xs = x # ms @ [t]"
  by (metis list.exhaust rev_exhaust append_Nil)

lemma DL_APPEND_correct:
  assumes "DL h head xs" and "h a \<noteq> None" and "a \<notin> set xs" and "a \<noteq> NULL"
  shows "\<exists>h'. DL_APPEND head a h = Some (hd_or a xs, h') \<and> DL h' (hd_or a xs) (xs @ [a])
      \<and> (\<forall>b. b \<notin> insert a (set xs) \<longrightarrow> h' b = h b) \<and> dom h' = dom h"
proof (cases xs rule: two_ended_cases)
  case 1
  with assms show ?thesis
    by (auto simp: DL_def DL_APPEND_def dl_access)
next
  case (2 x)
  with assms show ?thesis
    by (auto simp: DL_def DL_APPEND_def dl_access)
next
  case (3 x ms t)
  with assms show ?thesis
    by (auto simp: DL_def DL_APPEND_def dl_access links_append)
qed

lemma DL_DELETE_correct:
  assumes "DL h head (xs @ a # ys)"
  shows "\<exists>h'. DL_DELETE head a h = Some (hd_or NULL (xs @ ys), h')
      \<and> DL h' (hd_or NULL (xs @ ys)) (xs @ ys)
      \<and> (\<forall>b. b \<notin> set xs \<union> set ys \<longrightarrow> h' b = h b) \<and> dom h' = dom h"
proof (cases xs rule: rev_cases)
  case Nil
  show ?thesis
  proof (cases ys rule: two_ended_cases)
    case 1 with Nil assms show ?thesis
      by (auto simp: DL_def DL_DELETE_def dl_access)
  next
    case 2 with Nil assms show ?thesis
      by (auto simp: DL_def DL_DELETE_def dl_access)
  next
    case 3 with Nil assms show ?thesis
      by (auto simp: DL_def DL_DELETE_def dl_access links_append)
  qed
next
  case (snoc zs p)
  show ?thesis
  proof (cases ys rule: two_ended_cases)
    case 1 with snoc assms show ?thesis
      by (cases zs) (auto simp: DL_def DL_DELETE_def dl_access links_append)
  next
    case 2 with snoc assms show ?thesis
      by (cases zs) (auto simp: DL_def DL_DELETE_def dl_access links_append)
  next
    case 3 with snoc assms show ?thesis
      by (cases zs) (auto simp: DL_def DL_DELETE_def dl_access links_append)
  qed
qed

section \<open>Traversals\<close>

lemma DL_FOREACH_links: "links p xs NULL h \<Longrightarrow> NULL \<notin> set xs \<Longrightarrow> DL_FOREACH h (hd_or NULL xs) = Some xs"
proof (induction xs arbitrary: p)
  case Nil then show ?case by (simp add: DL_FOREACH.simps)
next
  case (Cons x xs)
  then have "DL_FOREACH h (hd_or NULL xs) = Some xs" by auto
  with Cons.prems show ?case by (simp add: DL_FOREACH.simps [of h x] dl_access)
qed

lemma DL_FOREACH_correct: "DL h head xs \<Longrightarrow> DL_FOREACH h head = Some xs"
  unfolding DL_def using DL_FOREACH_links by blast

lemma DL_unique: "DL h head xs \<Longrightarrow> DL h head ys \<Longrightarrow> xs = ys"
  using DL_FOREACH_correct [of h head xs] DL_FOREACH_correct [of h head ys] by simp

lemma DL_COUNT_links:
  "links p xs NULL h \<Longrightarrow> NULL \<notin> set xs \<Longrightarrow> DL_COUNT h (hd_or NULL xs) n = Some (n + length xs)"
proof (induction xs arbitrary: p n)
  case Nil then show ?case by (simp add: DL_COUNT.simps)
next
  case (Cons x xs)
  then have "DL_COUNT h (hd_or NULL xs) (Suc n) = Some (Suc n + length xs)" by auto
  with Cons.prems show ?case by (simp add: DL_COUNT.simps [of h x] dl_access)
qed

lemma DL_COUNT_correct: "DL h head xs \<Longrightarrow> DL_COUNT h head 0 = Some (length xs)"
  unfolding DL_def using DL_COUNT_links [of _ xs h 0] by auto

lemma DL_SEARCH_SCALAR_links:
  "links p xs NULL h \<Longrightarrow> NULL \<notin> set xs \<Longrightarrow> (\<And>x. x \<in> set xs \<Longrightarrow> field x = Some (f x)) \<Longrightarrow>
   DL_SEARCH_SCALAR h field v (hd_or NULL xs)
     = Some (case find (\<lambda>x. f x = v) xs of None \<Rightarrow> NULL | Some x \<Rightarrow> x)"
proof (induction xs arbitrary: p)
  case Nil then show ?case by (simp add: DL_SEARCH_SCALAR.simps)
next
  case (Cons x xs)
  from Cons.prems Cons.IH [of x] show ?case
    by (auto simp: DL_SEARCH_SCALAR.simps [of h field v x] dl_access)
qed

lemma DL_SEARCH_SCALAR_correct:
  "DL h head xs \<Longrightarrow> (\<And>x. x \<in> set xs \<Longrightarrow> field x = Some (f x)) \<Longrightarrow>
   DL_SEARCH_SCALAR h field v head
     = Some (case find (\<lambda>x. f x = v) xs of None \<Rightarrow> NULL | Some x \<Rightarrow> x)"
  using DL_SEARCH_SCALAR_links [of "last_or NULL xs" xs h field f v] by (auto simp: DL_def)

section \<open>Several lists in one store\<close>

text \<open>
  \<open>DLs h heads Ls\<close>: the lists at \<open>heads\<close> are the node sequences \<open>Ls\<close> and share no node. The
  macros on one list leave the others alone.
\<close>

definition DLs :: "dlheap \<Rightarrow> addr list \<Rightarrow> addr list list \<Rightarrow> bool" where
  "DLs h heads Ls \<longleftrightarrow>
     length heads = length Ls \<and> (\<forall>i<length Ls. DL h (heads ! i) (Ls ! i)) \<and>
     (\<forall>i<length Ls. \<forall>j<length Ls. i \<noteq> j \<longrightarrow> set (Ls ! i) \<inter> set (Ls ! j) = {})"

lemma DLs_DL: "DLs h heads Ls \<Longrightarrow> i < length Ls \<Longrightarrow> DL h (heads ! i) (Ls ! i)"
  by (simp add: DLs_def)

lemma DLs_disjoint: "DLs h heads Ls \<Longrightarrow> i < length Ls \<Longrightarrow> j < length Ls \<Longrightarrow> i \<noteq> j \<Longrightarrow> x \<in> set (Ls ! i) \<Longrightarrow> x \<notin> set (Ls ! j)"
  unfolding DLs_def by blast

lemma DLs_update:
  assumes ds: "DLs h heads Ls" and i: "i < length Ls" and new: "DL h' x X"
    and frame: "\<And>b. b \<notin> set X \<union> set (Ls ! i) \<Longrightarrow> h' b = h b"
    and fresh: "\<And>y j. y \<in> set X \<Longrightarrow> y \<notin> set (Ls ! i) \<Longrightarrow> j < length Ls \<Longrightarrow> y \<notin> set (Ls ! j)"
  shows "DLs h' (heads[i := x]) (Ls[i := X])"
proof -
  have X: "x \<notin> set (Ls ! j)" if "x \<in> set X" "j < length Ls" "j \<noteq> i" for x j
    using that fresh [of x j] DLs_disjoint [OF ds, of i j x] i by blast
  have other: "DL h' (heads ! j) (Ls ! j)" if j: "j < length Ls" "j \<noteq> i" for j
  proof -
    have "h' b = h b" if b: "b \<in> set (Ls ! j)" for b
      using frame [of b] X [of b j] DLs_disjoint [OF ds j(1) i j(2) b] b j by blast
    then show ?thesis using DL_frame [of "Ls ! j" h' h] DLs_DL [OF ds j(1)] by blast
  qed
  have len: "length heads = length Ls" using ds by (simp add: DLs_def)
  have "DL h' (heads[i := x] ! j) (Ls[i := X] ! j)" if "j < length Ls" for j
    using that other new i len by (cases "j = i") simp_all
  moreover have "set (Ls[i := X] ! j) \<inter> set (Ls[i := X] ! k) = {}"
    if "j < length Ls" "k < length Ls" "j \<noteq> k" for j k
    using that X [of _ j] X [of _ k] DLs_disjoint [OF ds that] i by (cases "j = i"; cases "k = i") auto
  ultimately show ?thesis using len by (simp add: DLs_def)
qed

lemma DLs_APPEND:
  assumes ds: "DLs h heads Ls" and i: "i < length Ls"
    and a: "h a \<noteq> None" "a \<noteq> NULL" "\<And>j. j < length Ls \<Longrightarrow> a \<notin> set (Ls ! j)"
  shows "\<exists>h' x. DL_APPEND (heads ! i) a h = Some (x, h') \<and> DLs h' (heads[i := x]) (Ls[i := Ls ! i @ [a]])
      \<and> dom h' = dom h"
proof -
  obtain h' where h': "DL_APPEND (heads ! i) a h = Some (hd_or a (Ls ! i), h')"
    "DL h' (hd_or a (Ls ! i)) (Ls ! i @ [a])" "\<forall>b. b \<notin> insert a (set (Ls ! i)) \<longrightarrow> h' b = h b" "dom h' = dom h"
    using DL_APPEND_correct [OF DLs_DL [OF ds i] a(1) a(3) [OF i] a(2)] by blast
  have "DLs h' (heads[i := hd_or a (Ls ! i)]) (Ls[i := Ls ! i @ [a]])"
    using h'(3) a(3) by (intro DLs_update [OF ds i h'(2)]) auto
  with h' show ?thesis by blast
qed

lemma DLs_DELETE:
  assumes ds: "DLs h heads Ls" and i: "i < length Ls" and L: "Ls ! i = xs @ a # ys"
  shows "\<exists>h' x. DL_DELETE (heads ! i) a h = Some (x, h') \<and> DLs h' (heads[i := x]) (Ls[i := xs @ ys])
      \<and> dom h' = dom h \<and> (\<forall>j<length Ls. a \<notin> set (Ls[i := xs @ ys] ! j))"
proof -
  have dl: "DL h (heads ! i) (xs @ a # ys)" using DLs_DL [OF ds i] L by simp
  obtain h' where h': "DL_DELETE (heads ! i) a h = Some (hd_or NULL (xs @ ys), h')"
    "DL h' (hd_or NULL (xs @ ys)) (xs @ ys)" "\<forall>b. b \<notin> set xs \<union> set ys \<longrightarrow> h' b = h b" "dom h' = dom h"
    using DL_DELETE_correct [OF dl] by blast
  have "DLs h' (heads[i := hd_or NULL (xs @ ys)]) (Ls[i := xs @ ys])"
    using h'(3) L by (intro DLs_update [OF ds i h'(2)]) auto
  moreover have "a \<notin> set (Ls[i := xs @ ys] ! j)" if "j < length Ls" for j
    using that DL_distinct [OF dl] DLs_disjoint [OF ds i that, of a] L i by (cases "j = i") auto
  ultimately show ?thesis using h' by blast
qed

lemma DL_nonnull: "DL h head xs \<Longrightarrow> x \<in> set xs \<Longrightarrow> x \<noteq> NULL"
  by (cases "x = NULL") (simp_all add: DL_def)

lemma DLs_nonnull: "DLs h heads Ls \<Longrightarrow> i < length Ls \<Longrightarrow> x \<in> set (Ls ! i) \<Longrightarrow> x \<noteq> NULL"
  using DL_nonnull [OF DLs_DL] by blast

lemma DLs_FOREACH:
  assumes "DLs h heads Ls"
  shows "map (\<lambda>p. the (DL_FOREACH h p)) heads = Ls"
proof (rule nth_equalityI)
  fix i assume "i < length (map (\<lambda>p. the (DL_FOREACH h p)) heads)"
  then have "i < length Ls" "length heads = length Ls" using assms by (simp_all add: DLs_def)
  then show "map (\<lambda>p. the (DL_FOREACH h p)) heads ! i = Ls ! i"
    using DL_FOREACH_correct [OF DLs_DL [OF assms]] by simp
qed (use assms in \<open>simp add: DLs_def\<close>)
end
