(* ===== verification/Psqueue_b.thy ===== *)
theory Psqueue_b
  imports Psqueue Utlist
begin

text \<open>
  The queue of \<open>src/psqueue_b.c\<close>, the default one: ten doubly linked lists of nodes, one per
  priority, and the list of free nodes, built once by \<open>ps_new_queue\<close>. The nodes are modelled at
  the level of their link fields (theory \<open>Utlist\<close>). The abstract queue is ten message lists and
  a number of free nodes; the operations refine \<open>spec_push\<close> and \<open>spec_pull\<close> on it, and through
  them the contract \<open>msg_queue\<close>.
\<close>

section \<open>State and operations\<close>

definition PRIORITIES :: nat where "PRIORITIES = 10"

text \<open>\<open>node_t\<close> is an address: its \<open>prev\<close> and \<open>next\<close> are in \<open>b_links\<close>, its \<open>msg\<close> in \<open>b_msg\<close>.\<close>

record bqueue =
  b_links :: dlheap
  b_msg :: "addr \<rightharpoonup> addr"
  b_brk :: addr
  b_priorities :: "addr list"
  b_available :: addr
  b_mux :: mutex
  b_not_empty :: semaphore

definition wr_msg :: "bqueue \<Rightarrow> addr \<Rightarrow> addr \<Rightarrow> bqueue option" where
  "wr_msg q n m = do { _ \<leftarrow> b_msg q n; Some (q\<lparr>b_msg := (b_msg q)(n \<mapsto> m)\<rparr>) }"

definition calloc_node :: "bqueue \<Rightarrow> addr \<times> bqueue" where
  "calloc_node q =
     (let n = b_brk q in
      (n, q\<lparr>b_links := (b_links q)(n \<mapsto> \<lparr>prev = NULL, next = NULL\<rparr>), b_msg := (b_msg q)(n \<mapsto> NULL),
            b_brk := n + 1\<rparr>))"

definition free_node :: "addr \<Rightarrow> bqueue \<Rightarrow> bqueue option" where
  "free_node n q = do {
     _ \<leftarrow> b_links q n;
     Some (q\<lparr>b_links := (b_links q)(n := None), b_msg := (b_msg q)(n := None)\<rparr>) }"

fun b_new_nodes :: "nat \<Rightarrow> bqueue \<Rightarrow> bqueue option" where
  "b_new_nodes 0 q = Some q"
| "b_new_nodes (Suc k) q = do {
     let (n, q) = calloc_node q;
     (hd, l) \<leftarrow> DL_APPEND (b_available q) n (b_links q);
     b_new_nodes k (q\<lparr>b_links := l, b_available := hd\<rparr>) }"

definition b_new_queue :: "nat \<Rightarrow> bqueue option" where
  "b_new_queue sz =
     b_new_nodes sz \<lparr>b_links = Map.empty, b_msg = Map.empty, b_brk = 1,
                     b_priorities = replicate PRIORITIES NULL, b_available = NULL,
                     b_mux = mutex_init, b_not_empty = semaphore_init 0\<rparr>"

text \<open>The search for a victim in \<open>bqueue_get_available\<close>; \<open>is\<close> are the indices still to visit.\<close>

fun b_drop_loop :: "nat list \<Rightarrow> bqueue \<Rightarrow> mheap \<Rightarrow> (int \<times> addr \<times> bqueue \<times> mheap) option" where
  "b_drop_loop [] q h = Some (PS_QUEUE_EFULL, NULL, q, h)"
| "b_drop_loop (i # is) q h = do {
     p \<leftarrow> arr_get (b_priorities q) i;
     if p \<noteq> NULL then do {
       n \<leftarrow> rd_prev (b_links q) p;
       m \<leftarrow> b_msg q n;
       h \<leftarrow> ps_unref_msg m h;
       q \<leftarrow> wr_msg q n NULL;
       (hd, l) \<leftarrow> DL_DELETE p n (b_links q);
       ps \<leftarrow> arr_set (b_priorities q) i hd;
       Some (PS_QUEUE_EOVERFLOW, n, q\<lparr>b_links := l, b_priorities := ps\<rparr>, h)
     } else b_drop_loop is q h }"

definition bqueue_get_available :: "bqueue \<Rightarrow> u8 \<Rightarrow> mheap \<Rightarrow> (int \<times> addr \<times> bqueue \<times> mheap) option" where
  "bqueue_get_available q max_prio h =
     (if b_available q \<noteq> NULL then do {
        let n = b_available q;
        (hd, l) \<leftarrow> DL_DELETE (b_available q) (b_available q) (b_links q);
        Some (PS_QUEUE_OK, n, q\<lparr>b_links := l, b_available := hd\<rparr>, h)
      } else b_drop_loop [0..<unat max_prio] q h)"

fun b_get_loop :: "nat list \<Rightarrow> bqueue \<Rightarrow> (addr \<times> bqueue) option" where
  "b_get_loop [] q = Some (NULL, q)"
| "b_get_loop (i # is) q = do {
     p \<leftarrow> arr_get (b_priorities q) i;
     if p \<noteq> NULL then do {
       let n = p;
       msg \<leftarrow> b_msg q n;
       (hd, l) \<leftarrow> DL_DELETE p n (b_links q);
       ps \<leftarrow> arr_set (b_priorities q) i hd;
       q \<leftarrow> wr_msg (q\<lparr>b_links := l, b_priorities := ps\<rparr>) n NULL;
       (hd, l) \<leftarrow> DL_APPEND (b_available q) n (b_links q);
       Some (msg, q\<lparr>b_links := l, b_available := hd\<rparr>)
     } else b_get_loop is q }"

definition bqueue_get :: "bqueue \<Rightarrow> (addr \<times> bqueue) option" where
  "bqueue_get q = b_get_loop (rev [0..<PRIORITIES]) q"

definition bqueue_insert :: "bqueue \<Rightarrow> addr \<Rightarrow> u8 \<Rightarrow> bqueue option" where
  "bqueue_insert q n priority = do {
     p \<leftarrow> arr_get (b_priorities q) (unat priority);
     (hd, l) \<leftarrow> DL_APPEND p n (b_links q);
     ps \<leftarrow> arr_set (b_priorities q) (unat priority) hd;
     Some (q\<lparr>b_links := l, b_priorities := ps\<rparr>) }"

text \<open>
  \<open>ps_free_queue\<close>. \<open>DL_FOREACH_SAFE\<close> reads \<open>next\<close> before the body runs, so the body may delete and
  free the node.
\<close>

partial_function (option) b_free_bucket :: "nat \<Rightarrow> addr \<Rightarrow> bqueue \<Rightarrow> mheap \<Rightarrow> (bqueue \<times> mheap) option" where
  "b_free_bucket i n q h =
     (if n = NULL then Some (q, h) else do {
        e \<leftarrow> rd_next (b_links q) n;
        m \<leftarrow> b_msg q n;
        h \<leftarrow> ps_unref_msg m h;
        p \<leftarrow> arr_get (b_priorities q) i;
        (hd, l) \<leftarrow> DL_DELETE p n (b_links q);
        ps \<leftarrow> arr_set (b_priorities q) i hd;
        q \<leftarrow> free_node n (q\<lparr>b_links := l, b_priorities := ps\<rparr>);
        b_free_bucket i e q h })"

fun b_free_buckets :: "nat list \<Rightarrow> bqueue \<Rightarrow> mheap \<Rightarrow> (bqueue \<times> mheap) option" where
  "b_free_buckets [] q h = Some (q, h)"
| "b_free_buckets (i # is) q h = do {
     p \<leftarrow> arr_get (b_priorities q) i;
     (q, h) \<leftarrow> b_free_bucket i p q h;
     b_free_buckets is q h }"

partial_function (option) b_free_available :: "addr \<Rightarrow> bqueue \<Rightarrow> bqueue option" where
  "b_free_available n q =
     (if n = NULL then Some q else do {
        e \<leftarrow> rd_next (b_links q) n;
        (hd, l) \<leftarrow> DL_DELETE (b_available q) n (b_links q);
        q \<leftarrow> free_node n (q\<lparr>b_links := l, b_available := hd\<rparr>);
        b_free_available e q })"

definition b_free_queue_run :: "bqueue \<Rightarrow> mheap \<Rightarrow> (bqueue \<times> mheap) option" where
  "b_free_queue_run q h = do {
     (q, h) \<leftarrow> b_free_buckets [0..<PRIORITIES] q h;
     q \<leftarrow> b_free_available (b_available q) q;
     _ \<leftarrow> mutex_destroy (b_mux q);
     let _ = semaphore_destroy (b_not_empty q);
     Some (q, h) }"

definition b_free_queue :: "bqueue \<Rightarrow> mheap \<Rightarrow> mheap option" where
  "b_free_queue q h = map_option snd (b_free_queue_run q h)"

definition b_queue_push :: "bqueue \<Rightarrow> addr \<Rightarrow> u8 \<Rightarrow> mheap \<Rightarrow> (int \<times> bqueue \<times> mheap) option" where
  "b_queue_push q msg priority h = do {
     m \<leftarrow> mutex_lock (b_mux q);
     let q = q\<lparr>b_mux := m\<rparr>;
     (ret, n, q, h) \<leftarrow> bqueue_get_available q priority h;
     q \<leftarrow>
       (if ret \<noteq> PS_QUEUE_EFULL then do {
          q \<leftarrow> wr_msg q n msg;
          q \<leftarrow> bqueue_insert q n priority;
          Some (if ret = PS_QUEUE_OK then q\<lparr>b_not_empty := snd (semaphore_post (b_not_empty q))\<rparr> else q)
        } else Some q);
     m \<leftarrow> mutex_unlock (b_mux q);
     Some (ret, q\<lparr>b_mux := m\<rparr>, h)
   }"

definition b_queue_pull :: "bqueue \<Rightarrow> i64 \<Rightarrow> (addr \<times> bqueue) option" where
  "b_queue_pull q timeout = do {
     (r, s) \<leftarrow> semaphore_wait epoch (b_not_empty q) (pull_timeout timeout);
     let q = q\<lparr>b_not_empty := s\<rparr>;
     if r < 0 then Some (NULL, q)
     else do {
       m \<leftarrow> mutex_lock (b_mux q);
       (msg, q) \<leftarrow> bqueue_get (q\<lparr>b_mux := m\<rparr>);
       m \<leftarrow> mutex_unlock (b_mux q);
       Some (msg, q\<lparr>b_mux := m\<rparr>)
     }
   }"

definition b_queue_waiting :: "bqueue \<Rightarrow> nat option" where
  "b_queue_waiting q =
     (let ret = semaphore_get (b_not_empty q) in Some (if ret < 0 then 0 else nat ret))"

definition b_ops :: "bqueue qops" where
  "b_ops = \<lparr>q_new = b_new_queue, q_free = b_free_queue, q_push = b_queue_push,
            q_pull = b_queue_pull, q_waiting = b_queue_waiting\<rparr>"

section \<open>The abstract queue\<close>

text \<open>Ten message lists, indexed by priority, and the number of free nodes.\<close>

type_synonym pq = "addr list list \<times> nat"

text \<open>The lowest priority below \<open>p\<close> that has a message.\<close>

definition victim :: "addr list list \<Rightarrow> nat \<Rightarrow> nat option" where
  "victim bs p = find (\<lambda>i. bs ! i \<noteq> []) [0..<p]"

definition highest :: "addr list list \<Rightarrow> nat option" where
  "highest bs = find (\<lambda>i. bs ! i \<noteq> []) (rev [0..<PRIORITIES])"

text \<open>The result code, the message that was dropped, the new queue.\<close>

definition spec_push :: "pq \<Rightarrow> addr \<Rightarrow> nat \<Rightarrow> int \<times> addr option \<times> pq" where
  "spec_push s m p = (case s of (bs, k) \<Rightarrow>
     if 0 < k then (PS_QUEUE_OK, None, bs[p := bs ! p @ [m]], k - 1)
     else (case victim bs p of
             None \<Rightarrow> (PS_QUEUE_EFULL, None, bs, k)
           | Some i \<Rightarrow> (PS_QUEUE_EOVERFLOW, Some (last (bs ! i)), bs[i := butlast (bs ! i), p := bs ! p @ [m]], k)))"

definition spec_pull :: "pq \<Rightarrow> addr \<times> pq" where
  "spec_pull s = (case s of (bs, k) \<Rightarrow>
     (case highest bs of
        None \<Rightarrow> (NULL, bs, k)
      | Some i \<Rightarrow> (hd (bs ! i), bs[i := tl (bs ! i)], k + 1)))"

section \<open>Abstraction and invariant\<close>

text \<open>The node lists, the buckets of messages and the number of free nodes, read off the pointers.\<close>

definition b_nodes :: "bqueue \<Rightarrow> addr list list" where
  "b_nodes q = map (\<lambda>p. the (DL_FOREACH (b_links q) p)) (b_priorities q @ [b_available q])"

definition msgs_of :: "(addr \<rightharpoonup> addr) \<Rightarrow> addr list \<Rightarrow> addr list" where
  "msgs_of f ns = map (\<lambda>n. the (f n)) ns"

definition abs_of :: "(addr \<rightharpoonup> addr) \<Rightarrow> addr list list \<Rightarrow> pq" where
  "abs_of f Ls = (map (msgs_of f) (take PRIORITIES Ls), length (Ls ! PRIORITIES))"

definition b_abs :: "bqueue \<Rightarrow> pq" where
  "b_abs q = abs_of (b_msg q) (b_nodes q)"

text \<open>
  \<open>b_rel F q Ls\<close>: the eleven lists of \<open>q\<close> are \<open>Ls\<close>, and \<open>F\<close> are the nodes that an operation
  has taken off a list and not yet put on another.
\<close>

definition b_rel :: "addr set \<Rightarrow> bqueue \<Rightarrow> addr list list \<Rightarrow> bool" where
  "b_rel F q Ls \<longleftrightarrow>
     length (b_priorities q) = PRIORITIES \<and> length Ls = Suc PRIORITIES \<and>
     DLs (b_links q) (b_priorities q @ [b_available q]) Ls \<and>
     dom (b_msg q) = F \<union> set (concat Ls) \<and>
     dom (b_links q) = F \<union> set (concat Ls) \<and> F \<inter> set (concat Ls) = {} \<and> NULL \<notin> F \<and>
     (\<forall>i<PRIORITIES. \<forall>n\<in>set (Ls ! i). b_msg q n \<noteq> Some NULL) \<and>
     (\<forall>n\<in>set (Ls ! PRIORITIES). b_msg q n = Some NULL) \<and>
     (\<forall>n\<in>F \<union> set (concat Ls). n < b_brk q) \<and> 0 < b_brk q"

text \<open>The rest of the invariant: the lock is free, and the semaphore counts the stored messages.\<close>

definition b_inv :: "bqueue \<Rightarrow> bool" where
  "b_inv q \<longleftrightarrow>
     b_rel {} q (b_nodes q) \<and> \<not> b_mux q \<and>
     b_not_empty q = length (concat (fst (b_abs q))) \<and>
     length (concat (fst (b_abs q))) + snd (b_abs q) \<le> SEM_VALUE_MAX"

definition b_msgs :: "bqueue \<Rightarrow> addr list" where
  "b_msgs q = concat (rev (fst (b_abs q)))"

definition b_cap :: "bqueue \<Rightarrow> nat" where
  "b_cap q = length (concat (fst (b_abs q))) + snd (b_abs q)"

section \<open>Moving nodes between the lists\<close>

lemma b_rel_D:
  assumes "b_rel F q Ls"
  shows "length (b_priorities q) = PRIORITIES" "length Ls = Suc PRIORITIES"
    and "DLs (b_links q) (b_priorities q @ [b_available q]) Ls"
    and "b_nodes q = Ls" and "b_abs q = abs_of (b_msg q) Ls"
proof -
  from assms show 1: "length (b_priorities q) = PRIORITIES" "length Ls = Suc PRIORITIES"
    "DLs (b_links q) (b_priorities q @ [b_available q]) Ls" by (auto simp: b_rel_def)
  from DLs_FOREACH [OF 1(3)] show "b_nodes q = Ls" by (simp add: b_nodes_def)
  then show "b_abs q = abs_of (b_msg q) Ls" by (simp add: b_abs_def)
qed

lemma set_concat_update:
  "i < length Ls \<Longrightarrow> set (concat (Ls[i := X])) = set X \<union> set (concat (take i Ls)) \<union> set (concat (drop (Suc i) Ls))"
  "i < length Ls \<Longrightarrow> set (concat Ls) = set (Ls ! i) \<union> set (concat (take i Ls)) \<union> set (concat (drop (Suc i) Ls))"
  by (auto simp: concat_list_update concat_split_nth [of i Ls] simp del: set_concat)

lemma in_concat_nth: "x \<in> set (concat Ls) \<longleftrightarrow> (\<exists>i<length Ls. x \<in> set (Ls ! i))"
  by (metis in_set_conv_nth set_concat UN_iff)

lemma msgs_of_frame: "(\<And>n. n \<in> set ns \<Longrightarrow> f n = g n) \<Longrightarrow> msgs_of f ns = msgs_of g ns"
  by (simp add: msgs_of_def)

lemma msgs_of_simps [simp]:
  "msgs_of f [] = []" "msgs_of f (n # ns) = the (f n) # msgs_of f ns"
  "msgs_of f (ms @ ns) = msgs_of f ms @ msgs_of f ns"
  "length (msgs_of f ns) = length ns" "msgs_of f ns = [] \<longleftrightarrow> ns = []"
  by (simp_all add: msgs_of_def)

lemma abs_of_update:
  "length Ls = Suc PRIORITIES \<Longrightarrow> i < PRIORITIES \<Longrightarrow>
   abs_of f (Ls[i := X]) = ((fst (abs_of f Ls))[i := msgs_of f X], snd (abs_of f Ls))"
  "length Ls = Suc PRIORITIES \<Longrightarrow>
   abs_of f (Ls[PRIORITIES := X]) = (fst (abs_of f Ls), length X)"
  by (simp_all add: abs_of_def take_update_swap map_update list_update_beyond)

text \<open>Taking the node \<open>n\<close> off list \<open>i\<close>; list \<open>PRIORITIES\<close> is the list of free nodes.\<close>

lemma b_rel_delete:
  assumes rel: "b_rel {} q Ls" and i: "i < length Ls" and L: "Ls ! i = xs @ n # ys"
    and heads: "(b_priorities q @ [b_available q]) ! i = p"
    and q': "\<And>x l. b_links (q' x l) = l" "\<And>x l. b_msg (q' x l) = b_msg q" "\<And>x l. b_brk (q' x l) = b_brk q"
      "\<And>x l. b_priorities (q' x l) @ [b_available (q' x l)] = (b_priorities q @ [b_available q])[i := x]"
  shows "\<exists>x l. DL_DELETE p n (b_links q) = Some (x, l) \<and> b_rel {n} (q' x l) (Ls[i := xs @ ys])"
proof -
  note d = b_rel_D [OF rel]
  obtain x l where l: "DL_DELETE p n (b_links q) = Some (x, l)"
    "DLs l ((b_priorities q @ [b_available q])[i := x]) (Ls[i := xs @ ys])" "dom l = dom (b_links q)"
    "\<forall>j<length Ls. n \<notin> set (Ls[i := xs @ ys] ! j)"
    using DLs_DELETE [OF d(3) i L] heads by auto
  have "length (b_priorities (q' x l)) = PRIORITIES"
    using arg_cong [OF q'(4) [of x l], of length] d(1) by simp
  moreover have n: "n \<notin> set (concat (Ls[i := xs @ ys]))" using l(4) by (simp add: in_concat_nth del: set_concat)
  moreover have "set (concat Ls) = insert n (set (concat (Ls[i := xs @ ys])))"
    unfolding set_concat_update [OF i] L by auto
  moreover have "n \<noteq> NULL" using DLs_nonnull [OF d(3) i, of n] L by simp
  moreover have "\<forall>j<PRIORITIES. \<forall>m\<in>set (Ls[i := xs @ ys] ! j). b_msg q m \<noteq> Some NULL"
    "\<forall>m\<in>set (Ls[i := xs @ ys] ! PRIORITIES). b_msg q m = Some NULL"
  proof -
    have sub: "set (Ls[i := xs @ ys] ! j) \<subseteq> set (Ls ! j)" for j
      using i L by (cases "j = i") auto
    have "\<forall>j<PRIORITIES. \<forall>m\<in>set (Ls ! j). b_msg q m \<noteq> Some NULL"
      "\<forall>m\<in>set (Ls ! PRIORITIES). b_msg q m = Some NULL" using rel unfolding b_rel_def by simp_all
    then show "\<forall>j<PRIORITIES. \<forall>m\<in>set (Ls[i := xs @ ys] ! j). b_msg q m \<noteq> Some NULL"
      "\<forall>m\<in>set (Ls[i := xs @ ys] ! PRIORITIES). b_msg q m = Some NULL" using sub by blast+
  qed
  ultimately have "b_rel {n} (q' x l) (Ls[i := xs @ ys])"
    using rel l(2,3) d(2) unfolding b_rel_def q' by (simp del: set_concat)
  with l(1) show ?thesis by blast
qed

text \<open>Putting a node in transit at the end of list \<open>i\<close>.\<close>

lemma b_rel_append:
  assumes rel: "b_rel {n} q Ls" and i: "i < length Ls"
    and heads: "(b_priorities q @ [b_available q]) ! i = p"
    and msg: "b_msg q n = Some NULL \<longleftrightarrow> i = PRIORITIES"
    and q': "\<And>x l. b_links (q' x l) = l" "\<And>x l. b_msg (q' x l) = b_msg q" "\<And>x l. b_brk (q' x l) = b_brk q"
      "\<And>x l. b_priorities (q' x l) @ [b_available (q' x l)] = (b_priorities q @ [b_available q])[i := x]"
  shows "\<exists>x l. DL_APPEND p n (b_links q) = Some (x, l) \<and> b_rel {} (q' x l) (Ls[i := Ls ! i @ [n]])"
proof -
  note d = b_rel_D [OF rel]
  have n: "b_links q n \<noteq> None" "n \<noteq> NULL" "n \<notin> set (concat Ls)"
    using rel by (auto simp: b_rel_def)
  then obtain x l where l: "DL_APPEND p n (b_links q) = Some (x, l)"
    "DLs l ((b_priorities q @ [b_available q])[i := x]) (Ls[i := Ls ! i @ [n]])" "dom l = dom (b_links q)"
    using DLs_APPEND [OF d(3) i, of n] heads by (auto simp: in_concat_nth simp del: set_concat)
  have "length (b_priorities (q' x l)) = PRIORITIES"
    using arg_cong [OF q'(4) [of x l], of length] d(1) by simp
  moreover have "set (concat (Ls[i := Ls ! i @ [n]])) = insert n (set (concat Ls))"
    unfolding set_concat_update [OF i] by auto
  moreover have "\<forall>j<PRIORITIES. \<forall>m\<in>set (Ls[i := Ls ! i @ [n]] ! j). b_msg q m \<noteq> Some NULL"
    "\<forall>m\<in>set (Ls[i := Ls ! i @ [n]] ! PRIORITIES). b_msg q m = Some NULL"
    using rel d(2) msg i unfolding b_rel_def by (auto simp: nth_list_update)
  ultimately have "b_rel {} (q' x l) (Ls[i := Ls ! i @ [n]])"
    using rel l(2,3) d(2) unfolding b_rel_def q' by (simp del: set_concat)
  with l(1) show ?thesis by blast
qed

lemma b_rel_wr_msg:
  assumes "b_rel {n} q Ls"
  shows "wr_msg q n m = Some (q\<lparr>b_msg := (b_msg q)(n \<mapsto> m)\<rparr>)"
    and "b_rel {n} (q\<lparr>b_msg := (b_msg q)(n \<mapsto> m)\<rparr>) Ls"
    and "abs_of ((b_msg q)(n \<mapsto> m)) Ls = abs_of (b_msg q) Ls"
proof -
  have dom: "dom (b_msg q) = insert n (set (concat Ls))" "dom (b_links q) = insert n (set (concat Ls))"
    "n \<notin> set (concat Ls)" and len: "length Ls = Suc PRIORITIES"
    using assms unfolding b_rel_def by (simp_all del: set_concat)
  have "n \<in> dom (b_msg q)" using dom by auto
  then show "wr_msg q n m = Some (q\<lparr>b_msg := (b_msg q)(n \<mapsto> m)\<rparr>)" by (auto simp: wr_msg_def)
  have no: "n \<notin> set (Ls ! j)" if "j < Suc PRIORITIES" for j
    using dom(3) that len by (auto simp: in_concat_nth simp del: set_concat)
  have "x \<noteq> n" if "j < Suc PRIORITIES" "x \<in> set (Ls ! j)" for j x using no that by blast
  then have "\<forall>j<PRIORITIES. \<forall>x\<in>set (Ls ! j). ((b_msg q)(n \<mapsto> m)) x \<noteq> Some NULL"
    "\<forall>x\<in>set (Ls ! PRIORITIES). ((b_msg q)(n \<mapsto> m)) x = Some NULL"
    using assms by (auto simp: b_rel_def less_Suc_eq)
  then show "b_rel {n} (q\<lparr>b_msg := (b_msg q)(n \<mapsto> m)\<rparr>) Ls"
    using assms dom unfolding b_rel_def by (simp add: insert_absorb del: set_concat)
  show "abs_of ((b_msg q)(n \<mapsto> m)) Ls = abs_of (b_msg q) Ls"
    using dom(3) by (auto simp: abs_of_def intro!: msgs_of_frame dest!: in_set_takeD)
qed

section \<open>The operations refine the abstract queue\<close>

lemma PRIORITIES_nth:
  assumes "b_rel F q Ls"
  shows "(b_priorities q @ [b_available q]) ! PRIORITIES = b_available q"
    and "i < PRIORITIES \<Longrightarrow> (b_priorities q @ [b_available q]) ! i = b_priorities q ! i"
    and "(b_priorities q @ [b_available q])[PRIORITIES := x] = b_priorities q @ [x]"
    and "i < PRIORITIES \<Longrightarrow> (b_priorities q @ [b_available q])[i := x] = (b_priorities q)[i := x] @ [b_available q]"
  using b_rel_D(1) [OF assms] by (simp_all add: nth_append list_update_append)

lemma b_rel_head:
  assumes "b_rel F q Ls" and "i < PRIORITIES"
  shows "arr_get (b_priorities q) i = Some (b_priorities q ! i)"
    and "b_priorities q ! i = NULL \<longleftrightarrow> Ls ! i = []"
    and "arr_set (b_priorities q) i x = Some ((b_priorities q)[i := x])"
    and "DL (b_links q) (b_priorities q ! i) (Ls ! i)"
  using assms b_rel_D [OF assms(1)] DLs_DL [OF b_rel_D(3) [OF assms(1)], of i] PRIORITIES_nth(2) [OF assms]
    DL_null_iff [of "b_links q" "b_priorities q ! i" "Ls ! i"] by simp_all

lemma b_rel_avail_null: "b_rel F q Ls \<Longrightarrow> b_available q = NULL \<longleftrightarrow> Ls ! PRIORITIES = []"
  using DLs_DL [OF b_rel_D(3), of F q Ls PRIORITIES] PRIORITIES_nth(1) [of F q Ls] b_rel_D(2) [of F q Ls]
    DL_null_iff by fastforce

lemma b_rel_msg:
  assumes "b_rel F q Ls" and "i < PRIORITIES" and "n \<in> set (Ls ! i)"
  obtains m where "b_msg q n = Some m" and "m \<noteq> NULL"
proof -
  have "n \<in> set (concat Ls)"
    unfolding in_concat_nth using assms(2,3) b_rel_D(2) [OF assms(1)] by (intro exI [of _ i]) simp
  then have "n \<in> dom (b_msg q)" using assms(1) unfolding b_rel_def by simp
  moreover have "b_msg q n \<noteq> Some NULL" using assms unfolding b_rel_def by blast
  ultimately show ?thesis using that by auto
qed

lemma get_available_ok:
  assumes rel: "b_rel {} q Ls" and L: "Ls ! PRIORITIES = n # r"
  shows "\<exists>x l. bqueue_get_available q p h = Some (PS_QUEUE_OK, n, q\<lparr>b_links := l, b_available := x\<rparr>, h)
      \<and> b_rel {n} (q\<lparr>b_links := l, b_available := x\<rparr>) (Ls[PRIORITIES := r])"
proof -
  have i: "PRIORITIES < length Ls" using b_rel_D(2) [OF rel] by simp
  have dl: "DL (b_links q) (b_available q) (n # r)"
    using DLs_DL [OF b_rel_D(3) [OF rel] i] L PRIORITIES_nth(1) [OF rel] by simp
  then have head: "b_available q = n" "n \<noteq> NULL" using DL_head [OF dl] DL_nonnull [OF dl] by simp_all
  have "\<exists>x l. DL_DELETE (b_available q) n (b_links q) = Some (x, l)
      \<and> b_rel {n} (q\<lparr>b_links := l, b_available := x\<rparr>) (Ls[PRIORITIES := [] @ r])"
    by (rule b_rel_delete [OF rel i]) (simp_all add: L PRIORITIES_nth [OF rel])
  then obtain x l where l: "DL_DELETE (b_available q) n (b_links q) = Some (x, l)"
    "b_rel {n} (q\<lparr>b_links := l, b_available := x\<rparr>) (Ls[PRIORITIES := r])" by auto
  then have "bqueue_get_available q p h = Some (PS_QUEUE_OK, n, q\<lparr>b_links := l, b_available := x\<rparr>, h)"
    using head by (simp add: bqueue_get_available_def Let_def)
  with l(2) show ?thesis by blast
qed

text \<open>Dropping the last message of bucket \<open>i\<close>.\<close>

lemma b_drop_step:
  assumes rel: "b_rel {} q Ls" and i: "i < PRIORITIES" and L: "Ls ! i = xs @ [n]"
  shows "\<exists>x l. (let q' = q\<lparr>b_msg := (b_msg q)(n \<mapsto> NULL), b_links := l, b_priorities := (b_priorities q)[i := x]\<rparr> in
      (\<forall>is h. b_drop_loop (i # is) q h
         = map_option (\<lambda>h'. (PS_QUEUE_EOVERFLOW, n, q', h')) (ps_unref_msg (the (b_msg q n)) h))
      \<and> b_rel {n} q' (Ls[i := xs]) \<and> abs_of (b_msg q') (Ls[i := xs]) = abs_of (b_msg q) (Ls[i := xs]))"
proof -
  note hd = b_rel_head [OF rel i]
  have i': "i < length Ls" using b_rel_D(2) [OF rel] i by simp
  obtain m where m: "b_msg q n = Some m" using b_rel_msg [OF rel i, of n] L by auto
  obtain x l where l: "DL_DELETE (b_priorities q ! i) n (b_links q) = Some (x, l)"
    "b_rel {n} (q\<lparr>b_links := l, b_priorities := (b_priorities q)[i := x]\<rparr>) (Ls[i := xs])"
    using b_rel_delete [OF rel i', of xs n "[]" "b_priorities q ! i"
        "\<lambda>x l. q\<lparr>b_links := l, b_priorities := (b_priorities q)[i := x]\<rparr>"]
    by (auto simp: L PRIORITIES_nth [OF rel] i)
  let ?q = "q\<lparr>b_msg := (b_msg q)(n \<mapsto> NULL), b_links := l, b_priorities := (b_priorities q)[i := x]\<rparr>"
  have "b_rel {n} ?q (Ls[i := xs])"
    using b_rel_wr_msg(2) [OF l(2), of NULL] by (cases q) simp
  moreover have "abs_of (b_msg ?q) (Ls[i := xs]) = abs_of (b_msg q) (Ls[i := xs])"
    using b_rel_wr_msg(3) [OF l(2), of NULL] by simp
  moreover have "rd_prev (b_links q) (b_priorities q ! i) = Some n"
    using DL_head_prev [OF hd(4)] L by simp
  then have "b_drop_loop (i # is) q h = map_option (\<lambda>h'. (PS_QUEUE_EOVERFLOW, n, ?q, h')) (ps_unref_msg (the (b_msg q n)) h)" for "is" h
    using hd l(1) m L by (cases "ps_unref_msg m h") (simp_all add: wr_msg_def)
  ultimately show ?thesis by (auto simp: Let_def)
qed

lemma b_drop_skip:
  "b_rel {} q Ls \<Longrightarrow> (\<And>i. i \<in> set is \<Longrightarrow> i < PRIORITIES) \<Longrightarrow>
   b_drop_loop is q h = (case find (\<lambda>i. Ls ! i \<noteq> []) is of
       None \<Rightarrow> Some (PS_QUEUE_EFULL, NULL, q, h) | Some i \<Rightarrow> b_drop_loop [i] q h)"
  by (induction "is") (auto simp: b_rel_head simp del: neq0_conv)

lemma b_insert_ok:
  assumes rel: "b_rel {n} q Ls" and p: "unat p < PRIORITIES" and m: "m \<noteq> NULL"
  shows "\<exists>q'. (do { q \<leftarrow> wr_msg q n m; bqueue_insert q n p }) = Some q' \<and> b_rel {} q' (Ls[unat p := Ls ! unat p @ [n]])
      \<and> b_mux q' = b_mux q \<and> b_not_empty q' = b_not_empty q
      \<and> abs_of (b_msg q') (Ls[unat p := Ls ! unat p @ [n]]) =
          (let (bs, k) = abs_of (b_msg q) Ls in (bs[unat p := bs ! unat p @ [m]], k))"
proof -
  note wr = b_rel_wr_msg [OF rel, of m]
  let ?q = "q\<lparr>b_msg := (b_msg q)(n \<mapsto> m)\<rparr>"
  have p': "unat p < length Ls" using b_rel_D(2) [OF rel] p by simp
  obtain x l where l: "DL_APPEND (b_priorities q ! unat p) n (b_links q) = Some (x, l)"
    "b_rel {} (?q\<lparr>b_links := l, b_priorities := (b_priorities q)[unat p := x]\<rparr>) (Ls[unat p := Ls ! unat p @ [n]])"
    using b_rel_append [OF wr(2) p', of "b_priorities q ! unat p"
        "\<lambda>x l. ?q\<lparr>b_links := l, b_priorities := (b_priorities q)[unat p := x]\<rparr>"] m p
    by (auto simp: PRIORITIES_nth [OF wr(2)] PRIORITIES_nth [OF rel])
  note len = b_rel_D(2) [OF rel]
  have nth: "fst (abs_of f Ls) ! unat p = msgs_of f (Ls ! unat p)" for f
    using p len by (simp add: abs_of_def)
  show ?thesis
    using l b_rel_head [OF rel p] wr(1)
    by (auto simp: bqueue_insert_def abs_of_update [OF len] p wr(3) nth Let_def split: prod.splits
        simp flip: nth)
qed

lemma b_inv_D:
  assumes "b_inv q"
  shows "b_rel {} q (b_nodes q)" "\<not> b_mux q" "b_abs q = abs_of (b_msg q) (b_nodes q)"
    "b_not_empty q = length (concat (fst (b_abs q)))" "length (fst (b_abs q)) = PRIORITIES"
    "length (b_nodes q) = Suc PRIORITIES"
    "\<And>i. i < PRIORITIES \<Longrightarrow> fst (b_abs q) ! i = msgs_of (b_msg q) (b_nodes q ! i)"
    "snd (b_abs q) = length (b_nodes q ! PRIORITIES)"
proof -
  show r: "b_rel {} q (b_nodes q)" using assms by (simp add: b_inv_def)
  note b_rel_D(2) [OF r]
  then show "length (fst (b_abs q)) = PRIORITIES" "length (b_nodes q) = Suc PRIORITIES"
    "\<And>i. i < PRIORITIES \<Longrightarrow> fst (b_abs q) ! i = msgs_of (b_msg q) (b_nodes q ! i)"
    "snd (b_abs q) = length (b_nodes q ! PRIORITIES)"
    by (simp_all add: b_abs_def abs_of_def)
qed (use assms in \<open>simp_all add: b_inv_def b_abs_def\<close>)

lemma b_invI:
  assumes "b_rel {} q Ls" "\<not> b_mux q" "abs_of (b_msg q) Ls = s"
    "b_not_empty q = length (concat (fst s))" "length (concat (fst s)) + snd s \<le> SEM_VALUE_MAX"
  shows "b_inv q \<and> b_abs q = s"
  using assms b_rel_D(4,5) [OF assms(1)] by (simp add: b_inv_def)

lemma length_concat_update:
  "i < length bs \<Longrightarrow> length (concat (bs[i := X])) + length (bs ! i) = length (concat bs) + length X"
  by (simp only: concat_list_update concat_split_nth [of i bs] length_append)

text \<open>A push that is rejected changes nothing at all.\<close>

lemma b_push_rejected:
  assumes inv: "b_inv q" and p: "unat p < PRIORITIES" and none: "snd (b_abs q) = 0" "victim (fst (b_abs q)) (unat p) = None"
  shows "b_queue_push q m p h = Some (PS_QUEUE_EFULL, q, h)"
proof -
  note d = b_inv_D [OF inv]
  let ?q = "q\<lparr>b_mux := True\<rparr>" and ?Ls = "b_nodes q"
  have rel: "b_rel {} ?q ?Ls" using d(1) by (simp add: b_rel_def)
  have av: "b_available ?q = NULL" using b_rel_avail_null [OF rel] d(8) none(1) by simp
  have "find (\<lambda>i. ?Ls ! i \<noteq> []) [0..<unat p] = victim (fst (b_abs q)) (unat p)"
    unfolding victim_def using p d(7) by (intro find_cong) auto
  then have "bqueue_get_available ?q p h = Some (PS_QUEUE_EFULL, NULL, ?q, h)"
    unfolding bqueue_get_available_def using av p b_drop_skip [OF rel, of "[0..<unat p]" h] none(2) by simp
  then show ?thesis
    using d(2) unfolding b_queue_push_def by (cases q) (simp add: mutex_defs Let_def)
qed

lemma b_queue_push_refines:
  assumes inv: "b_inv q" and m: "m \<noteq> NULL" and p: "unat p < PRIORITIES"
    and spec: "spec_push (b_abs q) m (unat p) = (r, dropped, s')"
  shows "\<exists>q'. b_inv q' \<and> b_abs q' = s' \<and>
     b_queue_push q m p h = map_option (\<lambda>h'. (r, q', h')) (case dropped of None \<Rightarrow> Some h | Some e \<Rightarrow> ps_unref_msg e h)"
proof -
  note d = b_inv_D [OF inv]
  obtain bs k where abs: "b_abs q = (bs, k)" by (cases "b_abs q")
  have abs': "abs_of (b_msg q) (b_nodes q) = (bs, k)" using d(3) abs by simp
  let ?q = "q\<lparr>b_mux := True\<rparr>" and ?Ls = "b_nodes q"
  have rel: "b_rel {} ?q ?Ls" using d(1) by (simp add: b_rel_def)
  have lbs: "length bs = PRIORITIES" using d(5) abs by simp
  have max: "length (concat bs) + k \<le> SEM_VALUE_MAX" using inv abs by (simp add: b_inv_def)
  consider (ok) n r' where "?Ls ! PRIORITIES = n # r'" | (full) "?Ls ! PRIORITIES = []"
    by (cases "?Ls ! PRIORITIES") auto
  then show ?thesis
  proof cases
    case ok
    then have k: "k = Suc (length r')" using d(8) abs by simp
    then have r: "r = PS_QUEUE_OK" "dropped = None" "s' = (bs[unat p := bs ! unat p @ [m]], k - 1)"
      using spec abs by (simp_all add: spec_push_def)
    obtain x l where av: "bqueue_get_available ?q p h = Some (PS_QUEUE_OK, n, ?q\<lparr>b_links := l, b_available := x\<rparr>, h)"
      "b_rel {n} (?q\<lparr>b_links := l, b_available := x\<rparr>) (?Ls[PRIORITIES := r'])"
      using get_available_ok [OF rel ok] by blast
    obtain q2 where q2: "(do { q \<leftarrow> wr_msg (?q\<lparr>b_links := l, b_available := x\<rparr>) n m; bqueue_insert q n p }) = Some q2"
      "b_rel {} q2 (?Ls[PRIORITIES := r', unat p := ?Ls[PRIORITIES := r'] ! unat p @ [n]])"
      "b_mux q2" "b_not_empty q2 = b_not_empty q"
      "abs_of (b_msg q2) (?Ls[PRIORITIES := r', unat p := ?Ls[PRIORITIES := r'] ! unat p @ [n]]) = s'"
      using b_insert_ok [OF av(2) p m] d(6) abs' k r(3) by (auto simp: abs_of_update Let_def)
    let ?q' = "q2\<lparr>b_not_empty := length (concat bs) + 1, b_mux := False\<rparr>"
    have sem: "semaphore_post (b_not_empty q2) = (0, length (concat bs) + 1)"
      using max k q2(4) d(4) abs by (simp add: semaphore_post_def)
    have rel': "b_rel {} ?q' (?Ls[PRIORITIES := r', unat p := ?Ls[PRIORITIES := r'] ! unat p @ [n]])"
      using q2(2) by (simp add: b_rel_def)
    have "b_inv ?q' \<and> b_abs ?q' = s'"
      using length_concat_update [of "unat p" bs "bs ! unat p @ [m]"] lbs p max k r(3) q2(5)
      by (intro b_invI [OF rel']) simp_all
    moreover have "b_queue_push q m p h = Some (PS_QUEUE_OK, ?q', h)"
      using d(2) av(1) q2(1,3) sem unfolding b_queue_push_def
      by (elim bind_Some_E) (simp add: mutex_defs Let_def queue_codes)
    ultimately show ?thesis using r by auto
  next
    case full
    then have k: "k = 0" using d(8) abs by simp
    have av: "b_available ?q = NULL" using b_rel_avail_null [OF rel] full by simp
    have vict: "victim bs (unat p) = find (\<lambda>i. ?Ls ! i \<noteq> []) [0..<unat p]"
      unfolding victim_def using p d(7) abs by (intro find_cong) auto
    have skip: "bqueue_get_available ?q p h = (case victim bs (unat p) of
       None \<Rightarrow> Some (PS_QUEUE_EFULL, NULL, ?q, h) | Some i \<Rightarrow> b_drop_loop [i] ?q h)"
      unfolding bqueue_get_available_def vict using av p b_drop_skip [OF rel, of "[0..<unat p]" h] by simp
    show ?thesis
    proof (cases "victim bs (unat p)")
      case None
      then have r: "r = PS_QUEUE_EFULL" "dropped = None" "s' = (bs, k)"
        using spec abs k by (simp_all add: spec_push_def)
      have "b_queue_push q m p h = Some (PS_QUEUE_EFULL, q, h)"
        using b_push_rejected [OF inv p] abs k None by simp
      then show ?thesis using inv abs r by auto
    next
      case (Some i)
      then have i: "i < unat p" "?Ls ! i \<noteq> []" unfolding vict by (auto simp: find_Some_iff)
      then obtain xs n where L: "?Ls ! i = xs @ [n]" by (meson rev_exhaust)
      have iP: "i < PRIORITIES" using i(1) p by simp
      have bi: "bs ! i = msgs_of (b_msg q) xs @ [the (b_msg q n)]" using d(7) [OF iP] abs L by simp
      then have r: "r = PS_QUEUE_EOVERFLOW" "dropped = Some (the (b_msg q n))"
        "s' = (bs[i := msgs_of (b_msg q) xs, unat p := bs ! unat p @ [m]], k)"
        using spec abs Some k by (simp_all add: spec_push_def)
      obtain x l where q1: "b_rel {n} (?q\<lparr>b_msg := (b_msg q)(n \<mapsto> NULL), b_links := l, b_priorities := (b_priorities q)[i := x]\<rparr>) (?Ls[i := xs])"
        "abs_of ((b_msg q)(n \<mapsto> NULL)) (?Ls[i := xs]) = abs_of (b_msg q) (?Ls[i := xs])"
        "b_drop_loop [i] ?q h = map_option (\<lambda>h'. (PS_QUEUE_EOVERFLOW, n,
           ?q\<lparr>b_msg := (b_msg q)(n \<mapsto> NULL), b_links := l, b_priorities := (b_priorities q)[i := x]\<rparr>, h'))
           (ps_unref_msg (the (b_msg q n)) h)"
        using b_drop_step [OF rel iP L] by (auto simp: Let_def)
      let ?q1 = "?q\<lparr>b_msg := (b_msg q)(n \<mapsto> NULL), b_links := l, b_priorities := (b_priorities q)[i := x]\<rparr>"
      have nth: "bs[i := msgs_of (b_msg q) xs] ! unat p = bs ! unat p" using i(1) by simp
      obtain q2 where q2: "(do { q \<leftarrow> wr_msg ?q1 n m; bqueue_insert q n p }) = Some q2"
        "b_rel {} q2 (?Ls[i := xs, unat p := ?Ls[i := xs] ! unat p @ [n]])"
        "b_mux q2" "b_not_empty q2 = b_not_empty q"
        "abs_of (b_msg q2) (?Ls[i := xs, unat p := ?Ls[i := xs] ! unat p @ [n]]) = s'"
        using b_insert_ok [OF q1(1) p m] d(6) abs' r(3) iP q1(2) nth by (auto simp: abs_of_update Let_def)
      let ?q' = "q2\<lparr>b_mux := False\<rparr>"
      have rel': "b_rel {} ?q' (?Ls[i := xs, unat p := ?Ls[i := xs] ! unat p @ [n]])"
        using q2(2) by (simp add: b_rel_def)
      have len: "length (concat (fst s')) = length (concat bs)"
        using length_concat_update [of "unat p" "bs[i := msgs_of (b_msg q) xs]" "bs ! unat p @ [m]"]
          length_concat_update [of i bs "msgs_of (b_msg q) xs"] lbs p iP nth bi r(3) by simp
      have "b_inv ?q' \<and> b_abs ?q' = s'"
        using len max d(4) abs r(3) q2(4,5) by (intro b_invI [OF rel']) simp_all
      moreover have "b_queue_push q m p h = map_option (\<lambda>h'. (PS_QUEUE_EOVERFLOW, ?q', h')) (ps_unref_msg (the (b_msg q n)) h)"
        using d(2) skip Some q1(3) q2(1,3) unfolding b_queue_push_def
        by (cases "ps_unref_msg (the (b_msg q n)) h"; elim bind_Some_E)
           (simp_all add: mutex_defs Let_def queue_codes)
      ultimately show ?thesis using r by auto
    qed
  qed
qed

lemma b_get_step:
  assumes rel: "b_rel {} q Ls" and i: "i < PRIORITIES" and L: "Ls ! i = n # xs"
  shows "\<exists>q'. b_get_loop (i # is) q = Some (the (b_msg q n), q') \<and> b_rel {} q' (Ls[i := xs, PRIORITIES := Ls ! PRIORITIES @ [n]])
      \<and> b_mux q' = b_mux q \<and> b_not_empty q' = b_not_empty q
      \<and> abs_of (b_msg q') (Ls[i := xs, PRIORITIES := Ls ! PRIORITIES @ [n]])
         = ((fst (abs_of (b_msg q) Ls))[i := msgs_of (b_msg q) xs], snd (abs_of (b_msg q) Ls) + 1)"
proof -
  note hd = b_rel_head [OF rel i] and len = b_rel_D(2) [OF rel]
  have i': "i < length Ls" "i \<noteq> PRIORITIES" using len i by simp_all
  have head: "b_priorities q ! i = n" "n \<noteq> NULL"
    using DL_head [OF hd(4)] DL_nonnull [OF hd(4), of n] L by simp_all
  obtain m where m: "b_msg q n = Some m" using b_rel_msg [OF rel i, of n] L by auto
  let ?del = "\<lambda>x l. q\<lparr>b_links := l, b_priorities := (b_priorities q)[i := x]\<rparr>"
  obtain x l where l: "DL_DELETE n n (b_links q) = Some (x, l)" "b_rel {n} (?del x l) (Ls[i := xs])"
    using b_rel_delete [OF rel i'(1), of "[]" n xs n ?del] head by (auto simp: L PRIORITIES_nth [OF rel] i)
  note wr = b_rel_wr_msg [OF l(2), of NULL]
  let ?q1 = "(?del x l)\<lparr>b_msg := (b_msg q)(n \<mapsto> NULL)\<rparr>"
  let ?Ls = "Ls[i := xs, PRIORITIES := Ls ! PRIORITIES @ [n]]"
  have rel1: "b_rel {n} ?q1 (Ls[i := xs])" using wr(2) by simp
  let ?app = "\<lambda>y l2. ?q1\<lparr>b_links := l2, b_available := y\<rparr>"
  obtain y l2 where l2: "DL_APPEND (b_available q) n l = Some (y, l2)" "b_rel {} (?app y l2) ?Ls"
    using b_rel_append [OF rel1, of PRIORITIES "b_available q" ?app] len i'(2)
    by (auto simp: PRIORITIES_nth [OF rel1] nth_append list_update_append b_rel_D(1) [OF rel])
  have "b_get_loop (i # is) q = Some (m, ?app y l2)"
    using hd head m l(1) wr(1) l2(1) by (simp add: Let_def)
  moreover have "abs_of ((b_msg q)(n \<mapsto> NULL)) ?Ls = ((fst (abs_of (b_msg q) Ls))[i := msgs_of (b_msg q) xs], snd (abs_of (b_msg q) Ls) + 1)"
    using wr(3) len i i'(2) by (simp add: abs_of_update) (simp add: abs_of_def)
  ultimately show ?thesis using l2(2) m by auto
qed

lemma b_get_skip:
  "b_rel {} q Ls \<Longrightarrow> (\<And>i. i \<in> set is \<Longrightarrow> i < PRIORITIES) \<Longrightarrow>
   b_get_loop is q = (case find (\<lambda>i. Ls ! i \<noteq> []) is of
       None \<Rightarrow> Some (NULL, q) | Some i \<Rightarrow> b_get_loop [i] q)"
  by (induction "is") (auto simp: b_rel_head simp del: neq0_conv)

lemma highest_nodes:
  assumes "b_inv q"
  shows "highest (fst (b_abs q)) = find (\<lambda>i. b_nodes q ! i \<noteq> []) (rev [0..<PRIORITIES])"
  unfolding highest_def using b_inv_D(7) [OF assms] by (intro find_cong) auto

lemma highest_None_iff: "length bs = PRIORITIES \<Longrightarrow> highest bs = None \<longleftrightarrow> concat bs = []"
  by (auto simp: highest_def find_None_iff in_set_conv_nth) (metis nth_mem)

lemma highest_Some: "highest bs = Some i \<Longrightarrow> i < PRIORITIES \<and> bs ! i \<noteq> []"
  by (auto simp: highest_def find_Some_iff rev_nth)

lemma b_queue_pull_refines:
  assumes inv: "b_inv q" and ne: "concat (fst (b_abs q)) \<noteq> []"
    and spec: "spec_pull (b_abs q) = (m, s')"
  shows "\<exists>q'. b_queue_pull q t = Some (m, q') \<and> b_inv q' \<and> b_abs q' = s'"
proof -
  note d = b_inv_D [OF inv]
  obtain bs k where abs: "b_abs q = (bs, k)" by (cases "b_abs q")
  have abs': "abs_of (b_msg q) (b_nodes q) = (bs, k)" using d(3) abs by simp
  let ?n = "length (concat bs)" and ?Ls = "b_nodes q"
  have lbs: "length bs = PRIORITIES" and ne': "concat bs \<noteq> []" using d(5) abs ne by simp_all
  then obtain i where hi: "highest bs = Some i" using highest_None_iff [OF lbs] by auto
  then have i: "i < PRIORITIES" "bs ! i \<noteq> []" using highest_Some by blast+
  have bi: "bs ! i = msgs_of (b_msg q) (?Ls ! i)" using d(7) [OF i(1)] abs by simp
  then obtain n xs where L: "?Ls ! i = n # xs" using i(2) by (cases "?Ls ! i") auto
  have r: "m = the (b_msg q n)" "s' = (bs[i := msgs_of (b_msg q) xs], k + 1)"
    using spec abs hi bi L by (simp_all add: spec_pull_def)
  let ?q = "q\<lparr>b_not_empty := ?n - 1, b_mux := True\<rparr>"
  have rel: "b_rel {} ?q ?Ls" using d(1) by (simp add: b_rel_def)
  obtain q' where q': "b_get_loop [i] ?q = Some (m, q')" "b_rel {} q' (?Ls[i := xs, PRIORITIES := ?Ls ! PRIORITIES @ [n]])"
    "b_mux q'" "b_not_empty q' = ?n - 1" "abs_of (b_msg q') (?Ls[i := xs, PRIORITIES := ?Ls ! PRIORITIES @ [n]]) = s'"
    using b_get_step [OF rel i(1) L, of "[]"] r abs' by auto
  have "bqueue_get ?q = Some (m, q')"
  proof -
    have "find (\<lambda>i. ?Ls ! i \<noteq> []) (rev [0..<PRIORITIES]) = Some i"
      using highest_nodes [OF inv] abs hi by simp
    then show ?thesis
      unfolding bqueue_get_def using b_get_skip [OF rel, of "rev [0..<PRIORITIES]"] q'(1)
      by (simp del: b_get_loop.simps)
  qed
  moreover have "0 < ?n" using ne' by (simp del: length_concat)
  ultimately have run: "b_queue_pull q t = Some (m, q'\<lparr>b_mux := False\<rparr>)"
    using d(2,4) abs q'(3) by (simp add: b_queue_pull_def mutex_defs Let_def del: length_concat)
  have "length (concat (bs[i := msgs_of (b_msg q) xs])) = ?n - 1"
    using length_concat_update [of i bs "msgs_of (b_msg q) xs"] lbs i(1) bi L by (simp del: length_concat)
  moreover have "?n + k \<le> SEM_VALUE_MAX" using inv abs by (simp add: b_inv_def)
  moreover have "b_rel {} (q'\<lparr>b_mux := False\<rparr>) (?Ls[i := xs, PRIORITIES := ?Ls ! PRIORITIES @ [n]])"
    using q'(2) by (simp add: b_rel_def)
  ultimately have "b_inv (q'\<lparr>b_mux := False\<rparr>) \<and> b_abs (q'\<lparr>b_mux := False\<rparr>) = s'"
    using q' r \<open>0 < ?n\<close> by (intro b_invI) (simp_all del: length_concat length_greater_0_conv)
  with run show ?thesis by blast
qed

lemma b_queue_pull_empty:
  assumes "b_inv q" and "concat (fst (b_abs q)) = []" and "\<not> pull_timeout t <s 0"
  shows "b_queue_pull q t = Some (NULL, q)"
proof -
  have z: "b_not_empty q = 0" using b_inv_D(4) [OF assms(1)] assms(2) by (simp del: length_concat concat_eq_Nil_conv)
  have "q\<lparr>b_not_empty := b_not_empty q\<rparr> = q" by simp
  then show ?thesis using z assms(3) by (simp add: b_queue_pull_def semaphore_wait_zero Let_def)
qed

section \<open>Creating and freeing\<close>

lemma b_new_nodes_ok:
  assumes "b_rel {} q Ls"
  shows "\<exists>q' ns. b_new_nodes k q = Some q' \<and> b_rel {} q' (Ls[PRIORITIES := Ls ! PRIORITIES @ ns]) \<and> length ns = k
      \<and> b_mux q' = b_mux q \<and> b_not_empty q' = b_not_empty q
      \<and> abs_of (b_msg q') (Ls[PRIORITIES := Ls ! PRIORITIES @ ns]) = (fst (abs_of (b_msg q) Ls), snd (abs_of (b_msg q) Ls) + k)"
  using assms
proof (induction k arbitrary: q Ls)
  case 0
  then show ?case by (intro exI [of _ q] exI [of _ "[]"]) (simp add: abs_of_def)
next
  case (Suc k)
  note len = b_rel_D(1,2) [OF Suc.prems]
  let ?n = "b_brk q"
  let ?q1 = "snd (calloc_node q)"
  have n: "?n \<notin> set (concat Ls)" "?n \<noteq> NULL" "?n \<notin> dom (b_links q)"
    using Suc.prems unfolding b_rel_def by (auto simp del: set_concat)
  have no: "\<forall>i<length Ls. ?n \<notin> set (Ls ! i)" using n(1) by (simp add: in_concat_nth del: set_concat)
  have frame: "DLs (b_links ?q1) (b_priorities q @ [b_available q]) Ls"
  proof -
    have "DL (b_links ?q1) p (Ls ! i) = DL (b_links q) p (Ls ! i)" if "i < length Ls" for p i
      using no that by (intro DL_frame) (auto simp: calloc_node_def Let_def)
    then show ?thesis using b_rel_D(3) [OF Suc.prems] by (simp add: DLs_def)
  qed
  have abs1: "abs_of (b_msg ?q1) Ls = abs_of (b_msg q) Ls"
    using n(1) by (auto simp: abs_of_def calloc_node_def Let_def intro!: msgs_of_frame dest!: in_set_takeD)
  have msgs: "\<forall>j<PRIORITIES. \<forall>x\<in>set (Ls ! j). b_msg ?q1 x \<noteq> Some NULL"
    "\<forall>x\<in>set (Ls ! PRIORITIES). b_msg ?q1 x = Some NULL"
    using Suc.prems no len by (auto simp: b_rel_def calloc_node_def Let_def)
  have rel1: "b_rel {?n} ?q1 Ls"
    using Suc.prems frame msgs n unfolding b_rel_def
    by (simp add: calloc_node_def Let_def less_Suc_eq del: set_concat)
  let ?app = "\<lambda>x l. ?q1\<lparr>b_links := l, b_available := x\<rparr>"
  obtain x l where l: "DL_APPEND (b_available q) ?n (b_links ?q1) = Some (x, l)"
    "b_rel {} (?app x l) (Ls[PRIORITIES := Ls ! PRIORITIES @ [?n]])"
    using b_rel_append [OF rel1, of PRIORITIES "b_available q" ?app] len
    by (auto simp: calloc_node_def Let_def nth_append list_update_append)
  have absl: "abs_of (b_msg (?app x l)) (Ls[PRIORITIES := Ls ! PRIORITIES @ [?n]])
      = (fst (abs_of (b_msg q) Ls), Suc (snd (abs_of (b_msg q) Ls)))"
    using len abs1 by (simp add: abs_of_update) (simp add: abs_of_def)
  let ?Ls = "Ls[PRIORITIES := Ls ! PRIORITIES @ [?n]]"
  obtain q' ns where q0: "b_new_nodes k (?app x l) = Some q' \<and> b_rel {} q' (?Ls[PRIORITIES := ?Ls ! PRIORITIES @ ns])
      \<and> length ns = k \<and> b_mux q' = b_mux (?app x l) \<and> b_not_empty q' = b_not_empty (?app x l)
      \<and> abs_of (b_msg q') (?Ls[PRIORITIES := ?Ls ! PRIORITIES @ ns])
         = (fst (abs_of (b_msg (?app x l)) ?Ls), snd (abs_of (b_msg (?app x l)) ?Ls) + k)"
    using Suc.IH [OF l(2)] by blast
  have "?Ls[PRIORITIES := ?Ls ! PRIORITIES @ ns] = Ls[PRIORITIES := Ls ! PRIORITIES @ ?n # ns]" using len by simp
  then have q': "b_new_nodes k (?app x l) = Some q'"
    "b_rel {} q' (Ls[PRIORITIES := Ls ! PRIORITIES @ ?n # ns])" "length ns = k"
    "b_mux q' = b_mux q" "b_not_empty q' = b_not_empty q"
    "abs_of (b_msg q') (Ls[PRIORITIES := Ls ! PRIORITIES @ ?n # ns]) = (fst (abs_of (b_msg q) Ls), snd (abs_of (b_msg q) Ls) + Suc k)"
    using q0 unfolding absl by (simp_all add: calloc_node_def Let_def)
  have "b_new_nodes (Suc k) q = Some q'" using l(1) q'(1) by (simp add: calloc_node_def Let_def)
  then show ?case using q' by (intro exI [of _ q'] exI [of _ "?n # ns"]) simp
qed

lemma b_new_queue_ok:
  assumes "n \<le> SEM_VALUE_MAX"
  shows "\<exists>q. b_new_queue n = Some q \<and> b_inv q \<and> b_abs q = (replicate PRIORITIES [], n)"
proof -
  let ?q = "\<lparr>b_links = Map.empty, b_msg = Map.empty, b_brk = 1, b_priorities = replicate PRIORITIES NULL,
             b_available = NULL, b_mux = mutex_init, b_not_empty = semaphore_init 0\<rparr>"
  let ?Ls = "replicate (Suc PRIORITIES) [] :: addr list list"
  have heads: "replicate PRIORITIES NULL @ [NULL] = replicate (Suc PRIORITIES) (NULL :: addr)"
    by (simp add: replicate_append_same)
  have "DLs Map.empty (replicate PRIORITIES NULL @ [NULL]) ?Ls"
    unfolding DLs_def heads by (simp del: replicate_Suc)
  moreover have "set (concat ?Ls) = {}" by simp
  ultimately have rel: "b_rel {} ?q ?Ls" unfolding b_rel_def by (simp del: replicate_Suc set_concat)
  have abs0: "abs_of Map.empty ?Ls = (replicate PRIORITIES [], 0)"
    by (simp add: abs_of_def del: replicate_Suc)
  obtain q ns where q: "b_new_nodes n ?q = Some q" "b_rel {} q (?Ls[PRIORITIES := ?Ls ! PRIORITIES @ ns])"
    "length ns = n" "b_mux q = b_mux ?q" "b_not_empty q = b_not_empty ?q"
    "abs_of (b_msg q) (?Ls[PRIORITIES := ?Ls ! PRIORITIES @ ns]) = (fst (abs_of (b_msg ?q) ?Ls), snd (abs_of (b_msg ?q) ?Ls) + n)"
    using b_new_nodes_ok [OF rel, of n] by blast
  have "b_inv q \<and> b_abs q = (replicate PRIORITIES [], n)"
    using q(4,5,6) assms abs0
    by (intro b_invI [OF q(2)]) (simp_all add: mutex_defs semaphore_init_def)
  then show ?thesis using q(1) by (simp add: b_new_queue_def)
qed

lemma b_rel_free:
  assumes rel: "b_rel {n} q Ls"
  shows "free_node n q = Some (q\<lparr>b_links := (b_links q)(n := None), b_msg := (b_msg q)(n := None)\<rparr>)"
    and "b_rel {} (q\<lparr>b_links := (b_links q)(n := None), b_msg := (b_msg q)(n := None)\<rparr>) Ls"
proof -
  have dom: "dom (b_links q) = insert n (set (concat Ls))" "dom (b_msg q) = insert n (set (concat Ls))"
    "n \<notin> set (concat Ls)" and len: "length Ls = Suc PRIORITIES"
    using rel unfolding b_rel_def by (simp_all del: set_concat)
  have "n \<in> dom (b_links q)" using dom by simp
  then show "free_node n q = Some (q\<lparr>b_links := (b_links q)(n := None), b_msg := (b_msg q)(n := None)\<rparr>)"
    by (auto simp: free_node_def)
  have no: "n \<notin> set (Ls ! i)" if "i < Suc PRIORITIES" for i
    using dom(3) that len by (simp add: in_concat_nth del: set_concat)
  have "DL ((b_links q)(n := None)) p (Ls ! i) = DL (b_links q) p (Ls ! i)" if "i < length Ls" for p i
    using no that len by (intro DL_frame) auto
  then have "DLs ((b_links q)(n := None)) (b_priorities q @ [b_available q]) Ls"
    using b_rel_D(3) [OF rel] by (simp add: DLs_def)
  moreover have "x \<noteq> n" if "x \<in> set (Ls ! i)" "i < Suc PRIORITIES" for x i using no that by blast
  then have "\<forall>i<PRIORITIES. \<forall>x\<in>set (Ls ! i). ((b_msg q)(n := None)) x \<noteq> Some NULL"
    "\<forall>x\<in>set (Ls ! PRIORITIES). ((b_msg q)(n := None)) x = Some NULL"
    using rel by (auto simp: b_rel_def)
  ultimately show "b_rel {} (q\<lparr>b_links := (b_links q)(n := None), b_msg := (b_msg q)(n := None)\<rparr>) Ls"
    using rel dom unfolding b_rel_def by (simp del: set_concat)
qed

text \<open>One step of the freeing loops: list \<open>i\<close> loses its first node and the node is freed.\<close>

lemma b_free_step:
  assumes rel: "b_rel {} q Ls" and i: "i < length Ls" and L: "Ls ! i = n # xs"
    and heads: "(b_priorities q @ [b_available q]) ! i = p"
    and q': "\<And>x l. b_links (q' x l) = l" "\<And>x l. b_msg (q' x l) = b_msg q" "\<And>x l. b_brk (q' x l) = b_brk q"
      "\<And>x l. b_priorities (q' x l) @ [b_available (q' x l)] = (b_priorities q @ [b_available q])[i := x]"
  shows "\<exists>x l q''. DL_DELETE p n (b_links q) = Some (x, l) \<and> free_node n (q' x l) = Some q'' \<and> b_rel {} q'' (Ls[i := xs])
      \<and> b_msg q'' = (b_msg q)(n := None) \<and> rd_next (b_links q) n = Some (hd_or NULL xs)"
proof -
  obtain x l where l: "DL_DELETE p n (b_links q) = Some (x, l)" "b_rel {n} (q' x l) (Ls[i := xs])"
    using b_rel_delete [OF rel i, of "[]" n xs p q'] L heads q' by auto
  have "DL (b_links q) p (n # xs)" using DLs_DL [OF b_rel_D(3) [OF rel] i] heads L by simp
  then have "rd_next (b_links q) n = Some (hd_or NULL xs)" by (simp add: DL_def rd_next_def)
  then show ?thesis using l b_rel_free [OF l(2)] q'(2) by fastforce
qed

lemma b_rel_head_or:
  "b_rel F q Ls \<Longrightarrow> i < length Ls \<Longrightarrow> (b_priorities q @ [b_available q]) ! i = hd_or NULL (Ls ! i)"
  using DLs_DL [OF b_rel_D(3)] by (simp add: DL_def)

lemma b_rel_distinct: "b_rel F q Ls \<Longrightarrow> i < length Ls \<Longrightarrow> distinct (Ls ! i)"
  using DLs_DL [OF b_rel_D(3)] by (simp add: DL_def)

lemma b_free_bucket_ok:
  "b_rel {} q Ls \<Longrightarrow> i < PRIORITIES \<Longrightarrow> Ls ! i = xs \<Longrightarrow>
   \<exists>q'. (\<forall>h. b_free_bucket i (hd_or NULL xs) q h = map_option (\<lambda>h'. (q', h')) (unref_all (msgs_of (b_msg q) xs) h))
      \<and> b_rel {} q' (Ls[i := []]) \<and> (\<forall>n m. b_msg q' n = Some m \<longrightarrow> b_msg q n = Some m)"
proof (induction xs arbitrary: q Ls)
  case Nil
  then have "Ls[i := []] = Ls" by (metis list_update_id)
  then show ?case using Nil.prems by (intro exI [of _ q]) (simp add: b_free_bucket.simps)
next
  case (Cons n xs)
  note hd = b_rel_head [OF Cons.prems(1,2)]
  have i: "i < length Ls" using b_rel_D(2) [OF Cons.prems(1)] Cons.prems(2) by simp
  have head: "b_priorities q ! i = n" "n \<noteq> NULL"
    using DL_head [OF hd(4)] DL_nonnull [OF hd(4), of n] Cons.prems(3) by simp_all
  obtain m where m: "b_msg q n = Some m" using b_rel_msg [OF Cons.prems(1,2), of n] Cons.prems(3) by auto
  let ?del = "\<lambda>x l. q\<lparr>b_links := l, b_priorities := (b_priorities q)[i := x]\<rparr>"
  obtain x l q1 where l: "DL_DELETE n n (b_links q) = Some (x, l)" "free_node n (?del x l) = Some q1"
    "b_rel {} q1 (Ls[i := xs])" "b_msg q1 = (b_msg q)(n := None)" "rd_next (b_links q) n = Some (hd_or NULL xs)"
    using b_free_step [OF Cons.prems(1) i Cons.prems(3), of n ?del] head
    by (auto simp: PRIORITIES_nth [OF Cons.prems(1)] Cons.prems(2))
  have nxs: "n \<notin> set xs" using b_rel_distinct [OF Cons.prems(1) i] Cons.prems(3) by simp
  obtain q' where q': "\<forall>h. b_free_bucket i (hd_or NULL xs) q1 h = map_option (\<lambda>h'. (q', h')) (unref_all (msgs_of (b_msg q1) xs) h)"
    "b_rel {} q' (Ls[i := []])" "\<forall>n m. b_msg q' n = Some m \<longrightarrow> b_msg q1 n = Some m"
    using Cons.IH [OF l(3) Cons.prems(2)] i by auto
  have "msgs_of (b_msg q1) xs = msgs_of (b_msg q) xs"
    using nxs l(4) by (intro msgs_of_frame) auto
  moreover have "b_free_bucket i n q h = (case ps_unref_msg m h of None \<Rightarrow> None | Some h1 \<Rightarrow> b_free_bucket i (hd_or NULL xs) q1 h1)" for h
    using head m l(1,2,5) hd by (subst b_free_bucket.simps) (cases "ps_unref_msg m h"; simp)
  ultimately have "b_free_bucket i (hd_or NULL (n # xs)) q h = map_option (\<lambda>h'. (q', h')) (unref_all (msgs_of (b_msg q) (n # xs)) h)" for h
    using q'(1) m by (simp split: option.split)
  moreover have "\<forall>n m. b_msg q' n = Some m \<longrightarrow> b_msg q n = Some m" using q'(3) l(4) by (metis fun_upd_apply option.distinct(1))
  ultimately show ?case using q'(2) by blast
qed


lemma b_free_buckets_ok:
  "b_rel {} q Ls \<Longrightarrow> k \<le> PRIORITIES \<Longrightarrow> (\<forall>i<k. Ls ! i = []) \<Longrightarrow>
   \<exists>q'. (\<forall>h. b_free_buckets [k..<PRIORITIES] q h
          = map_option (\<lambda>h'. (q', h')) (unref_all (concat (map (\<lambda>i. msgs_of (b_msg q) (Ls ! i)) [k..<PRIORITIES])) h))
      \<and> b_rel {} q' (replicate PRIORITIES [] @ [Ls ! PRIORITIES])"
proof (induction "PRIORITIES - k" arbitrary: k q Ls)
  case 0
  then have k: "k = PRIORITIES" by simp
  have "Ls = replicate PRIORITIES [] @ [Ls ! PRIORITIES]"
    using 0 k b_rel_D(2) [OF 0(2)] by (intro nth_equalityI) (auto simp: nth_append less_Suc_eq)
  then show ?case using 0 k by (intro exI [of _ q]) simp
next
  case (Suc d)
  then have k: "k < PRIORITIES" by simp
  note len = b_rel_D(2) [OF Suc.prems(1)]
  obtain q1 where q1: "\<forall>h. b_free_bucket k (hd_or NULL (Ls ! k)) q h = map_option (\<lambda>h'. (q1, h')) (unref_all (msgs_of (b_msg q) (Ls ! k)) h)"
    "b_rel {} q1 (Ls[k := []])" "\<forall>n m. b_msg q1 n = Some m \<longrightarrow> b_msg q n = Some m"
    using b_free_bucket_ok [OF Suc.prems(1) k refl] by blast
  have "\<forall>i<Suc k. Ls[k := []] ! i = []" using Suc.prems(3) k len by (auto simp: less_Suc_eq nth_list_update)
  then obtain q' where q': "\<forall>h. b_free_buckets [Suc k..<PRIORITIES] q1 h
        = map_option (\<lambda>h'. (q', h')) (unref_all (concat (map (\<lambda>i. msgs_of (b_msg q1) (Ls[k := []] ! i)) [Suc k..<PRIORITIES])) h)"
    "b_rel {} q' (replicate PRIORITIES [] @ [Ls[k := []] ! PRIORITIES])"
    using Suc.hyps(1) [of "Suc k", OF _ q1(2)] Suc.hyps(2) k by force
  have "msgs_of (b_msg q1) (Ls[k := []] ! i) = msgs_of (b_msg q) (Ls ! i)" if i: "i \<in> set [Suc k..<PRIORITIES]" for i
  proof -
    have eq: "Ls[k := []] ! i = Ls ! i" "i < PRIORITIES" using i by auto
    have "b_msg q1 n = b_msg q n" if "n \<in> set (Ls ! i)" for n
      using b_rel_msg [OF q1(2) eq(2), of n] that q1(3) unfolding eq(1) by metis
    then show ?thesis unfolding eq(1) by (intro msgs_of_frame) auto
  qed
  then have "map (\<lambda>i. msgs_of (b_msg q1) (Ls[k := []] ! i)) [Suc k..<PRIORITIES] = map (\<lambda>i. msgs_of (b_msg q) (Ls ! i)) [Suc k..<PRIORITIES]"
    by (rule map_cong [OF refl])
  note eq = this
  have split: "[k..<PRIORITIES] = k # [Suc k..<PRIORITIES]" using k by (rule upt_conv_Cons)
  have head: "b_priorities q ! k = hd_or NULL (Ls ! k)"
    using b_rel_head_or [OF Suc.prems(1), of k] k len PRIORITIES_nth(2) [OF Suc.prems(1) k] by simp
  have "b_free_buckets [k..<PRIORITIES] q h
      = map_option (\<lambda>h'. (q', h')) (unref_all (concat (map (\<lambda>i. msgs_of (b_msg q) (Ls ! i)) [k..<PRIORITIES])) h)" for h
    unfolding split
    using b_rel_head(1) [OF Suc.prems(1) k] q1(1) q'(1) [unfolded eq] head
    by (cases "unref_all (msgs_of (b_msg q) (Ls ! k)) h") (simp_all add: unref_all_append)
  moreover have "Ls[k := []] ! PRIORITIES = Ls ! PRIORITIES" using k by simp
  ultimately show ?case using q'(2) by metis
qed

lemma b_free_available_ok:
  "b_rel {} q Ls \<Longrightarrow> Ls ! PRIORITIES = xs \<Longrightarrow>
   \<exists>q'. b_free_available (hd_or NULL xs) q = Some q' \<and> b_rel {} q' (Ls[PRIORITIES := []])"
proof (induction xs arbitrary: q Ls)
  case Nil
  then have "Ls[PRIORITIES := []] = Ls" by (metis list_update_id)
  then show ?case using Nil.prems by (intro exI [of _ q]) (simp add: b_free_available.simps)
next
  case (Cons n xs)
  note nth = PRIORITIES_nth [OF Cons.prems(1)]
  have i: "PRIORITIES < length Ls" using b_rel_D(2) [OF Cons.prems(1)] by simp
  have head: "b_available q = n" using b_rel_head_or [OF Cons.prems(1) i] unfolding nth(1) Cons.prems(2) by simp
  have nz: "n \<noteq> NULL" by (rule DLs_nonnull [OF b_rel_D(3) [OF Cons.prems(1)] i]) (simp add: Cons.prems(2))
  let ?del = "\<lambda>x l. q\<lparr>b_links := l, b_available := x\<rparr>"
  have "\<exists>x l q1. DL_DELETE (b_available q) n (b_links q) = Some (x, l) \<and> free_node n (?del x l) = Some q1
      \<and> b_rel {} q1 (Ls[PRIORITIES := xs]) \<and> b_msg q1 = (b_msg q)(n := None) \<and> rd_next (b_links q) n = Some (hd_or NULL xs)"
    by (rule b_free_step [OF Cons.prems(1) i Cons.prems(2) nth(1)]) (simp_all add: nth(3))
  then obtain x l q1 where l: "DL_DELETE n n (b_links q) = Some (x, l)" "free_node n (?del x l) = Some q1"
    "b_rel {} q1 (Ls[PRIORITIES := xs])" "rd_next (b_links q) n = Some (hd_or NULL xs)"
    unfolding head by blast
  obtain q' where q': "b_free_available (hd_or NULL xs) q1 = Some q'" "b_rel {} q' (Ls[PRIORITIES := []])"
    using Cons.IH [OF l(3)] i by auto
  have "b_free_available n q = Some q'"
    using head nz l(1,2,4) q'(1) by (subst b_free_available.simps) simp
  then show ?case using q'(2) by auto
qed

lemma map_msgs_of_nth:
  "length Ls = Suc PRIORITIES \<Longrightarrow> map (\<lambda>i. msgs_of f (Ls ! i)) [0..<PRIORITIES] = fst (abs_of f Ls)"
  by (intro nth_equalityI) (simp_all add: abs_of_def)

text \<open>Freeing a queue drops each stored reference once and gives back every node.\<close>

lemma free_node_mux: "free_node n q = Some q' \<Longrightarrow> b_mux q' = b_mux q"
  by (auto simp: free_node_def bind_Some_iff split: if_splits)

lemma b_free_available_mux: "b_free_available n q = Some q' \<Longrightarrow> b_mux q' = b_mux q"
proof (rule b_free_available.raw_induct [of "\<lambda>n q q'. b_mux q' = b_mux q"])
  fix f n and q :: bqueue and y
  assume IH: "\<And>n q y. f n q = Some y \<Longrightarrow> b_mux y = b_mux q"
    and run: "(if n = NULL then Some q else do {
        e \<leftarrow> rd_next (b_links q) n;
        (hd, l) \<leftarrow> DL_DELETE (b_available q) n (b_links q);
        q \<leftarrow> free_node n (q\<lparr>b_links := l, b_available := hd\<rparr>);
        f e q }) = Some y"
  show "b_mux y = b_mux q"
    using run by (auto simp: bind_Some_iff dest!: free_node_mux IH split: if_splits)
qed

lemma b_free_bucket_mux: "b_free_bucket i n q h = Some y \<Longrightarrow> b_mux (fst y) = b_mux q"
proof (rule b_free_bucket.raw_induct [of "\<lambda>i n q h y. b_mux (fst y) = b_mux q"])
  fix f i n and q :: bqueue and h y
  assume IH: "\<And>i n q h y. f i n q h = Some y \<Longrightarrow> b_mux (fst y) = b_mux q"
    and run: "(if n = NULL then Some (q, h) else do {
        e \<leftarrow> rd_next (b_links q) n;
        m \<leftarrow> b_msg q n;
        h \<leftarrow> ps_unref_msg m h;
        p \<leftarrow> arr_get (b_priorities q) i;
        (hd, l) \<leftarrow> DL_DELETE p n (b_links q);
        ps \<leftarrow> arr_set (b_priorities q) i hd;
        q \<leftarrow> free_node n (q\<lparr>b_links := l, b_priorities := ps\<rparr>);
        f i e q h }) = Some y"
  show "b_mux (fst y) = b_mux q"
    using run by (auto simp: bind_Some_iff dest!: free_node_mux IH split: if_splits)
qed

lemma b_free_buckets_mux: "b_free_buckets is q h = Some (q', h') \<Longrightarrow> b_mux q' = b_mux q"
  by (induction "is" arbitrary: q h) (auto simp: bind_Some_iff dest!: b_free_bucket_mux)

lemma b_free_queue_run_ok:
  assumes "b_inv q"
  shows "\<exists>q'. b_free_queue_run q h = map_option (\<lambda>h'. (q', h')) (unref_all (concat (fst (b_abs q))) h)
      \<and> b_links q' = Map.empty \<and> b_msg q' = Map.empty"
proof -
  note d = b_inv_D [OF assms]
  obtain q1 where q1: "b_free_buckets [0..<PRIORITIES] q h = map_option (\<lambda>h'. (q1, h')) (unref_all (concat (fst (b_abs q))) h)"
    "b_rel {} q1 (replicate PRIORITIES [] @ [b_nodes q ! PRIORITIES])"
    using b_free_buckets_ok [OF d(1), of 0] map_msgs_of_nth [OF d(6)] d(3) by auto
  let ?Ls = "replicate PRIORITIES [] @ [b_nodes q ! PRIORITIES]"
  have L: "?Ls ! PRIORITIES = b_nodes q ! PRIORITIES" by (simp add: nth_append)
  have av: "b_available q1 = hd_or NULL (b_nodes q ! PRIORITIES)"
    using b_rel_head_or [OF q1(2), of PRIORITIES] PRIORITIES_nth(1) [OF q1(2)] L by simp
  obtain q' where q': "b_free_available (b_available q1) q1 = Some q'" "b_rel {} q' (?Ls[PRIORITIES := []])"
    using b_free_available_ok [OF q1(2) L] av by auto
  have "set (concat (?Ls[PRIORITIES := []])) = {}" by (simp add: list_update_append)
  then have "dom (b_links q') = {}" "dom (b_msg q') = {}" using q'(2) unfolding b_rel_def by simp_all
  then have "b_links q' = Map.empty" "b_msg q' = Map.empty" by simp_all
  moreover have "b_free_queue_run q h = map_option (\<lambda>h'. (q', h')) (unref_all (concat (fst (b_abs q))) h)"
  proof (cases "unref_all (concat (fst (b_abs q))) h")
    case None
    then show ?thesis using q1(1) by (simp add: b_free_queue_run_def)
  next
    case (Some h')
    then have run: "b_free_buckets [0..<PRIORITIES] q h = Some (q1, h')" using q1(1) by simp
    have "\<not> b_mux q'" using b_free_available_mux [OF q'(1)] b_free_buckets_mux [OF run] d(2) by simp
    then show ?thesis using run q'(1) Some by (simp add: b_free_queue_run_def mutex_destroy_def)
  qed
  ultimately show ?thesis by blast
qed

section \<open>The contract of \<open>psqueue.h\<close>\<close>

lemma concat_rev_split:
  "i < length bs \<Longrightarrow> concat (rev bs) = concat (rev (drop (Suc i) bs)) @ bs ! i @ concat (rev (take i bs))"
  by (subst id_take_nth_drop [of i bs]) simp_all

lemma concat_rev_update:
  "i < length bs \<Longrightarrow> concat (rev (bs[i := X])) = concat (rev (drop (Suc i) bs)) @ X @ concat (rev (take i bs))"
  by (simp add: upd_conv_take_nth_drop)

lemma highest_split:
  assumes "length bs = PRIORITIES" and "highest bs = Some i"
  shows "concat (rev (bs[i := X])) = X @ concat (rev (take i bs))"
proof -
  from assms(2) obtain j where j: "j < PRIORITIES" "i = rev [0..<PRIORITIES] ! j" "\<forall>k<j. bs ! (rev [0..<PRIORITIES] ! k) = []"
    by (auto simp: highest_def find_Some_iff)
  then have i: "i = PRIORITIES - Suc j" by (simp add: rev_nth)
  have "bs ! k = []" if "i < k" "k < PRIORITIES" for k
    using j(3) that i j(1) by (auto simp: rev_nth dest!: spec [of _ "PRIORITIES - Suc k"])
  then have "concat (rev (drop (Suc i) bs)) = []"
    using assms(1) by (auto simp: in_set_conv_nth)
  then show ?thesis using concat_rev_update [of i bs X] i j(1) assms(1) by simp
qed

lemma victim_split:
  assumes "victim bs p = Some i" and "p \<le> length bs"
  shows "i < p" "bs ! i \<noteq> []" "concat (rev (bs[i := X])) = concat (rev (drop (Suc i) bs)) @ X"
proof -
  from assms show i: "i < p" "bs ! i \<noteq> []" by (auto simp: victim_def find_Some_iff)
  have "\<forall>k<i. bs ! k = []" using assms by (auto simp: victim_def find_Some_iff)
  then have "concat (rev (take i bs)) = []" using i assms(2) by (auto simp: in_set_conv_nth)
  then show "concat (rev (bs[i := X])) = concat (rev (drop (Suc i) bs)) @ X"
    using concat_rev_update [of i bs X] i assms(2) by simp
qed

text \<open>Pulling takes the first message of the flattened queue.\<close>

lemma spec_pull_flat:
  assumes "length bs = PRIORITIES" and "concat (rev bs) = m # ms"
  shows "\<exists>bs'. spec_pull (bs, k) = (m, bs', k + 1) \<and> concat (rev bs') = ms \<and> length (concat bs') + 1 = length (concat bs)"
proof -
  have "concat bs \<noteq> []" using assms(2) by (metis concat_eq_Nil_conv list.distinct(1) set_rev)
  then obtain i where hi: "highest bs = Some i" using highest_None_iff [OF assms(1)] by auto
  then obtain x xs where x: "bs ! i = x # xs" and i: "i < length bs"
    using highest_Some assms(1) by (metis list.exhaust)
  have "bs[i := x # xs] = bs" using x by (metis list_update_id)
  then have "m # ms = x # xs @ concat (rev (take i bs))"
    using highest_split [OF assms(1) hi, of "x # xs"] assms(2) by simp
  then show ?thesis
    using highest_split [OF assms(1) hi, of xs] x hi length_concat_update [OF i, of xs]
    by (simp add: spec_pull_def)
qed

text \<open>Pushing adds the message; on a full queue the last message in pull order may be dropped for it.\<close>

lemma spec_push_flat:
  assumes "length bs = PRIORITIES" and p: "p < PRIORITIES" and "spec_push (bs, k) m p = (r, dropped, bs', k')"
  shows "length (concat bs') + k' = length (concat bs) + k"
    and "0 < k \<Longrightarrow> r = PS_QUEUE_OK \<and> dropped = None \<and> mset (concat (rev bs')) = add_mset m (mset (concat (rev bs)))"
    and "k = 0 \<Longrightarrow> r = PS_QUEUE_EFULL \<and> dropped = None \<and> bs' = bs \<and> k' = k
       \<or> r = PS_QUEUE_EOVERFLOW \<and> concat (rev bs) \<noteq> [] \<and> dropped = Some (last (concat (rev bs)))
         \<and> mset (concat (rev bs')) = add_mset m (mset (butlast (concat (rev bs))))"
proof -
  have app: "mset (concat (rev (cs[p := cs ! p @ [m]]))) = add_mset m (mset (concat (rev cs)))"
    if "length cs = PRIORITIES" for cs
    using that p concat_rev_split [of p cs] concat_rev_update [of p cs "cs ! p @ [m]"] by simp
  have flat: "length (concat cs) = size (mset (concat (rev cs)))" for cs :: "addr list list"
    by (simp add: length_concat rev_map sum_list_rev flip: rev_map)
  show ok: "r = PS_QUEUE_OK \<and> dropped = None \<and> mset (concat (rev bs')) = add_mset m (mset (concat (rev bs)))" if "0 < k"
    using assms that app [of bs] by (auto simp: spec_push_def)
  show full: "r = PS_QUEUE_EFULL \<and> dropped = None \<and> bs' = bs \<and> k' = k
       \<or> r = PS_QUEUE_EOVERFLOW \<and> concat (rev bs) \<noteq> [] \<and> dropped = Some (last (concat (rev bs)))
         \<and> mset (concat (rev bs')) = add_mset m (mset (butlast (concat (rev bs))))" if k: "k = 0"
  proof (cases "victim bs p")
    case None
    then show ?thesis using assms k by (simp add: spec_push_def)
  next
    case (Some i)
    note v = victim_split [OF Some]
    have pl: "p \<le> length bs" using assms(1) p by simp
    have c: "concat (rev bs) = concat (rev (drop (Suc i) bs)) @ bs ! i" using v(3) [OF pl, of "bs ! i"] by simp
    have c': "concat (rev (bs[i := butlast (bs ! i)])) = butlast (concat (rev bs))"
      unfolding c using v(2,3) [OF pl] by (simp add: butlast_append)
    have "bs' = (bs[i := butlast (bs ! i)])[p := (bs[i := butlast (bs ! i)]) ! p @ [m]]"
      "r = PS_QUEUE_EOVERFLOW" "dropped = Some (last (bs ! i))"
      using assms(3) k Some v(1) [OF pl] by (simp_all add: spec_push_def)
    then show ?thesis
      using app [of "bs[i := butlast (bs ! i)]"] assms(1) c' c v(2) [OF pl] by simp
  qed
  have k': "0 < k \<Longrightarrow> k' = k - 1" "k = 0 \<Longrightarrow> k' = 0"
    using assms(3) by (auto simp: spec_push_def split: if_splits option.splits)
  show "length (concat bs') + k' = length (concat bs) + k"
  proof (cases "0 < k")
    case True
    then show ?thesis using ok k' unfolding flat by simp
  next
    case False
    then have k: "k = 0" by simp
    from full [OF k] show ?thesis
    proof
      assume "r = PS_QUEUE_EOVERFLOW \<and> concat (rev bs) \<noteq> [] \<and> dropped = Some (last (concat (rev bs)))
         \<and> mset (concat (rev bs')) = add_mset m (mset (butlast (concat (rev bs))))"
      then have "size (mset (concat (rev bs'))) = size (mset (concat (rev bs)))"
        by (simp only: size_add_mset size_mset length_butlast) (cases "concat (rev bs)"; simp)
      then show ?thesis using k' k unfolding flat by simp
    qed simp
  qed
qed

lemma mset_butlast: "xs \<noteq> [] \<Longrightarrow> mset (butlast xs) = mset xs - {#last xs#}"
  by (metis add_mset_remove_trivial append_butlast_last_id mset_append mset.simps(1,2) union_mset_add_mset_right add.right_neutral)

lemma b_msgs_length: "length (b_msgs q) = length (concat (fst (b_abs q)))"
  unfolding b_msgs_def by (simp add: length_concat rev_map sum_list_rev flip: rev_map)

lemma b_msgs_nonnull: "b_inv q \<Longrightarrow> NULL \<notin> set (b_msgs q)"
proof
  assume inv: "b_inv q" and "NULL \<in> set (b_msgs q)"
  note d = b_inv_D [OF inv]
  then obtain i where i: "i < PRIORITIES" "NULL \<in> set (msgs_of (b_msg q) (b_nodes q ! i))"
    using \<open>NULL \<in> set (b_msgs q)\<close> d(5,7) by (auto simp: b_msgs_def in_set_conv_nth) (metis nth_mem)
  then obtain n where n: "n \<in> set (b_nodes q ! i)" "NULL = the (b_msg q n)" by (auto simp: msgs_of_def)
  show False using b_rel_msg [OF d(1) i(1) n(1)] n(2) by (metis option.sel)
qed


lemma b_push_flat:
  assumes inv: "b_inv q" and m: "m \<noteq> NULL" and p: "unat p < 10"
  shows "length (b_msgs q) < b_cap q \<Longrightarrow>
      \<exists>q'. b_queue_push q m p h = Some (PS_QUEUE_OK, q', h) \<and> b_inv q' \<and> b_cap q' = b_cap q
         \<and> mset (b_msgs q') = add_mset m (mset (b_msgs q))"
    and "length (b_msgs q) = b_cap q \<Longrightarrow> b_queue_push q m p h = Some (PS_QUEUE_EFULL, q, h)
      \<or> (\<exists>q'. b_msgs q \<noteq> [] \<and> b_inv q' \<and> b_cap q' = b_cap q
           \<and> mset (b_msgs q') = add_mset m (mset (butlast (b_msgs q)))
           \<and> b_queue_push q m p h = map_option (\<lambda>h'. (PS_QUEUE_EOVERFLOW, q', h')) (ps_unref_msg (last (b_msgs q)) h))"
proof -
  obtain bs k where abs: "b_abs q = (bs, k)" by (cases "b_abs q")
  obtain r dropped bs' k' where sp: "spec_push (bs, k) m (unat p) = (r, dropped, bs', k')"
    by (cases "spec_push (bs, k) m (unat p)") auto
  have p': "unat p < PRIORITIES" using p by (simp add: PRIORITIES_def)
  have lbs: "length bs = PRIORITIES" using b_inv_D(5) [OF inv] abs by simp
  note fl = spec_push_flat [OF lbs p' sp]
  obtain q' where q': "b_inv q'" "b_abs q' = (bs', k')"
    "b_queue_push q m p h = map_option (\<lambda>h'. (r, q', h')) (case dropped of None \<Rightarrow> Some h | Some e \<Rightarrow> ps_unref_msg e h)"
    using b_queue_push_refines [OF inv m p'] sp abs by metis
  have cap: "b_cap q' = b_cap q" using fl(1) q'(2) abs by (simp add: b_cap_def)
  have k: "0 < k \<longleftrightarrow> length (b_msgs q) < b_cap q" by (simp add: b_cap_def b_msgs_length abs)
  have msgs: "b_msgs q = concat (rev bs)" "b_msgs q' = concat (rev bs')"
    using abs q'(2) by (simp_all add: b_msgs_def)
  {
    assume "length (b_msgs q) < b_cap q"
    with k fl(2) q' cap msgs show "\<exists>q'. b_queue_push q m p h = Some (PS_QUEUE_OK, q', h) \<and> b_inv q' \<and> b_cap q' = b_cap q
         \<and> mset (b_msgs q') = add_mset m (mset (b_msgs q))" by auto
  next
    assume "length (b_msgs q) = b_cap q"
    then have z: "k = 0" using k by simp
    have "b_queue_push q m p h = Some (PS_QUEUE_EFULL, q, h)" if "bs' = bs" "k' = k" "r = PS_QUEUE_EFULL" "dropped = None"
    proof -
      have "victim bs (unat p) = None"
        using sp that z by (auto simp: spec_push_def queue_codes split: option.splits)
      then show ?thesis using b_push_rejected [OF inv] p' abs z by simp
    qed
    with fl(3) [OF z] q' cap msgs
    show "b_queue_push q m p h = Some (PS_QUEUE_EFULL, q, h)
      \<or> (\<exists>q'. b_msgs q \<noteq> [] \<and> b_inv q' \<and> b_cap q' = b_cap q
           \<and> mset (b_msgs q') = add_mset m (mset (butlast (b_msgs q)))
           \<and> b_queue_push q m p h = map_option (\<lambda>h'. (PS_QUEUE_EOVERFLOW, q', h')) (ps_unref_msg (last (b_msgs q)) h))"
      by (elim disjE) auto
  }
qed

lemma b_pull_flat:
  assumes inv: "b_inv q" and ms: "b_msgs q = m # ms"
  shows "\<exists>q'. b_queue_pull q t = Some (m, q') \<and> b_inv q' \<and> b_msgs q' = ms \<and> b_cap q' = b_cap q"
proof -
  obtain bs k where abs: "b_abs q = (bs, k)" by (cases "b_abs q")
  have lbs: "length bs = PRIORITIES" using b_inv_D(5) [OF inv] abs by simp
  have flat: "concat (rev bs) = m # ms" using ms abs by (simp add: b_msgs_def)
  then have "concat (fst (b_abs q)) \<noteq> []" using abs by (metis concat_eq_Nil_conv fst_conv list.distinct(1) set_rev)
  with spec_pull_flat [OF lbs flat, of k] b_queue_pull_refines [OF inv, of m _ t] abs
  show ?thesis by (fastforce simp: b_msgs_def b_cap_def)
qed

interpretation bq: msg_queue b_ops b_inv b_msgs b_cap
proof unfold_locales
  fix n assume "n \<le> SEM_VALUE_MAX"
  then obtain q where q: "b_new_queue n = Some q" "b_inv q" "b_abs q = (replicate PRIORITIES [], n)"
    using b_new_queue_ok by blast
  then have "b_msgs q = []" "b_cap q = n" by (simp_all add: b_msgs_def b_cap_def)
  with q show "\<exists>q. q_new b_ops n = Some q \<and> b_inv q \<and> b_msgs q = [] \<and> b_cap q = n"
    by (auto simp: b_ops_def)
next
  fix q assume "b_inv q"
  then show "length (b_msgs q) \<le> b_cap q" "q_waiting b_ops q = Some (length (b_msgs q))"
    using b_inv_D(4) [of q]
    by (simp_all add: b_msgs_length b_cap_def b_ops_def b_queue_waiting_def semaphore_get_def del: length_concat)
next
  fix q :: bqueue and m h and p :: u8
  assume q: "b_inv q" "m \<noteq> NULL" "unat p < 10" "length (b_msgs q) = b_cap q"
  from b_push_flat(2) [OF q(1-3) q(4), of h]
  show "q_push b_ops q m p h = Some (PS_QUEUE_EFULL, q, h)
      \<or> (\<exists>e q'. e \<in> set (b_msgs q) \<and> b_inv q' \<and> b_cap q' = b_cap q
           \<and> mset (b_msgs q') = add_mset m (mset (b_msgs q) - {#e#})
           \<and> q_push b_ops q m p h = map_option (\<lambda>h'. (PS_QUEUE_EOVERFLOW, q', h')) (ps_unref_msg e h))"
    unfolding b_ops_def qops.simps by (metis mset_butlast last_in_set)
next
  fix q t assume q: "b_inv q" "b_msgs q = []" "\<not> pull_timeout t <s 0"
  then have "concat (fst (b_abs q)) = []" using b_msgs_length [of q] by (metis length_0_conv list.size(3))
  with q show "q_pull b_ops q t = Some (NULL, q)" by (simp add: b_ops_def b_queue_pull_empty del: concat_eq_Nil_conv)
next
  fix q h assume q: "b_inv q" "b_msgs q = []"
  then have e: "concat (fst (b_abs q)) = []" using b_msgs_length [of q] by (metis length_0_conv list.size(3))
  obtain q' where "b_free_queue_run q h = map_option (\<lambda>h'. (q', h')) (unref_all (concat (fst (b_abs q))) h)"
    using b_free_queue_run_ok [OF q(1)] by blast
  then show "q_free b_ops q h = Some h" unfolding e by (simp add: b_ops_def b_free_queue_def)
qed (simp_all add: b_msgs_nonnull b_push_flat(1) b_pull_flat b_ops_def)

section \<open>Pull order is a stable sort by priority\<close>

lemma sorted_split_last:
  "sorted (map f ys) \<Longrightarrow> (\<And>y. y \<in> set ys \<Longrightarrow> f y < Suc n) \<Longrightarrow>
   ys = filter (\<lambda>y. f y < n) ys @ filter (\<lambda>y. f y = n) ys" for f :: "'a \<Rightarrow> nat"
proof (induction ys)
  case (Cons y ys)
  have IH: "ys = filter (\<lambda>y. f y < n) ys @ filter (\<lambda>y. f y = n) ys" using Cons by simp
  show ?case
  proof (cases "f y < n")
    case True
    then show ?thesis using IH by simp
  next
    case False
    then have y: "f y = n" using Cons.prems(2) [of y] by simp
    then have "f z = n" if "z \<in> set ys" for z
      using Cons.prems(1) Cons.prems(2) [of z] that by (auto simp: less_Suc_eq_le intro: le_antisym)
    then show ?thesis using y by (simp add: filter_empty_conv)
  qed
qed simp

lemma sorted_buckets:
  "sorted (map f ys) \<Longrightarrow> (\<And>y. y \<in> set ys \<Longrightarrow> f y < n) \<Longrightarrow>
   concat (map (\<lambda>k. filter (\<lambda>y. f y = k) ys) [0..<n]) = ys" for f :: "'a \<Rightarrow> nat"
proof (induction n arbitrary: ys)
  case (Suc n)
  let ?zs = "filter (\<lambda>y. f y < n) ys"
  have "concat (map (\<lambda>k. filter (\<lambda>y. f y = k) ?zs) [0..<n]) = ?zs"
    using Suc.prems(1) by (intro Suc.IH) (auto intro: sorted_filter)
  moreover have "map (\<lambda>k. filter (\<lambda>y. f y = k) ?zs) [0..<n] = map (\<lambda>k. filter (\<lambda>y. f y = k) ys) [0..<n]"
    by (auto intro!: filter_cong)
  ultimately have "concat (map (\<lambda>k. filter (\<lambda>y. f y = k) ys) [0..<n]) = ?zs" by (simp only:)
  then show ?case using sorted_split_last [OF Suc.prems] by simp
qed (cases "ys"; force)

lemma sort_key_buckets:
  "(\<And>y. y \<in> set ys \<Longrightarrow> f y < n) \<Longrightarrow>
   sort_key f ys = concat (map (\<lambda>k. filter (\<lambda>y. f y = k) ys) [0..<n])" for f :: "'a \<Rightarrow> nat"
  using sorted_buckets [of f "sort_key f ys" n] by (simp add: sort_key_stable)

lemma b_push_all:
  "b_inv q \<Longrightarrow> b_abs q = (bs, k) \<Longrightarrow> length ms \<le> k \<Longrightarrow> (\<And>x. x \<in> set ms \<Longrightarrow> fst x \<noteq> NULL \<and> unat (snd x) < 10) \<Longrightarrow>
   \<exists>q'. push_all b_ops q ms h = Some (q', map fst ms) \<and> b_inv q'
      \<and> b_abs q' = (map (\<lambda>i. bs ! i @ map fst (filter (\<lambda>x. unat (snd x) = i) ms)) [0..<PRIORITIES], k - length ms)"
proof (induction ms arbitrary: q bs k)
  case Nil
  have "length bs = PRIORITIES" using b_inv_D(5) [OF Nil(1)] Nil(2) by simp
  then have "map ((!) bs) [0..<PRIORITIES] = bs" using map_nth [of bs] by simp
  then show ?case using Nil by simp
next
  case (Cons x ms)
  obtain m p where x: "x = (m, p)" by (cases x)
  have m: "m \<noteq> NULL" and p: "unat p < PRIORITIES" and k: "0 < k"
    using Cons.prems(3) Cons.prems(4) [of x] by (simp_all add: x PRIORITIES_def)
  have lbs: "length bs = PRIORITIES" using b_inv_D(5) [OF Cons.prems(1)] Cons.prems(2) by simp
  have "spec_push (b_abs q) m (unat p) = (PS_QUEUE_OK, None, bs[unat p := bs ! unat p @ [m]], k - 1)"
    using Cons.prems(2) k by (simp add: spec_push_def)
  from b_queue_push_refines [OF Cons.prems(1) m p this, of h]
  obtain q1 where q1: "b_inv q1" "b_abs q1 = (bs[unat p := bs ! unat p @ [m]], k - 1)"
    "b_queue_push q m p h = Some (PS_QUEUE_OK, q1, h)" by auto
  have upd: "(bs[unat p := bs ! unat p @ [m]]) ! i @ map fst (filter (\<lambda>x. unat (snd x) = i) ms)
      = bs ! i @ map fst (filter (\<lambda>x. unat (snd x) = i) (x # ms))" if "i < PRIORITIES" for i
    using that lbs p by (cases "i = unat p") (auto simp: x)
  from Cons.IH [OF q1(1,2)] Cons.prems(3,4) obtain q' where
    q': "push_all b_ops q1 ms h = Some (q', map fst ms)" "b_inv q'"
    "b_abs q' = (map (\<lambda>i. bs[unat p := bs ! unat p @ [m]] ! i @ map fst (filter (\<lambda>x. unat (snd x) = i) ms)) [0..<PRIORITIES], k - 1 - length ms)"
    by fastforce
  have "map (\<lambda>i. bs[unat p := bs ! unat p @ [m]] ! i @ map fst (filter (\<lambda>x. unat (snd x) = i) ms)) [0..<PRIORITIES]
      = map (\<lambda>i. bs ! i @ map fst (filter (\<lambda>x. unat (snd x) = i) (x # ms))) [0..<PRIORITIES]"
    using upd by (intro map_cong) simp_all
  then show ?case
    using q' q1(3) by (intro exI [of _ q']) (simp add: x b_ops_def queue_codes)
qed

lemma rev_upt_priorities: "rev [0..<PRIORITIES] = map (\<lambda>k. 9 - k) [0..<10]"
  by (simp add: PRIORITIES_def upt_rec)

lemma b_drain_sorted:
  assumes "\<And>x. x \<in> set ms \<Longrightarrow> fst x \<noteq> NULL \<and> unat (snd x) < 10"
    and "length ms \<le> n" and "n \<le> SEM_VALUE_MAX"
  shows "\<exists>q q' q''. b_new_queue n = Some q \<and> push_all b_ops q ms h = Some (q', map fst ms)
      \<and> pull_all b_ops (length ms) q' = Some (map fst (sort_key (\<lambda>x. 9 - unat (snd x)) ms), q'') \<and> b_msgs q'' = []"
proof -
  obtain q where q: "b_new_queue n = Some q" "b_inv q" "b_abs q = (replicate PRIORITIES [], n)"
    using b_new_queue_ok [OF assms(3)] by blast
  obtain q' where q': "push_all b_ops q ms h = Some (q', map fst ms)" "b_inv q'"
    "b_abs q' = (map (\<lambda>i. replicate PRIORITIES [] ! i @ map fst (filter (\<lambda>x. unat (snd x) = i) ms)) [0..<PRIORITIES], n - length ms)"
    using b_push_all [OF q(2,3) assms(2,1)] by blast
  have "b_msgs q' = concat (map (\<lambda>i. map fst (filter (\<lambda>x. unat (snd x) = i) ms)) (rev [0..<PRIORITIES]))"
    unfolding b_msgs_def q'(3) by (auto simp: rev_map intro!: arg_cong [where f = concat])
  also have "\<dots> = concat (map (\<lambda>k. map fst (filter (\<lambda>x. unat (snd x) = 9 - k) ms)) [0..<10])"
    unfolding rev_upt_priorities by (simp add: comp_def)
  also have "\<dots> = concat (map (\<lambda>k. map fst (filter (\<lambda>x. 9 - unat (snd x) = k) ms)) [0..<10])"
    using assms(1) by (intro arg_cong [where f = concat] map_cong arg_cong [where f = "map fst"] filter_cong) force+
  also have "\<dots> = map fst (sort_key (\<lambda>x. 9 - unat (snd x)) ms)"
    by (subst sort_key_buckets [of _ _ 10]) (simp_all add: map_concat comp_def)
  finally have msgs: "b_msgs q' = map fst (sort_key (\<lambda>x. 9 - unat (snd x)) ms)" .
  then have "length (b_msgs q') = length ms" by simp
  with bq.pull_all_drains [OF q'(2)] q(1) q'(1) msgs show ?thesis by metis
qed

end
