(* ===== verification/Psqueue_ll.thy ===== *)
theory Psqueue_ll
  imports Psqueue
begin

text \<open>
  The queue of \<open>src/psqueue_ll.c\<close>: a ring of \<open>size\<close> message pointers with a head (next slot to
  write), a tail (next slot to read), a count, a mutex and the semaphore of stored messages. It
  implements the contract \<open>fifo_queue\<close>.
\<close>

record ring =
  r_messages :: "addr list"
  r_size :: nat
  r_count :: nat
  r_head :: nat
  r_tail :: nat
  r_mux :: mutex
  r_not_empty :: semaphore

definition ll_new_queue :: "nat \<Rightarrow> ring option" where
  "ll_new_queue sz =
     Some \<lparr>r_messages = replicate sz NULL, r_size = sz, r_count = 0, r_head = 0, r_tail = 0,
           r_mux = mutex_init, r_not_empty = semaphore_init 0\<rparr>"

text \<open>\<open>ps_free_queue\<close> frees the array only; the messages in it keep their references.\<close>

definition ll_free_queue :: "ring \<Rightarrow> mheap \<Rightarrow> mheap option" where
  "ll_free_queue q h = do {
     _ \<leftarrow> mutex_destroy (r_mux q);
     let _ = semaphore_destroy (r_not_empty q);
     Some h }"

definition ll_queue_push :: "ring \<Rightarrow> addr \<Rightarrow> u8 \<Rightarrow> mheap \<Rightarrow> (int \<times> ring \<times> mheap) option" where
  "ll_queue_push q msg priority h = do {
     m \<leftarrow> mutex_lock (r_mux q);
     let q = q\<lparr>r_mux := m\<rparr>;
     (ret, q) \<leftarrow>
       (if r_count q \<ge> r_size q then Some (-1, q)
        else do {
          ms \<leftarrow> arr_set (r_messages q) (r_head q) msg;
          let q = q\<lparr>r_messages := ms, r_head := r_head q + 1\<rparr>;
          let q = (if r_head q \<ge> r_size q then q\<lparr>r_head := 0\<rparr> else q);
          let q = q\<lparr>r_count := r_count q + 1\<rparr>;
          Some (0, q\<lparr>r_not_empty := snd (semaphore_post (r_not_empty q))\<rparr>)
        });
     m \<leftarrow> mutex_unlock (r_mux q);
     Some (ret, q\<lparr>r_mux := m\<rparr>, h)
   }"

definition ll_queue_pull :: "ring \<Rightarrow> i64 \<Rightarrow> (addr \<times> ring) option" where
  "ll_queue_pull q timeout = do {
     (r, s) \<leftarrow> semaphore_wait epoch (r_not_empty q) (pull_timeout timeout);
     let q = q\<lparr>r_not_empty := s\<rparr>;
     if r < 0 then Some (NULL, q)
     else do {
       m \<leftarrow> mutex_lock (r_mux q);
       let q = q\<lparr>r_mux := m\<rparr>;
       msg \<leftarrow> arr_get (r_messages q) (r_tail q);
       let q = q\<lparr>r_tail := r_tail q + 1\<rparr>;
       let q = (if r_tail q \<ge> r_size q then q\<lparr>r_tail := 0\<rparr> else q);
       let q = q\<lparr>r_count := r_count q - 1\<rparr>;
       m \<leftarrow> mutex_unlock (r_mux q);
       Some (msg, q\<lparr>r_mux := m\<rparr>)
     }
   }"

definition ll_queue_waiting :: "ring \<Rightarrow> nat option" where
  "ll_queue_waiting q = do {
     m \<leftarrow> mutex_lock (r_mux q);
     let res = r_count q;
     _ \<leftarrow> mutex_unlock m;
     Some res
   }"

definition ll_ops :: "ring qops" where
  "ll_ops = \<lparr>q_new = ll_new_queue, q_free = ll_free_queue, q_push = ll_queue_push,
             q_pull = ll_queue_pull, q_waiting = ll_queue_waiting\<rparr>"

section \<open>Invariant and abstraction\<close>

text \<open>The stored messages are the \<open>count\<close> slots from the tail on, modulo the size.\<close>

definition ll_msgs :: "ring \<Rightarrow> addr list" where
  "ll_msgs q = map (\<lambda>i. r_messages q ! ((r_tail q + i) mod r_size q)) [0..<r_count q]"

definition ll_inv :: "ring \<Rightarrow> bool" where
  "ll_inv q \<longleftrightarrow>
     length (r_messages q) = r_size q \<and> r_count q \<le> r_size q \<and> r_size q \<le> SEM_VALUE_MAX \<and>
     \<not> r_mux q \<and> r_not_empty q = r_count q \<and>
     (0 < r_size q \<longrightarrow> r_tail q < r_size q \<and> r_head q = (r_tail q + r_count q) mod r_size q) \<and>
     NULL \<notin> set (ll_msgs q)"

lemma ring_succ: "i < n \<Longrightarrow> (if i + 1 \<ge> n then 0 else i + 1) = (i + 1) mod n" for n :: nat
  by (cases "i + 1 = n") auto

lemma ring_slot_neq:
  assumes "i < (c :: nat)" and "c < n"
  shows "(t + i) mod n \<noteq> (t + c) mod n"
proof
  assume "(t + i) mod n = (t + c) mod n"
  then have "n dvd c - i"
    using assms by (metis (no_types, lifting) add_diff_cancel_left le_add1 less_imp_le_nat mod_eq_dvd_iff_nat
        nat_add_left_cancel_le)
  then show False using assms by (auto dest: dvd_imp_le)
qed

lemma ll_push_room:
  assumes inv: "ll_inv q" and m: "m \<noteq> NULL" and room: "r_count q < r_size q"
  shows "\<exists>q'. ll_queue_push q m p h = Some (PS_QUEUE_OK, q', h) \<and> ll_inv q' \<and> r_size q' = r_size q
      \<and> ll_msgs q' = ll_msgs q @ [m]"
proof -
  let ?n = "r_size q" and ?hd = "(r_tail q + r_count q) mod r_size q"
  let ?q = "q\<lparr>r_messages := (r_messages q)[?hd := m], r_head := (?hd + 1) mod ?n,
              r_count := r_count q + 1, r_not_empty := r_count q + 1\<rparr>"
  have i: "length (r_messages q) = ?n" "?n \<le> SEM_VALUE_MAX" "\<not> r_mux q" "r_not_empty q = r_count q"
    "r_tail q < ?n" "r_head q = ?hd" "NULL \<notin> set (ll_msgs q)"
    using inv room by (auto simp: ll_inv_def)
  have hd: "?hd < ?n" using room by simp
  have ne: "(r_messages q)[?hd := m] ! ((r_tail q + i) mod ?n) = r_messages q ! ((r_tail q + i) mod ?n)"
    if "i < r_count q" for i
    using ring_slot_neq [OF that room, of "r_tail q"] by (intro nth_list_update_neq) simp
  have msgs: "ll_msgs ?q = ll_msgs q @ [m]"
    using i(1) hd ne by (simp add: ll_msgs_def)
  have "(?hd + 1) mod ?n = (r_tail q + (r_count q + 1)) mod ?n" by (simp add: mod_Suc_eq)
  then have inv': "ll_inv ?q"
    using i room m msgs unfolding ll_inv_def by simp
  have "ll_queue_push q m p h = Some (0, ?q, h)"
    using i hd room ring_succ [OF hd]
    by (auto simp: ll_queue_push_def mutex_defs semaphore_post_def Let_def)
  then show ?thesis using inv' msgs by (auto simp: queue_codes)
qed

lemma ll_push_full: "ll_inv q \<Longrightarrow> r_count q = r_size q \<Longrightarrow> ll_queue_push q m p h = Some (PS_QUEUE_EFULL, q, h)"
  by (simp add: ll_inv_def ll_queue_push_def mutex_defs queue_codes)

lemma length_ll_msgs [simp]: "length (ll_msgs q) = r_count q"
  by (simp add: ll_msgs_def)

lemma ll_pull_some:
  assumes inv: "ll_inv q" and ms: "ll_msgs q = m # ms"
  shows "\<exists>q'. ll_queue_pull q t = Some (m, q') \<and> ll_inv q' \<and> ll_msgs q' = ms \<and> r_size q' = r_size q"
proof -
  let ?n = "r_size q"
  let ?q = "q\<lparr>r_not_empty := r_count q - 1, r_tail := (r_tail q + 1) mod ?n, r_count := r_count q - 1\<rparr>"
  obtain c where c: "r_count q = Suc c" using ms length_ll_msgs [of q] by (cases "r_count q") simp_all
  have i: "length (r_messages q) = ?n" "\<not> r_mux q" "r_not_empty q = Suc c" "r_tail q < ?n" "Suc c \<le> ?n"
    "?n \<le> SEM_VALUE_MAX" "r_head q = (r_tail q + Suc c) mod ?n" "NULL \<notin> set (ll_msgs q)"
    using inv c by (auto simp: ll_inv_def)
  have "ll_msgs q = r_messages q ! r_tail q # map (\<lambda>j. r_messages q ! ((r_tail q + Suc j) mod ?n)) [0..<c]"
    using i by (simp add: ll_msgs_def c map_upt_Suc del: upt_Suc)
  with ms have m: "m = r_messages q ! r_tail q"
    and rest: "ms = map (\<lambda>j. r_messages q ! ((r_tail q + Suc j) mod ?n)) [0..<c]" by auto
  have msgs: "ll_msgs ?q = ms" by (simp add: ll_msgs_def c rest mod_simps)
  have "NULL \<notin> set ms" using i(8) ms by simp
  then have "ll_inv ?q"
    using i msgs unfolding ll_inv_def by (simp add: c mod_simps)
  moreover have "ll_queue_pull q t = Some (m, ?q)"
    using i ring_succ [OF i(4)] c
    by (auto simp: ll_queue_pull_def mutex_defs Let_def m)
  ultimately show ?thesis using msgs by auto
qed

lemma ll_pull_none:
  "ll_inv q \<Longrightarrow> ll_msgs q = [] \<Longrightarrow> \<not> pull_timeout t <s 0 \<Longrightarrow> ll_queue_pull q t = Some (NULL, q)"
  using length_ll_msgs [of q]
  by (auto simp: ll_inv_def ll_queue_pull_def semaphore_wait_zero)

lemma ll_new: "n \<le> SEM_VALUE_MAX \<Longrightarrow> \<exists>q. ll_new_queue n = Some q \<and> ll_inv q \<and> ll_msgs q = [] \<and> r_size q = n"
  by (simp add: ll_new_queue_def ll_inv_def ll_msgs_def mutex_defs semaphore_init_def)

lemma ll_waiting: "ll_inv q \<Longrightarrow> ll_queue_waiting q = Some (r_count q)"
  by (simp add: ll_inv_def ll_queue_waiting_def mutex_defs)

lemma ll_bounds: "ll_inv q \<Longrightarrow> r_count q \<le> r_size q" "ll_inv q \<Longrightarrow> NULL \<notin> set (ll_msgs q)"
  by (simp_all add: ll_inv_def)

lemma ll_free: "ll_inv q \<Longrightarrow> ll_free_queue q h = Some h"
  by (simp add: ll_inv_def ll_free_queue_def mutex_destroy_def)

interpretation ll: fifo_queue ll_ops ll_inv ll_msgs r_size
proof unfold_locales
  fix q m p h assume q: "ll_inv q" "m \<noteq> NULL" "length (ll_msgs q) < r_size q"
  then show "\<exists>q'. q_push ll_ops q m p h = Some (PS_QUEUE_OK, q', h) \<and> ll_inv q' \<and> r_size q' = r_size q
         \<and> mset (ll_msgs q') = add_mset m (mset (ll_msgs q))"
    using ll_push_room [of q m p h] by (auto simp: ll_ops_def)
next
  fix q m p h q' h' assume q: "ll_inv q" "m \<noteq> NULL" "q_push ll_ops q m p h = Some (PS_QUEUE_OK, q', h')"
  then have "r_count q < r_size q"
    using ll_push_full [of q m p h]
    by (cases "r_count q = r_size q") (auto simp: ll_ops_def ll_inv_def queue_codes)
  with q ll_push_room [of q m p h] show "ll_msgs q' = ll_msgs q @ [m]" by (auto simp: ll_ops_def)
qed (simp_all add: ll_ops_def ll_new ll_push_full ll_pull_some ll_pull_none ll_bounds ll_waiting ll_free)

end
