(* ===== verification/Broker.thy ===== *)
theory Broker
  imports Psqueue_b Psqueue_ll
begin

text \<open>
  The broker of \<open>src/pubsub.c\<close>: the topic map, the subscribers, and every API function on them, in
  the order of the file. The definitions take the queue operations \<open>Q\<close> that are compiled in
  (\<open>Psqueue_b.b_ops\<close> or \<open>Psqueue_ll.ll_ops\<close>) as an argument. Structs are records in stores indexed
  by address; a null pointer is \<open>NULL\<close>. The lists of \<open>utlist.h\<close> inside the structs are
  HOL lists here: theory \<open>Utlist\<close> proves that the macros act on linked nodes as append, removal,
  search and traversal of such a list. The hash table is the list of its elements in insertion
  order, which is the order of \<open>HASH_ITER\<close>; \<open>HASH_FIND_STR\<close> is a search in it.

  Callbacks are user code: a call of one is an entry in the log \<open>g_cbs\<close>. The broker calls them with
  its lock held, so a callback that calls back into the locking API does not return.
\<close>

unbundle bit_operations_syntax

section \<open>State\<close>

record subscriber_list =
  sl_su :: addr
  sl_hidden :: bool
  sl_on_empty :: bool
  sl_priority :: u8

record topic_map =
  tm_topic :: string
  tm_subscribers :: "subscriber_list list"
  tm_sticky :: addr

text \<open>\<open>su_subs\<close> lists the topics of the \<open>subscriptions_list_t\<close> nodes; a callback is a name.\<close>

record 'q subscriber =
  su_q :: 'q
  su_subs :: "addr list"
  su_overflow :: u32
  su_new_msg_cb :: "nat option"
  su_non_empty_cb :: "nat option"
  su_userData :: addr

datatype cb_event = New_msg nat addr | Non_empty nat addr

record 'q state =
  g_lock :: mutex
  g_heap :: mheap
  g_tms :: "addr \<rightharpoonup> topic_map"
  g_topic_map :: "addr list"
  g_subs :: "addr \<rightharpoonup> 'q subscriber"
  g_next :: addr
  g_uuid_ctr :: u32
  g_stat_live_subscribers :: u32
  g_cbs :: "cb_event list"

abbreviation put_tm :: "addr \<Rightarrow> topic_map \<Rightarrow> 'q state \<Rightarrow> 'q state" where
  "put_tm a t s \<equiv> s\<lparr>g_tms := (g_tms s)(a \<mapsto> t)\<rparr>"

abbreviation put_su :: "addr \<Rightarrow> 'q subscriber \<Rightarrow> 'q state \<Rightarrow> 'q state" where
  "put_su a u s \<equiv> s\<lparr>g_subs := (g_subs s)(a \<mapsto> u)\<rparr>"

text \<open>Running an operation of the message store.\<close>

definition on_heap :: "(mheap \<Rightarrow> mheap option) \<Rightarrow> 'q state \<Rightarrow> 'q state option" where
  "on_heap f s = map_option (\<lambda>h. s\<lparr>g_heap := h\<rparr>) (f (g_heap s))"

definition GLOBAL_LOCK :: "'q state \<Rightarrow> 'q state option" where
  "GLOBAL_LOCK s = do { m \<leftarrow> mutex_lock (g_lock s); Some (s\<lparr>g_lock := m\<rparr>) }"

definition GLOBAL_UNLOCK :: "'q state \<Rightarrow> 'q state option" where
  "GLOBAL_UNLOCK s = do { m \<leftarrow> mutex_unlock (g_lock s); Some (s\<lparr>g_lock := m\<rparr>) }"

definition ps_init :: "'q state \<Rightarrow> 'q state" where
  "ps_init s = s\<lparr>g_lock := mutex_init\<rparr>"

text \<open>The result is what \<open>lock\<close> holds afterwards; the other variables keep their values.\<close>

definition ps_deinit :: "'q state \<Rightarrow> addr option" where
  "ps_deinit s = mutex_destroy (g_lock s)"

text \<open>The static variables before \<open>main\<close>.\<close>

definition static_state :: "'q state" where
  "static_state =
     \<lparr>g_lock = mutex_init, g_heap = mheap_init, g_tms = Map.empty, g_topic_map = [], g_subs = Map.empty,
      g_next = 1, g_uuid_ctr = 0, g_stat_live_subscribers = 0, g_cbs = []\<rparr>"

section \<open>Topics\<close>

definition free_topic_if_empty :: "addr \<Rightarrow> 'q state \<Rightarrow> (int \<times> 'q state) option" where
  "free_topic_if_empty tm s = do {
     t \<leftarrow> g_tms s tm;
     if tm_subscribers t = [] \<and> tm_sticky t = NULL
     then Some (1, s\<lparr>g_tms := (g_tms s)(tm := None), g_topic_map := remove1 tm (g_topic_map s)\<rparr>)
     else Some (0, s) }"

definition create_topic :: "string \<Rightarrow> 'q state \<Rightarrow> addr \<times> 'q state" where
  "create_topic topic s =
     (let tm = g_next s in
      (tm, s\<lparr>g_tms := (g_tms s)(tm \<mapsto> \<lparr>tm_topic = topic, tm_subscribers = [], tm_sticky = NULL\<rparr>),
             g_topic_map := g_topic_map s @ [tm], g_next := tm + 1\<rparr>))"

fun hash_find_str :: "(addr \<rightharpoonup> topic_map) \<Rightarrow> string \<Rightarrow> addr list \<Rightarrow> addr option" where
  "hash_find_str tms topic [] = Some NULL"
| "hash_find_str tms topic (a # as) = do {
     t \<leftarrow> tms a;
     if tm_topic t = topic then Some a else hash_find_str tms topic as }"

definition fetch_topic :: "string \<Rightarrow> 'q state \<Rightarrow> addr option" where
  "fetch_topic topic s = hash_find_str (g_tms s) topic (g_topic_map s)"

definition fetch_topic_create_if_not_exist :: "string \<Rightarrow> 'q state \<Rightarrow> (addr \<times> 'q state) option" where
  "fetch_topic_create_if_not_exist topic s = do {
     tm \<leftarrow> fetch_topic topic s;
     Some (if tm = NULL then create_topic topic s else (tm, s)) }"

section \<open>Delivery\<close>

definition log_cb :: "(nat \<Rightarrow> addr \<Rightarrow> cb_event) \<Rightarrow> nat option \<Rightarrow> addr \<Rightarrow> 'q state \<Rightarrow> 'q state" where
  "log_cb ev cb su s = (case cb of None \<Rightarrow> s | Some k \<Rightarrow> s\<lparr>g_cbs := g_cbs s @ [ev k su]\<rparr>)"

definition add_overflow :: "addr \<Rightarrow> 'q state \<Rightarrow> 'q state option" where
  "add_overflow su s = do {
     u \<leftarrow> g_subs s su;
     Some (put_su su (u\<lparr>su_overflow := su_overflow u + 1\<rparr>) s) }"

definition push_subscriber_queue :: "'q qops \<Rightarrow> addr \<Rightarrow> addr \<Rightarrow> u8 \<Rightarrow> 'q state \<Rightarrow> (int \<times> 'q state) option" where
  "push_subscriber_queue Q su msg priority s = do {
     s \<leftarrow> on_heap (ps_ref_msg msg) s;
     u \<leftarrow> g_subs s su;
     (r, q, h) \<leftarrow> q_push Q (su_q u) msg priority (g_heap s);
     let s = (put_su su (u\<lparr>su_q := q\<rparr>) s)\<lparr>g_heap := h\<rparr>;
     if r = PS_QUEUE_EFULL then do {
       s \<leftarrow> on_heap (ps_unref_msg msg) s;
       s \<leftarrow> add_overflow su s;
       Some (-1, s)
     } else if r = PS_QUEUE_EOVERFLOW then do {
       s \<leftarrow> add_overflow su s;
       Some (-1, s)
     } else do {
       n \<leftarrow> (if su_non_empty_cb u \<noteq> None then q_waiting Q q else Some 0);
       let s = (if su_non_empty_cb u \<noteq> None \<and> n = 1 then log_cb Non_empty (su_non_empty_cb u) su s else s);
       Some (0, log_cb New_msg (su_new_msg_cb u) su s)
     }
   }"

text \<open>\<open>HASH_ITER\<close> fixes the next element before the body runs; no body removes any element but its own.\<close>

fun push_child_sticky_loop :: "'q qops \<Rightarrow> addr \<Rightarrow> string \<Rightarrow> u8 \<Rightarrow> addr list \<Rightarrow> 'q state \<Rightarrow> 'q state option" where
  "push_child_sticky_loop Q su prefix priority [] s = Some s"
| "push_child_sticky_loop Q su prefix priority (tm # tms) s = do {
     t \<leftarrow> g_tms s tm;
     b \<leftarrow> topic_match prefix (tm_topic t);
     s \<leftarrow> (if b \<and> tm_sticky t \<noteq> NULL
          then map_option snd (push_subscriber_queue Q su (tm_sticky t) priority s) else Some s);
     push_child_sticky_loop Q su prefix priority tms s }"

definition push_child_sticky :: "'q qops \<Rightarrow> addr \<Rightarrow> string \<Rightarrow> u8 \<Rightarrow> 'q state \<Rightarrow> 'q state option" where
  "push_child_sticky Q su prefix priority s = push_child_sticky_loop Q su prefix priority (g_topic_map s) s"

section \<open>Subscribing\<close>

definition find_su :: "addr \<Rightarrow> subscriber_list list \<Rightarrow> subscriber_list option" where
  "find_su su sls = find (\<lambda>sl. sl_su sl = su) sls"

definition ps_subscribe_flags ::
    "'q qops \<Rightarrow> addr \<Rightarrow> string \<Rightarrow> sub_flags option \<Rightarrow> 'q state \<Rightarrow> (int \<times> 'q state) option" where
  "ps_subscribe_flags Q su topic_orig pflags s = do {
     let flags = (case pflags of None \<Rightarrow> no_flags | Some f \<Rightarrow> f);
     let topic = cut_topic topic_orig;
     let fl = parse_flags (flag_chars topic_orig) flags;
     s \<leftarrow> GLOBAL_LOCK s;
     (tm, s) \<leftarrow> fetch_topic_create_if_not_exist topic s;
     t \<leftarrow> g_tms s tm;
     (ret, s) \<leftarrow> (case find_su su (tm_subscribers t) of
        Some _ \<Rightarrow> Some (-1, s)
      | None \<Rightarrow> do {
          let sl = \<lparr>sl_su = su, sl_hidden = fl_hidden fl, sl_on_empty = fl_on_empty fl, sl_priority = fl_priority fl\<rparr>;
          let s = put_tm tm (t\<lparr>tm_subscribers := tm_subscribers t @ [sl]\<rparr>) s;
          u \<leftarrow> g_subs s su;
          let s = put_su su (u\<lparr>su_subs := su_subs u @ [tm]\<rparr>) s;
          s \<leftarrow> (if \<not> fl_no_sticky fl then
                 (if fl_child_sticky fl then push_child_sticky Q su topic (sl_priority sl) s
                  else if tm_sticky t \<noteq> NULL
                  then map_option snd (push_subscriber_queue Q su (tm_sticky t) (sl_priority sl) s)
                  else Some s)
               else Some s);
          Some (0, s) });
     s \<leftarrow> GLOBAL_UNLOCK s;
     Some (ret, s) }"

definition ps_subscribe :: "'q qops \<Rightarrow> addr \<Rightarrow> string \<Rightarrow> 'q state \<Rightarrow> (int \<times> 'q state) option" where
  "ps_subscribe Q su topic_orig s = ps_subscribe_flags Q su topic_orig None s"

fun ps_subscribe_each :: "'q qops \<Rightarrow> addr \<Rightarrow> string list \<Rightarrow> int \<Rightarrow> 'q state \<Rightarrow> (int \<times> 'q state) option" where
  "ps_subscribe_each Q su [] n s = Some (n, s)"
| "ps_subscribe_each Q su (topic # topics) n s = do {
     (r, s) \<leftarrow> ps_subscribe Q su topic s;
     ps_subscribe_each Q su topics (if r = 0 then n + 1 else n) s }"

definition ps_subscribe_many :: "'q qops \<Rightarrow> addr \<Rightarrow> string list option \<Rightarrow> 'q state \<Rightarrow> (int \<times> 'q state) option" where
  "ps_subscribe_many Q su subs s =
     (case subs of None \<Rightarrow> Some (0, s) | Some topics \<Rightarrow> ps_subscribe_each Q su topics 0 s)"

section \<open>Unsubscribing\<close>

definition ps_unsubscribe :: "addr \<Rightarrow> string \<Rightarrow> 'q state \<Rightarrow> (int \<times> 'q state) option" where
  "ps_unsubscribe su otopic s = do {
     let topic = cut_topic otopic;
     s \<leftarrow> GLOBAL_LOCK s;
     tm \<leftarrow> fetch_topic topic s;
     (ret, s) \<leftarrow>
       (if tm = NULL then Some (-1, s)
        else do {
          t \<leftarrow> g_tms s tm;
          (case find_su su (tm_subscribers t) of
             None \<Rightarrow> Some (-1, s)
           | Some sl \<Rightarrow> do {
               let s = put_tm tm (t\<lparr>tm_subscribers := remove1 sl (tm_subscribers t)\<rparr>) s;
               (_, s) \<leftarrow> free_topic_if_empty tm s;
               u \<leftarrow> g_subs s su;
               let s = put_su su (u\<lparr>su_subs := remove1 tm (su_subs u)\<rparr>) s;
               Some (0, s) }) });
     s \<leftarrow> GLOBAL_UNLOCK s;
     Some (ret, s) }"

fun ps_unsubscribe_each :: "addr \<Rightarrow> string list \<Rightarrow> int \<Rightarrow> 'q state \<Rightarrow> (int \<times> 'q state) option" where
  "ps_unsubscribe_each su [] n s = Some (n, s)"
| "ps_unsubscribe_each su (topic # topics) n s = do {
     (r, s) \<leftarrow> ps_unsubscribe su topic s;
     ps_unsubscribe_each su topics (if r = 0 then n + 1 else n) s }"

definition ps_unsubscribe_many :: "addr \<Rightarrow> string list option \<Rightarrow> 'q state \<Rightarrow> (int \<times> 'q state) option" where
  "ps_unsubscribe_many su subs s =
     (case subs of None \<Rightarrow> Some (0, s) | Some topics \<Rightarrow> ps_unsubscribe_each su topics 0 s)"

fun unsubscribe_loop :: "addr \<Rightarrow> addr list \<Rightarrow> nat \<Rightarrow> 'q state \<Rightarrow> (nat \<times> 'q state) option" where
  "unsubscribe_loop su [] cnt s = Some (cnt, s)"
| "unsubscribe_loop su (tm # tms) cnt s = do {
     t \<leftarrow> g_tms s tm;
     s \<leftarrow> (case find_su su (tm_subscribers t) of
            None \<Rightarrow> Some s
          | Some sl \<Rightarrow>
              map_option snd (free_topic_if_empty tm (put_tm tm (t\<lparr>tm_subscribers := remove1 sl (tm_subscribers t)\<rparr>) s)));
     unsubscribe_loop su tms (cnt + 1) s }"

definition ps_unsubscribe_all :: "addr \<Rightarrow> 'q state \<Rightarrow> (int \<times> 'q state) option" where
  "ps_unsubscribe_all su s = do {
     s \<leftarrow> GLOBAL_LOCK s;
     u \<leftarrow> g_subs s su;
     (cnt, s) \<leftarrow> unsubscribe_loop su (su_subs u) 0 s;
     u \<leftarrow> g_subs s su;
     let s = put_su su (u\<lparr>su_subs := []\<rparr>) s;
     s \<leftarrow> GLOBAL_UNLOCK s;
     Some (int cnt, s) }"

section \<open>Receiving\<close>

definition ps_get :: "'q qops \<Rightarrow> addr \<Rightarrow> i64 \<Rightarrow> 'q state \<Rightarrow> (addr \<times> 'q state) option" where
  "ps_get Q su timeout s = do {
     u \<leftarrow> g_subs s su;
     (m, q) \<leftarrow> q_pull Q (su_q u) timeout;
     Some (m, put_su su (u\<lparr>su_q := q\<rparr>) s) }"

partial_function (option) flush_loop :: "'q qops \<Rightarrow> addr \<Rightarrow> int \<Rightarrow> 'q state \<Rightarrow> (int \<times> 'q state) option" where
  "flush_loop Q su flushed s = do {
     (m, s) \<leftarrow> ps_get Q su 0 s;
     if m = NULL then Some (flushed, s)
     else do {
       s \<leftarrow> on_heap (ps_unref_msg m) s;
       flush_loop Q su (flushed + 1) s } }"

definition ps_flush :: "'q qops \<Rightarrow> addr \<Rightarrow> 'q state \<Rightarrow> (int \<times> 'q state) option" where
  "ps_flush Q su s = flush_loop Q su 0 s"

definition ps_num_subs :: "addr \<Rightarrow> 'q state \<Rightarrow> int option" where
  "ps_num_subs su s = do { u \<leftarrow> g_subs s su; Some (int (length (su_subs u))) }"

definition ps_waiting :: "'q qops \<Rightarrow> addr \<Rightarrow> 'q state \<Rightarrow> int option" where
  "ps_waiting Q su s = do { u \<leftarrow> g_subs s su; n \<leftarrow> q_waiting Q (su_q u); Some (int n) }"

definition ps_overflow :: "addr \<Rightarrow> 'q state \<Rightarrow> (int \<times> 'q state) option" where
  "ps_overflow su s = do {
     u \<leftarrow> g_subs s su;
     let n = su_overflow u - 0;
     Some (sint n, put_su su (u\<lparr>su_overflow := su_overflow u - n\<rparr>) s) }"

section \<open>Subscribers\<close>

definition ps_new_subscriber :: "'q qops \<Rightarrow> nat \<Rightarrow> string list option \<Rightarrow> 'q state \<Rightarrow> (addr \<times> 'q state) option" where
  "ps_new_subscriber Q queue_size subs s = do {
     let su = g_next s;
     q \<leftarrow> q_new Q queue_size;
     let s = (put_su su \<lparr>su_q = q, su_subs = [], su_overflow = 0, su_new_msg_cb = None, su_non_empty_cb = None,
                        su_userData = NULL\<rparr> s)\<lparr>g_next := su + 1\<rparr>;
     (_, s) \<leftarrow> ps_subscribe_many Q su subs s;
     Some (su, s\<lparr>g_stat_live_subscribers := g_stat_live_subscribers s + 1\<rparr>) }"

definition ps_free_subscriber :: "'q qops \<Rightarrow> addr \<Rightarrow> 'q state \<Rightarrow> 'q state option" where
  "ps_free_subscriber Q su s = do {
     (_, s) \<leftarrow> ps_unsubscribe_all su s;
     (_, s) \<leftarrow> ps_flush Q su s;
     u \<leftarrow> g_subs s su;
     s \<leftarrow> on_heap (q_free Q (su_q u)) s;
     Some (s\<lparr>g_subs := (g_subs s)(su := None), g_stat_live_subscribers := g_stat_live_subscribers s - 1\<rparr>) }"

definition ps_subscriber_user_data_set :: "addr \<Rightarrow> addr \<Rightarrow> 'q state \<Rightarrow> 'q state option" where
  "ps_subscriber_user_data_set su userData s = do {
     u \<leftarrow> g_subs s su;
     Some (put_su su (u\<lparr>su_userData := userData\<rparr>) s) }"

definition ps_subscriber_user_data :: "addr \<Rightarrow> 'q state \<Rightarrow> addr option" where
  "ps_subscriber_user_data su s = map_option su_userData (g_subs s su)"

definition ps_set_new_msg_cb :: "'q qops \<Rightarrow> addr \<Rightarrow> nat option \<Rightarrow> 'q state \<Rightarrow> 'q state option" where
  "ps_set_new_msg_cb Q su cb s = do {
     s \<leftarrow> GLOBAL_LOCK s;
     u \<leftarrow> g_subs s su;
     let s = put_su su (u\<lparr>su_new_msg_cb := cb\<rparr>) s;
     n \<leftarrow> q_waiting Q (su_q u);
     GLOBAL_UNLOCK (if n > 0 then log_cb New_msg cb su s else s) }"

definition ps_set_non_empty_cb :: "'q qops \<Rightarrow> addr \<Rightarrow> nat option \<Rightarrow> 'q state \<Rightarrow> 'q state option" where
  "ps_set_non_empty_cb Q su cb s = do {
     s \<leftarrow> GLOBAL_LOCK s;
     u \<leftarrow> g_subs s su;
     let s = put_su su (u\<lparr>su_non_empty_cb := cb\<rparr>) s;
     n \<leftarrow> q_waiting Q (su_q u);
     GLOBAL_UNLOCK (if n > 0 then log_cb Non_empty cb su s else s) }"

definition ps_stats_live_subscribers :: "'q state \<Rightarrow> int" where
  "ps_stats_live_subscribers s = sint (g_stat_live_subscribers s)"

section \<open>Sticky messages\<close>

fun clean_sticky_loop :: "string \<Rightarrow> addr list \<Rightarrow> 'q state \<Rightarrow> 'q state option" where
  "clean_sticky_loop prefix [] s = Some s"
| "clean_sticky_loop prefix (tm # tms) s = do {
     t \<leftarrow> g_tms s tm;
     b \<leftarrow> topic_match prefix (tm_topic t);
     s \<leftarrow> (if b \<and> tm_sticky t \<noteq> NULL
          then do {
            s \<leftarrow> on_heap (ps_unref_msg (tm_sticky t)) s;
            let s = put_tm tm (t\<lparr>tm_sticky := NULL\<rparr>) s;
            map_option snd (free_topic_if_empty tm s) }
          else Some s);
     clean_sticky_loop prefix tms s }"

definition ps_clean_sticky :: "string \<Rightarrow> 'q state \<Rightarrow> 'q state option" where
  "ps_clean_sticky prefix s = do {
     s \<leftarrow> GLOBAL_LOCK s;
     s \<leftarrow> clean_sticky_loop prefix (g_topic_map s) s;
     GLOBAL_UNLOCK s }"

section \<open>Publishing\<close>

text \<open>The first turn of the loop also replaces or clears the sticky message of the topic itself.\<close>

definition publish_sticky :: "addr \<Rightarrow> string \<Rightarrow> addr \<Rightarrow> 'q state \<Rightarrow> (addr \<times> 'q state) option" where
  "publish_sticky msg topic tm s = do {
     m \<leftarrow> mh_msgs (g_heap s) msg;
     (if m_flags m AND PS_FL_STICKY \<noteq> 0 then do {
        let (tm, s) = (if tm = NULL then create_topic topic s else (tm, s));
        t \<leftarrow> g_tms s tm;
        s \<leftarrow> (if tm_sticky t \<noteq> NULL then on_heap (ps_unref_msg (tm_sticky t)) s else Some s);
        s \<leftarrow> on_heap (ps_ref_msg msg) s;
        Some (tm, put_tm tm (t\<lparr>tm_sticky := msg\<rparr>) s)
      } else if tm \<noteq> NULL then do {
        t \<leftarrow> g_tms s tm;
        if tm_sticky t \<noteq> NULL then do {
          s \<leftarrow> on_heap (ps_unref_msg (tm_sticky t)) s;
          (r, s) \<leftarrow> free_topic_if_empty tm (put_tm tm (t\<lparr>tm_sticky := NULL\<rparr>) s);
          Some (if r \<noteq> 0 then NULL else tm, s)
        } else Some (tm, s)
      } else Some (tm, s)) }"

fun deliver_loop :: "'q qops \<Rightarrow> addr \<Rightarrow> subscriber_list list \<Rightarrow> nat \<Rightarrow> 'q state \<Rightarrow> (nat \<times> 'q state) option" where
  "deliver_loop Q msg [] ret s = Some (ret, s)"
| "deliver_loop Q msg (sl # sls) ret s = do {
     skip \<leftarrow> (if sl_on_empty sl then do { n \<leftarrow> ps_waiting Q (sl_su sl) s; Some (n \<noteq> 0) } else Some False);
     if skip then deliver_loop Q msg sls ret s
     else do {
       (r, s) \<leftarrow> push_subscriber_queue Q (sl_su sl) msg (sl_priority sl) s;
       deliver_loop Q msg sls (if r = 0 \<and> \<not> sl_hidden sl then ret + 1 else ret) s } }"

function publish_loop :: "'q qops \<Rightarrow> addr \<Rightarrow> string \<Rightarrow> bool \<Rightarrow> nat \<Rightarrow> 'q state \<Rightarrow> (nat \<times> 'q state) option" where
  "publish_loop Q msg topic first ret s = do {
     tm \<leftarrow> fetch_topic topic s;
     (tm, s) \<leftarrow> (if first then publish_sticky msg topic tm s else Some (tm, s));
     (ret, s) \<leftarrow> (if tm \<noteq> NULL then do {
                    t \<leftarrow> g_tms s tm;
                    deliver_loop Q msg (tm_subscribers t) ret s
                  } else Some (ret, s));
     m \<leftarrow> mh_msgs (g_heap s) msg;
     if m_flags m AND PS_FL_NONRECURSIVE \<noteq> 0 then Some (ret, s)
     else if topic = [] then Some (ret, s)
     else publish_loop Q msg (parent topic) False ret s }"
  by pat_completeness auto
termination
  by (relation "measure (\<lambda>(_, _, topic, _, _, _). length topic)") (auto simp: length_parent)

declare publish_loop.simps [simp del]

definition ps_publish :: "'q qops \<Rightarrow> addr \<Rightarrow> 'q state \<Rightarrow> (int \<times> 'q state) option" where
  "ps_publish Q msg s =
     (if msg = NULL then Some (0, s)
      else do {
        m \<leftarrow> mh_msgs (g_heap s) msg;
        topic \<leftarrow> map_option cut_topic (m_topic m);
        s \<leftarrow> GLOBAL_LOCK s;
        (ret, s) \<leftarrow> publish_loop Q msg topic True 0 s;
        s \<leftarrow> on_heap (ps_unref_msg msg) s;
        s \<leftarrow> GLOBAL_UNLOCK s;
        Some (int ret, s) })"

function subs_count_loop :: "string \<Rightarrow> nat \<Rightarrow> 'q state \<Rightarrow> nat option" where
  "subs_count_loop topic cnt s =
     (if topic = [] then Some cnt
      else do {
        tm \<leftarrow> fetch_topic topic s;
        cnt \<leftarrow> (if tm \<noteq> NULL then do {
                    t \<leftarrow> g_tms s tm;
                    Some (cnt + length (filter (\<lambda>sl. \<not> sl_hidden sl) (tm_subscribers t)))
                  } else Some cnt);
        subs_count_loop (parent topic) cnt s })"
  by pat_completeness auto
termination
  by (relation "measure (\<lambda>(topic, _, _). length topic)") (auto simp: length_parent)

declare subs_count_loop.simps [simp del]

definition ps_subs_count :: "string option \<Rightarrow> 'q state \<Rightarrow> (int \<times> 'q state) option" where
  "ps_subs_count otopic s =
     (case otopic of
        None \<Rightarrow> Some (0, s)
      | Some t \<Rightarrow>
          if t = [] then Some (0, s)
          else do {
            let topic = cut_topic t;
            s \<leftarrow> GLOBAL_LOCK s;
            cnt \<leftarrow> subs_count_loop topic 0 s;
            s \<leftarrow> GLOBAL_UNLOCK s;
            Some (int cnt, s) })"

section \<open>Calls\<close>

text \<open>
  Between sending the request and taking the answer the other threads run: \<open>env\<close> is what they do to
  the state in the meantime (\<open>Some\<close> when nothing else runs).
\<close>

definition ps_call ::
    "'q qops \<Rightarrow> ('q state \<Rightarrow> 'q state option) \<Rightarrow> addr \<Rightarrow> i64 \<Rightarrow> 'q state \<Rightarrow> (addr \<times> 'q state) option" where
  "ps_call Q env msg timeout s = do {
     let s = s\<lparr>g_uuid_ctr := g_uuid_ctr s + 1\<rparr>;
     let rtopic = take 31 (rtopic_of (g_uuid_ctr s));
     s \<leftarrow> on_heap (ps_msg_set_rtopic msg (Some rtopic)) s;
     (su, s) \<leftarrow> ps_new_subscriber Q 1 (Some [rtopic]) s;
     (n, s) \<leftarrow> ps_publish Q msg s;
     (ret_msg, s) \<leftarrow> (if n = 0 then Some (NULL, s) else do { s \<leftarrow> env s; ps_get Q su timeout s });
     s \<leftarrow> ps_free_subscriber Q su s;
     Some (ret_msg, s) }"

definition ps_wait_one ::
    "'q qops \<Rightarrow> ('q state \<Rightarrow> 'q state option) \<Rightarrow> string \<Rightarrow> i64 \<Rightarrow> 'q state \<Rightarrow> (addr \<times> 'q state) option" where
  "ps_wait_one Q env topic timeout s = do {
     (su, s) \<leftarrow> ps_new_subscriber Q 1 (Some [topic]) s;
     s \<leftarrow> env s;
     (ret_msg, s) \<leftarrow> ps_get Q su timeout s;
     s \<leftarrow> ps_free_subscriber Q su s;
     Some (ret_msg, s) }"

end
