(* ===== verification/Broker_Links.thy ===== *)
theory Broker_Links
  imports Broker
begin

text \<open>
  The structural half of the broker's invariant: the topic map and the subscriptions of the
  subscribers describe the same links, topics have distinct names, and a subscriber appears once in
  a topic. Each change that the API makes to this structure is one lemma; the search of the hash
  table and its reading as a function from names are here too.
\<close>

definition topic_ok :: "addr set \<Rightarrow> topic_map \<Rightarrow> bool" where
  "topic_ok sus t \<longleftrightarrow>
     NUL \<notin> set (tm_topic t) \<and> distinct (map sl_su (tm_subscribers t)) \<and>
     (\<forall>sl\<in>set (tm_subscribers t). unat (sl_priority sl) < 10 \<and> sl_su sl \<in> sus)"

text \<open>\<open>subs_view\<close>: the topics that each subscriber is subscribed to.\<close>

definition subs_view :: "'q state \<Rightarrow> addr \<rightharpoonup> addr list" where
  "subs_view s = (\<lambda>su. map_option su_subs (g_subs s su))"

definition links_ok :: "(addr \<rightharpoonup> topic_map) \<Rightarrow> addr list \<Rightarrow> (addr \<rightharpoonup> addr list) \<Rightarrow> addr \<Rightarrow> bool" where
  "links_ok tms order view nxt \<longleftrightarrow>
     set order = dom tms \<and> distinct order \<and> finite (dom view) \<and> 0 < nxt \<and>
     (\<forall>a t. tms a = Some t \<longrightarrow> 0 < a \<and> a < nxt) \<and>
     (\<forall>a l. view a = Some l \<longrightarrow> 0 < a \<and> a < nxt) \<and>
     (\<forall>a b t t'. tms a = Some t \<and> tms b = Some t' \<and> tm_topic t = tm_topic t' \<longrightarrow> a = b) \<and>
     (\<forall>a t. tms a = Some t \<longrightarrow> topic_ok (dom view) t) \<and>
     (\<forall>su l. view su = Some l \<longrightarrow> distinct l) \<and>
     (\<forall>su l a. view su = Some l \<longrightarrow>
        (a \<in> set l \<longleftrightarrow> (\<exists>t. tms a = Some t \<and> su \<in> sl_su ` set (tm_subscribers t))))"

lemma links_ok_finite:
  assumes "links_ok tms order view nxt"
  shows "finite (dom tms)" "finite (dom view)"
  using assms by (auto simp: links_ok_def simp flip: finite_set) (metis List.finite_set)

lemma dom_subs_view [simp]: "dom (subs_view s) = dom (g_subs s)"
  by (auto simp: subs_view_def)


section \<open>Changes of the structure\<close>

lemma links_ok_D:
  assumes "links_ok tms order view nxt"
  shows "set order = dom tms" "distinct order" "0 < nxt"
    "\<And>a t. tms a = Some t \<Longrightarrow> 0 < a \<and> a < nxt" "\<And>a l. view a = Some l \<Longrightarrow> 0 < a \<and> a < nxt"
    "\<And>a b t t'. tms a = Some t \<Longrightarrow> tms b = Some t' \<Longrightarrow> tm_topic t = tm_topic t' \<Longrightarrow> a = b"
    "\<And>a t. tms a = Some t \<Longrightarrow> topic_ok (dom view) t"
    "\<And>su l. view su = Some l \<Longrightarrow> distinct l"
    "\<And>su l a. view su = Some l \<Longrightarrow> a \<in> set l \<longleftrightarrow> (\<exists>t. tms a = Some t \<and> su \<in> sl_su ` set (tm_subscribers t))"
proof -
  note u = assms [unfolded links_ok_def]
  note u4 = u [THEN conjunct2, THEN conjunct2, THEN conjunct2, THEN conjunct2]
  note u7 = u4 [THEN conjunct2, THEN conjunct2, THEN conjunct2]
  show "set order = dom tms" "distinct order" "0 < nxt" using u by simp_all
  show "\<And>a t. tms a = Some t \<Longrightarrow> 0 < a \<and> a < nxt" using u4 [THEN conjunct1] by blast
  show "\<And>a l. view a = Some l \<Longrightarrow> 0 < a \<and> a < nxt" using u4 [THEN conjunct2, THEN conjunct1] by blast
  show "\<And>a b t t'. tms a = Some t \<Longrightarrow> tms b = Some t' \<Longrightarrow> tm_topic t = tm_topic t' \<Longrightarrow> a = b"
    using u4 [THEN conjunct2, THEN conjunct2, THEN conjunct1] by blast
  show "\<And>a t. tms a = Some t \<Longrightarrow> topic_ok (dom view) t" using u7 [THEN conjunct1] by blast
  show "\<And>su l. view su = Some l \<Longrightarrow> distinct l" using u7 [THEN conjunct2, THEN conjunct1] by blast
  show "\<And>su l a. view su = Some l \<Longrightarrow> a \<in> set l \<longleftrightarrow> (\<exists>t. tms a = Some t \<and> su \<in> sl_su ` set (tm_subscribers t))"
    using u7 [THEN conjunct2, THEN conjunct2] by blast
qed

lemma links_okI:
  assumes "set order = dom tms" "distinct order" "finite (dom view)" "0 < nxt"
    "\<And>a t. tms a = Some t \<Longrightarrow> 0 < a \<and> a < nxt" "\<And>a l. view a = Some l \<Longrightarrow> 0 < a \<and> a < nxt"
    "\<And>a b t t'. tms a = Some t \<Longrightarrow> tms b = Some t' \<Longrightarrow> tm_topic t = tm_topic t' \<Longrightarrow> a = b"
    "\<And>a t. tms a = Some t \<Longrightarrow> topic_ok (dom view) t"
    "\<And>su l. view su = Some l \<Longrightarrow> distinct l"
    "\<And>su l a. view su = Some l \<Longrightarrow> a \<in> set l \<longleftrightarrow> (\<exists>t. tms a = Some t \<and> su \<in> sl_su ` set (tm_subscribers t))"
  shows "links_ok tms order view nxt"
  unfolding links_ok_def
proof (intro conjI allI impI)
  show "0 < a" "a < nxt" if "tms a = Some t" for a t using assms(5) [OF that] by simp_all
  show "0 < a" "a < nxt" if "view a = Some l" for a l using assms(6) [OF that] by simp_all
  show "a = b" if "tms a = Some t \<and> tms b = Some t' \<and> tm_topic t = tm_topic t'" for a b t t'
    using that assms(7) by blast
qed (rule assms; assumption)+

lemma links_ok_sticky:
  assumes ok: "links_ok tms order view nxt" and t: "tms a = Some t"
    and t': "tm_topic t' = tm_topic t" "tm_subscribers t' = tm_subscribers t"
  shows "links_ok (tms(a \<mapsto> t')) order view nxt"
proof -
  note d = links_ok_D [OF ok]
  have same: "\<exists>t1. tms b = Some t1 \<and> tm_topic t1 = tm_topic t2 \<and> tm_subscribers t1 = tm_subscribers t2"
    if "(tms(a \<mapsto> t')) b = Some t2" for b t2
    using that t t' by (auto split: if_splits)
  show ?thesis
  proof (rule links_okI)
    show "set order = dom (tms(a \<mapsto> t'))" using d(1) t by auto
    show "0 < b \<and> b < nxt" if "(tms(a \<mapsto> t')) b = Some t2" for b t2 using same [OF that] d(4) by blast
    show "b = c" if "(tms(a \<mapsto> t')) b = Some t1" "(tms(a \<mapsto> t')) c = Some t2" "tm_topic t1 = tm_topic t2" for b c t1 t2
      using same [OF that(1)] same [OF that(2)] that(3) d(6) by metis
    show "topic_ok (dom view) t2" if "(tms(a \<mapsto> t')) b = Some t2" for b t2
      using same [OF that] d(7) unfolding topic_ok_def by metis
    show "b \<in> set l \<longleftrightarrow> (\<exists>t2. (tms(a \<mapsto> t')) b = Some t2 \<and> su \<in> sl_su ` set (tm_subscribers t2))"
      if "view su = Some l" for su l b
      using d(9) [OF that, of b] t t' by auto
  qed (use d links_ok_finite [OF ok] in auto)
qed

lemma links_ok_create:
  assumes ok: "links_ok tms order view nxt" and new: "\<And>b t. tms b = Some t \<Longrightarrow> tm_topic t \<noteq> tm_topic t'"
    and t': "NUL \<notin> set (tm_topic t')" "tm_subscribers t' = []"
  shows "links_ok (tms(nxt \<mapsto> t')) (order @ [nxt]) view (nxt + 1)"
proof -
  note d = links_ok_D [OF ok]
  have fresh: "tms nxt = None" "nxt \<notin> set order" using d(1,4) by (metis less_irrefl not_None_eq domIff)+
  show ?thesis
  proof (rule links_okI)
    show "set (order @ [nxt]) = dom (tms(nxt \<mapsto> t'))" using d(1) by auto
    show "distinct (order @ [nxt])" using d(2) fresh by simp
    show "0 < b \<and> b < nxt + 1" if "(tms(nxt \<mapsto> t')) b = Some t2" for b t2
      using that d(3,4) by (auto split: if_splits) (metis less_SucI)
    show "0 < b \<and> b < nxt + 1" if "view b = Some l" for b l using d(5) [OF that] by simp
    show "b = c" if "(tms(nxt \<mapsto> t')) b = Some t1" "(tms(nxt \<mapsto> t')) c = Some t2" "tm_topic t1 = tm_topic t2" for b c t1 t2
      using that d(6) new by (auto split: if_splits) metis+
    show "topic_ok (dom view) t2" if "(tms(nxt \<mapsto> t')) b = Some t2" for b t2
      using that d(7) t' by (auto simp: topic_ok_def split: if_splits)
    show "b \<in> set l \<longleftrightarrow> (\<exists>t2. (tms(nxt \<mapsto> t')) b = Some t2 \<and> su \<in> sl_su ` set (tm_subscribers t2))"
      if "view su = Some l" for su l b
      using d(9) [OF that, of b] t' fresh by auto
  qed (use d links_ok_finite [OF ok] in auto)
qed

lemma links_ok_remove:
  assumes ok: "links_ok tms order view nxt" and t: "tms a = Some t" "tm_subscribers t = []"
  shows "links_ok (tms(a := None)) (remove1 a order) view nxt"
proof -
  note d = links_ok_D [OF ok]
  have sub: "tms b = Some t2 \<and> b \<noteq> a" if "(tms(a := None)) b = Some t2" for b t2
    using that by (auto split: if_splits)
  show ?thesis
  proof (rule links_okI)
    show "set (remove1 a order) = dom (tms(a := None))" using d(1,2) by auto
    show "distinct (remove1 a order)" using d(2) by simp
    show "0 < b \<and> b < nxt" if "(tms(a := None)) b = Some t2" for b t2 using sub [OF that] d(4) by blast
    show "b = c" if "(tms(a := None)) b = Some t1" "(tms(a := None)) c = Some t2" "tm_topic t1 = tm_topic t2" for b c t1 t2
      using sub [OF that(1)] sub [OF that(2)] that(3) d(6) by blast
    show "topic_ok (dom view) t2" if "(tms(a := None)) b = Some t2" for b t2
      using sub [OF that] d(7) by blast
    show "b \<in> set l \<longleftrightarrow> (\<exists>t2. (tms(a := None)) b = Some t2 \<and> su \<in> sl_su ` set (tm_subscribers t2))"
      if "view su = Some l" for su l b
      using d(9) [OF that, of b] t by auto
  qed (use d links_ok_finite [OF ok] in auto)
qed

lemma links_ok_subscribe:
  assumes ok: "links_ok tms order view nxt" and t: "tms a = Some t" and l: "view su = Some l"
    and sl: "sl_su sl = su" "unat (sl_priority sl) < 10" and new: "su \<notin> sl_su ` set (tm_subscribers t)"
  shows "links_ok (tms(a \<mapsto> t\<lparr>tm_subscribers := tm_subscribers t @ [sl]\<rparr>)) order (view(su \<mapsto> l @ [a])) nxt"
    (is "links_ok ?tms order ?view nxt")
proof -
  note d = links_ok_D [OF ok]
  have dom: "dom ?view = dom view" using l by auto
  have a: "a \<notin> set l" using d(9) [OF l, of a] t new by auto
  have same: "\<exists>t1. tms b = Some t1 \<and> tm_topic t1 = tm_topic t2" if "?tms b = Some t2" for b t2
    using that t by (auto split: if_splits)
  show ?thesis
  proof (rule links_okI)
    show "set order = dom ?tms" using d(1) t by auto
    show "finite (dom ?view)" using links_ok_finite [OF ok] by simp
    show "0 < b \<and> b < nxt" if "?tms b = Some t2" for b t2 using same [OF that] d(4) by blast
    show "0 < b \<and> b < nxt" if "?view b = Some k" for b k using that l d(5) by (auto split: if_splits)
    show "b = c" if "?tms b = Some t1" "?tms c = Some t2" "tm_topic t1 = tm_topic t2" for b c t1 t2
      using same [OF that(1)] same [OF that(2)] that(3) d(6) by metis
    show "topic_ok (dom ?view) t2" if "?tms b = Some t2" for b t2
      using that d(7) [of b] d(7) [OF t] sl new l unfolding dom topic_ok_def by (auto split: if_splits)
    show "distinct k" if "?view su' = Some k" for su' k
      using that d(8) l a by (auto split: if_splits)
    show "b \<in> set k \<longleftrightarrow> (\<exists>t2. ?tms b = Some t2 \<and> su' \<in> sl_su ` set (tm_subscribers t2))"
      if "?view su' = Some k" for su' k b
      using that d(9) [of su' _ b] l t sl by (cases "su' = su"; cases "b = a") auto
  qed (use d in auto)
qed

lemma find_su_Some:
  assumes "find_su su sls = Some sl"
  shows "sl \<in> set sls" "sl_su sl = su"
  using assms by (auto simp: find_su_def find_Some_iff)

lemma find_su_None: "find_su su sls = None \<longleftrightarrow> su \<notin> sl_su ` set sls"
  by (auto simp: find_su_def find_None_iff)

lemma remove1_su:
  assumes "distinct (map sl_su sls)" and "sl \<in> set sls"
  shows "sl_su ` set (remove1 sl sls) = sl_su ` set sls - {sl_su sl}" "distinct (map sl_su (remove1 sl sls))"
proof -
  obtain xs ys where s: "sls = xs @ sl # ys" "sl \<notin> set xs" using assms(2) by (metis split_list_first)
  then have r: "remove1 sl sls = xs @ ys" by (simp add: remove1_append)
  show "sl_su ` set (remove1 sl sls) = sl_su ` set sls - {sl_su sl}" "distinct (map sl_su (remove1 sl sls))"
    unfolding r using assms(1) s by (auto simp: image_iff)
qed

lemma links_ok_unsubscribe:
  assumes ok: "links_ok tms order view nxt" and t: "tms a = Some t" and l: "view su = Some l"
    and sl: "sl \<in> set (tm_subscribers t)" "sl_su sl = su"
  shows "links_ok (tms(a \<mapsto> t\<lparr>tm_subscribers := remove1 sl (tm_subscribers t)\<rparr>)) order (view(su \<mapsto> remove1 a l)) nxt"
    (is "links_ok ?tms order ?view nxt")
proof -
  note d = links_ok_D [OF ok]
  have dom: "dom ?view = dom view" using l by auto
  have r: "sl_su ` set (remove1 sl (tm_subscribers t)) = sl_su ` set (tm_subscribers t) - {su}"
    "distinct (map sl_su (remove1 sl (tm_subscribers t)))"
    using remove1_su [of "tm_subscribers t" sl] d(7) [OF t] sl by (simp_all add: topic_ok_def)
  have same: "\<exists>t1. tms b = Some t1 \<and> tm_topic t1 = tm_topic t2" if "?tms b = Some t2" for b t2
    using that t by (auto split: if_splits)
  show ?thesis
  proof (rule links_okI)
    show "set order = dom ?tms" using d(1) t by auto
    show "finite (dom ?view)" using links_ok_finite [OF ok] by simp
    show "0 < b \<and> b < nxt" if "?tms b = Some t2" for b t2 using same [OF that] d(4) by blast
    show "0 < b \<and> b < nxt" if "?view b = Some k" for b k using that l d(5) by (auto split: if_splits)
    show "b = c" if "?tms b = Some t1" "?tms c = Some t2" "tm_topic t1 = tm_topic t2" for b c t1 t2
      using same [OF that(1)] same [OF that(2)] that(3) d(6) by metis
    show "topic_ok (dom ?view) t2" if "?tms b = Some t2" for b t2
      using that d(7) [of b] d(7) [OF t] r(2) unfolding dom topic_ok_def
      by (auto split: if_splits dest: notin_set_remove1)
    show "distinct k" if "?view su' = Some k" for su' k
      using that d(8) l by (auto split: if_splits)
    show "b \<in> set k \<longleftrightarrow> (\<exists>t2. ?tms b = Some t2 \<and> su' \<in> sl_su ` set (tm_subscribers t2))"
      if k: "?view su' = Some k" for su' k b
    proof (cases "su' = su")
      case True
      then have "set k = set l - {a}" using k d(8) [OF l] by auto
      then show ?thesis using d(9) [OF l, of b] t r(1) True by (cases "b = a") auto
    next
      case False
      then have "view su' = Some k" using k by simp
      from d(9) [OF this, of b] show ?thesis using t r(1) False by (cases "b = a") auto
    qed
  qed (use d in auto)
qed

lemma links_ok_new_su:
  assumes ok: "links_ok tms order view nxt"
  shows "links_ok tms order (view(nxt \<mapsto> [])) (nxt + 1)" (is "links_ok tms order ?view _")
proof -
  note d = links_ok_D [OF ok]
  have fresh: "nxt \<notin> sl_su ` set (tm_subscribers t)" if "tms b = Some t" for b t
    using d(5,7) [of nxt] d(7) [OF that] by (auto simp: topic_ok_def)
  show ?thesis
  proof (rule links_okI)
    show "finite (dom ?view)" using links_ok_finite [OF ok] by simp
    show "0 < b \<and> b < nxt + 1" if "tms b = Some t2" for b t2 using d(4) [OF that] by simp
    show "0 < b \<and> b < nxt + 1" if "?view b = Some k" for b k
      using that d(3,5) by (auto split: if_splits) (metis less_SucI)
    show "topic_ok (dom ?view) t2" if "tms b = Some t2" for b t2
      using d(7) [OF that] by (auto simp: topic_ok_def)
    show "distinct k" if "?view su' = Some k" for su' k using that d(8) by (auto split: if_splits)
    show "b \<in> set k \<longleftrightarrow> (\<exists>t2. tms b = Some t2 \<and> su' \<in> sl_su ` set (tm_subscribers t2))"
      if "?view su' = Some k" for su' k b
      using that d(9) [of su' k b] fresh [of b] by (auto split: if_splits)
  qed (use d in auto)
qed

lemma links_ok_free_su:
  assumes ok: "links_ok tms order view nxt" and su: "view su = Some []"
  shows "links_ok tms order (view(su := None)) nxt" (is "links_ok tms order ?view _")
proof -
  note d = links_ok_D [OF ok]
  have no: "su \<notin> sl_su ` set (tm_subscribers t)" if "tms b = Some t" for b t
    using d(9) [OF su, of b] that by auto
  show ?thesis
  proof (rule links_okI)
    show "finite (dom ?view)" using links_ok_finite [OF ok] by simp
    show "topic_ok (dom ?view) t2" if "tms b = Some t2" for b t2
      using d(7) [OF that] no [OF that] by (auto simp: topic_ok_def)
    show "0 < b \<and> b < nxt" if "?view b = Some k" for b k using that d(5) by (auto split: if_splits)
    show "distinct k" if "?view su' = Some k" for su' k using that d(8) by (auto split: if_splits)
    show "b \<in> set k \<longleftrightarrow> (\<exists>t2. tms b = Some t2 \<and> su' \<in> sl_su ` set (tm_subscribers t2))"
      if "?view su' = Some k" for su' k b
      using that d(9) [of su' k b] by (auto split: if_splits)
  qed (use d in auto)
qed

section \<open>Looking a topic up\<close>

definition lookup :: "'q state \<Rightarrow> string \<Rightarrow> addr option" where
  "lookup s topic = find (\<lambda>a. map_option tm_topic (g_tms s a) = Some topic) (g_topic_map s)"

lemma fetch_topic_lookup:
  assumes "set (g_topic_map s) \<subseteq> dom (g_tms s)"
  shows "fetch_topic topic s = Some (case lookup s topic of None \<Rightarrow> NULL | Some a \<Rightarrow> a)"
proof -
  have "hash_find_str (g_tms s) topic as = Some (case find (\<lambda>a. map_option tm_topic (g_tms s a) = Some topic) as of None \<Rightarrow> NULL | Some a \<Rightarrow> a)"
    if "set as \<subseteq> dom (g_tms s)" for "as"
    using that by (induction "as") auto
  then show ?thesis using assms by (simp add: fetch_topic_def lookup_def)
qed

lemma lookup_Some_iff:
  assumes "links_ok (g_tms s) (g_topic_map s) view nxt"
  shows "lookup s topic = Some a \<longleftrightarrow> (\<exists>t. g_tms s a = Some t \<and> tm_topic t = topic)"
proof
  assume "lookup s topic = Some a"
  then show "\<exists>t. g_tms s a = Some t \<and> tm_topic t = topic"
    by (auto simp: lookup_def find_Some_iff)
next
  note d = links_ok_D [OF assms]
  assume "\<exists>t. g_tms s a = Some t \<and> tm_topic t = topic"
  then obtain t where t: "g_tms s a = Some t" "tm_topic t = topic" by blast
  then have "a \<in> set (g_topic_map s)" using d(1) by auto
  then have "lookup s topic \<noteq> None" using t by (auto simp: lookup_def find_None_iff)
  then obtain b where b: "lookup s topic = Some b" by blast
  then obtain t' where "g_tms s b = Some t'" "tm_topic t' = topic" by (auto simp: lookup_def find_Some_iff)
  then have "a = b" using d(6) [OF t(1)] t(2) by simp
  with b show "lookup s topic = Some a" by simp
qed

lemma lookup_None_iff:
  assumes "links_ok (g_tms s) (g_topic_map s) view nxt"
  shows "lookup s topic = None \<longleftrightarrow> (\<forall>a t. g_tms s a = Some t \<longrightarrow> tm_topic t \<noteq> topic)"
  using lookup_Some_iff [OF assms, of topic] by (metis not_None_eq)

lemma fetch_topic_ok:
  assumes "links_ok (g_tms s) (g_topic_map s) view nxt"
  shows "fetch_topic topic s = Some (case lookup s topic of None \<Rightarrow> NULL | Some a \<Rightarrow> a)"
    and "lookup s topic = Some a \<Longrightarrow> a \<noteq> NULL"
proof -
  show "fetch_topic topic s = Some (case lookup s topic of None \<Rightarrow> NULL | Some a \<Rightarrow> a)"
    using fetch_topic_lookup links_ok_D(1) [OF assms] by blast
  show "a \<noteq> NULL" if "lookup s topic = Some a"
    using that lookup_Some_iff [OF assms] links_ok_D(4) [OF assms] by blast
qed

end
