(* ===== verification/Broker_Ok.thy ===== *)
theory Broker_Ok
  imports Broker_Links
begin

text \<open>
  The invariant of the broker and the proof that its operations keep it, over any queue that meets
  the contract \<open>msg_queue\<close>. Three parts: the topic map and the subscriptions of the subscribers
  describe the same links (\<open>links_ok\<close>); the queues meet their own invariant; and the reference
  count of every message is the number of references held by users, queues and sticky topics
  (\<open>heap_ok\<close> with \<open>held\<close>). \<open>U m\<close> is the number of references that user code holds on \<open>m\<close>.
\<close>

unbundle bit_operations_syntax

section \<open>The invariant\<close>

text \<open>References to \<open>m\<close> in the queues and in the sticky slots.\<close>

definition held :: "('q \<Rightarrow> addr list) \<Rightarrow> 'q state \<Rightarrow> addr \<Rightarrow> nat" where
  "held msgs s m =
     hsum (\<lambda>u. count (mset (msgs (su_q u))) m) (g_subs s)
     + (if m = NULL then 0 else hsum (\<lambda>t. of_bool (tm_sticky t = m)) (g_tms s))"

definition queues_ok :: "('q \<Rightarrow> bool) \<Rightarrow> 'q state \<Rightarrow> bool" where
  "queues_ok qi s \<longleftrightarrow> (\<forall>su u. g_subs s su = Some u \<longrightarrow> qi (su_q u))"

definition refs_ok :: "('q \<Rightarrow> addr list) \<Rightarrow> (addr \<Rightarrow> nat) \<Rightarrow> 'q state \<Rightarrow> bool" where
  "refs_ok msgs U s \<longleftrightarrow> heap_ok (\<lambda>m. U m + held msgs s m) (g_heap s)"

text \<open>What holds between any two steps of an operation.\<close>

definition core_ok :: "('q \<Rightarrow> bool) \<Rightarrow> ('q \<Rightarrow> addr list) \<Rightarrow> (addr \<Rightarrow> nat) \<Rightarrow> 'q state \<Rightarrow> bool" where
  "core_ok qi msgs U s \<longleftrightarrow>
     refs_ok msgs U s \<and> queues_ok qi s \<and>
     links_ok (g_tms s) (g_topic_map s) (subs_view s) (g_next s)"

text \<open>A topic that nobody needs has been freed.\<close>

definition needed :: "topic_map \<Rightarrow> bool" where
  "needed t \<longleftrightarrow> tm_subscribers t \<noteq> [] \<or> tm_sticky t \<noteq> NULL"

definition all_needed :: "'q state \<Rightarrow> bool" where
  "all_needed s \<longleftrightarrow> (\<forall>a t. g_tms s a = Some t \<longrightarrow> needed t)"

text \<open>What holds when no call is running; between API calls the count of the subscribers is right as well.\<close>

definition idle_ok :: "('q \<Rightarrow> bool) \<Rightarrow> ('q \<Rightarrow> addr list) \<Rightarrow> (addr \<Rightarrow> nat) \<Rightarrow> 'q state \<Rightarrow> bool" where
  "idle_ok qi msgs U s \<longleftrightarrow> core_ok qi msgs U s \<and> all_needed s \<and> \<not> g_lock s"

definition broker_ok :: "('q \<Rightarrow> bool) \<Rightarrow> ('q \<Rightarrow> addr list) \<Rightarrow> (addr \<Rightarrow> nat) \<Rightarrow> 'q state \<Rightarrow> bool" where
  "broker_ok qi msgs U s \<longleftrightarrow>
     core_ok qi msgs U s \<and> all_needed s \<and> \<not> g_lock s \<and>
     g_stat_live_subscribers s = of_nat (card (dom (g_subs s)))"

text \<open>\<open>k\<close> more references cannot wrap a count: there are few enough places for a reference.\<close>

definition room :: "('q \<Rightarrow> nat) \<Rightarrow> nat \<Rightarrow> (addr \<Rightarrow> nat) \<Rightarrow> 'q state \<Rightarrow> bool" where
  "room cap k U s \<longleftrightarrow> (\<forall>m. U m + hsum (\<lambda>u. cap (su_q u)) (g_subs s) + card (dom (g_tms s)) + k < 2 ^ 32)"

section \<open>Frames\<close>

text \<open>A message keeps its content; its count may change, or the message may go.\<close>

definition same_content :: "mheap \<Rightarrow> mheap \<Rightarrow> bool" where
  "same_content h h' \<longleftrightarrow>
     (\<forall>a m'. mh_msgs h' a = Some m' \<longrightarrow> (\<exists>m. mh_msgs h a = Some m \<and> m' = m\<lparr>m_ref := m_ref m'\<rparr>))"

lemma same_content_refl [simp]: "same_content h h"
  by (simp add: same_content_def)

lemma same_content_trans:
  assumes "same_content h1 h2" and "same_content h2 h3"
  shows "same_content h1 h3"
  unfolding same_content_def
proof (intro allI impI)
  fix a m3 assume "mh_msgs h3 a = Some m3"
  then obtain m2 where m2: "mh_msgs h2 a = Some m2" "m3 = m2\<lparr>m_ref := m_ref m3\<rparr>"
    using assms(2) unfolding same_content_def by blast
  then obtain m1 where m1: "mh_msgs h1 a = Some m1" "m2 = m1\<lparr>m_ref := m_ref m2\<rparr>"
    using assms(1) unfolding same_content_def by blast
  have "m3 = m1\<lparr>m_ref := m_ref m3\<rparr>" using m1(2) m2(2) by (metis msg.update_convs(1) msg.surjective)
  with m1(1) show "\<exists>m. mh_msgs h1 a = Some m \<and> m3 = m\<lparr>m_ref := m_ref m3\<rparr>" by blast
qed

lemma same_content_ref: "ps_ref_msg a h = Some h' \<Longrightarrow> same_content h h'"
  by (auto simp: ps_ref_msg_def same_content_def bind_Some_iff split: if_splits)

lemma same_content_unref:
  "heap_ok n h \<Longrightarrow> 0 < n a \<Longrightarrow> ps_unref_msg a h = Some h' \<Longrightarrow> same_content h h'"
  using ps_unref_msg_ok [of n h a] by (auto simp: same_content_def split: if_splits)

text \<open>\<open>delivered s s'\<close>: between \<open>s\<close> and \<open>s'\<close> only queues, overflow counters, counts and the callback log changed.\<close>

definition su_keep :: "('q \<Rightarrow> nat) \<Rightarrow> 'q subscriber \<Rightarrow> addr list \<times> nat \<times> nat option \<times> nat option \<times> addr" where
  "su_keep cap u = (su_subs u, cap (su_q u), su_new_msg_cb u, su_non_empty_cb u, su_userData u)"

definition keeps :: "('q \<Rightarrow> nat) \<Rightarrow> 'q state \<Rightarrow> addr \<Rightarrow> (addr list \<times> nat \<times> nat option \<times> nat option \<times> addr) option" where
  "keeps cap s = (\<lambda>su. map_option (su_keep cap) (g_subs s su))"

definition delivered :: "('q \<Rightarrow> nat) \<Rightarrow> 'q state \<Rightarrow> 'q state \<Rightarrow> bool" where
  "delivered cap s s' \<longleftrightarrow>
     g_lock s' = g_lock s \<and> g_tms s' = g_tms s \<and> g_topic_map s' = g_topic_map s \<and> g_next s' = g_next s \<and>
     g_uuid_ctr s' = g_uuid_ctr s \<and> g_stat_live_subscribers s' = g_stat_live_subscribers s \<and>
     keeps cap s' = keeps cap s \<and> same_content (g_heap s) (g_heap s')"

lemma delivered_refl [simp]: "delivered cap s s"
  by (simp add: delivered_def)

lemma delivered_trans: "delivered cap s1 s2 \<Longrightarrow> delivered cap s2 s3 \<Longrightarrow> delivered cap s1 s3"
  using same_content_trans [of "g_heap s1" "g_heap s2" "g_heap s3"] by (simp add: delivered_def)

lemma keeps_Some:
  assumes "keeps cap s' = keeps cap s" and "g_subs s su = Some u"
  shows "\<exists>u'. g_subs s' su = Some u' \<and> su_keep cap u' = su_keep cap u"
  using fun_cong [OF assms(1), of su] assms(2) by (simp add: keeps_def)

lemma dom_keeps: "dom (keeps cap s) = dom (g_subs s)"
  by (auto simp: keeps_def)

lemma keeps_dom: "keeps cap s' = keeps cap s \<Longrightarrow> dom (g_subs s') = dom (g_subs s)"
  using dom_keeps [of cap s] dom_keeps [of cap s'] by simp

lemma keeps_view: "keeps cap s' = keeps cap s \<Longrightarrow> subs_view s' = subs_view s"
proof
  fix su assume "keeps cap s' = keeps cap s"
  from fun_cong [OF this, of su] have "map_option fst (map_option (su_keep cap) (g_subs s' su)) = map_option fst (map_option (su_keep cap) (g_subs s su))"
    by (simp only: keeps_def)
  then show "subs_view s' su = subs_view s su" by (simp add: subs_view_def option.map_comp comp_def su_keep_def)
qed

lemma keeps_caps:
  assumes "keeps cap s' = keeps cap s"
  shows "hsum (\<lambda>u. cap (su_q u)) (g_subs s') = hsum (\<lambda>u. cap (su_q u)) (g_subs s)"
proof -
  have "cap (su_q (the (g_subs s' a))) = cap (su_q (the (g_subs s a)))" if "a \<in> dom (g_subs s)" for a
    using that keeps_Some [OF assms, of a] by (auto simp: su_keep_def)
  then show ?thesis unfolding hsum_def keeps_dom [OF assms] by (intro sum.cong) auto
qed

lemma delivered_D:
  assumes "delivered cap s s'"
  shows "g_lock s' = g_lock s" "g_tms s' = g_tms s" "g_topic_map s' = g_topic_map s" "g_next s' = g_next s"
    "g_uuid_ctr s' = g_uuid_ctr s" "g_stat_live_subscribers s' = g_stat_live_subscribers s"
    "keeps cap s' = keeps cap s" "same_content (g_heap s) (g_heap s')"
    "subs_view s' = subs_view s" "dom (g_subs s') = dom (g_subs s)"
  using assms keeps_view [of cap s' s] keeps_dom [of cap s' s] by (simp_all add: delivered_def)

lemma delivered_room: "delivered cap s s' \<Longrightarrow> room cap k U s' = room cap k U s"
  using keeps_caps [of cap s' s] by (simp add: room_def delivered_def)

section \<open>Delivering one message\<close>

lemma ps_unref_msg_heap:
  assumes "heap_ok n h" and "0 < n a"
  obtains h' where "ps_unref_msg a h = Some h'" and "heap_ok (n(a := n a - 1)) h'"
  using ps_unref_msg_ok [OF assms] by blast

lemma held_put_su:
  assumes "finite (dom (g_subs s))" and "g_subs s su = Some u"
  shows "held msgs (put_su su u' s) m + count (mset (msgs (su_q u))) m
       = held msgs s m + count (mset (msgs (su_q u'))) m"
  using hsum_update [OF assms, of "\<lambda>u. count (mset (msgs (su_q u))) m" u']
  by (cases "m = NULL") (simp_all add: held_def)

lemma held_frame [simp]:
  "held msgs (s\<lparr>g_heap := h\<rparr>) = held msgs s" "held msgs (s\<lparr>g_lock := l\<rparr>) = held msgs s"
  "held msgs (s\<lparr>g_cbs := c\<rparr>) = held msgs s" "held msgs (s\<lparr>g_topic_map := tml\<rparr>) = held msgs s"
  "held msgs (s\<lparr>g_next := x\<rparr>) = held msgs s" "held msgs (s\<lparr>g_stat_live_subscribers := n\<rparr>) = held msgs s"
  "held msgs (s\<lparr>g_uuid_ctr := n\<rparr>) = held msgs s"
  by (simp_all add: held_def fun_eq_iff)

lemma core_ok_D:
  assumes "core_ok qi msgs U s"
  shows "refs_ok msgs U s" "queues_ok qi s" "links_ok (g_tms s) (g_topic_map s) (subs_view s) (g_next s)"
    "finite (dom (g_tms s))" "finite (dom (g_subs s))"
  using assms links_ok_finite [of "g_tms s" "g_topic_map s" "subs_view s" "g_next s"]
  by (simp_all add: core_ok_def)

text \<open>The callbacks that a stored message triggers, when \<open>n\<close> messages are then waiting.\<close>

definition push_events :: "'q subscriber \<Rightarrow> nat \<Rightarrow> addr \<Rightarrow> cb_event list" where
  "push_events u n su =
     (case su_non_empty_cb u of None \<Rightarrow> [] | Some k \<Rightarrow> if n = 1 then [Non_empty k su] else [])
     @ (case su_new_msg_cb u of None \<Rightarrow> [] | Some k \<Rightarrow> [New_msg k su])"

lemma log_cb_eq: "log_cb ev cb su s = s\<lparr>g_cbs := g_cbs s @ (case cb of None \<Rightarrow> [] | Some k \<Rightarrow> [ev k su])\<rparr>"
  by (cases s) (simp add: log_cb_def split: option.split)

text \<open>
  Delivering to one queue: it returns, the invariant holds afterwards, nothing but that queue, its
  counter, the reference counts and the callback log change. With room in the queue the message is
  stored and the result is 0; on a full queue the result is -1 and the overflow counter goes up.
\<close>

definition push_result :: "('q \<Rightarrow> addr list) \<Rightarrow> ('q \<Rightarrow> nat) \<Rightarrow> addr \<Rightarrow> addr \<Rightarrow> 'q state \<Rightarrow> int \<Rightarrow> 'q state \<Rightarrow> bool" where
  "push_result msgs cap su m s r s' \<longleftrightarrow>
     delivered cap s s' \<and> (\<forall>su'. su' \<noteq> su \<longrightarrow> g_subs s' su' = g_subs s su') \<and>
     (\<exists>u u'. g_subs s su = Some u \<and> g_subs s' su = Some u' \<and>
        (if length (msgs (su_q u)) < cap (su_q u)
         then r = 0 \<and> mset (msgs (su_q u')) = add_mset m (mset (msgs (su_q u))) \<and> su_overflow u' = su_overflow u
           \<and> g_cbs s' = g_cbs s @ push_events u (Suc (length (msgs (su_q u)))) su
         else r = -1 \<and> su_overflow u' = su_overflow u + 1 \<and> g_cbs s' = g_cbs s \<and>
           (su_q u' = su_q u \<or>
            (\<exists>e. e \<in> set (msgs (su_q u)) \<and> mset (msgs (su_q u')) = add_mset m (mset (msgs (su_q u)) - {#e#})))))"

context msg_queue
begin

lemma held_in_queue:
  assumes "finite (dom (g_subs s))" and "g_subs s su = Some u" and "m \<in> set (msgs (su_q u))"
  shows "0 < held msgs s m"
proof -
  have "0 < count (mset (msgs (su_q u))) m" using assms(3) by (simp add: count_greater_zero_iff)
  also have "\<dots> \<le> hsum (\<lambda>u. count (mset (msgs (su_q u))) m) (g_subs s)"
    by (rule hsum_ge [OF assms(1,2)])
  finally show ?thesis by (simp add: held_def)
qed

lemma held_le:
  assumes "queues_ok inv s" and "finite (dom (g_tms s))"
  shows "held msgs s m \<le> hsum (\<lambda>u. cap (su_q u)) (g_subs s) + card (dom (g_tms s))"
proof -
  have "count (mset (msgs (su_q u))) m \<le> cap (su_q u)" if "g_subs s su = Some u" for su u
    using bound [of "su_q u"] count_le_length [of "msgs (su_q u)" m] that assms(1)
    by (auto simp: queues_ok_def count_mset intro: order_trans)
  then have "hsum (\<lambda>u. count (mset (msgs (su_q u))) m) (g_subs s) \<le> hsum (\<lambda>u. cap (su_q u)) (g_subs s)"
    by (intro hsum_mono)
  moreover have "hsum (\<lambda>t. of_bool (tm_sticky t = m)) (g_tms s) \<le> hsum (\<lambda>_. 1) (g_tms s)"
    by (intro hsum_mono) simp
  ultimately show ?thesis unfolding held_def hsum_const_1 by (cases "m = NULL") (simp_all add: add_mono)
qed

lemma room_ref:
  assumes "room cap k U s" and "queues_ok inv s" and "finite (dom (g_tms s))"
  shows "U m + held msgs s m + k < 2 ^ 32"
proof -
  have "U m + hsum (\<lambda>u. cap (su_q u)) (g_subs s) + card (dom (g_tms s)) + k < 2 ^ 32"
    using assms(1) by (simp add: room_def)
  then show ?thesis using held_le [OF assms(2,3), of m] by linarith
qed

lemma refs_ok_put_su:
  assumes "refs_ok msgs U s" and "finite (dom (g_subs s))" and "g_subs s su = Some u"
    and "heap_ok n h" and "\<And>x. n x + count (mset (msgs (su_q u))) x = U x + held msgs s x + count (mset (msgs (su_q u'))) x"
  shows "refs_ok msgs U ((put_su su u' s)\<lparr>g_heap := h\<rparr>)"
proof -
  have "U x + held msgs (put_su su u' s) x = n x" for x
    using held_put_su [OF assms(2,3), of msgs u' x] assms(5) [of x] by simp
  then have "(\<lambda>x. U x + held msgs (put_su su u' s) x) = n" by (rule ext)
  then show ?thesis using assms(4) by (simp add: refs_ok_def)
qed

lemma push_subscriber_queue_ok:
  assumes ok: "core_ok inv msgs U s" and live: "0 < U m + held msgs s m" and su: "g_subs s su = Some u"
    and p: "unat p < 10" and room: "room cap 1 U s"
  shows "\<exists>r s'. push_subscriber_queue Q su m p s = Some (r, s') \<and> core_ok inv msgs U s' \<and> push_result msgs cap su m s r s'"
proof -
  note d = core_ok_D [OF ok]
  let ?n = "\<lambda>x. U x + held msgs s x"
  have heap: "heap_ok ?n (g_heap s)" using d(1) by (simp add: refs_ok_def)
  have iq: "inv (su_q u)" using d(2) su by (auto simp: queues_ok_def)
  obtain h1 where h1: "ps_ref_msg m (g_heap s) = Some h1" "heap_ok (?n(m := ?n m + 1)) h1"
    using ps_ref_msg_ok [OF heap live] room_ref [OF room d(2,4), of m] by auto
  have mn: "m \<noteq> NULL" using heap_ok_D(3) [OF heap] live by (metis less_irrefl)
  note c1 = same_content_ref [OF h1(1)]
  have fin: "core_ok inv msgs U s'" if "refs_ok msgs U s'" "delivered cap s s'" "queues_ok inv s'" for s'
    using that d(3) delivered_D [OF that(2)] by (simp add: core_ok_def)
  have qok: "queues_ok inv s'" if "g_subs s' = (g_subs s)(su \<mapsto> u')" "inv (su_q u')" for s' u'
    using that d(2) by (auto simp: queues_ok_def split: if_splits)
  have dl: "delivered cap s ((put_su su u' s)\<lparr>g_heap := h, g_cbs := c\<rparr>)" if "su_keep cap u' = su_keep cap u" "same_content (g_heap s) h" for u' h c
    using that su by (auto simp: delivered_def keeps_def fun_eq_iff)
  show ?thesis
  proof (cases "length (msgs (su_q u)) < cap (su_q u)")
    case True
    obtain q' where q': "q_push Q (su_q u) m p h1 = Some (PS_QUEUE_OK, q', h1)" "inv q'" "cap q' = cap (su_q u)"
      "mset (msgs q') = add_mset m (mset (msgs (su_q u)))"
      using push_room [OF iq mn p True] by blast
    let ?u = "u\<lparr>su_q := q'\<rparr>"
    have len: "length (msgs q') = Suc (length (msgs (su_q u)))"
      using arg_cong [OF q'(4), of size] by simp
    let ?s = "(put_su su ?u s)\<lparr>g_heap := h1, g_cbs := g_cbs s @ push_events u (Suc (length (msgs (su_q u)))) su\<rparr>"
    have run: "push_subscriber_queue Q su m p s = Some (0, ?s)"
      using h1(1) su q'(1) waiting [OF q'(2)] len
      by (simp add: push_subscriber_queue_def on_heap_def queue_codes Let_def log_cb_eq push_events_def
          split: option.split)
    have "refs_ok msgs U ((put_su su ?u s)\<lparr>g_heap := h1\<rparr>)"
      by (rule refs_ok_put_su [OF d(1,5) su h1(2)]) (simp add: q'(4))
    then have r: "refs_ok msgs U ?s" by (simp add: refs_ok_def)
    have del: "delivered cap s ?s" by (rule dl) (simp_all add: su_keep_def q'(3) c1)
    moreover have "queues_ok inv ?s" by (rule qok [of _ ?u]) (simp_all add: q'(2))
    ultimately have "core_ok inv msgs U ?s" using r by (intro fin)
    moreover have "push_result msgs cap su m s 0 ?s"
      using del su True q'(4) by (simp add: push_result_def)
    ultimately show ?thesis using run by blast
  next
    case False
    then have full: "length (msgs (su_q u)) = cap (su_q u)" using bound [OF iq] by simp
    from push_full [OF iq mn p full, of h1] show ?thesis
    proof (elim disjE exE conjE)
      assume q: "q_push Q (su_q u) m p h1 = Some (PS_QUEUE_EFULL, su_q u, h1)"
      obtain h2 where h2: "ps_unref_msg m h1 = Some h2" "heap_ok ((?n(m := ?n m + 1))(m := ?n m)) h2"
        using ps_unref_msg_heap [OF h1(2), of m] by auto
      have c2: "same_content h1 h2" by (rule same_content_unref [OF h1(2) _ h2(1)]) simp
      let ?u = "u\<lparr>su_overflow := su_overflow u + 1\<rparr>"
      let ?s = "(put_su su ?u s)\<lparr>g_heap := h2, g_cbs := g_cbs s\<rparr>"
      have run: "push_subscriber_queue Q su m p s = Some (-1, ?s)"
        using h1(1) h2(1) su q by (simp add: push_subscriber_queue_def on_heap_def add_overflow_def queue_codes Let_def)
      have "refs_ok msgs U ((put_su su ?u s)\<lparr>g_heap := h2\<rparr>)"
        by (rule refs_ok_put_su [OF d(1,5) su h2(2)]) simp
      then have r: "refs_ok msgs U ?s" by (simp add: refs_ok_def)
      have del: "delivered cap s ?s" by (rule dl) (simp_all add: su_keep_def same_content_trans [OF c1 c2])
      moreover have "queues_ok inv ?s" by (rule qok [of _ ?u]) (simp_all add: iq)
      ultimately have "core_ok inv msgs U ?s" using r by (intro fin)
      moreover have "push_result msgs cap su m s (-1) ?s"
        using del su False by (simp add: push_result_def)
      ultimately show ?thesis using run by blast
    next
      fix e q' assume e: "e \<in> set (msgs (su_q u))" and q': "inv q'" "cap q' = cap (su_q u)"
        "mset (msgs q') = add_mset m (mset (msgs (su_q u)) - {#e#})"
        and q: "q_push Q (su_q u) m p h1 = map_option (\<lambda>h'. (PS_QUEUE_EOVERFLOW, q', h')) (ps_unref_msg e h1)"
      let ?n1 = "?n(m := ?n m + 1)"
      have ne: "0 < ?n1 e" using held_in_queue [OF d(5) su e] by simp
      obtain h2 where h2: "ps_unref_msg e h1 = Some h2" "heap_ok (?n1(e := ?n1 e - 1)) h2"
        using ps_unref_msg_heap [OF h1(2) ne] by blast
      have c2: "same_content h1 h2" by (rule same_content_unref [OF h1(2) ne h2(1)])
      let ?u = "u\<lparr>su_q := q', su_overflow := su_overflow u + 1\<rparr>"
      let ?s = "(put_su su ?u s)\<lparr>g_heap := h2, g_cbs := g_cbs s\<rparr>"
      have run: "push_subscriber_queue Q su m p s = Some (-1, ?s)"
        using h1(1) h2(1) su q by (simp add: push_subscriber_queue_def on_heap_def add_overflow_def queue_codes Let_def)
      have ce: "0 < count (mset (msgs (su_q u))) e" using e by simp
      have "refs_ok msgs U ((put_su su ?u s)\<lparr>g_heap := h2\<rparr>)"
        using ce ne by (intro refs_ok_put_su [OF d(1,5) su h2(2)]) (auto simp: q'(3))
      then have r: "refs_ok msgs U ?s" by (simp add: refs_ok_def)
      have del: "delivered cap s ?s"
        by (rule dl) (simp_all add: su_keep_def q'(2) same_content_trans [OF c1 c2])
      moreover have "queues_ok inv ?s" by (rule qok [of _ ?u]) (simp_all add: q'(1))
      ultimately have "core_ok inv msgs U ?s" using r by (intro fin)
      moreover have "push_result msgs cap su m s (-1) ?s"
        using del su False e q'(3) by (auto simp: push_result_def)
      ultimately show ?thesis using run by blast
    qed
  qed
qed

end

section \<open>Topics and sticky slots\<close>

definition slot :: "addr \<Rightarrow> addr \<Rightarrow> nat" where
  "slot x m = of_bool (x = m \<and> m \<noteq> NULL)"

lemma held_put_tm:
  assumes "finite (dom (g_tms s))" and "g_tms s a = Some t"
  shows "held msgs (put_tm a t' s) m + slot (tm_sticky t) m = held msgs s m + slot (tm_sticky t') m"
  using hsum_update [OF assms, of "\<lambda>t. of_bool (tm_sticky t = m)" t']
  by (cases "m = NULL") (simp_all add: held_def slot_def)

lemma held_new_tm:
  assumes "finite (dom (g_tms s))" and "g_tms s a = None" and "tm_sticky t = NULL"
  shows "held msgs (put_tm a t s) = held msgs s"
proof
  fix m
  show "held msgs (put_tm a t s) m = held msgs s m"
    using hsum_insert [OF assms(1,2), of "\<lambda>t. of_bool (tm_sticky t = m)" t] assms(3)
    by (cases "m = NULL") (simp_all add: held_def)
qed

lemma held_del_tm:
  assumes "finite (dom (g_tms s))" and "g_tms s a = Some t" and "tm_sticky t = NULL"
  shows "held msgs (s\<lparr>g_tms := (g_tms s)(a := None)\<rparr>) = held msgs s"
proof
  fix m
  show "held msgs (s\<lparr>g_tms := (g_tms s)(a := None)\<rparr>) m = held msgs s m"
    using hsum_remove [OF assms(1,2), of "\<lambda>t. of_bool (tm_sticky t = m)"] assms(3)
    by (cases "m = NULL") (simp_all add: held_def)
qed

lemma held_sticky:
  assumes "finite (dom (g_tms s))" and "g_tms s a = Some t" and "tm_sticky t \<noteq> NULL"
  shows "0 < held msgs s (tm_sticky t)"
proof -
  have "(1 :: nat) \<le> hsum (\<lambda>t'. of_bool (tm_sticky t' = tm_sticky t)) (g_tms s)"
    using hsum_ge [OF assms(1,2), of "\<lambda>t'. of_bool (tm_sticky t' = tm_sticky t)"] by simp
  then show ?thesis using assms(3) by (simp add: held_def)
qed

lemma subs_view_frame [simp]:
  "subs_view (s\<lparr>g_heap := h\<rparr>) = subs_view s" "subs_view (s\<lparr>g_lock := l\<rparr>) = subs_view s"
  "subs_view (s\<lparr>g_cbs := c\<rparr>) = subs_view s" "subs_view (s\<lparr>g_topic_map := tml\<rparr>) = subs_view s"
  "subs_view (s\<lparr>g_next := x\<rparr>) = subs_view s" "subs_view (s\<lparr>g_stat_live_subscribers := n\<rparr>) = subs_view s"
  "subs_view (s\<lparr>g_uuid_ctr := n\<rparr>) = subs_view s" "subs_view (s\<lparr>g_tms := tms\<rparr>) = subs_view s"
  "subs_view (s\<lparr>g_subs := f\<rparr>) = (\<lambda>a. map_option su_subs (f a))"
  by (simp_all add: subs_view_def)

lemma queues_ok_frame [simp]:
  "queues_ok qi (s\<lparr>g_heap := h\<rparr>) = queues_ok qi s" "queues_ok qi (s\<lparr>g_lock := l\<rparr>) = queues_ok qi s"
  "queues_ok qi (s\<lparr>g_cbs := c\<rparr>) = queues_ok qi s" "queues_ok qi (s\<lparr>g_topic_map := tml\<rparr>) = queues_ok qi s"
  "queues_ok qi (s\<lparr>g_next := x\<rparr>) = queues_ok qi s" "queues_ok qi (s\<lparr>g_stat_live_subscribers := n\<rparr>) = queues_ok qi s"
  "queues_ok qi (s\<lparr>g_uuid_ctr := n\<rparr>) = queues_ok qi s" "queues_ok qi (s\<lparr>g_tms := tms\<rparr>) = queues_ok qi s"
  by (simp_all add: queues_ok_def)

lemma refs_ok_frame [simp]:
  "refs_ok msgs U (s\<lparr>g_lock := l\<rparr>) = refs_ok msgs U s"
  "refs_ok msgs U (s\<lparr>g_cbs := c\<rparr>) = refs_ok msgs U s" "refs_ok msgs U (s\<lparr>g_topic_map := tml\<rparr>) = refs_ok msgs U s"
  "refs_ok msgs U (s\<lparr>g_next := x\<rparr>) = refs_ok msgs U s" "refs_ok msgs U (s\<lparr>g_stat_live_subscribers := n\<rparr>) = refs_ok msgs U s"
  "refs_ok msgs U (s\<lparr>g_uuid_ctr := n\<rparr>) = refs_ok msgs U s"
  by (simp_all add: refs_ok_def)

lemma core_ok_frame [simp]:
  "core_ok qi msgs U (s\<lparr>g_lock := l\<rparr>) = core_ok qi msgs U s"
  "core_ok qi msgs U (s\<lparr>g_cbs := c\<rparr>) = core_ok qi msgs U s"
  "core_ok qi msgs U (s\<lparr>g_stat_live_subscribers := n\<rparr>) = core_ok qi msgs U s"
  "core_ok qi msgs U (s\<lparr>g_uuid_ctr := n\<rparr>) = core_ok qi msgs U s"
  by (simp_all add: core_ok_def)

text \<open>Freeing a topic that nobody needs; a needed one stays.\<close>

lemma free_topic_needed:
  "g_tms s a = Some t \<Longrightarrow> needed t \<Longrightarrow> free_topic_if_empty a s = Some (0, s)"
  by (auto simp: free_topic_if_empty_def needed_def)

definition without_topic :: "addr \<Rightarrow> 'q state \<Rightarrow> 'q state" where
  "without_topic a s = s\<lparr>g_tms := (g_tms s)(a := None), g_topic_map := remove1 a (g_topic_map s)\<rparr>"

lemma without_topic_simps [simp]:
  "g_tms (without_topic a s) = (g_tms s)(a := None)" "g_subs (without_topic a s) = g_subs s"
  "g_heap (without_topic a s) = g_heap s" "g_lock (without_topic a s) = g_lock s"
  "g_stat_live_subscribers (without_topic a s) = g_stat_live_subscribers s"
  "g_topic_map (without_topic a s) = remove1 a (g_topic_map s)" "g_next (without_topic a s) = g_next s"
  "g_uuid_ctr (without_topic a s) = g_uuid_ctr s" "g_cbs (without_topic a s) = g_cbs s"
  "subs_view (without_topic a s) = subs_view s"
  by (simp_all add: without_topic_def)

lemma free_topic_empty:
  "g_tms s a = Some t \<Longrightarrow> \<not> needed t \<Longrightarrow> free_topic_if_empty a s = Some (1, without_topic a s)"
  by (simp add: free_topic_if_empty_def needed_def without_topic_def)

lemma core_ok_without_topic:
  assumes ok: "core_ok qi msgs U s" and t: "g_tms s a = Some t" "\<not> needed t"
  shows "core_ok qi msgs U (without_topic a s)"
proof -
  note d = core_ok_D [OF ok]
  have e: "tm_subscribers t = []" "tm_sticky t = NULL" using t(2) by (auto simp: needed_def)
  have "held msgs (without_topic a s) = held msgs s"
    using held_del_tm [OF d(4) t(1) e(2), of msgs] by (simp add: without_topic_def)
  then have "refs_ok msgs U (without_topic a s)" using d(1) by (simp add: refs_ok_def)
  moreover have "queues_ok qi (without_topic a s)" using d(2) by (simp add: queues_ok_def)
  ultimately show ?thesis using links_ok_remove [OF d(3) t(1) e(1)] by (simp add: core_ok_def)
qed

lemma core_ok_create:
  assumes ok: "core_ok qi msgs U s" and none: "lookup s topic = None" and nul: "NUL \<notin> set topic"
  shows "core_ok qi msgs U (snd (create_topic topic s))"
proof -
  note d = core_ok_D [OF ok]
  let ?t = "\<lparr>tm_topic = topic, tm_subscribers = [], tm_sticky = NULL\<rparr>"
  have fresh: "g_tms s (g_next s) = None" using links_ok_D(4) [OF d(3)] by (metis less_irrefl not_None_eq)
  have "held msgs (put_tm (g_next s) ?t s) = held msgs s" by (rule held_new_tm [OF d(4) fresh]) simp
  then have "refs_ok msgs U (snd (create_topic topic s))"
    using d(1) by (simp add: refs_ok_def create_topic_def Let_def)
  moreover have "links_ok ((g_tms s)(g_next s \<mapsto> ?t)) (g_topic_map s @ [g_next s]) (subs_view s) (g_next s + 1)"
    using none nul lookup_None_iff [OF d(3), of topic] by (intro links_ok_create [OF d(3)]) auto
  ultimately show ?thesis using d(2) by (simp add: core_ok_def create_topic_def Let_def)
qed

text \<open>Replacing the message in a sticky slot: \<open>h\<close> is the store after the counts were adjusted.\<close>

lemma core_ok_sticky:
  assumes ok: "core_ok qi msgs U s" and t: "g_tms s a = Some t"
    and heap: "heap_ok n h" and n: "\<And>x. n x + slot (tm_sticky t) x = U' x + held msgs s x + slot m x"
  shows "core_ok qi msgs U' (put_tm a (t\<lparr>tm_sticky := m\<rparr>) (s\<lparr>g_heap := h\<rparr>))"
proof -
  note d = core_ok_D [OF ok]
  have fin: "finite (dom (g_tms (s\<lparr>g_heap := h\<rparr>)))" "g_tms (s\<lparr>g_heap := h\<rparr>) a = Some t" using d(4) t by simp_all
  have "U' x + held msgs (put_tm a (t\<lparr>tm_sticky := m\<rparr>) (s\<lparr>g_heap := h\<rparr>)) x = n x" for x
    using held_put_tm [OF fin, of msgs "t\<lparr>tm_sticky := m\<rparr>" x] n [of x] by simp
  then have "(\<lambda>x. U' x + held msgs (put_tm a (t\<lparr>tm_sticky := m\<rparr>) (s\<lparr>g_heap := h\<rparr>)) x) = n" by (rule ext)
  then have "refs_ok msgs U' (put_tm a (t\<lparr>tm_sticky := m\<rparr>) (s\<lparr>g_heap := h\<rparr>))"
    using heap by (simp add: refs_ok_def)
  moreover have "links_ok ((g_tms s)(a \<mapsto> t\<lparr>tm_sticky := m\<rparr>)) (g_topic_map s) (subs_view s) (g_next s)"
    by (rule links_ok_sticky [OF d(3) t]) simp_all
  ultimately show ?thesis using d(2) by (simp add: core_ok_def)
qed

text \<open>Taking the message out of a sticky slot and dropping its reference.\<close>

lemma drop_sticky_ok:
  assumes ok: "core_ok qi msgs U s" and t: "g_tms s a = Some t" and st: "tm_sticky t \<noteq> NULL"
  shows "\<exists>h. ps_unref_msg (tm_sticky t) (g_heap s) = Some h \<and> same_content (g_heap s) h
      \<and> core_ok qi msgs U (put_tm a (t\<lparr>tm_sticky := NULL\<rparr>) (s\<lparr>g_heap := h\<rparr>))"
proof -
  note d = core_ok_D [OF ok]
  let ?x = "tm_sticky t" and ?n = "\<lambda>x. U x + held msgs s x"
  have heap: "heap_ok ?n (g_heap s)" using d(1) by (simp add: refs_ok_def)
  have pos: "0 < ?n ?x" using held_sticky [OF d(4) t st, of msgs] by simp
  obtain h where h: "ps_unref_msg ?x (g_heap s) = Some h" "heap_ok (?n(?x := ?n ?x - 1)) h"
    using ps_unref_msg_heap [OF heap pos] .
  have "core_ok qi msgs U (put_tm a (t\<lparr>tm_sticky := NULL\<rparr>) (s\<lparr>g_heap := h\<rparr>))"
    using pos st by (intro core_ok_sticky [OF ok t h(2)]) (auto simp: slot_def)
  then show ?thesis using h(1) same_content_unref [OF heap pos h(1)] by blast
qed

section \<open>Clearing sticky messages\<close>

text \<open>\<open>quiet s s'\<close>: no queue, subscriber, lock or counter changed.\<close>

definition quiet :: "'q state \<Rightarrow> 'q state \<Rightarrow> bool" where
  "quiet s s' \<longleftrightarrow>
     g_lock s' = g_lock s \<and> g_subs s' = g_subs s \<and> g_uuid_ctr s' = g_uuid_ctr s \<and>
     g_stat_live_subscribers s' = g_stat_live_subscribers s \<and> g_cbs s' = g_cbs s \<and>
     same_content (g_heap s) (g_heap s')"

lemma quiet_refl [simp]: "quiet s s"
  by (simp add: quiet_def)

lemma quiet_trans: "quiet s1 s2 \<Longrightarrow> quiet s2 s3 \<Longrightarrow> quiet s1 s3"
  using same_content_trans [of "g_heap s1" "g_heap s2" "g_heap s3"] by (simp add: quiet_def)

text \<open>What clearing the sticky messages under \<open>prefix\<close> leaves of a topic.\<close>

definition cleaned :: "string \<Rightarrow> topic_map \<Rightarrow> topic_map option" where
  "cleaned prefix t =
     (if prefix \<in> set (ancestors (tm_topic t)) \<and> tm_sticky t \<noteq> NULL
      then (if tm_subscribers t = [] then None else Some (t\<lparr>tm_sticky := NULL\<rparr>))
      else Some t)"

lemma topic_match_ancestors: "NUL \<notin> set t \<Longrightarrow> topic_match p t = Some (p \<in> set (ancestors t))"
  using topic_match_iff [of t p] in_ancestors_iff [of p t] by simp

lemma clean_sticky_loop_ok:
  "core_ok qi msgs U s \<Longrightarrow> distinct as \<Longrightarrow> set as \<subseteq> dom (g_tms s) \<Longrightarrow>
   \<exists>s'. clean_sticky_loop prefix as s = Some s' \<and> core_ok qi msgs U s' \<and> quiet s s'
      \<and> g_tms s' = (\<lambda>a. if a \<in> set as then Option.bind (g_tms s a) (cleaned prefix) else g_tms s a)"
proof (induction "as" arbitrary: s)
  case Nil
  then show ?case by simp
next
  case (Cons a "as")
  obtain t where t: "g_tms s a = Some t" using Cons.prems(3) by auto
  note d = core_ok_D [OF Cons.prems(1)]
  have tm: "topic_match prefix (tm_topic t) = Some (prefix \<in> set (ancestors (tm_topic t)))"
    using links_ok_D(7) [OF d(3) t] by (intro topic_match_ancestors) (simp add: topic_ok_def)
  have "\<exists>s1. (if prefix \<in> set (ancestors (tm_topic t)) \<and> tm_sticky t \<noteq> NULL
          then do {
            s \<leftarrow> on_heap (ps_unref_msg (tm_sticky t)) s;
            let s = put_tm a (t\<lparr>tm_sticky := NULL\<rparr>) s;
            map_option snd (free_topic_if_empty a s) }
          else Some s) = Some s1 \<and> core_ok qi msgs U s1 \<and> quiet s s1 \<and> g_tms s1 = (g_tms s)(a := cleaned prefix t)"
  proof (cases "prefix \<in> set (ancestors (tm_topic t)) \<and> tm_sticky t \<noteq> NULL")
    case False
    then have "cleaned prefix t = Some t" by (auto simp: cleaned_def)
    then show ?thesis using False Cons.prems(1) t by (auto simp: fun_upd_idem)
  next
    case True
    then obtain h where h: "ps_unref_msg (tm_sticky t) (g_heap s) = Some h" "same_content (g_heap s) h"
      "core_ok qi msgs U (put_tm a (t\<lparr>tm_sticky := NULL\<rparr>) (s\<lparr>g_heap := h\<rparr>))"
      using drop_sticky_ok [OF Cons.prems(1) t] by blast
    let ?s = "put_tm a (t\<lparr>tm_sticky := NULL\<rparr>) (s\<lparr>g_heap := h\<rparr>)"
    have core: "core_ok qi msgs U ?s" using h(3) by simp
    show ?thesis
    proof (cases "tm_subscribers t = []")
      case True': True
      then have "\<not> needed (t\<lparr>tm_sticky := NULL\<rparr>)" by (simp add: needed_def)
      then show ?thesis
        using True True' h free_topic_empty [of ?s a "t\<lparr>tm_sticky := NULL\<rparr>"]
          core_ok_without_topic [OF core, of a "t\<lparr>tm_sticky := NULL\<rparr>"]
        by (simp add: on_heap_def Let_def quiet_def cleaned_def)
    next
      case False
      then have "needed (t\<lparr>tm_sticky := NULL\<rparr>)" by (simp add: needed_def)
      then show ?thesis
        using True False h core free_topic_needed [of ?s a "t\<lparr>tm_sticky := NULL\<rparr>"]
        by (simp add: on_heap_def Let_def quiet_def cleaned_def)
    qed
  qed
  then obtain s1 where s1: "(if prefix \<in> set (ancestors (tm_topic t)) \<and> tm_sticky t \<noteq> NULL
          then do {
            s \<leftarrow> on_heap (ps_unref_msg (tm_sticky t)) s;
            let s = put_tm a (t\<lparr>tm_sticky := NULL\<rparr>) s;
            map_option snd (free_topic_if_empty a s) }
          else Some s) = Some s1" "core_ok qi msgs U s1" "quiet s s1" "g_tms s1 = (g_tms s)(a := cleaned prefix t)"
    by blast
  have "set as \<subseteq> dom (g_tms s1)" using Cons.prems(2,3) s1(4) by auto
  then obtain s' where s': "clean_sticky_loop prefix as s1 = Some s'" "core_ok qi msgs U s'" "quiet s1 s'"
    "g_tms s' = (\<lambda>a. if a \<in> set as then Option.bind (g_tms s1 a) (cleaned prefix) else g_tms s1 a)"
    using Cons.IH [OF s1(2)] Cons.prems(2) by auto
  have "clean_sticky_loop prefix (a # as) s = Some s'"
    using t tm s1(1) s'(1) by simp
  moreover have "g_tms s' = (\<lambda>b. if b \<in> set (a # as) then Option.bind (g_tms s b) (cleaned prefix) else g_tms s b)"
    using s'(4) s1(4) t Cons.prems(2) by (auto simp: fun_eq_iff)
  ultimately show ?case using s'(2) quiet_trans [OF s1(3) s'(3)] by blast
qed

lemma ps_clean_sticky_ok:
  assumes ok: "broker_ok qi msgs U s"
  shows "\<exists>s'. ps_clean_sticky prefix s = Some s' \<and> broker_ok qi msgs U s' \<and> quiet s s'
      \<and> g_tms s' = (\<lambda>a. Option.bind (g_tms s a) (cleaned prefix))"
proof -
  have core: "core_ok qi msgs U (s\<lparr>g_lock := True\<rparr>)" using ok by (simp add: broker_ok_def)
  note d = links_ok_D [OF core_ok_D(3) [OF core]]
  have as: "distinct (g_topic_map (s\<lparr>g_lock := True\<rparr>))" "set (g_topic_map (s\<lparr>g_lock := True\<rparr>)) \<subseteq> dom (g_tms (s\<lparr>g_lock := True\<rparr>))"
    using d(1,2) by simp_all
  obtain s1 where s1: "clean_sticky_loop prefix (g_topic_map (s\<lparr>g_lock := True\<rparr>)) (s\<lparr>g_lock := True\<rparr>) = Some s1"
    "core_ok qi msgs U s1" "quiet (s\<lparr>g_lock := True\<rparr>) s1"
    "g_tms s1 = (\<lambda>a. if a \<in> set (g_topic_map (s\<lparr>g_lock := True\<rparr>))
       then Option.bind (g_tms (s\<lparr>g_lock := True\<rparr>) a) (cleaned prefix) else g_tms (s\<lparr>g_lock := True\<rparr>) a)"
    using clean_sticky_loop_ok [OF core as] by blast
  have dom: "set (g_topic_map s) = dom (g_tms s)" using d(1) by simp
  have tms: "g_tms s1 = (\<lambda>a. Option.bind (g_tms s a) (cleaned prefix))"
    unfolding s1(4) using dom by (auto simp: fun_eq_iff)
  have lock: "\<not> g_lock s" "g_lock s1" using ok s1(3) by (simp_all add: broker_ok_def quiet_def)
  have run: "ps_clean_sticky prefix s = Some (s1\<lparr>g_lock := False\<rparr>)"
    using lock s1(1) by (simp add: ps_clean_sticky_def GLOBAL_LOCK_def GLOBAL_UNLOCK_def mutex_defs)
  have "needed t'" if "cleaned prefix t = Some t'" "needed t" for t t'
    using that by (auto simp: cleaned_def needed_def split: if_splits)
  then have "all_needed (s1\<lparr>g_lock := False\<rparr>)"
    using ok by (auto simp: broker_ok_def all_needed_def tms bind_Some_iff)
  then have "broker_ok qi msgs U (s1\<lparr>g_lock := False\<rparr>)"
    using s1(2,3) ok by (simp add: broker_ok_def quiet_def)
  moreover have "quiet s (s1\<lparr>g_lock := False\<rparr>)" using s1(3) lock by (simp add: quiet_def)
  ultimately show ?thesis using run tms by auto
qed

section \<open>The topic map as a function from names\<close>

definition topic_at :: "'q state \<Rightarrow> string \<Rightarrow> topic_map option" where
  "topic_at s x = Option.bind (lookup s x) (g_tms s)"

definition subs_at :: "(string \<Rightarrow> topic_map option) \<Rightarrow> string \<Rightarrow> subscriber_list list" where
  "subs_at T x = (case T x of None \<Rightarrow> [] | Some t \<Rightarrow> tm_subscribers t)"

abbreviation linked :: "'q state \<Rightarrow> bool" where
  "linked s \<equiv> links_ok (g_tms s) (g_topic_map s) (subs_view s) (g_next s)"

lemma topic_at_iff: "linked s \<Longrightarrow> topic_at s x = Some t \<longleftrightarrow> (\<exists>a. g_tms s a = Some t \<and> tm_topic t = x)"
  by (auto simp: topic_at_def bind_Some_iff lookup_Some_iff)

lemma topic_at_None_iff: "linked s \<Longrightarrow> topic_at s x = None \<longleftrightarrow> lookup s x = None"
  using lookup_Some_iff [of s "subs_view s" "g_next s" x] by (cases "lookup s x") (auto simp: topic_at_def)

lemma topic_at_tm: "linked s \<Longrightarrow> g_tms s a = Some t \<Longrightarrow> topic_at s (tm_topic t) = Some t"
  by (auto simp: topic_at_iff)

lemma topic_at_eqI:
  assumes "linked s" and "\<And>x t. T x = Some t \<longleftrightarrow> (\<exists>a. g_tms s a = Some t \<and> tm_topic t = x)"
  shows "topic_at s = T"
proof
  fix x
  have "topic_at s x = Some t \<longleftrightarrow> T x = Some t" for t using assms topic_at_iff by metis
  then show "topic_at s x = T x" by (metis not_None_eq)
qed

lemma topic_at_upd:
  assumes s: "linked s" and s': "linked s'" and tms: "g_tms s' = (g_tms s)(a \<mapsto> t')"
    and same: "\<And>t. g_tms s a = Some t \<Longrightarrow> tm_topic t = tm_topic t'"
  shows "topic_at s' = (topic_at s)(tm_topic t' \<mapsto> t')"
proof (rule topic_at_eqI [OF s'])
  fix x t
  have other: "tm_topic t \<noteq> tm_topic t'" if "g_tms s b = Some t" "b \<noteq> a" for b t
  proof
    assume eq: "tm_topic t = tm_topic t'"
    have "b = a" by (rule links_ok_D(6) [OF s' _ _ eq]) (use that in \<open>simp_all add: tms\<close>)
    with that(2) show False by simp
  qed
  have "(\<exists>b. g_tms s' b = Some t \<and> tm_topic t = x) \<longleftrightarrow>
      (if x = tm_topic t' then t = t' else \<exists>b. g_tms s b = Some t \<and> tm_topic t = x)"
  proof (cases "x = tm_topic t'")
    case True
    have "t = t'" if b: "g_tms s' b = Some t" "tm_topic t = x" for b
      using b other [of b t] True by (cases "b = a") (simp_all add: tms)
    moreover have "g_tms s' a = Some t'" by (simp add: tms)
    ultimately show ?thesis using True by auto
  next
    case False
    have "g_tms s' b = Some t \<and> tm_topic t = x \<longleftrightarrow> g_tms s b = Some t \<and> tm_topic t = x" for b
      using False same [of t] by (cases "b = a") (auto simp: tms)
    then show ?thesis using False by simp
  qed
  then show "((topic_at s)(tm_topic t' \<mapsto> t')) x = Some t \<longleftrightarrow> (\<exists>b. g_tms s' b = Some t \<and> tm_topic t = x)"
    using topic_at_iff [OF s, of x t] by auto
qed

lemma topic_at_del:
  assumes s: "linked s" and s': "linked s'" and tms: "g_tms s' = (g_tms s)(a := None)" and t: "g_tms s a = Some t"
  shows "topic_at s' = (topic_at s)(tm_topic t := None)"
proof (rule topic_at_eqI [OF s'])
  fix x t2
  have other: "tm_topic t2 \<noteq> tm_topic t" if "g_tms s b = Some t2" "b \<noteq> a" for b t2
    using that links_ok_D(6) [OF s that(1) t] by auto
  have "(\<exists>b. g_tms s' b = Some t2 \<and> tm_topic t2 = x) \<longleftrightarrow>
      x \<noteq> tm_topic t \<and> (\<exists>b. g_tms s b = Some t2 \<and> tm_topic t2 = x)"
    unfolding tms using other t by (metis fun_upd_apply option.inject option.distinct(1))
  then show "((topic_at s)(tm_topic t := None)) x = Some t2 \<longleftrightarrow> (\<exists>b. g_tms s' b = Some t2 \<and> tm_topic t2 = x)"
    using topic_at_iff [OF s, of x t2] by auto
qed

lemma topic_at_frame [simp]:
  "topic_at (s\<lparr>g_heap := h\<rparr>) = topic_at s" "topic_at (s\<lparr>g_lock := l\<rparr>) = topic_at s"
  "topic_at (s\<lparr>g_subs := f\<rparr>) = topic_at s" "topic_at (s\<lparr>g_cbs := c\<rparr>) = topic_at s"
  "topic_at (s\<lparr>g_next := x\<rparr>) = topic_at s" "topic_at (s\<lparr>g_stat_live_subscribers := n\<rparr>) = topic_at s"
  "topic_at (s\<lparr>g_uuid_ctr := n\<rparr>) = topic_at s"
  by (simp_all add: topic_at_def lookup_def fun_eq_iff)

lemma topic_at_cong: "g_tms s' = g_tms s \<Longrightarrow> g_topic_map s' = g_topic_map s \<Longrightarrow> topic_at s' = topic_at s"
  by (intro ext) (simp add: topic_at_def lookup_def)

lemma delivered_topic_at: "delivered cap s s' \<Longrightarrow> topic_at s' = topic_at s"
  using delivered_D(2,3) topic_at_cong by metis

lemma fetch_topic_at:
  assumes "linked s"
  shows "\<exists>a. fetch_topic x s = Some a \<and>
     (case topic_at s x of None \<Rightarrow> a = NULL \<and> lookup s x = None | Some t \<Rightarrow> a \<noteq> NULL \<and> g_tms s a = Some t \<and> tm_topic t = x)"
proof (cases "lookup s x")
  case None
  then show ?thesis using fetch_topic_ok(1) [OF assms, of x] topic_at_None_iff [OF assms, of x] by simp
next
  case (Some a)
  then obtain t where t: "g_tms s a = Some t" "tm_topic t = x" using lookup_Some_iff [OF assms] by blast
  then have "topic_at s x = Some t" using topic_at_tm [OF assms t(1)] by simp
  then show ?thesis using Some t fetch_topic_ok [OF assms] by simp
qed

section \<open>Publishing\<close>

text \<open>What the first turn of the loop does to the topic map.\<close>

definition sticky_update :: "addr \<Rightarrow> bool \<Rightarrow> string \<Rightarrow> (string \<Rightarrow> topic_map option) \<Rightarrow> (string \<Rightarrow> topic_map option)" where
  "sticky_update m sticky x T =
     (if sticky
      then T(x \<mapsto> (case T x of None \<Rightarrow> \<lparr>tm_topic = x, tm_subscribers = [], tm_sticky = m\<rparr>
                           | Some t \<Rightarrow> t\<lparr>tm_sticky := m\<rparr>))
      else (case T x of None \<Rightarrow> T
              | Some t \<Rightarrow> if tm_sticky t = NULL then T
                          else T(x := (if tm_subscribers t = [] then None else Some (t\<lparr>tm_sticky := NULL\<rparr>)))))"

lemma sticky_update_subs: "subs_at (sticky_update m st x T) = subs_at T"
  by (auto simp: sticky_update_def subs_at_def fun_eq_iff split: option.split)

lemma core_ok_linked: "core_ok qi msgs U s \<Longrightarrow> linked s"
  by (rule core_ok_D)

text \<open>Putting \<open>m\<close> into the slot of an existing topic, as the sticky branch does.\<close>

lemma set_sticky_ok:
  assumes ok: "core_ok qi msgs U s" and t: "g_tms s a = Some t" and m: "0 < U m"
    and wrap: "\<And>x. U x + held msgs s x + 1 < 2 ^ 32"
  shows "\<exists>s'. do { s \<leftarrow> (if tm_sticky t \<noteq> NULL then on_heap (ps_unref_msg (tm_sticky t)) s else Some s);
                   s \<leftarrow> on_heap (ps_ref_msg m) s;
                   Some (a, put_tm a (t\<lparr>tm_sticky := m\<rparr>) s) } = Some (a, s')
      \<and> core_ok qi msgs U s' \<and> quiet s s' \<and> g_tms s' = (g_tms s)(a \<mapsto> t\<lparr>tm_sticky := m\<rparr>)"
proof -
  note d = core_ok_D [OF ok]
  let ?x = "tm_sticky t" and ?n = "\<lambda>x. U x + held msgs s x"
  have heap: "heap_ok ?n (g_heap s)" using d(1) by (simp add: refs_ok_def)
  have mn: "m \<noteq> NULL" using heap_ok_D(3) [OF heap] m by (metis add_gr_0 less_irrefl)
  have "\<exists>h1 n1. (if ?x \<noteq> NULL then ps_unref_msg ?x (g_heap s) else Some (g_heap s)) = Some h1
      \<and> heap_ok n1 h1 \<and> (\<forall>y. n1 y + slot ?x y = ?n y) \<and> same_content (g_heap s) h1"
  proof (cases "?x = NULL")
    case True
    have "\<forall>y. ?n y + slot ?x y = ?n y" using True by (auto simp: slot_def)
    then show ?thesis using heap True by (intro exI [of _ "g_heap s"] exI [of _ ?n]) simp
  next
    case False
    have pos: "0 < ?n ?x" using held_sticky [OF d(4) t False, of msgs] by simp
    obtain h where h: "ps_unref_msg ?x (g_heap s) = Some h" "heap_ok (?n(?x := ?n ?x - 1)) h"
      using ps_unref_msg_heap [OF heap pos] .
    have "\<forall>y. (?n(?x := ?n ?x - 1)) y + slot ?x y = ?n y" using pos False by (simp add: slot_def)
    then show ?thesis
      using h False same_content_unref [OF heap pos h(1)]
      by (intro exI [of _ h] exI [of _ "?n(?x := ?n ?x - 1)"]) simp
  qed
  then obtain h1 n1 where h1: "(if ?x \<noteq> NULL then ps_unref_msg ?x (g_heap s) else Some (g_heap s)) = Some h1"
    "heap_ok n1 h1" "\<And>y. n1 y + slot ?x y = ?n y" "same_content (g_heap s) h1" by blast
  have "slot ?x m \<le> held msgs s m"
    using held_sticky [OF d(4) t, of msgs] by (auto simp: slot_def)
  then have pos: "0 < n1 m" and w: "n1 m + 1 < 2 ^ 32" using h1(3) [of m] m wrap [of m] by linarith+
  obtain h2 where h2: "ps_ref_msg m h1 = Some h2" "heap_ok (n1(m := n1 m + 1)) h2"
    using ps_ref_msg_ok [OF h1(2) pos w] by blast
  let ?s = "put_tm a (t\<lparr>tm_sticky := m\<rparr>) (s\<lparr>g_heap := h2\<rparr>)"
  have "core_ok qi msgs U ?s"
  proof (rule core_ok_sticky [OF ok t h2(2)])
    fix y
    have "slot m y = of_bool (y = m)" using mn by (simp add: slot_def)
    then show "(n1(m := n1 m + 1)) y + slot ?x y = U y + held msgs s y + slot m y"
      using h1(3) [of y] by (cases "y = m") simp_all
  qed
  moreover have "quiet s ?s"
    using same_content_trans [OF h1(4) same_content_ref [OF h2(1)]] by (simp add: quiet_def)
  moreover have "do { s \<leftarrow> (if tm_sticky t \<noteq> NULL then on_heap (ps_unref_msg (tm_sticky t)) s else Some s);
                   s \<leftarrow> on_heap (ps_ref_msg m) s;
                   Some (a, put_tm a (t\<lparr>tm_sticky := m\<rparr>) s) } = Some (a, ?s)"
    using h1(1) h2(1) by (cases "?x = NULL") (simp_all add: on_heap_def)
  ultimately show ?thesis by (intro exI [of _ ?s]) simp
qed

lemma all_needed_at: "linked s \<Longrightarrow> all_needed s \<longleftrightarrow> (\<forall>x t. topic_at s x = Some t \<longrightarrow> needed t)"
  unfolding all_needed_def using topic_at_iff [of s] by blast

lemma held_cong: "g_tms s' = g_tms s \<Longrightarrow> g_subs s' = g_subs s \<Longrightarrow> held msgs s' = held msgs s"
  by (intro ext) (simp add: held_def)

lemma quiet_subs: "quiet s s' \<Longrightarrow> g_subs s' = g_subs s"
  by (simp add: quiet_def)

lemma room_mono: "room cap k U s \<Longrightarrow> g_subs s' = g_subs s \<Longrightarrow> card (dom (g_tms s')) + k' \<le> card (dom (g_tms s)) + k \<Longrightarrow> room cap k' U s'"
proof -
  assume r: "room cap k U s" and e: "g_subs s' = g_subs s" and c: "card (dom (g_tms s')) + k' \<le> card (dom (g_tms s)) + k"
  have "U m + hsum (\<lambda>u. cap (su_q u)) (g_subs s) + card (dom (g_tms s')) + k' < 2 ^ 32" for m
  proof -
    have "U m + hsum (\<lambda>u. cap (su_q u)) (g_subs s) + card (dom (g_tms s)) + k < 2 ^ 32" using r by (simp add: room_def)
    then show ?thesis using c by linarith
  qed
  then show ?thesis unfolding room_def e by blast
qed

text \<open>\<open>addr_of s x a\<close>: \<open>a\<close> is what the program holds for topic \<open>x\<close>, null if there is none.\<close>

definition addr_of :: "'q state \<Rightarrow> string \<Rightarrow> addr \<Rightarrow> bool" where
  "addr_of s x a \<longleftrightarrow> (case topic_at s x of None \<Rightarrow> a = NULL | Some t \<Rightarrow> a \<noteq> NULL \<and> g_tms s a = Some t \<and> tm_topic t = x)"

lemma addr_of_at: "linked s \<Longrightarrow> topic_at s x = Some t \<Longrightarrow> addr_of s x a \<longleftrightarrow> g_tms s a = Some t"
  using links_ok_D(4) topic_at_iff [of s x t] by (fastforce simp: addr_of_def)

lemma fetch_addr_of: "linked s \<Longrightarrow> \<exists>a. fetch_topic x s = Some a \<and> addr_of s x a"
  using fetch_topic_at [of s x] by (auto simp: addr_of_def split: option.splits)

lemma create_topic_ok:
  assumes ok: "core_ok qi msgs U s" and none: "topic_at s x = None" and nul: "NUL \<notin> set x"
  defines "t \<equiv> \<lparr>tm_topic = x, tm_subscribers = [], tm_sticky = NULL\<rparr>"
  shows "\<exists>s'. create_topic x s = (g_next s, s') \<and> core_ok qi msgs U s' \<and> quiet s s' \<and> g_tms s' = (g_tms s)(g_next s \<mapsto> t)
      \<and> g_tms s (g_next s) = None \<and> topic_at s' = (topic_at s)(x \<mapsto> t) \<and> g_next s \<noteq> NULL"
proof -
  note d = core_ok_D [OF ok]
  let ?s = "snd (create_topic x s)"
  have ok': "core_ok qi msgs U ?s"
    using core_ok_create [OF ok _ nul] none topic_at_None_iff [OF d(3), of x] by simp
  have tms: "g_tms ?s = (g_tms s)(g_next s \<mapsto> t)" by (simp add: create_topic_def Let_def t_def)
  have fresh: "g_tms s (g_next s) = None" using links_ok_D(4) [OF d(3)] by (metis less_irrefl not_None_eq)
  have "topic_at ?s = (topic_at s)(tm_topic t \<mapsto> t)"
    by (rule topic_at_upd [OF d(3) core_ok_linked [OF ok'] tms]) (simp add: fresh)
  moreover have "quiet s ?s" by (simp add: quiet_def create_topic_def Let_def)
  moreover have "create_topic x s = (g_next s, ?s)" by (simp add: create_topic_def Let_def)
  ultimately show ?thesis using ok' tms fresh links_ok_D(3) [OF d(3)] by (auto simp: t_def)
qed

lemma sticky_slot_ok:
  assumes ok: "core_ok qi msgs U s" and ok': "core_ok qi msgs U s'" and t: "g_tms s a = Some t" "tm_topic t = x"
    and tms: "g_tms s' = (g_tms s)(a \<mapsto> t\<lparr>tm_sticky := m\<rparr>)"
  shows "topic_at s' = (topic_at s)(x \<mapsto> t\<lparr>tm_sticky := m\<rparr>)" "addr_of s' x a" "card (dom (g_tms s')) = card (dom (g_tms s))"
proof -
  note l = core_ok_linked [OF ok] and l' = core_ok_linked [OF ok']
  have "topic_at s' = (topic_at s)(tm_topic (t\<lparr>tm_sticky := m\<rparr>) \<mapsto> t\<lparr>tm_sticky := m\<rparr>)"
    by (rule topic_at_upd [OF l l' tms]) (use t in auto)
  then show 1: "topic_at s' = (topic_at s)(x \<mapsto> t\<lparr>tm_sticky := m\<rparr>)" using t by simp
  show "addr_of s' x a" using addr_of_at [OF l', of x "t\<lparr>tm_sticky := m\<rparr>" a] 1 tms by simp
  show "card (dom (g_tms s')) = card (dom (g_tms s))" using t by (simp add: tms insert_absorb domI)
qed

lemma publish_sticky_ok:
  assumes ok: "core_ok qi msgs U s" and mm: "mh_msgs (g_heap s) m = Some mm" and m: "0 < U m"
    and nul: "NUL \<notin> set x" and wrap: "\<And>y. U y + held msgs s y + 1 < 2 ^ 32" and a: "addr_of s x a"
  shows "\<exists>a' s'. publish_sticky m x a s = Some (a', s') \<and> core_ok qi msgs U s' \<and> quiet s s'
      \<and> topic_at s' = sticky_update m (m_flags mm AND PS_FL_STICKY \<noteq> 0) x (topic_at s)
      \<and> addr_of s' x a' \<and> card (dom (g_tms s')) \<le> card (dom (g_tms s)) + 1"
proof -
  note d = core_ok_D [OF ok]
  note l = core_ok_linked [OF ok]
  have mn: "m \<noteq> NULL"
    using d(1) mm unfolding refs_ok_def heap_ok_def mheap_ok_def mheap_wf_def by auto
  show ?thesis
  proof (cases "m_flags mm AND PS_FL_STICKY \<noteq> 0")
    case sticky: True
    show ?thesis
    proof (cases "topic_at s x")
      case None
      then have an: "a = NULL" using a by (simp add: addr_of_def)
      define t where "t = \<lparr>tm_topic = x, tm_subscribers = [], tm_sticky = NULL\<rparr>"
      have tf: "tm_topic t = x" "tm_sticky t = NULL" by (simp_all add: t_def)
      obtain s1 where s1: "create_topic x s = (g_next s, s1)" "core_ok qi msgs U s1" "quiet s s1"
        "g_tms s1 = (g_tms s)(g_next s \<mapsto> t)" "g_tms s (g_next s) = None" "topic_at s1 = (topic_at s)(x \<mapsto> t)"
        using create_topic_ok [OF ok None nul] unfolding t_def by blast
      have t1: "g_tms s1 (g_next s) = Some t" by (simp add: s1(4))
      have "held msgs s1 = held msgs s"
      proof -
        have "held msgs s1 = held msgs (put_tm (g_next s) t s)"
          by (rule held_cong) (simp_all add: s1(4) quiet_subs [OF s1(3)])
        then show ?thesis using held_new_tm [OF d(4) s1(5) tf(2), of msgs] by simp
      qed
      then have w1: "U y + held msgs s1 y + 1 < 2 ^ 32" for y using wrap [of y] by simp
      obtain s' where s': "core_ok qi msgs U s'" "quiet s1 s'" "g_tms s' = (g_tms s1)(g_next s \<mapsto> t\<lparr>tm_sticky := m\<rparr>)"
        "do { s2 \<leftarrow> (if tm_sticky t \<noteq> NULL then on_heap (ps_unref_msg (tm_sticky t)) s1 else Some s1);
                   s2 \<leftarrow> on_heap (ps_ref_msg m) s2;
                   Some (g_next s, put_tm (g_next s) (t\<lparr>tm_sticky := m\<rparr>) s2) } = Some (g_next s, s')"
        using set_sticky_ok [OF s1(2) t1 m w1] by blast
      have run: "publish_sticky m x a s = Some (g_next s, s')"
        using sticky mm an s1(1) t1 s'(4) by (simp add: publish_sticky_def Let_def)
      note st = sticky_slot_ok [OF s1(2) s'(1) t1 tf(1) s'(3)]
      have "topic_at s' = sticky_update m True x (topic_at s)"
        using st(1) s1(6) None by (simp add: sticky_update_def t_def)
      moreover have "card (dom (g_tms s')) = card (dom (g_tms s)) + 1"
        using st(3) d(4) s1(5) by (simp add: s1(4) card_insert_if domIff)
      ultimately show ?thesis using run s'(1) quiet_trans [OF s1(3) s'(2)] st(2) sticky by auto
    next
      case (Some t)
      then have at: "a \<noteq> NULL" "g_tms s a = Some t" "tm_topic t = x" using a by (simp_all add: addr_of_def)
      obtain s' where s': "core_ok qi msgs U s'" "quiet s s'" "g_tms s' = (g_tms s)(a \<mapsto> t\<lparr>tm_sticky := m\<rparr>)"
        "do { s \<leftarrow> (if tm_sticky t \<noteq> NULL then on_heap (ps_unref_msg (tm_sticky t)) s else Some s);
                   s \<leftarrow> on_heap (ps_ref_msg m) s;
                   Some (a, put_tm a (t\<lparr>tm_sticky := m\<rparr>) s) } = Some (a, s')"
        using set_sticky_ok [OF ok at(2) m wrap] by blast
      have run: "publish_sticky m x a s = Some (a, s')"
        using sticky mm at s'(4) by (simp add: publish_sticky_def Let_def)
      note st = sticky_slot_ok [OF ok s'(1) at(2,3) s'(3)]
      have "topic_at s' = sticky_update m True x (topic_at s)"
        using st(1) Some by (simp add: sticky_update_def)
      then show ?thesis using run s' st sticky by auto
    qed
  next
    case nonsticky: False
    show ?thesis
    proof (cases "\<exists>t. topic_at s x = Some t \<and> tm_sticky t \<noteq> NULL")
      case False
      then have "sticky_update m False x (topic_at s) = topic_at s"
        by (auto simp: sticky_update_def split: option.split)
      moreover have "publish_sticky m x a s = Some (a, s)"
        using nonsticky mm a False by (auto simp: publish_sticky_def addr_of_def split: option.splits)
      ultimately show ?thesis using ok a nonsticky by auto
    next
      case True
      then obtain t where t: "topic_at s x = Some t" "tm_sticky t \<noteq> NULL" by blast
      then have at: "a \<noteq> NULL" "g_tms s a = Some t" "tm_topic t = x" using a by (simp_all add: addr_of_def)
      obtain h where h: "ps_unref_msg (tm_sticky t) (g_heap s) = Some h" "same_content (g_heap s) h"
        "core_ok qi msgs U (put_tm a (t\<lparr>tm_sticky := NULL\<rparr>) (s\<lparr>g_heap := h\<rparr>))"
        using drop_sticky_ok [OF ok at(2) t(2)] by blast
      let ?t = "t\<lparr>tm_sticky := NULL\<rparr>"
      let ?s = "put_tm a ?t (s\<lparr>g_heap := h\<rparr>)"
      have tms: "g_tms ?s = (g_tms s)(a \<mapsto> ?t)" and ta: "g_tms ?s a = Some ?t" by simp_all
      have q: "quiet s ?s" using h(2) by (simp add: quiet_def)
      note st = sticky_slot_ok [OF ok h(3) at(2,3) tms]
      show ?thesis
      proof (cases "tm_subscribers t = []")
        case False
        then have "needed ?t" by (simp add: needed_def)
        then have "publish_sticky m x a s = Some (a, ?s)"
          using nonsticky mm at t(2) h(1) free_topic_needed [OF ta]
          by (simp add: publish_sticky_def on_heap_def)
        moreover have "topic_at ?s = sticky_update m False x (topic_at s)"
          using st(1) t False by (simp add: sticky_update_def)
        ultimately show ?thesis using h(3) q st nonsticky by auto
      next
        case True
        then have nd: "\<not> needed ?t" by (simp add: needed_def)
        then have "publish_sticky m x a s = Some (NULL, without_topic a ?s)"
          using nonsticky mm at t(2) h(1) free_topic_empty [OF ta]
          by (simp add: publish_sticky_def on_heap_def)
        moreover have ok2: "core_ok qi msgs U (without_topic a ?s)" by (rule core_ok_without_topic [OF h(3) ta nd])
        moreover have del: "topic_at (without_topic a ?s) = (topic_at ?s)(x := None)"
          using topic_at_del [OF core_ok_linked [OF h(3)] core_ok_linked [OF ok2] _ ta] at by simp
        then have "topic_at (without_topic a ?s) = sticky_update m False x (topic_at s)"
          using st(1) t True by (simp add: sticky_update_def)
        moreover have "addr_of (without_topic a ?s) x NULL" using del by (simp add: addr_of_def)
        moreover have "quiet s (without_topic a ?s)" using q by (simp add: quiet_def)
        moreover have "card (dom (g_tms (without_topic a ?s))) \<le> card (dom (g_tms s)) + 1"
          using d(4) at by (simp add: insert_absorb domI card_Diff_singleton_if)
        ultimately show ?thesis using nonsticky by auto
      qed
    qed
  qed
qed

end
