(* ===== verification/Broker_Publish.thy ===== *)
theory Broker_Publish
  imports Broker_Ok
begin

text \<open>
  \<open>ps_publish\<close>: the walk from a topic to its parents is one delivery of the message to the
  subscriptions of all of them, in that order; what a delivery does to each queue; and the effect
  of a whole call on the topic map, the references and the queues.
\<close>

unbundle bit_operations_syntax

definition publish_targets :: "(string \<Rightarrow> topic_map option) \<Rightarrow> bool \<Rightarrow> string \<Rightarrow> subscriber_list list" where
  "publish_targets T recursive x = concat (map (subs_at T) (if recursive then ancestors x else [x]))"

definition sls_ok :: "'q state \<Rightarrow> subscriber_list list \<Rightarrow> bool" where
  "sls_ok s sls \<longleftrightarrow> (\<forall>sl\<in>set sls. sl_su sl \<in> dom (g_subs s) \<and> unat (sl_priority sl) < 10)"

lemma subs_at_ok: "linked s \<Longrightarrow> sls_ok s (subs_at (topic_at s) x)"
  using links_ok_D(7) [of "g_tms s" "g_topic_map s" "subs_view s" "g_next s"] topic_at_iff [of s x]
  by (fastforce simp: sls_ok_def subs_at_def topic_ok_def split: option.split)

lemma publish_targets_ok: "linked s \<Longrightarrow> sls_ok s (publish_targets (topic_at s) rec x)"
  using subs_at_ok [of s] by (auto simp: publish_targets_def sls_ok_def)

lemma sls_ok_cong: "dom (g_subs s') = dom (g_subs s) \<Longrightarrow> sls_ok s' sls = sls_ok s sls"
  by (simp add: sls_ok_def)

lemma deliver_loop_append:
  "deliver_loop Q m (xs @ ys) ret s = do { (r, s1) \<leftarrow> deliver_loop Q m xs ret s; deliver_loop Q m ys r s1 }"
proof (induction xs arbitrary: ret s)
  case (Cons sl xs)
  define w where "w = (if sl_on_empty sl then do { n \<leftarrow> ps_waiting Q (sl_su sl) s; Some (n \<noteq> 0) } else Some False)"
  have step: "deliver_loop Q m (sl # zs) ret s = do {
      skip \<leftarrow> w;
      if skip then deliver_loop Q m zs ret s
      else do {
        (r, s) \<leftarrow> push_subscriber_queue Q (sl_su sl) m (sl_priority sl) s;
        deliver_loop Q m zs (if r = 0 \<and> \<not> sl_hidden sl then ret + 1 else ret) s } }" for zs
    by (simp add: w_def)
  show ?case
  proof (cases w)
    case None
    then show ?thesis using step [of "xs @ ys"] step [of xs] by simp
  next
    case (Some skip)
    then show ?thesis
      using step [of "xs @ ys"] step [of xs] Cons
      by (cases skip; cases "push_subscriber_queue Q (sl_su sl) m (sl_priority sl) s") auto
  qed
qed simp

lemma user_unref_ok:
  assumes ok: "core_ok qi msgs U s" and m: "0 < U m"
  shows "\<exists>h. ps_unref_msg m (g_heap s) = Some h \<and> same_content (g_heap s) h
      \<and> core_ok qi msgs (U(m := U m - 1)) (s\<lparr>g_heap := h\<rparr>)"
proof -
  note d = core_ok_D [OF ok]
  let ?n = "\<lambda>x. U x + held msgs s x"
  have heap: "heap_ok ?n (g_heap s)" using d(1) by (simp add: refs_ok_def)
  have pos: "0 < ?n m" using m by simp
  obtain h where h: "ps_unref_msg m (g_heap s) = Some h" "heap_ok (?n(m := ?n m - 1)) h"
    using ps_unref_msg_heap [OF heap pos] .
  have "?n(m := ?n m - 1) = (\<lambda>x. (U(m := U m - 1)) x + held msgs s x)" using m by auto
  then have "core_ok qi msgs (U(m := U m - 1)) (s\<lparr>g_heap := h\<rparr>)"
    using h(2) d by (simp add: core_ok_def refs_ok_def)
  then show ?thesis using h(1) same_content_unref [OF heap pos h(1)] by blast
qed

lemma user_msg_live: "core_ok qi msgs U s \<Longrightarrow> 0 < U m \<Longrightarrow> \<exists>mm. mh_msgs (g_heap s) m = Some mm"
  using heap_ok_D(4) [of "\<lambda>x. U x + held msgs s x" "g_heap s" m] core_ok_D(1) [of qi msgs U s]
  by (auto simp: refs_ok_def)

lemma same_content_flags:
  assumes "same_content h h'" and "mh_msgs h m = Some mm" and "mh_msgs h' m = Some mm'"
  shows "m_flags mm' = m_flags mm" "m_topic mm' = m_topic mm" "m_rtopic mm' = m_rtopic mm" "m_val mm' = m_val mm"
proof -
  have "mm' = mm\<lparr>m_ref := m_ref mm'\<rparr>" using assms unfolding same_content_def by (metis option.inject)
  then show "m_flags mm' = m_flags mm" "m_topic mm' = m_topic mm" "m_rtopic mm' = m_rtopic mm" "m_val mm' = m_val mm"
    by (metis msg.simps(8-14) msg.select_convs msg.update_convs(1) msg.surjective)+
qed

context msg_queue
begin

lemma waiting_run: "queues_ok inv s \<Longrightarrow> g_subs s su = Some u \<Longrightarrow> ps_waiting Q su s = Some (int (length (msgs (su_q u))))"
  using waiting [of "su_q u"] by (simp add: ps_waiting_def queues_ok_def)

lemma deliver_loop_ok:
  "core_ok inv msgs U s \<Longrightarrow> 0 < U m \<Longrightarrow> sls_ok s sls \<Longrightarrow> room cap 1 U s \<Longrightarrow>
   \<exists>r s'. deliver_loop Q m sls ret s = Some (r, s') \<and> core_ok inv msgs U s' \<and> delivered cap s s'
      \<and> ret \<le> r \<and> r \<le> ret + length (filter (\<lambda>sl. \<not> sl_hidden sl) sls)"
proof (induction sls arbitrary: ret s)
  case Nil
  then show ?case by simp
next
  case (Cons sl sls)
  obtain u where u: "g_subs s (sl_su sl) = Some u" and p: "unat (sl_priority sl) < 10" and rest: "sls_ok s sls"
    using Cons.prems(3) by (auto simp: sls_ok_def)
  note wait = waiting_run [OF core_ok_D(2) [OF Cons.prems(1)] u]
  have live: "0 < U m + held msgs s m" using Cons.prems(2) by simp
  obtain r1 s1 where s1: "push_subscriber_queue Q (sl_su sl) m (sl_priority sl) s = Some (r1, s1)"
    "core_ok inv msgs U s1" "push_result msgs cap (sl_su sl) m s r1 s1"
    using push_subscriber_queue_ok [OF Cons.prems(1) live u p Cons.prems(4)] by blast
  have del: "delivered cap s s1" using s1(3) by (simp add: push_result_def)
  let ?ret1 = "if r1 = 0 \<and> \<not> sl_hidden sl then ret + 1 else ret"
  have "sls_ok s1 sls" "room cap 1 U s1"
    using rest delivered_D(10) [OF del] delivered_room [OF del] Cons.prems(4) by (simp_all add: sls_ok_def)
  note IH1 = Cons.IH [OF s1(2) Cons.prems(2) this, of ?ret1]
  note IH0 = Cons.IH [OF Cons.prems(1,2) rest Cons.prems(4), of ret]
  show ?case
  proof (cases "sl_on_empty sl \<and> length (msgs (su_q u)) \<noteq> 0")
    case True
    from IH0 obtain r s' where "deliver_loop Q m sls ret s = Some (r, s')" "core_ok inv msgs U s'" "delivered cap s s'"
      "ret \<le> r" "r \<le> ret + length (filter (\<lambda>sl. \<not> sl_hidden sl) sls)" by blast
    then show ?thesis using True wait by auto
  next
    case False
    from IH1 obtain r s' where s': "deliver_loop Q m sls ?ret1 s1 = Some (r, s')" "core_ok inv msgs U s'" "delivered cap s1 s'"
      "?ret1 \<le> r" "r \<le> ?ret1 + length (filter (\<lambda>sl. \<not> sl_hidden sl) sls)" by blast
    have "deliver_loop Q m (sl # sls) ret s = Some (r, s')"
      using False wait s1(1) s'(1) by (cases "sl_on_empty sl") simp_all
    moreover have "ret \<le> r" "r \<le> ret + length (filter (\<lambda>sl. \<not> sl_hidden sl) (sl # sls))"
      using s'(4,5) by (auto split: if_splits)
    ultimately show ?thesis using s'(2) delivered_trans [OF del s'(3)] by blast
  qed
qed

text \<open>The walk from the topic to its parents is one delivery to the subscriptions of all of them.\<close>

lemma publish_loop_targets:
  "core_ok inv msgs U s \<Longrightarrow> 0 < U m \<Longrightarrow> mh_msgs (g_heap s) m = Some mm \<Longrightarrow> room cap 1 U s \<Longrightarrow>
   publish_loop Q m x False ret s
     = deliver_loop Q m (publish_targets (topic_at s) (m_flags mm AND PS_FL_NONRECURSIVE = 0) x) ret s"
proof (induction x arbitrary: ret s mm rule: ancestors.induct)
  case (1 x)
  note l = core_ok_linked [OF "1.prems"(1)]
  obtain a where a: "fetch_topic x s = Some a" "addr_of s x a" using fetch_addr_of [OF l] by blast
  obtain r s1 where s1: "deliver_loop Q m (subs_at (topic_at s) x) ret s = Some (r, s1)" "core_ok inv msgs U s1"
    "delivered cap s s1"
    using deliver_loop_ok [OF "1.prems"(1,2) subs_at_ok [OF l] "1.prems"(4)] by blast
  obtain mm1 where mm1: "mh_msgs (g_heap s1) m = Some mm1" using user_msg_live [OF s1(2) "1.prems"(2)] by blast
  have fl: "m_flags mm1 = m_flags mm"
    by (rule same_content_flags [OF delivered_D(8) [OF s1(3)] "1.prems"(3) mm1])
  have round: "(if a \<noteq> NULL then do { t \<leftarrow> g_tms s a; deliver_loop Q m (tm_subscribers t) ret s } else Some (ret, s)) = Some (r, s1)"
    using a(2) s1(1) by (auto simp: addr_of_def subs_at_def split: option.splits)
  have T: "topic_at s1 = topic_at s" using delivered_topic_at [OF s1(3)] .
  show ?case
  proof (cases "m_flags mm AND PS_FL_NONRECURSIVE \<noteq> 0 \<or> x = []")
    case True
    then have "publish_targets (topic_at s) (m_flags mm AND PS_FL_NONRECURSIVE = 0) x = subs_at (topic_at s) x"
      by (auto simp: publish_targets_def)
    then show ?thesis
      using True a(1) round s1(1) mm1 fl by (subst publish_loop.simps) (auto simp: Let_def)
  next
    case False
    then have x: "x \<noteq> []" and rec: "m_flags mm AND PS_FL_NONRECURSIVE = 0" by simp_all
    have "publish_loop Q m (parent x) False r s1
        = deliver_loop Q m (publish_targets (topic_at s1) (m_flags mm1 AND PS_FL_NONRECURSIVE = 0) (parent x)) r s1"
      using "1.IH" [OF x s1(2) "1.prems"(2) mm1] "1.prems"(4) delivered_room [OF s1(3)] by simp
    then have rest: "publish_loop Q m (parent x) False r s1 = deliver_loop Q m (publish_targets (topic_at s) True (parent x)) r s1"
      using T fl rec by simp
    have split: "publish_targets (topic_at s) True x = subs_at (topic_at s) x @ publish_targets (topic_at s) True (parent x)"
      by (simp add: publish_targets_def ancestors_step [OF x])
    have "publish_loop Q m x False ret s = publish_loop Q m (parent x) False r s1"
      using a(1) round mm1 fl x rec by (subst publish_loop.simps) (auto simp: Let_def)
    then show ?thesis using rest rec split s1(1) by (simp add: deliver_loop_append)
  qed
qed

end

section \<open>The whole call\<close>

text \<open>The pieces of \<open>ps_publish\<close>: up to the first delivery, one delivery, and what comes after the last one.\<close>

definition publish_begin :: "addr \<Rightarrow> 'q state \<Rightarrow> (subscriber_list list \<times> 'q state) option" where
  "publish_begin msg s = do {
     m \<leftarrow> mh_msgs (g_heap s) msg;
     topic \<leftarrow> map_option cut_topic (m_topic m);
     s \<leftarrow> GLOBAL_LOCK s;
     tm \<leftarrow> fetch_topic topic s;
     (_, s) \<leftarrow> publish_sticky msg topic tm s;
     Some (publish_targets (topic_at s) (m_flags m AND PS_FL_NONRECURSIVE = 0) topic, s) }"

definition deliver_one :: "'q qops \<Rightarrow> addr \<Rightarrow> subscriber_list \<Rightarrow> nat \<Rightarrow> 'q state \<Rightarrow> (nat \<times> 'q state) option" where
  "deliver_one Q msg sl ret s = do {
     skip \<leftarrow> (if sl_on_empty sl then do { n \<leftarrow> ps_waiting Q (sl_su sl) s; Some (n \<noteq> 0) } else Some False);
     if skip then Some (ret, s)
     else do {
       (r, s) \<leftarrow> push_subscriber_queue Q (sl_su sl) msg (sl_priority sl) s;
       Some (if r = 0 \<and> \<not> sl_hidden sl then ret + 1 else ret, s) } }"

definition publish_end :: "addr \<Rightarrow> nat \<Rightarrow> 'q state \<Rightarrow> (int \<times> 'q state) option" where
  "publish_end msg ret s = do {
     s \<leftarrow> on_heap (ps_unref_msg msg) s;
     s \<leftarrow> GLOBAL_UNLOCK s;
     Some (int ret, s) }"

lemma deliver_loop_one:
  "deliver_loop Q m (sl # sls) ret s = do { (ret, s) \<leftarrow> deliver_one Q m sl ret s; deliver_loop Q m sls ret s }"
proof -
  define w where "w = (if sl_on_empty sl then do { n \<leftarrow> ps_waiting Q (sl_su sl) s; Some (n \<noteq> 0) } else Some False)"
  show ?thesis
    unfolding deliver_one_def deliver_loop.simps(2) w_def [symmetric]
    by (cases w; cases "push_subscriber_queue Q (sl_su sl) m (sl_priority sl) s") (auto simp: Let_def)
qed

lemma addr_of_unique: "linked s \<Longrightarrow> addr_of s x a \<Longrightarrow> addr_of s x b \<Longrightarrow> a = b"
  using links_ok_D(6) [of "g_tms s" "g_topic_map s" "subs_view s" "g_next s"]
  by (auto simp: addr_of_def split: option.splits)

lemma sticky_update_needed:
  assumes "\<And>y t. T y = Some t \<Longrightarrow> needed t" and "m \<noteq> NULL" and "sticky_update m st x T y = Some t"
  shows "needed t"
  using assms by (auto simp: sticky_update_def needed_def split: if_splits option.splits)

lemma publish_targets_cong: "subs_at T = subs_at T' \<Longrightarrow> publish_targets T rec x = publish_targets T' rec x"
  by (simp add: publish_targets_def)

text \<open>The turn that handles the sticky message, followed by the deliveries, is a loop that starts after it.\<close>

lemma publish_loop_first:
  assumes "fetch_topic x s = Some a" and "publish_sticky m x a s = Some (a', s1)" and "fetch_topic x s1 = Some a'"
  shows "publish_loop Q m x True ret s = publish_loop Q m x False ret s1"
  by (subst publish_loop.simps, subst (2) publish_loop.simps) (simp add: assms)

lemma lock_run: "\<not> g_lock s \<Longrightarrow> GLOBAL_LOCK s = Some (s\<lparr>g_lock := True\<rparr>)"
  by (simp add: GLOBAL_LOCK_def mutex_defs)

lemma unlock_run: "g_lock s \<Longrightarrow> GLOBAL_UNLOCK s = Some (s\<lparr>g_lock := False\<rparr>)"
  by (simp add: GLOBAL_UNLOCK_def mutex_defs)

lemma topic_at_links: "topic_at (s\<lparr>g_lock := l\<rparr>) = topic_at s" "topic_at (s\<lparr>g_heap := h\<rparr>) = topic_at s"
  by (rule topic_at_cong; simp)+

lemma broker_ok_D:
  assumes "broker_ok qi msgs U s"
  shows "core_ok qi msgs U s" "all_needed s" "\<not> g_lock s"
    "g_stat_live_subscribers s = of_nat (card (dom (g_subs s)))" "linked s"
  using assms core_ok_linked [of qi msgs U s] by (simp_all add: broker_ok_def)

lemma cut_topic_nul: "NUL \<notin> set t \<Longrightarrow> NUL \<notin> set (cut_topic t)"
  by (auto simp: cut_topic_def dest: set_takeWhileD)

context msg_queue
begin

lemma publish_begin_run:
  assumes ok: "broker_ok inv msgs U s" and m: "0 < U m" and mm: "mh_msgs (g_heap s) m = Some mm"
    and t: "m_topic mm = Some topic" "NUL \<notin> set topic" and room: "room cap 2 U s"
  defines "x \<equiv> cut_topic topic"
    and "sls \<equiv> publish_targets (topic_at s) (m_flags mm AND PS_FL_NONRECURSIVE = 0) (cut_topic topic)"
  shows "\<exists>s1. publish_begin m s = Some (sls, s1) \<and> core_ok inv msgs U s1 \<and> room cap 1 U s1 \<and> sls_ok s1 sls
      \<and> quiet (s\<lparr>g_lock := True\<rparr>) s1 \<and> all_needed s1
      \<and> topic_at s1 = sticky_update m (m_flags mm AND PS_FL_STICKY \<noteq> 0) x (topic_at s)
      \<and> ps_publish Q m s = do { (r, s2) \<leftarrow> deliver_loop Q m sls 0 s1; publish_end m r s2 }"
proof -
  note b = broker_ok_D [OF ok]
  define sk where "sk = (m_flags mm AND PS_FL_STICKY \<noteq> 0)"
  define s0 where "s0 = s\<lparr>g_lock := True\<rparr>"
  have ok0: "core_ok inv msgs U s0" using b(1) by (simp add: s0_def)
  note l0 = core_ok_linked [OF ok0]
  have f0: "g_subs s0 = g_subs s" "g_tms s0 = g_tms s" "g_heap s0 = g_heap s" by (simp_all add: s0_def)
  have T0: "topic_at s0 = topic_at s" by (simp add: s0_def topic_at_links)
  have room0: "room cap 2 U s0" using room by (simp add: room_def f0)
  obtain a where a: "fetch_topic x s0 = Some a" "addr_of s0 x a" using fetch_addr_of [OF l0] by blast
  have nul: "NUL \<notin> set x" using cut_topic_nul [OF t(2)] by (simp add: x_def)
  have wrap: "U y + held msgs s0 y + 1 < 2 ^ 32" for y
    using room_ref [OF room0 core_ok_D(2,4) [OF ok0], of y] by linarith
  have mm0: "mh_msgs (g_heap s0) m = Some mm" using mm by (simp add: f0)
  obtain a' s1 where s1: "publish_sticky m x a s0 = Some (a', s1)" "core_ok inv msgs U s1" "quiet s0 s1"
    "topic_at s1 = sticky_update m sk x (topic_at s0)" "addr_of s1 x a'" "card (dom (g_tms s1)) \<le> card (dom (g_tms s0)) + 1"
    using publish_sticky_ok [OF ok0 mm0 m nul wrap a(2)] unfolding sk_def by blast
  note l1 = core_ok_linked [OF s1(2)]
  have a1: "fetch_topic x s1 = Some a'"
    using fetch_addr_of [OF l1, of x] addr_of_unique [OF l1 s1(5)] by blast
  have room1: "room cap 1 U s1" using s1(6) by (intro room_mono [OF room0 quiet_subs [OF s1(3)]]) simp
  obtain mm1 where mm1: "mh_msgs (g_heap s1) m = Some mm1" using user_msg_live [OF s1(2) m] by blast
  have "same_content (g_heap s) (g_heap s1)" using s1(3) by (simp add: quiet_def f0)
  then have fl: "m_flags mm1 = m_flags mm" by (rule same_content_flags [OF _ mm mm1])
  have sls: "publish_targets (topic_at s1) (m_flags mm AND PS_FL_NONRECURSIVE = 0) x = sls"
    unfolding sls_def x_def [symmetric] by (rule publish_targets_cong) (simp add: s1(4) T0 sticky_update_subs)
  have loop: "publish_loop Q m x True 0 s0 = deliver_loop Q m sls 0 s1"
    unfolding publish_loop_first [OF a(1) s1(1) a1] publish_loop_targets [OF s1(2) m mm1 room1] fl sls ..
  have slok: "sls_ok s1 sls" using publish_targets_ok [OF l1] unfolding sls [symmetric] by blast
  have mn: "m \<noteq> NULL"
    using heap_ok_D(3) [of "\<lambda>x. U x + held msgs s x" "g_heap s"] core_ok_D(1) [OF b(1)] m
    by (metis refs_ok_def add_gr_0 less_irrefl)
  have "publish_begin m s = Some (sls, s1)"
    using mm t(1) b(3) a(1) s1(1) sls by (simp add: publish_begin_def lock_run x_def [symmetric] s0_def [symmetric])
  moreover have "ps_publish Q m s = do { (r, s2) \<leftarrow> deliver_loop Q m sls 0 s1; publish_end m r s2 }"
    using mn mm t(1) b(3) loop
    by (simp add: ps_publish_def publish_end_def lock_run x_def [symmetric] s0_def [symmetric])
  moreover have "needed t" if "topic_at s1 y = Some t" for y t
    using that all_needed_at [OF b(5)] b(2) sticky_update_needed [of "topic_at s" m sk x y t] mn unfolding s1(4) T0 by blast
  then have "all_needed s1" using all_needed_at [OF l1] by blast
  ultimately show ?thesis using s1(2-4) room1 slok T0 unfolding sk_def s0_def by auto
qed

lemma ps_publish_run:
  assumes ok: "broker_ok inv msgs U s" and m: "0 < U m" and mm: "mh_msgs (g_heap s) m = Some mm"
    and t: "m_topic mm = Some topic" "NUL \<notin> set topic" and room: "room cap 2 U s"
  defines "x \<equiv> cut_topic topic"
    and "sls \<equiv> publish_targets (topic_at s) (m_flags mm AND PS_FL_NONRECURSIVE = 0) (cut_topic topic)"
  shows "\<exists>r s1 s2 h. ps_publish Q m s = Some (int r, s2\<lparr>g_heap := h, g_lock := False\<rparr>)
      \<and> core_ok inv msgs U s1 \<and> room cap 1 U s1 \<and> g_subs s1 = g_subs s \<and> g_cbs s1 = g_cbs s \<and> sls_ok s1 sls
      \<and> deliver_loop Q m sls 0 s1 = Some (r, s2)
      \<and> broker_ok inv msgs (U(m := U m - 1)) (s2\<lparr>g_heap := h, g_lock := False\<rparr>)
      \<and> topic_at s2 = sticky_update m (m_flags mm AND PS_FL_STICKY \<noteq> 0) x (topic_at s)
      \<and> keeps cap s2 = keeps cap s \<and> same_content (g_heap s) h"
proof -
  note b = broker_ok_D [OF ok]
  obtain s1 where s1: "core_ok inv msgs U s1" "room cap 1 U s1" "sls_ok s1 sls" "quiet (s\<lparr>g_lock := True\<rparr>) s1" "all_needed s1"
    "topic_at s1 = sticky_update m (m_flags mm AND PS_FL_STICKY \<noteq> 0) x (topic_at s)"
    "ps_publish Q m s = do { (r, s2) \<leftarrow> deliver_loop Q m sls 0 s1; publish_end m r s2 }"
    using publish_begin_run [OF ok m mm t room] unfolding x_def sls_def by blast
  obtain r s2 where s2: "deliver_loop Q m sls 0 s1 = Some (r, s2)" "core_ok inv msgs U s2" "delivered cap s1 s2"
    using deliver_loop_ok [OF s1(1) m s1(3,2)] by blast
  obtain h where h: "ps_unref_msg m (g_heap s2) = Some h" "same_content (g_heap s2) h"
    "core_ok inv msgs (U(m := U m - 1)) (s2\<lparr>g_heap := h\<rparr>)"
    using user_unref_ok [OF s2(2) m] by blast
  note del = delivered_D [OF s2(3)]
  let ?s = "s2\<lparr>g_heap := h, g_lock := False\<rparr>"
  have f1: "g_lock s1" "g_subs s1 = g_subs s" "g_cbs s1 = g_cbs s" "g_stat_live_subscribers s1 = g_stat_live_subscribers s"
    "same_content (g_heap s) (g_heap s1)"
    using s1(4) by (simp_all add: quiet_def)
  have run: "ps_publish Q m s = Some (int r, ?s)"
    using s1(7) s2(1) h(1) del(1) f1(1) by (simp add: publish_end_def unlock_run on_heap_def)
  have "all_needed ?s" using s1(5) del(2) by (simp add: all_needed_def)
  moreover have "g_stat_live_subscribers s2 = of_nat (card (dom (g_subs s2)))"
    using del(6,10) f1(2,4) b(4) by simp
  ultimately have "broker_ok inv msgs (U(m := U m - 1)) ?s" using h(3) by (simp add: broker_ok_def)
  moreover have "keeps cap s2 = keeps cap s" using del(7) f1(2) by (simp add: keeps_def fun_eq_iff)
  moreover have "same_content (g_heap s) h" using same_content_trans [OF f1(5) same_content_trans [OF del(8) h(2)]] .
  moreover have "topic_at s2 = topic_at s1" using delivered_topic_at [OF s2(3)] .
  ultimately show ?thesis using run s1(1-3,6) f1(2,3) s2(1) by auto
qed

text \<open>When every queue has room for all the copies that are due to it, none is lost.\<close>

lemma deliver_lossless:
  "core_ok inv msgs U s \<Longrightarrow> 0 < U m \<Longrightarrow> sls_ok s sls \<Longrightarrow> room cap 1 U s \<Longrightarrow> (\<forall>sl\<in>set sls. \<not> sl_on_empty sl) \<Longrightarrow>
   (\<And>su u. g_subs s su = Some u \<Longrightarrow> length (msgs (su_q u)) + count_list (map sl_su sls) su \<le> cap (su_q u)) \<Longrightarrow>
   \<exists>s'. deliver_loop Q m sls ret s = Some (ret + length (filter (\<lambda>sl. \<not> sl_hidden sl) sls), s')
      \<and> (\<forall>su u. g_subs s su = Some u \<longrightarrow> (\<exists>u'. g_subs s' su = Some u' \<and> su_overflow u' = su_overflow u \<and>
           mset (msgs (su_q u')) = mset (msgs (su_q u)) + replicate_mset (count_list (map sl_su sls) su) m))"
proof (induction sls arbitrary: ret s)
  case Nil
  then show ?case by simp
next
  case (Cons sl sls)
  obtain u where u: "g_subs s (sl_su sl) = Some u" and p: "unat (sl_priority sl) < 10"
    using Cons.prems(3) by (auto simp: sls_ok_def)
  have live: "0 < U m + held msgs s m" using Cons.prems(2) by simp
  obtain r1 s1 where s1: "push_subscriber_queue Q (sl_su sl) m (sl_priority sl) s = Some (r1, s1)"
    "core_ok inv msgs U s1" "push_result msgs cap (sl_su sl) m s r1 s1"
    using push_subscriber_queue_ok [OF Cons.prems(1) live u p Cons.prems(4)] by blast
  have del: "delivered cap s s1" and others: "\<And>su'. su' \<noteq> sl_su sl \<Longrightarrow> g_subs s1 su' = g_subs s su'"
    using s1(3) by (simp_all add: push_result_def)
  have "length (msgs (su_q u)) < cap (su_q u)" using Cons.prems(6) [OF u] by simp
  then obtain u1 where u1: "g_subs s1 (sl_su sl) = Some u1" "mset (msgs (su_q u1)) = add_mset m (mset (msgs (su_q u)))"
    "su_overflow u1 = su_overflow u" and r1: "r1 = 0"
    using s1(3) u by (auto simp: push_result_def)
  have cap1: "cap (su_q u1) = cap (su_q u)"
    using keeps_Some [OF delivered_D(7) [OF del] u] u1(1) by (auto simp: su_keep_def)
  have len1: "length (msgs (su_q u1)) = Suc (length (msgs (su_q u)))"
    using arg_cong [OF u1(2), of size] by simp
  have fits: "length (msgs (su_q v)) + count_list (map sl_su sls) su \<le> cap (su_q v)" if "g_subs s1 su = Some v" for su v
    using that Cons.prems(6) [of su] u u1(1) len1 cap1 others [of su] by (cases "su = sl_su sl") auto
  have rest: "sls_ok s1 sls" "room cap 1 U s1" "\<forall>sl\<in>set sls. \<not> sl_on_empty sl"
    using Cons.prems(3-5) delivered_D(10) [OF del] delivered_room [OF del] by (simp_all add: sls_ok_def)
  let ?ret = "if \<not> sl_hidden sl then ret + 1 else ret"
  obtain s' where s': "deliver_loop Q m sls ?ret s1 = Some (?ret + length (filter (\<lambda>sl. \<not> sl_hidden sl) sls), s')"
    and q: "\<And>su v. g_subs s1 su = Some v \<Longrightarrow> \<exists>v'. g_subs s' su = Some v' \<and> su_overflow v' = su_overflow v \<and>
           mset (msgs (su_q v')) = mset (msgs (su_q v)) + replicate_mset (count_list (map sl_su sls) su) m"
    using Cons.IH [OF s1(2) Cons.prems(2) rest(1,2,3) fits, of ?ret] by blast
  have "deliver_loop Q m (sl # sls) ret s = Some (ret + length (filter (\<lambda>sl. \<not> sl_hidden sl) (sl # sls)), s')"
    using Cons.prems(5) s1(1) r1 s' by (auto split: if_splits)
  moreover have "\<exists>v'. g_subs s' su = Some v' \<and> su_overflow v' = su_overflow v \<and>
      mset (msgs (su_q v')) = mset (msgs (su_q v)) + replicate_mset (count_list (map sl_su (sl # sls)) su) m"
    if v: "g_subs s su = Some v" for su v
  proof (cases "su = sl_su sl")
    case True
    then show ?thesis using q [OF u1(1)] u1(2,3) v u by auto
  next
    case False
    then show ?thesis using q [of su v] v others [OF False] by auto
  qed
  ultimately show ?case by blast
qed

lemma ps_publish_lossless:
  assumes ok: "broker_ok inv msgs U s" and m: "0 < U m" and mm: "mh_msgs (g_heap s) m = Some mm"
    and t: "m_topic mm = Some topic" "NUL \<notin> set topic" and room: "room cap 2 U s"
    and sls: "sls = publish_targets (topic_at s) (m_flags mm AND PS_FL_NONRECURSIVE = 0) (cut_topic topic)"
    and oe: "\<forall>sl\<in>set sls. \<not> sl_on_empty sl"
    and fits: "\<And>su u. g_subs s su = Some u \<Longrightarrow> length (msgs (su_q u)) + count_list (map sl_su sls) su \<le> cap (su_q u)"
  shows "\<exists>s'. ps_publish Q m s = Some (int (length (filter (\<lambda>sl. \<not> sl_hidden sl) sls)), s')
      \<and> broker_ok inv msgs (U(m := U m - 1)) s'
      \<and> (\<forall>su u. g_subs s su = Some u \<longrightarrow> (\<exists>u'. g_subs s' su = Some u' \<and> su_overflow u' = su_overflow u \<and>
           mset (msgs (su_q u')) = mset (msgs (su_q u)) + replicate_mset (count_list (map sl_su sls) su) m))"
proof -
  obtain r s1 s2 h where p: "ps_publish Q m s = Some (int r, s2\<lparr>g_heap := h, g_lock := False\<rparr>)"
    "core_ok inv msgs U s1" "room cap 1 U s1" "g_subs s1 = g_subs s" "sls_ok s1 sls" "deliver_loop Q m sls 0 s1 = Some (r, s2)"
    "broker_ok inv msgs (U(m := U m - 1)) (s2\<lparr>g_heap := h, g_lock := False\<rparr>)"
    using ps_publish_run [OF ok m mm t room] unfolding sls by blast
  have f: "length (msgs (su_q u)) + count_list (map sl_su sls) su \<le> cap (su_q u)" if "g_subs s1 su = Some u" for su u
    using fits that by (simp add: p(4))
  obtain s2' where "deliver_loop Q m sls 0 s1 = Some (0 + length (filter (\<lambda>sl. \<not> sl_hidden sl) sls), s2')"
    "\<forall>su u. g_subs s1 su = Some u \<longrightarrow> (\<exists>u'. g_subs s2' su = Some u' \<and> su_overflow u' = su_overflow u \<and>
           mset (msgs (su_q u')) = mset (msgs (su_q u)) + replicate_mset (count_list (map sl_su sls) su) m)"
    using deliver_lossless [OF p(2) m p(5,3) oe f, of 0] by blast
  then show ?thesis using p by (intro exI [of _ "s2\<lparr>g_heap := h, g_lock := False\<rparr>"]) auto
qed

end

end
