(* ===== verification/Broker_Subscribe.thy ===== *)
theory Broker_Subscribe
  imports Broker_Publish
begin

text \<open>
  Subscribing: changing the record of a subscriber, linking it to a topic and taking the link away,
  the replay of sticky messages to a new subscription, and \<open>ps_subscribe_flags\<close> as a whole: it is
  total, keeps the invariant, changes one entry of the topic map and, with room in the queue,
  delivers exactly the sticky messages that the flags ask for.
\<close>

unbundle bit_operations_syntax

section \<open>Changing the record of a subscriber\<close>

lemma held_same_queue:
  assumes "finite (dom (g_subs s))" and "g_subs s su = Some u" and "su_q u' = su_q u"
  shows "held msgs (put_su su u' s) = held msgs s"
proof
  fix m show "held msgs (put_su su u' s) m = held msgs s m"
    using held_put_su [OF assms(1,2), of msgs u' m] assms(3) by simp
qed

lemma held_same_sticky:
  assumes "finite (dom (g_tms s))" and "g_tms s a = Some t" and "tm_sticky t' = tm_sticky t"
  shows "held msgs (put_tm a t' s) = held msgs s"
proof
  fix m show "held msgs (put_tm a t' s) m = held msgs s m"
    using held_put_tm [OF assms(1,2), of msgs t' m] assms(3) by simp
qed

lemma core_ok_same_queue:
  assumes ok: "core_ok qi msgs U s" and u: "g_subs s su = Some u" "su_q u' = su_q u" "su_subs u' = su_subs u"
  shows "core_ok qi msgs U (put_su su u' s)"
proof -
  note d = core_ok_D [OF ok]
  have "subs_view (put_su su u' s) = subs_view s" using u by (auto simp: fun_eq_iff subs_view_def)
  moreover have "queues_ok qi (put_su su u' s)" using d(2) u by (auto simp: queues_ok_def)
  moreover have "refs_ok msgs U (put_su su u' s)"
    using d(1) held_same_queue [OF d(5) u(1,2), of msgs] by (simp add: refs_ok_def)
  ultimately show ?thesis using d(3) by (simp add: core_ok_def)
qed

lemma broker_ok_same_queue:
  assumes ok: "broker_ok qi msgs U s" and u: "g_subs s su = Some u" "su_q u' = su_q u" "su_subs u' = su_subs u"
  shows "broker_ok qi msgs U (put_su su u' s)"
proof -
  have "dom (g_subs (put_su su u' s)) = dom (g_subs s)" using u(1) by auto
  then show ?thesis
    using ok core_ok_same_queue [OF _ u, of qi msgs U] by (simp add: broker_ok_def all_needed_def)
qed

text \<open>Linking a subscriber to a topic, and taking the link away.\<close>

lemma core_ok_link:
  assumes ok: "core_ok qi msgs U s" and t: "g_tms s a = Some t" and u: "g_subs s su = Some u"
    and sl: "sl_su sl = su" "unat (sl_priority sl) < 10" and new: "find_su su (tm_subscribers t) = None"
  shows "core_ok qi msgs U (put_su su (u\<lparr>su_subs := su_subs u @ [a]\<rparr>) (put_tm a (t\<lparr>tm_subscribers := tm_subscribers t @ [sl]\<rparr>) s))"
    (is "core_ok qi msgs U ?s")
proof -
  note d = core_ok_D [OF ok]
  let ?s1 = "put_tm a (t\<lparr>tm_subscribers := tm_subscribers t @ [sl]\<rparr>) s"
  have fin: "finite (dom (g_subs ?s1))" "g_subs ?s1 su = Some u" using d(5) u by simp_all
  have "held msgs ?s = held msgs s"
    using held_same_queue [OF fin, of "u\<lparr>su_subs := su_subs u @ [a]\<rparr>" msgs]
      held_same_sticky [OF d(4) t, of "t\<lparr>tm_subscribers := tm_subscribers t @ [sl]\<rparr>" msgs] by simp
  then have "refs_ok msgs U ?s" using d(1) by (simp add: refs_ok_def)
  moreover have "queues_ok qi ?s" using d(2) u by (auto simp: queues_ok_def)
  moreover have "linked ?s"
  proof -
    have l: "subs_view s su = Some (su_subs u)" using u by (simp add: subs_view_def)
    have n: "su \<notin> sl_su ` set (tm_subscribers t)" using new by (simp add: find_su_None)
    have "subs_view ?s = (subs_view s)(su \<mapsto> su_subs u @ [a])" by (auto simp: fun_eq_iff subs_view_def)
    then show ?thesis using links_ok_subscribe [OF d(3) t l sl n] by simp
  qed
  ultimately show ?thesis by (simp add: core_ok_def)
qed

lemma core_ok_unlink:
  assumes ok: "core_ok qi msgs U s" and t: "g_tms s a = Some t" and u: "g_subs s su = Some u"
    and sl: "find_su su (tm_subscribers t) = Some sl"
  shows "core_ok qi msgs U (put_su su (u\<lparr>su_subs := remove1 a (su_subs u)\<rparr>)
           (put_tm a (t\<lparr>tm_subscribers := remove1 sl (tm_subscribers t)\<rparr>) s))" (is "core_ok qi msgs U ?s")
proof -
  note d = core_ok_D [OF ok]
  let ?s1 = "put_tm a (t\<lparr>tm_subscribers := remove1 sl (tm_subscribers t)\<rparr>) s"
  have fin: "finite (dom (g_subs ?s1))" "g_subs ?s1 su = Some u" using d(5) u by simp_all
  have "held msgs ?s = held msgs s"
    using held_same_queue [OF fin, of "u\<lparr>su_subs := remove1 a (su_subs u)\<rparr>" msgs]
      held_same_sticky [OF d(4) t, of "t\<lparr>tm_subscribers := remove1 sl (tm_subscribers t)\<rparr>" msgs] by simp
  then have "refs_ok msgs U ?s" using d(1) by (simp add: refs_ok_def)
  moreover have "queues_ok qi ?s" using d(2) u by (auto simp: queues_ok_def)
  moreover have "linked ?s"
  proof -
    have l: "subs_view s su = Some (su_subs u)" using u by (simp add: subs_view_def)
    have "subs_view ?s = (subs_view s)(su \<mapsto> remove1 a (su_subs u))" by (auto simp: fun_eq_iff subs_view_def)
    then show ?thesis using links_ok_unsubscribe [OF d(3) t l find_su_Some [OF sl]] by simp
  qed
  ultimately show ?thesis by (simp add: core_ok_def)
qed

section \<open>Sticky messages for a new subscription\<close>

text \<open>A run of pushes to one queue.\<close>

fun push_each :: "'q qops \<Rightarrow> addr \<Rightarrow> u8 \<Rightarrow> addr list \<Rightarrow> 'q state \<Rightarrow> 'q state option" where
  "push_each Q su p [] s = Some s"
| "push_each Q su p (m # ms) s = do { (_, s) \<leftarrow> push_subscriber_queue Q su m p s; push_each Q su p ms s }"

text \<open>The sticky messages of the topics \<open>as\<close> that are \<open>prefix\<close> or below it.\<close>

definition child_stickies :: "string \<Rightarrow> (addr \<rightharpoonup> topic_map) \<Rightarrow> addr list \<Rightarrow> addr list" where
  "child_stickies prefix tms as =
     map tm_sticky (filter (\<lambda>t. prefix \<in> set (ancestors (tm_topic t)) \<and> tm_sticky t \<noteq> NULL) (map (\<lambda>a. the (tms a)) as))"

lemma child_stickies_Cons:
  "child_stickies prefix tms (a # as) =
     (let t = the (tms a) in
      (if prefix \<in> set (ancestors (tm_topic t)) \<and> tm_sticky t \<noteq> NULL then [tm_sticky t] else [])
      @ child_stickies prefix tms as)"
  by (simp add: child_stickies_def Let_def)

context msg_queue
begin

lemma push_each_ok:
  "core_ok inv msgs U s \<Longrightarrow> (\<And>m. m \<in> set ms \<Longrightarrow> \<exists>a t. g_tms s a = Some t \<and> tm_sticky t = m \<and> m \<noteq> NULL) \<Longrightarrow>
   g_subs s su = Some u \<Longrightarrow> unat p < 10 \<Longrightarrow> room cap 1 U s \<Longrightarrow>
   \<exists>s' u'. push_each Q su p ms s = Some s' \<and> core_ok inv msgs U s' \<and> delivered cap s s'
      \<and> (\<forall>su'. su' \<noteq> su \<longrightarrow> g_subs s' su' = g_subs s su') \<and> g_subs s' su = Some u'
      \<and> (length (msgs (su_q u)) + length ms \<le> cap (su_q u) \<longrightarrow>
           mset (msgs (su_q u')) = mset (msgs (su_q u)) + mset ms \<and> su_overflow u' = su_overflow u)"
proof (induction ms arbitrary: s u)
  case Nil
  then show ?case by simp
next
  case (Cons m ms)
  obtain a t where "g_tms s a = Some t" "tm_sticky t = m" "m \<noteq> NULL" using Cons.prems(2) [of m] by auto
  then have live: "0 < U m + held msgs s m" using held_sticky [OF core_ok_D(4) [OF Cons.prems(1)], of a t msgs] by simp
  obtain r1 s1 where s1: "push_subscriber_queue Q su m p s = Some (r1, s1)"
    "core_ok inv msgs U s1" "push_result msgs cap su m s r1 s1"
    using push_subscriber_queue_ok [OF Cons.prems(1) live Cons.prems(3-5)] by blast
  have del: "delivered cap s s1" and others: "\<forall>su'. su' \<noteq> su \<longrightarrow> g_subs s1 su' = g_subs s su'"
    using s1(3) by (simp_all add: push_result_def)
  obtain u1 where u1: "g_subs s1 su = Some u1" and q1: "length (msgs (su_q u)) < cap (su_q u) \<Longrightarrow>
      mset (msgs (su_q u1)) = add_mset m (mset (msgs (su_q u))) \<and> su_overflow u1 = su_overflow u"
    using s1(3) Cons.prems(3) by (auto simp: push_result_def)
  have cap1: "cap (su_q u1) = cap (su_q u)"
    using keeps_Some [OF delivered_D(7) [OF del] Cons.prems(3)] u1 by (auto simp: su_keep_def)
  have src: "\<exists>a t. g_tms s1 a = Some t \<and> tm_sticky t = x \<and> x \<noteq> NULL" if "x \<in> set ms" for x
    using Cons.prems(2) [of x] that delivered_D(2) [OF del] by simp
  have r1: "room cap 1 U s1" using delivered_room [OF del] Cons.prems(5) by simp
  obtain s' u' where s': "push_each Q su p ms s1 = Some s'" "core_ok inv msgs U s'" "delivered cap s1 s'"
    "\<forall>su'. su' \<noteq> su \<longrightarrow> g_subs s' su' = g_subs s1 su'" "g_subs s' su = Some u'"
    and q': "length (msgs (su_q u1)) + length ms \<le> cap (su_q u1) \<Longrightarrow>
      mset (msgs (su_q u')) = mset (msgs (su_q u1)) + mset ms \<and> su_overflow u' = su_overflow u1"
    using Cons.IH [OF s1(2) src u1 Cons.prems(4) r1] by blast
  have "mset (msgs (su_q u')) = mset (msgs (su_q u)) + mset (m # ms) \<and> su_overflow u' = su_overflow u"
    if fit: "length (msgs (su_q u)) + length (m # ms) \<le> cap (su_q u)"
  proof -
    have 1: "mset (msgs (su_q u1)) = add_mset m (mset (msgs (su_q u))) \<and> su_overflow u1 = su_overflow u"
      using q1 fit by simp
    then have "length (msgs (su_q u1)) = Suc (length (msgs (su_q u)))" by (metis size_mset size_add_mset)
    then show ?thesis using q' 1 fit cap1 by simp
  qed
  then show ?case
    using s1(1) s' others delivered_trans [OF del s'(3)] by (intro exI [of _ s'] exI [of _ u']) simp
qed

lemma push_child_sticky_each:
  "core_ok inv msgs U s \<Longrightarrow> set as \<subseteq> dom (g_tms s) \<Longrightarrow> g_subs s su = Some u \<Longrightarrow> unat p < 10 \<Longrightarrow> room cap 1 U s \<Longrightarrow>
   push_child_sticky_loop Q su prefix p as s = push_each Q su p (child_stickies prefix (g_tms s) as) s"
proof (induction "as" arbitrary: s u)
  case Nil
  then show ?case by (simp add: child_stickies_def)
next
  case (Cons a "as")
  obtain t where t: "g_tms s a = Some t" using Cons.prems(2) by auto
  note d = core_ok_D [OF Cons.prems(1)]
  have tm: "topic_match prefix (tm_topic t) = Some (prefix \<in> set (ancestors (tm_topic t)))"
    using links_ok_D(7) [OF d(3) t] by (intro topic_match_ancestors) (simp add: topic_ok_def)
  show ?case
  proof (cases "prefix \<in> set (ancestors (tm_topic t)) \<and> tm_sticky t \<noteq> NULL")
    case False
    then show ?thesis using Cons t tm by (auto simp: child_stickies_Cons)
  next
    case True
    have live: "0 < U (tm_sticky t) + held msgs s (tm_sticky t)" using held_sticky [OF d(4) t, of msgs] True by simp
    obtain r1 s1 where s1: "push_subscriber_queue Q su (tm_sticky t) p s = Some (r1, s1)"
      "core_ok inv msgs U s1" "push_result msgs cap su (tm_sticky t) s r1 s1"
      using push_subscriber_queue_ok [OF Cons.prems(1) live Cons.prems(3-5)] by blast
    have del: "delivered cap s s1" using s1(3) by (simp add: push_result_def)
    obtain u1 where u1: "g_subs s1 su = Some u1" using s1(3) by (auto simp: push_result_def)
    have tms: "g_tms s1 = g_tms s" using delivered_D(2) [OF del] .
    have "push_child_sticky_loop Q su prefix p as s1 = push_each Q su p (child_stickies prefix (g_tms s) as) s1"
      using Cons.IH [OF s1(2) _ u1 Cons.prems(4)] Cons.prems(2,5) delivered_room [OF del] by (simp add: tms)
    then show ?thesis using True t tm s1(1) by (simp add: child_stickies_Cons)
  qed
qed

end

section \<open>Subscribing\<close>

lemma child_stickies_cong:
  "(\<And>a. a \<in> set as \<Longrightarrow> tm_topic (the (tms' a)) = tm_topic (the (tms a)) \<and> tm_sticky (the (tms' a)) = tm_sticky (the (tms a))) \<Longrightarrow>
   child_stickies x tms' as = child_stickies x tms as"
  by (induction "as") (auto simp: child_stickies_Cons Let_def child_stickies_def)

lemma child_stickies_append:
  "child_stickies x tms (as @ bs) = child_stickies x tms as @ child_stickies x tms bs"
  by (simp add: child_stickies_def)

definition new_link :: "addr \<Rightarrow> sub_flags \<Rightarrow> subscriber_list" where
  "new_link su fl = \<lparr>sl_su = su, sl_hidden = fl_hidden fl, sl_on_empty = fl_on_empty fl, sl_priority = fl_priority fl\<rparr>"

text \<open>The topic map after a new subscription.\<close>

definition subscribe_update :: "addr \<Rightarrow> sub_flags \<Rightarrow> string \<Rightarrow> (string \<Rightarrow> topic_map option) \<Rightarrow> (string \<Rightarrow> topic_map option)" where
  "subscribe_update su fl x T =
     T(x \<mapsto> (case T x of None \<Rightarrow> \<lparr>tm_topic = x, tm_subscribers = [new_link su fl], tm_sticky = NULL\<rparr>
                      | Some t \<Rightarrow> t\<lparr>tm_subscribers := tm_subscribers t @ [new_link su fl]\<rparr>))"

text \<open>The sticky messages that a new subscription is due.\<close>

definition sticky_due :: "sub_flags \<Rightarrow> string \<Rightarrow> 'q state \<Rightarrow> addr list" where
  "sticky_due fl x s =
     (if fl_no_sticky fl then []
      else if fl_child_sticky fl then child_stickies x (g_tms s) (g_topic_map s)
      else (case topic_at s x of None \<Rightarrow> [] | Some t \<Rightarrow> if tm_sticky t \<noteq> NULL then [tm_sticky t] else []))"

lemma relock: "\<not> g_lock s \<Longrightarrow> s\<lparr>g_lock := True, g_lock := False\<rparr> = s"
  by (cases s) simp

lemma relock' [simp]: "\<not> g_lock s \<Longrightarrow> s\<lparr>g_lock := False\<rparr> = s"
  by (cases s) simp

lemma idle_ok_D:
  assumes "idle_ok qi msgs U s"
  shows "core_ok qi msgs U s" "all_needed s" "\<not> g_lock s" "linked s"
  using assms core_ok_linked [of qi msgs U s] by (simp_all add: idle_ok_def)

lemma broker_ok_idle: "broker_ok qi msgs U s \<longleftrightarrow> idle_ok qi msgs U s \<and> g_stat_live_subscribers s = of_nat (card (dom (g_subs s)))"
  by (auto simp: broker_ok_def idle_ok_def)

context msg_queue
begin

text \<open>What follows the lookup of the topic, when the subscriber is not on it yet.\<close>

lemma subscribe_link:
  assumes ok: "core_ok inv msgs U s" and t: "g_tms s a = Some t" and u: "g_subs s su = Some u"
    and new: "find_su su (tm_subscribers t) = None" and p: "unat (fl_priority fl) < 10" and room: "room cap 1 U s"
  defines "x \<equiv> tm_topic t" and "s3 \<equiv> put_su su (u\<lparr>su_subs := su_subs u @ [a]\<rparr>)
      (put_tm a (t\<lparr>tm_subscribers := tm_subscribers t @ [new_link su fl]\<rparr>) s)"
  shows "\<exists>s4 u4. (if \<not> fl_no_sticky fl then
                 (if fl_child_sticky fl then push_child_sticky Q su x (fl_priority fl) s3
                  else if tm_sticky t \<noteq> NULL
                  then map_option snd (push_subscriber_queue Q su (tm_sticky t) (fl_priority fl) s3)
                  else Some s3)
               else Some s3) = Some s4
      \<and> core_ok inv msgs U s4 \<and> delivered cap s3 s4 \<and> (\<forall>su'. su' \<noteq> su \<longrightarrow> g_subs s4 su' = g_subs s su') \<and> g_subs s4 su = Some u4
      \<and> topic_at s4 = (topic_at s)(x \<mapsto> t\<lparr>tm_subscribers := tm_subscribers t @ [new_link su fl]\<rparr>)
      \<and> (let due = (if fl_no_sticky fl then [] else if fl_child_sticky fl then child_stickies x (g_tms s) (g_topic_map s)
                    else if tm_sticky t \<noteq> NULL then [tm_sticky t] else []) in
         length (msgs (su_q u)) + length due \<le> cap (su_q u) \<longrightarrow>
           mset (msgs (su_q u4)) = mset (msgs (su_q u)) + mset due \<and> su_overflow u4 = su_overflow u)"
proof -
  note d = core_ok_D [OF ok]
  have ok3: "core_ok inv msgs U s3"
    unfolding s3_def by (rule core_ok_link [OF ok t u]) (simp_all add: new_link_def p new)
  let ?t = "t\<lparr>tm_subscribers := tm_subscribers t @ [new_link su fl]\<rparr>"
  let ?u = "u\<lparr>su_subs := su_subs u @ [a]\<rparr>"
  have f3: "g_tms s3 = (g_tms s)(a \<mapsto> ?t)" "g_topic_map s3 = g_topic_map s" "g_subs s3 = (g_subs s)(su \<mapsto> ?u)"
    by (simp_all add: s3_def)
  have u3: "g_subs s3 su = Some ?u" by (simp add: f3)
  have "hsum (\<lambda>u. cap (su_q u)) (g_subs s3) = hsum (\<lambda>u. cap (su_q u)) (g_subs s)"
    unfolding f3 by (rule hsum_update_same [OF d(5) u]) simp
  moreover have "dom (g_tms s3) = dom (g_tms s)" using t by (auto simp: f3)
  ultimately have room3: "room cap 1 U s3" using room by (simp add: room_def)
  have cs: "child_stickies x (g_tms s3) (g_topic_map s3) = child_stickies x (g_tms s) (g_topic_map s)"
    unfolding f3(2) by (rule child_stickies_cong) (simp add: f3 t)
  define due where "due = (if fl_no_sticky fl then [] else if fl_child_sticky fl then child_stickies x (g_tms s) (g_topic_map s)
                    else if tm_sticky t \<noteq> NULL then [tm_sticky t] else [])"
  have sub: "set (g_topic_map s) \<subseteq> dom (g_tms s)" using links_ok_D(1) [OF d(3)] by simp
  have src: "\<exists>b t'. g_tms s3 b = Some t' \<and> tm_sticky t' = m \<and> m \<noteq> NULL" if m: "m \<in> set due" for m
  proof (cases "fl_no_sticky fl \<or> \<not> fl_child_sticky fl")
    case True
    then have "m = tm_sticky t \<and> m \<noteq> NULL" using m by (auto simp: due_def split: if_splits)
    then show ?thesis by (intro exI [of _ a] exI [of _ ?t]) (simp add: f3)
  next
    case False
    then obtain b t' where b: "b \<in> set (g_topic_map s)" "t' = the (g_tms s b)" "tm_sticky t' = m" "m \<noteq> NULL"
      using m by (auto simp: due_def child_stickies_def)
    then have tb: "g_tms s b = Some t'" using sub by auto
    show ?thesis
    proof (cases "b = a")
      case True
      then show ?thesis using b tb t by (intro exI [of _ a] exI [of _ ?t]) (simp add: f3)
    next
      case False
      then show ?thesis using b tb by (intro exI [of _ b] exI [of _ t']) (simp add: f3)
    qed
  qed
  obtain s4 u4 where s4: "push_each Q su (fl_priority fl) due s3 = Some s4" "core_ok inv msgs U s4" "delivered cap s3 s4"
    "\<forall>su'. su' \<noteq> su \<longrightarrow> g_subs s4 su' = g_subs s3 su'" "g_subs s4 su = Some u4"
    and q4: "length (msgs (su_q ?u)) + length due \<le> cap (su_q ?u) \<Longrightarrow>
      mset (msgs (su_q u4)) = mset (msgs (su_q ?u)) + mset due \<and> su_overflow u4 = su_overflow ?u"
    using push_each_ok [OF ok3 src u3 p room3] by blast
  have "push_child_sticky Q su x (fl_priority fl) s3 = push_each Q su (fl_priority fl) (child_stickies x (g_tms s) (g_topic_map s)) s3"
    unfolding push_child_sticky_def
    using push_child_sticky_each [OF ok3 _ u3 p room3, of "g_topic_map s3" x] links_ok_D(1) [OF core_ok_linked [OF ok3]] cs by simp
  then have run: "(if \<not> fl_no_sticky fl then
                 (if fl_child_sticky fl then push_child_sticky Q su x (fl_priority fl) s3
                  else if tm_sticky t \<noteq> NULL
                  then map_option snd (push_subscriber_queue Q su (tm_sticky t) (fl_priority fl) s3)
                  else Some s3)
               else Some s3) = Some s4"
    using s4(1) by (cases "push_subscriber_queue Q su (tm_sticky t) (fl_priority fl) s3") (auto simp: due_def split: if_splits)
  have "topic_at s3 = (topic_at s)(tm_topic ?t \<mapsto> ?t)"
    by (rule topic_at_upd [OF d(3) core_ok_linked [OF ok3] f3(1)]) (simp add: t)
  then have "topic_at s4 = (topic_at s)(x \<mapsto> ?t)" using delivered_topic_at [OF s4(3)] by (simp add: x_def)
  moreover have "\<forall>su'. su' \<noteq> su \<longrightarrow> g_subs s4 su' = g_subs s su'" using s4(4) by (simp add: f3)
  ultimately show ?thesis
    unfolding due_def [symmetric] Let_def using run s4(2,3,5) q4 by (intro exI [of _ s4] exI [of _ u4]) simp
qed

lemma ps_subscribe_dup:
  assumes ok: "idle_ok inv msgs U s" and dup: "find_su su (subs_at (topic_at s) (cut_topic topic)) = Some sl"
  shows "ps_subscribe_flags Q su topic pflags s = Some (-1, s)"
proof -
  note b = idle_ok_D [OF ok]
  define s0 where "s0 = s\<lparr>g_lock := True\<rparr>"
  have l0: "linked s0" using b(4) by (simp add: s0_def)
  have T0: "topic_at s0 = topic_at s" by (simp add: s0_def topic_at_links)
  obtain t where t: "topic_at s (cut_topic topic) = Some t" "find_su su (tm_subscribers t) = Some sl"
    using dup by (auto simp: subs_at_def find_su_def split: option.splits)
  obtain a where a: "fetch_topic (cut_topic topic) s0 = Some a" "addr_of s0 (cut_topic topic) a" using fetch_addr_of [OF l0] by blast
  have at: "a \<noteq> NULL" "g_tms s0 a = Some t" using a(2) t(1) by (simp_all add: addr_of_def T0)
  show ?thesis
    using b(3) a(1) at t(2)
    by (simp add: ps_subscribe_flags_def lock_run unlock_run s0_def [symmetric] fetch_topic_create_if_not_exist_def Let_def)
      (simp add: s0_def unlock_run)
qed

lemma ps_subscribe_new:
  assumes ok: "idle_ok inv msgs U s" and u: "g_subs s su = Some u" and nul: "NUL \<notin> set topic"
    and room: "room cap 2 U s" and p: "\<And>f. pflags = Some f \<Longrightarrow> unat (fl_priority f) < 10"
    and x: "x = cut_topic topic" and fl: "fl = parse_flags (flag_chars topic) (case pflags of None \<Rightarrow> no_flags | Some f \<Rightarrow> f)"
    and new: "find_su su (subs_at (topic_at s) x) = None"
  shows "\<exists>s' u'. ps_subscribe_flags Q su topic pflags s = Some (0, s') \<and> idle_ok inv msgs U s'
      \<and> g_stat_live_subscribers s' = g_stat_live_subscribers s
      \<and> topic_at s' = subscribe_update su fl x (topic_at s)
      \<and> (\<forall>su'. su' \<noteq> su \<longrightarrow> g_subs s' su' = g_subs s su') \<and> g_subs s' su = Some u'
      \<and> length (su_subs u') = length (su_subs u) + 1 \<and> cap (su_q u') = cap (su_q u)
      \<and> card (dom (g_tms s')) \<le> card (dom (g_tms s)) + 1 \<and> g_next s \<le> g_next s'
      \<and> same_content (g_heap s) (g_heap s')
      \<and> (length (msgs (su_q u)) + length (sticky_due fl x s) \<le> cap (su_q u) \<longrightarrow>
           mset (msgs (su_q u')) = mset (msgs (su_q u)) + mset (sticky_due fl x s) \<and> su_overflow u' = su_overflow u)"
proof -
  note b = idle_ok_D [OF ok]
  define s0 where "s0 = s\<lparr>g_lock := True\<rparr>"
  have f0: "g_subs s0 = g_subs s" "g_tms s0 = g_tms s" "g_topic_map s0 = g_topic_map s" "g_lock s0" "g_heap s0 = g_heap s"
    "g_next s0 = g_next s" by (simp_all add: s0_def)
  have ok0: "core_ok inv msgs U s0" using b(1) by (simp add: s0_def)
  note d = core_ok_D [OF ok0]
  have T0: "topic_at s0 = topic_at s" by (simp add: s0_def topic_at_links)
  have room0: "room cap 2 U s0" using room by (simp add: room_def f0)
  have nulx: "NUL \<notin> set x" using cut_topic_nul [OF nul] by (simp add: x)
  have pfl: "unat (fl_priority fl) < 10"
    unfolding fl by (rule parse_flags_priority_bound) (auto simp: no_flags_def p split: option.split)
  obtain a0 where a0: "fetch_topic x s0 = Some a0" "addr_of s0 x a0" using fetch_addr_of [OF d(3)] by blast
  text \<open>The topic is there, or made now.\<close>
  have "\<exists>a s1 t. fetch_topic_create_if_not_exist x s0 = Some (a, s1) \<and> core_ok inv msgs U s1 \<and> quiet s0 s1
      \<and> g_tms s1 a = Some t \<and> tm_topic t = x \<and> tm_subscribers t = subs_at (topic_at s) x
      \<and> (topic_at s1)(x := None) = (topic_at s)(x := None) \<and> (case topic_at s x of None \<Rightarrow> tm_sticky t = NULL | Some t' \<Rightarrow> t = t')
      \<and> child_stickies x (g_tms s1) (g_topic_map s1) = child_stickies x (g_tms s) (g_topic_map s)
      \<and> (\<forall>y t'. topic_at s1 y = Some t' \<longrightarrow> y \<noteq> x \<longrightarrow> needed t')
      \<and> card (dom (g_tms s1)) \<le> card (dom (g_tms s)) + 1 \<and> g_next s \<le> g_next s1"
  proof (cases "topic_at s x")
    case None
    then have an: "a0 = NULL" using a0(2) by (simp add: addr_of_def T0)
    define t where "t = \<lparr>tm_topic = x, tm_subscribers = [], tm_sticky = NULL\<rparr>"
    have T0n: "topic_at s0 x = None" using None by (simp add: T0)
    obtain s1 where s1: "create_topic x s0 = (g_next s0, s1)" "core_ok inv msgs U s1" "quiet s0 s1"
      "g_tms s1 = (g_tms s0)(g_next s0 \<mapsto> t)" "g_tms s0 (g_next s0) = None" "topic_at s1 = (topic_at s0)(x \<mapsto> t)"
      using create_topic_ok [OF ok0 T0n nulx] unfolding t_def by blast
    have o1: "g_topic_map s1 = g_topic_map s @ [g_next s0]" "g_next s1 = g_next s0 + 1"
      using s1(1) by (auto simp: create_topic_def Let_def f0)
    have fresh: "g_next s0 \<notin> set (g_topic_map s)" using links_ok_D(1) [OF d(3)] s1(5) by (auto simp: f0)
    have "child_stickies x (g_tms s1) (g_topic_map s) = child_stickies x (g_tms s) (g_topic_map s)"
      using fresh by (intro child_stickies_cong) (auto simp: s1(4) f0)
    moreover have "child_stickies x (g_tms s1) [g_next s0] = []" by (simp add: child_stickies_def s1(4) t_def)
    ultimately have "child_stickies x (g_tms s1) (g_topic_map s1) = child_stickies x (g_tms s) (g_topic_map s)"
      unfolding o1 child_stickies_append by simp
    moreover have "\<forall>y t'. topic_at s1 y = Some t' \<longrightarrow> y \<noteq> x \<longrightarrow> needed t'"
      using b(2) all_needed_at [OF b(4)] unfolding s1(6) T0 by simp
    moreover have "card (dom (g_tms s1)) \<le> card (dom (g_tms s)) + 1"
      using d(4) s1(5) by (simp add: s1(4) f0 card_insert_if domIff)
    ultimately show ?thesis
      using a0(1) an s1(1-4) s1(6) None o1(2)
      by (intro exI [of _ "g_next s0"] exI [of _ s1] exI [of _ t])
        (simp add: fetch_topic_create_if_not_exist_def t_def subs_at_def T0 f0)
  next
    case (Some t)
    then have at: "a0 \<noteq> NULL" "g_tms s0 a0 = Some t" "tm_topic t = x" using a0(2) by (simp_all add: addr_of_def T0)
    moreover have "\<forall>y t'. topic_at s0 y = Some t' \<longrightarrow> y \<noteq> x \<longrightarrow> needed t'"
      using b(2) all_needed_at [OF b(4)] unfolding T0 by simp
    ultimately show ?thesis
      using a0(1) ok0 Some
      by (intro exI [of _ a0] exI [of _ s0] exI [of _ t])
        (simp add: fetch_topic_create_if_not_exist_def subs_at_def T0 f0)
  qed
  then obtain a s1 t where 1: "fetch_topic_create_if_not_exist x s0 = Some (a, s1)" "core_ok inv msgs U s1" "quiet s0 s1"
      "g_tms s1 a = Some t" "tm_topic t = x" "tm_subscribers t = subs_at (topic_at s) x"
      "(topic_at s1)(x := None) = (topic_at s)(x := None)" "case topic_at s x of None \<Rightarrow> tm_sticky t = NULL | Some t' \<Rightarrow> t = t'"
      "child_stickies x (g_tms s1) (g_topic_map s1) = child_stickies x (g_tms s) (g_topic_map s)"
      "\<forall>y t'. topic_at s1 y = Some t' \<longrightarrow> y \<noteq> x \<longrightarrow> needed t'"
      "card (dom (g_tms s1)) \<le> card (dom (g_tms s)) + 1" "g_next s \<le> g_next s1" by blast
  have u1: "g_subs s1 su = Some u" using quiet_subs [OF 1(3)] u by (simp add: f0)
  have n1: "find_su su (tm_subscribers t) = None" using new 1(6) by simp
  have room1: "room cap 1 U s1"
    using 1(11) by (intro room_mono [OF room0 quiet_subs [OF 1(3)]]) (simp add: f0)
  let ?t = "t\<lparr>tm_subscribers := tm_subscribers t @ [new_link su fl]\<rparr>"
  let ?u = "u\<lparr>su_subs := su_subs u @ [a]\<rparr>"
  define s3 where "s3 = put_su su ?u (put_tm a ?t s1)"
  define due where "due = (if fl_no_sticky fl then [] else if fl_child_sticky fl then child_stickies x (g_tms s1) (g_topic_map s1)
                    else if tm_sticky t \<noteq> NULL then [tm_sticky t] else [])"
  obtain s4 u4 where s4: "(if \<not> fl_no_sticky fl then
                 (if fl_child_sticky fl then push_child_sticky Q su x (fl_priority fl) s3
                  else if tm_sticky t \<noteq> NULL
                  then map_option snd (push_subscriber_queue Q su (tm_sticky t) (fl_priority fl) s3)
                  else Some s3)
               else Some s3) = Some s4"
      "core_ok inv msgs U s4" "delivered cap s3 s4" "\<forall>su'. su' \<noteq> su \<longrightarrow> g_subs s4 su' = g_subs s1 su'" "g_subs s4 su = Some u4"
      "topic_at s4 = (topic_at s1)(x \<mapsto> ?t)"
      "length (msgs (su_q u)) + length due \<le> cap (su_q u) \<longrightarrow>
           mset (msgs (su_q u4)) = mset (msgs (su_q u)) + mset due \<and> su_overflow u4 = su_overflow u"
    using subscribe_link [OF 1(2,4) u1 n1 pfl room1] unfolding 1(5) s3_def [symmetric] due_def [symmetric] Let_def by blast
  note del = delivered_D [OF s4(3)]
  have lk: "g_lock s4" using del(1) 1(3) by (simp add: s3_def quiet_def f0)
  have pr: "sl_priority (new_link su fl) = fl_priority fl" by (simp add: new_link_def)
  have u1': "g_subs (put_tm a ?t s1) su = Some u" using u1 by simp
  have run: "ps_subscribe_flags Q su topic pflags s = Some (0, s4\<lparr>g_lock := False\<rparr>)"
    unfolding ps_subscribe_flags_def Let_def fl [symmetric] x [symmetric] lock_run [OF b(3)] Option.bind.simps
      s0_def [symmetric] 1(1) prod.case 1(4) n1 option.case new_link_def [symmetric]
    unfolding u1' Option.bind.simps pr s3_def [symmetric]
    unfolding s4(1) Option.bind.simps unlock_run [OF lk] prod.case by (rule refl)
  let ?s = "s4\<lparr>g_lock := False\<rparr>"
  have u4: "su_keep cap u4 = su_keep cap ?u" using keeps_Some [OF del(7), of su ?u] s4(5) by (simp add: s3_def)
  have T: "topic_at s4 = subscribe_update su fl x (topic_at s)"
  proof -
    have "topic_at s4 = ((topic_at s1)(x := None))(x \<mapsto> ?t)" using s4(6) by simp
    also have "\<dots> = (topic_at s)(x \<mapsto> ?t)" unfolding 1(7) by simp
    finally have "topic_at s4 = (topic_at s)(x \<mapsto> ?t)" .
    moreover have "?t = (case topic_at s x of None \<Rightarrow> \<lparr>tm_topic = x, tm_subscribers = [new_link su fl], tm_sticky = NULL\<rparr>
                      | Some t \<Rightarrow> t\<lparr>tm_subscribers := tm_subscribers t @ [new_link su fl]\<rparr>)"
      using 1(5,6,8) by (cases "topic_at s x") (auto simp: subs_at_def)
    ultimately show ?thesis unfolding subscribe_update_def by simp
  qed
  have "all_needed ?s"
  proof -
    have "linked ?s" using core_ok_linked [OF s4(2)] by simp
    moreover have "topic_at ?s = topic_at s4" by (rule topic_at_cong) simp_all
    moreover have "needed t'" if "topic_at s4 y = Some t'" for y t'
      using that 1(10) unfolding s4(6) by (auto simp: needed_def split: if_splits)
    ultimately show ?thesis using all_needed_at by metis
  qed
  moreover have "g_stat_live_subscribers s4 = g_stat_live_subscribers s"
    using del(6) 1(3) by (simp add: s3_def quiet_def s0_def)
  ultimately have "idle_ok inv msgs U ?s" "g_stat_live_subscribers ?s = g_stat_live_subscribers s"
    using s4(2) by (simp_all add: idle_ok_def)
  moreover have "due = sticky_due fl x s"
    using 1(8,9) by (cases "topic_at s x") (auto simp: due_def sticky_due_def)
  moreover have "same_content (g_heap s) (g_heap s4)"
  proof -
    have "g_heap s3 = g_heap s1" by (simp add: s3_def)
    moreover have "same_content (g_heap s) (g_heap s1)" using 1(3) by (simp add: quiet_def f0)
    ultimately show ?thesis using same_content_trans del(8) by metis
  qed
  moreover have "card (dom (g_tms s4)) \<le> card (dom (g_tms s)) + 1"
    using del(2) 1(4,11) by (simp add: s3_def insert_absorb domI)
  moreover have "g_next s \<le> g_next s4" using del(4) 1(12) by (simp add: s3_def)
  ultimately show ?thesis
    using run T s4(4,5,7) u4 quiet_subs [OF 1(3)]
    by (intro exI [of _ ?s] exI [of _ u4]) (simp add: topic_at_links su_keep_def f0)
qed

end

section \<open>The topics of a subscriber\<close>

definition subscribed :: "'q state \<Rightarrow> addr \<Rightarrow> string set" where
  "subscribed s su = {x. find_su su (subs_at (topic_at s) x) \<noteq> None}"

lemma subscribed_iff: "x \<in> subscribed s su \<longleftrightarrow> su \<in> sl_su ` set (subs_at (topic_at s) x)"
  using find_su_None [of su] by (simp add: subscribed_def)

lemma subscribed_iff_tm:
  "linked s \<Longrightarrow> x \<in> subscribed s su \<longleftrightarrow> (\<exists>a t. g_tms s a = Some t \<and> tm_topic t = x \<and> su \<in> sl_su ` set (tm_subscribers t))"
proof -
  assume l: "linked s"
  show ?thesis
  proof (cases "topic_at s x")
    case None
    then have "\<nexists>a t. g_tms s a = Some t \<and> tm_topic t = x" using topic_at_iff [OF l, of x] by (metis option.distinct(1))
    then show ?thesis using None by (auto simp: subscribed_iff subs_at_def)
  next
    case (Some t)
    then have "(\<exists>a. g_tms s a = Some t' \<and> tm_topic t' = x) \<longleftrightarrow> t' = t" for t'
      using topic_at_iff [OF l, of x t'] by auto
    then have "(\<exists>a t'. g_tms s a = Some t' \<and> tm_topic t' = x \<and> su \<in> sl_su ` set (tm_subscribers t'))
        \<longleftrightarrow> su \<in> sl_su ` set (tm_subscribers t)" by metis
    then show ?thesis using Some by (simp add: subscribed_iff subs_at_def)
  qed
qed

lemma subs_at_subscribe_update:
  "subs_at (subscribe_update su fl x T) y = subs_at T y @ (if y = x then [new_link su fl] else [])"
  by (auto simp: subscribe_update_def subs_at_def split: option.split)

lemma subscribed_subscribe:
  assumes "topic_at s' = subscribe_update su fl x (topic_at s)"
  shows "subscribed s' su' = (if su' = su then insert x (subscribed s su') else subscribed s su')"
  by (auto simp: subscribed_iff assms subs_at_subscribe_update new_link_def)

text \<open>The list in the subscriber has one node for each of its topics.\<close>

lemma subscribed_card:
  assumes l: "linked s" and u: "g_subs s su = Some u"
  shows "card (subscribed s su) = length (su_subs u)" "finite (subscribed s su)"
proof -
  have v: "subs_view s su = Some (su_subs u)" using u by (simp add: subs_view_def)
  let ?f = "\<lambda>a. tm_topic (the (g_tms s a))"
  have "inj_on ?f (set (su_subs u))"
    using links_ok_D(6) [OF l] links_ok_D(9) [OF l v] by (auto simp: inj_on_def)
  moreover have "?f ` set (su_subs u) = subscribed s su"
    using links_ok_D(9) [OF l v] by (force simp: subscribed_iff_tm [OF l] image_iff)
  ultimately show "card (subscribed s su) = length (su_subs u)" "finite (subscribed s su)"
    using card_image [of ?f "set (su_subs u)"] distinct_card [OF links_ok_D(8) [OF l v]] by (metis, metis finite_imageI List.finite_set)
qed

lemma ps_num_subs_ok:
  assumes "broker_ok qi msgs U s" and "g_subs s su = Some u"
  shows "ps_num_subs su s = Some (int (card (subscribed s su)))"
  using subscribed_card [OF broker_ok_D(5) [OF assms(1)] assms(2)] assms(2) by (simp add: ps_num_subs_def)

section \<open>One subscription, and a list of them\<close>

text \<open>A call on behalf of \<open>su\<close> leaves the other subscribers, the capacity of its queue and the messages alone.\<close>

definition for_su :: "('q \<Rightarrow> nat) \<Rightarrow> addr \<Rightarrow> 'q state \<Rightarrow> 'q state \<Rightarrow> bool" where
  "for_su cap su s s' \<longleftrightarrow>
     (\<forall>su'. su' \<noteq> su \<longrightarrow> g_subs s' su' = g_subs s su') \<and>
     (\<exists>u u'. g_subs s su = Some u \<and> g_subs s' su = Some u' \<and> cap (su_q u') = cap (su_q u)) \<and>
     g_next s \<le> g_next s' \<and> same_content (g_heap s) (g_heap s')"

lemma for_su_refl: "g_subs s su = Some u \<Longrightarrow> for_su cap su s s"
  by (simp add: for_su_def)

lemma for_su_trans: "for_su cap su s1 s2 \<Longrightarrow> for_su cap su s2 s3 \<Longrightarrow> for_su cap su s1 s3"
  using same_content_trans [of "g_heap s1" "g_heap s2" "g_heap s3"] by (fastforce simp: for_su_def)

lemma for_su_dom: "for_su cap su s s' \<Longrightarrow> dom (g_subs s') = dom (g_subs s)"
proof (rule set_eqI)
  fix x assume "for_su cap su s s'"
  then show "x \<in> dom (g_subs s') \<longleftrightarrow> x \<in> dom (g_subs s)" by (cases "x = su") (auto simp: for_su_def dom_def)
qed

lemma for_su_caps:
  assumes f: "for_su cap su s s'" and fin: "finite (dom (g_subs s))"
  shows "hsum (\<lambda>u. cap (su_q u)) (g_subs s') = hsum (\<lambda>u. cap (su_q u)) (g_subs s)"
proof -
  have "cap (su_q (the (g_subs s' x))) = cap (su_q (the (g_subs s x)))" if "x \<in> dom (g_subs s)" for x
    using f that by (cases "x = su") (auto simp: for_su_def)
  then show ?thesis unfolding hsum_def for_su_dom [OF f] by (intro sum.cong) auto
qed

lemma for_su_room:
  assumes f: "for_su cap su s s'" and fin: "finite (dom (g_subs s))"
    and c: "card (dom (g_tms s')) + k' \<le> card (dom (g_tms s)) + k" and r: "room cap k U s"
  shows "room cap k' U s'"
proof -
  have "U m + hsum (\<lambda>u. cap (su_q u)) (g_subs s) + card (dom (g_tms s')) + k' < 2 ^ 32" for m
  proof -
    have "U m + hsum (\<lambda>u. cap (su_q u)) (g_subs s) + card (dom (g_tms s)) + k < 2 ^ 32" using r by (simp add: room_def)
    then show ?thesis using c by linarith
  qed
  then show ?thesis unfolding room_def for_su_caps [OF f fin] by blast
qed

context msg_queue
begin

lemma ps_subscribe_flags_ok:
  assumes ok: "idle_ok inv msgs U s" and u: "g_subs s su = Some u" and nul: "NUL \<notin> set topic"
    and room: "room cap 2 U s" and p: "\<And>f. pflags = Some f \<Longrightarrow> unat (fl_priority f) < 10"
  shows "\<exists>s'. ps_subscribe_flags Q su topic pflags s = Some (if cut_topic topic \<in> subscribed s su then -1 else 0, s')
      \<and> idle_ok inv msgs U s' \<and> g_stat_live_subscribers s' = g_stat_live_subscribers s \<and> for_su cap su s s' \<and> (\<forall>k. room cap (k + 1) U s \<longrightarrow> room cap k U s')
      \<and> (\<forall>su'. subscribed s' su' = (if su' = su then insert (cut_topic topic) (subscribed s su') else subscribed s su'))"
proof (cases "find_su su (subs_at (topic_at s) (cut_topic topic))")
  case (Some sl)
  then have in_s: "cut_topic topic \<in> subscribed s su" by (simp add: subscribed_def)
  have "room cap k U s" if "room cap (k + 1) U s" for k
    by (rule room_mono [OF that]) simp_all
  then show ?thesis
    using ps_subscribe_dup [OF ok Some, of pflags] ok for_su_refl [OF u, of cap] in_s
    by (intro exI [of _ s]) (simp add: insert_absorb)
next
  case None
  then have notin: "cut_topic topic \<notin> subscribed s su" by (simp add: subscribed_def)
  obtain s' u' where s': "ps_subscribe_flags Q su topic pflags s = Some (0, s')" "idle_ok inv msgs U s'" "g_stat_live_subscribers s' = g_stat_live_subscribers s"
    "topic_at s' = subscribe_update su (parse_flags (flag_chars topic) (case pflags of None \<Rightarrow> no_flags | Some f \<Rightarrow> f)) (cut_topic topic) (topic_at s)"
    "\<forall>su'. su' \<noteq> su \<longrightarrow> g_subs s' su' = g_subs s su'" "g_subs s' su = Some u'" "cap (su_q u') = cap (su_q u)"
    "card (dom (g_tms s')) \<le> card (dom (g_tms s)) + 1" "g_next s \<le> g_next s'" "same_content (g_heap s) (g_heap s')"
    using ps_subscribe_new [OF ok u nul room p refl refl None] by blast
  have f: "for_su cap su s s'" using s'(5-7,9,10) u by (simp add: for_su_def)
  have "room cap k U s'" if "room cap (k + 1) U s" for k
    by (rule for_su_room [OF f core_ok_D(5) [OF idle_ok_D(1) [OF ok]] _ that]) (use s'(8) in simp)
  then show ?thesis
    using s'(1-3) f notin subscribed_subscribe [OF s'(4)] by (intro exI [of _ s']) simp
qed

lemma ps_subscribe_each_ok:
  "idle_ok inv msgs U s \<Longrightarrow> g_subs s su = Some u \<Longrightarrow> \<forall>t\<in>set topics. NUL \<notin> set t \<Longrightarrow>
   room cap (length topics + k) U s \<Longrightarrow> 1 \<le> k \<Longrightarrow>
   \<exists>s'. ps_subscribe_each Q su topics n s = Some (n + int (card (cut_topic ` set topics - subscribed s su)), s')
      \<and> idle_ok inv msgs U s' \<and> g_stat_live_subscribers s' = g_stat_live_subscribers s \<and> for_su cap su s s' \<and> room cap k U s'
      \<and> (\<forall>su'. subscribed s' su' = (if su' = su then subscribed s su' \<union> cut_topic ` set topics else subscribed s su'))"
proof (induction topics arbitrary: n s u)
  case Nil
  then show ?case by (auto simp: for_su_def)
next
  case (Cons t ts)
  have nul: "NUL \<notin> set t" and room: "room cap 2 U s" and nuls: "\<forall>t\<in>set ts. NUL \<notin> set t"
    using Cons.prems(3,5) room_mono [OF Cons.prems(4), of s 2] by simp_all
  let ?r = "if cut_topic t \<in> subscribed s su then -1 else 0"
  have np: "unat (fl_priority f) < 10" if "None = Some f" for f using that by simp
  obtain s1 where s1: "ps_subscribe_flags Q su t None s = Some (?r, s1)" "idle_ok inv msgs U s1" "for_su cap su s s1"
    "g_stat_live_subscribers s1 = g_stat_live_subscribers s"
    "\<forall>k. room cap (k + 1) U s \<longrightarrow> room cap k U s1"
    "\<forall>su'. subscribed s1 su' = (if su' = su then insert (cut_topic t) (subscribed s su') else subscribed s su')"
    using ps_subscribe_flags_ok [OF Cons.prems(1,2) nul room np] by blast
  obtain u1 where u1: "g_subs s1 su = Some u1" using s1(3) by (auto simp: for_su_def)
  have room1: "room cap (length ts + k) U s1" using s1(5) Cons.prems(4) by simp
  let ?n = "if ?r = (0 :: int) then n + 1 else n"
  obtain s' where s': "ps_subscribe_each Q su ts ?n s1 = Some (?n + int (card (cut_topic ` set ts - subscribed s1 su)), s')"
    "idle_ok inv msgs U s'" "g_stat_live_subscribers s' = g_stat_live_subscribers s1" "for_su cap su s1 s'" "room cap k U s'"
    "\<forall>su'. subscribed s' su' = (if su' = su then subscribed s1 su' \<union> cut_topic ` set ts else subscribed s1 su')"
    using Cons.IH [OF s1(2) u1 nuls room1 Cons.prems(5), of ?n] by blast
  have cnt: "?n + int (card (cut_topic ` set ts - subscribed s1 su)) = n + int (card (cut_topic ` set (t # ts) - subscribed s su))"
  proof (cases "cut_topic t \<in> subscribed s su")
    case True
    then show ?thesis using s1(6) by (simp add: insert_absorb)
  next
    case False
    let ?A = "cut_topic ` set ts - insert (cut_topic t) (subscribed s su)"
    have "cut_topic ` set (t # ts) - subscribed s su = insert (cut_topic t) ?A" using False by auto
    moreover have "card (insert (cut_topic t) ?A) = card ?A + 1" by (subst card_insert_disjoint) simp_all
    ultimately show ?thesis using False s1(6) by simp
  qed
  have run: "ps_subscribe_each Q su (t # ts) n s = Some (n + int (card (cut_topic ` set (t # ts) - subscribed s su)), s')"
    using s1(1) s'(1) unfolding cnt ps_subscribe_each.simps ps_subscribe_def by simp
  have "\<forall>su'. subscribed s' su' = (if su' = su then subscribed s su' \<union> cut_topic ` set (t # ts) else subscribed s su')"
    using s'(6) s1(6) by simp
  moreover have "g_stat_live_subscribers s' = g_stat_live_subscribers s" using s'(3) s1(4) by simp
  ultimately show ?case using run s'(2,5) for_su_trans [OF s1(3) s'(4)] by blast
qed

end

end
