(* ===== verification/Broker_Unsubscribe.thy ===== *)
theory Broker_Unsubscribe
  imports Broker_Subscribe
begin

text \<open>
  Unsubscribing, from one topic, from a list and from all: the calls are total, keep the invariant,
  take the subscriber out of exactly the topics asked for, and free a topic that then has neither
  subscribers nor a sticky message.
\<close>

unbundle bit_operations_syntax

text \<open>What is left of a topic when \<open>su\<close> leaves it.\<close>

definition unlinked :: "addr \<Rightarrow> topic_map \<Rightarrow> topic_map option" where
  "unlinked su t =
     (let t' = t\<lparr>tm_subscribers := filter (\<lambda>sl. sl_su sl \<noteq> su) (tm_subscribers t)\<rparr> in
      if needed t' then Some t' else None)"

lemma unlinked_other:
  assumes "needed t" and "su \<notin> sl_su ` set (tm_subscribers t)"
  shows "unlinked su t = Some t"
proof -
  have "filter (\<lambda>sl. sl_su sl \<noteq> su) (tm_subscribers t) = tm_subscribers t"
    using assms(2) by (intro filter_True) auto
  then show ?thesis using assms(1) by (simp add: unlinked_def)
qed

lemma unlinked_needed: "unlinked su t = Some t' \<Longrightarrow> needed t'"
  by (auto simp: unlinked_def Let_def split: if_splits)

lemma remove1_su_filter:
  assumes "distinct (map sl_su sls)" and "find_su su sls = Some sl"
  shows "remove1 sl sls = filter (\<lambda>sl. sl_su sl \<noteq> su) sls"
proof -
  note f = find_su_Some [OF assms(2)]
  obtain xs ys where s: "sls = xs @ sl # ys" "sl \<notin> set xs" using f(1) by (metis split_list_first)
  then have "filter (\<lambda>sl. sl_su sl \<noteq> su) xs = xs" "filter (\<lambda>sl. sl_su sl \<noteq> su) ys = ys"
    using assms(1) f(2) by (auto intro!: filter_True simp: image_iff)
  then show ?thesis using s f(2) by (simp add: remove1_append)
qed

text \<open>One link goes; \<open>u\<close> is the record of the subscriber in which that is to be noted.\<close>

lemma unlink_step:
  assumes ok: "core_ok qi msgs U (put_su su u s)" and t: "g_tms s a = Some t"
    and sl: "find_su su (tm_subscribers t) = Some sl"
  shows "\<exists>r s'. free_topic_if_empty a (put_tm a (t\<lparr>tm_subscribers := remove1 sl (tm_subscribers t)\<rparr>) s) = Some (r, s')
      \<and> core_ok qi msgs U (put_su su (u\<lparr>su_subs := remove1 a (su_subs u)\<rparr>) s')
      \<and> quiet s s' \<and> g_heap s' = g_heap s \<and> g_tms s' = (g_tms s)(a := unlinked su t)
      \<and> topic_at s' = (topic_at s)(tm_topic t := unlinked su t)"
proof -
  let ?su = "put_su su u s" and ?u = "u\<lparr>su_subs := remove1 a (su_subs u)\<rparr>"
  let ?t = "t\<lparr>tm_subscribers := remove1 sl (tm_subscribers t)\<rparr>"
  note l = core_ok_linked [OF ok]
  have tf: "g_tms ?su a = Some t" and uf: "g_subs ?su su = Some u" using t by simp_all
  have "distinct (map sl_su (tm_subscribers t))" using links_ok_D(7) [OF l tf] by (simp add: topic_ok_def)
  then have un: "unlinked su t = (if needed ?t then Some ?t else None)"
    using remove1_su_filter [OF _ sl] by (simp add: unlinked_def)
  have ok1: "core_ok qi msgs U (put_su su ?u (put_tm a ?t s))"
    using core_ok_unlink [OF ok tf uf sl] by simp
  note l1 = core_ok_linked [OF ok1]
  have T1: "topic_at (put_tm a ?t s) = (topic_at s)(tm_topic t \<mapsto> ?t)"
    using topic_at_upd [OF l l1, of a ?t] t by simp
  show ?thesis
  proof (cases "needed ?t")
    case True
    then show ?thesis
      using free_topic_needed [of "put_tm a ?t s" a ?t] ok1 un T1 by (simp add: quiet_def)
  next
    case False
    let ?s = "without_topic a (put_tm a ?t s)"
    have comm: "put_su su ?u ?s = without_topic a (put_su su ?u (put_tm a ?t s))" by (simp add: without_topic_def)
    have t1: "g_tms (put_su su ?u (put_tm a ?t s)) a = Some ?t" by simp
    have ok2: "core_ok qi msgs U (put_su su ?u ?s)"
      unfolding comm by (rule core_ok_without_topic [OF ok1 t1 False])
    have "topic_at (put_su su ?u ?s) = (topic_at (put_su su ?u (put_tm a ?t s)))(tm_topic ?t := None)"
      by (rule topic_at_del [OF l1 core_ok_linked [OF ok2] _ t1]) simp
    then have "topic_at ?s = (topic_at s)(tm_topic t := None)" using T1 by simp
    then show ?thesis
      using free_topic_empty [of "put_tm a ?t s" a ?t] False ok2 un by (simp add: quiet_def)
  qed
qed

section \<open>One topic\<close>

definition unsubscribe_update :: "addr \<Rightarrow> string \<Rightarrow> (string \<Rightarrow> topic_map option) \<Rightarrow> (string \<Rightarrow> topic_map option)" where
  "unsubscribe_update su x T = T(x := Option.bind (T x) (unlinked su))"

lemma find_su_at: "x \<in> subscribed s su \<longleftrightarrow> (\<exists>t sl. topic_at s x = Some t \<and> find_su su (tm_subscribers t) = Some sl)"
  by (auto simp: subscribed_def subs_at_def find_su_def split: option.splits)

lemma not_subscribed_update:
  assumes ok: "broker_ok qi msgs U s" and x: "x \<notin> subscribed s su"
  shows "Option.bind (topic_at s x) (unlinked su) = topic_at s x"
proof (cases "topic_at s x")
  case (Some t)
  have "needed t" using Some all_needed_at [OF broker_ok_D(5) [OF ok]] broker_ok_D(2) [OF ok] by blast
  moreover have "su \<notin> sl_su ` set (tm_subscribers t)" using x Some by (simp add: subscribed_iff subs_at_def)
  ultimately show ?thesis using unlinked_other Some by simp
qed simp

lemma unsubscribe_none:
  assumes ok: "broker_ok qi msgs U s" and x: "cut_topic topic \<notin> subscribed s su"
  shows "ps_unsubscribe su topic s = Some (-1, s)"
proof -
  note b = broker_ok_D [OF ok]
  define s0 where "s0 = s\<lparr>g_lock := True\<rparr>"
  have l0: "linked s0" using b(5) by (simp add: s0_def)
  have T0: "topic_at s0 = topic_at s" by (simp add: s0_def topic_at_links)
  have lk: "g_lock s0" and restore: "s0\<lparr>g_lock := False\<rparr> = s" using b(3) by (simp_all add: s0_def)
  obtain a where a: "fetch_topic (cut_topic topic) s0 = Some a" "addr_of s0 (cut_topic topic) a"
    using fetch_addr_of [OF l0] by blast
  show ?thesis
  proof (cases "topic_at s (cut_topic topic)")
    case None
    then show ?thesis
      using a b(3) lk restore
      by (simp add: ps_unsubscribe_def lock_run unlock_run s0_def [symmetric] addr_of_def T0)
  next
    case (Some t)
    then have "find_su su (tm_subscribers t) = None" using x by (simp add: find_su_at)
    then show ?thesis
      using a b(3) Some lk restore
      by (simp add: ps_unsubscribe_def lock_run unlock_run s0_def [symmetric] addr_of_def T0)
  qed
qed

lemma broker_ok_unlinked:
  assumes b: "broker_ok qi msgs U s" and ok: "core_ok qi msgs U s'" and T: "\<And>x t. topic_at s' x = Some t \<Longrightarrow> needed t"
    and d: "dom (g_subs s') = dom (g_subs s)" and st: "g_stat_live_subscribers s' = g_stat_live_subscribers s"
  shows "broker_ok qi msgs U (s'\<lparr>g_lock := False\<rparr>)"
proof -
  have "all_needed s'" using all_needed_at [OF core_ok_linked [OF ok]] T by blast
  then have "all_needed (s'\<lparr>g_lock := False\<rparr>)" by (simp add: all_needed_def)
  then show ?thesis using b ok d st by (simp add: broker_ok_def)
qed

lemma ps_unsubscribe_ok:
  assumes ok: "broker_ok qi msgs U s" and u: "g_subs s su = Some u" and x: "x = cut_topic topic"
  shows "\<exists>s' l. ps_unsubscribe su topic s = Some (if x \<in> subscribed s su then 0 else -1, s') \<and> broker_ok qi msgs U s'
      \<and> topic_at s' = unsubscribe_update su x (topic_at s)
      \<and> g_subs s' = (g_subs s)(su \<mapsto> u\<lparr>su_subs := l\<rparr>) \<and> g_heap s' = g_heap s \<and> g_cbs s' = g_cbs s
      \<and> card (dom (g_tms s')) \<le> card (dom (g_tms s))"
proof (cases "x \<in> subscribed s su")
  case False
  have "g_subs s = (g_subs s)(su \<mapsto> u\<lparr>su_subs := su_subs u\<rparr>)" using u by auto
  then show ?thesis
    using unsubscribe_none [OF ok, of topic su] ok False not_subscribed_update [OF ok False]
    unfolding x unsubscribe_update_def by (intro exI [of _ s] exI [of _ "su_subs u"]) (simp add: fun_upd_idem)
next
  case True
  then obtain t sl where t: "topic_at s x = Some t" "find_su su (tm_subscribers t) = Some sl" by (auto simp: find_su_at)
  note b = broker_ok_D [OF ok]
  define s0 where "s0 = s\<lparr>g_lock := True\<rparr>"
  have f0: "g_subs s0 = g_subs s" "g_tms s0 = g_tms s" "g_heap s0 = g_heap s" "g_cbs s0 = g_cbs s"
    "g_stat_live_subscribers s0 = g_stat_live_subscribers s" "g_lock s0" by (simp_all add: s0_def)
  have T0: "topic_at s0 = topic_at s" by (simp add: s0_def topic_at_links)
  have l0: "linked s0" using b(5) by (simp add: s0_def)
  obtain a where a: "fetch_topic x s0 = Some a" "addr_of s0 x a" using fetch_addr_of [OF l0] by blast
  then have at: "a \<noteq> NULL" "g_tms s0 a = Some t" "tm_topic t = x" using t(1) by (simp_all add: addr_of_def T0)
  have same: "put_su su u s0 = s0" using u f0(1) by (simp add: fun_upd_idem)
  have "core_ok qi msgs U s0" using b(1) by (simp add: s0_def)
  then have ok0: "core_ok qi msgs U (put_su su u s0)" by (simp only: same)
  let ?u = "u\<lparr>su_subs := remove1 a (su_subs u)\<rparr>"
  obtain r s1 where s1: "free_topic_if_empty a (put_tm a (t\<lparr>tm_subscribers := remove1 sl (tm_subscribers t)\<rparr>) s0) = Some (r, s1)"
    "core_ok qi msgs U (put_su su ?u s1)" "quiet s0 s1" "g_heap s1 = g_heap s0" "g_tms s1 = (g_tms s0)(a := unlinked su t)"
    "topic_at s1 = (topic_at s0)(tm_topic t := unlinked su t)"
    using unlink_step [OF ok0 at(2) t(2)] by blast
  have q: "g_subs s1 = g_subs s" "g_lock s1" "g_cbs s1 = g_cbs s" "g_stat_live_subscribers s1 = g_stat_live_subscribers s"
    using s1(3) by (simp_all add: quiet_def f0)
  let ?s = "(put_su su ?u s1)\<lparr>g_lock := False\<rparr>"
  have run: "ps_unsubscribe su topic s = Some (0, ?s)"
    using b(3) a(1) at(1,2) t(2) s1(1) u q(1,2)
    by (simp add: ps_unsubscribe_def lock_run unlock_run s0_def [symmetric] x [symmetric])
  have T: "topic_at (put_su su ?u s1) = unsubscribe_update su x (topic_at s)"
    using s1(6) at(3) t(1) T0 by (simp add: unsubscribe_update_def)
  have nd: "needed t'" if "topic_at (put_su su ?u s1) y = Some t'" for y t'
    using that unlinked_needed [of su t t'] all_needed_at [OF b(5)] b(2)
    unfolding T unsubscribe_update_def by (auto simp: t(1) split: if_splits)
  have "dom (g_subs (put_su su ?u s1)) = dom (g_subs s)" using u q(1) by auto
  then have "broker_ok qi msgs U ?s" using q(4) by (intro broker_ok_unlinked [OF ok s1(2) nd]) simp_all
  moreover have "card (dom (g_tms s1)) \<le> card (dom (g_tms s))"
    using core_ok_D(4) [OF b(1)] at(2) unfolding s1(5) f0(2)
    by (intro card_mono) (auto split: if_splits)
  ultimately show ?thesis
    using run T True q s1(4) f0
    by (intro exI [of _ ?s] exI [of _ "remove1 a (su_subs u)"]) (simp add: topic_at_links)
qed

lemma unlinked_subs:
  "subs_at (\<lambda>x. Option.bind (T x) (unlinked su)) y = filter (\<lambda>sl. sl_su sl \<noteq> su) (subs_at T y)"
  by (auto simp: subs_at_def unlinked_def Let_def needed_def split: option.split)

lemma subs_at_unsubscribe_update:
  "subs_at (unsubscribe_update su x T) y = (if y = x then filter (\<lambda>sl. sl_su sl \<noteq> su) (subs_at T y) else subs_at T y)"
  using unlinked_subs [of T su y] by (cases "y = x") (simp_all add: unsubscribe_update_def subs_at_def)

lemma subscribed_unsubscribe:
  assumes "topic_at s' = unsubscribe_update su x (topic_at s)"
  shows "subscribed s' su' = (if su' = su then subscribed s su' - {x} else subscribed s su')"
  by (auto simp: subscribed_iff assms subs_at_unsubscribe_update split: if_splits)

section \<open>A list of topics\<close>

definition unsubscribe_result :: "addr \<Rightarrow> string set \<Rightarrow> 'q state \<Rightarrow> 'q state \<Rightarrow> bool" where
  "unsubscribe_result su X s s' \<longleftrightarrow>
     (\<exists>u l. g_subs s su = Some u \<and> g_subs s' = (g_subs s)(su \<mapsto> u\<lparr>su_subs := l\<rparr>)) \<and>
     g_heap s' = g_heap s \<and> g_cbs s' = g_cbs s \<and> card (dom (g_tms s')) \<le> card (dom (g_tms s)) \<and>
     (\<forall>su'. subscribed s' su' = (if su' = su then subscribed s su' - X else subscribed s su'))"

lemma unsubscribe_result_trans:
  assumes "unsubscribe_result su X s1 s2" and "unsubscribe_result su Y s2 s3"
  shows "unsubscribe_result su (X \<union> Y) s1 s3"
proof -
  obtain u l where u: "g_subs s1 su = Some u" "g_subs s2 = (g_subs s1)(su \<mapsto> u\<lparr>su_subs := l\<rparr>)"
    using assms(1) by (auto simp: unsubscribe_result_def)
  moreover obtain u2 k where "g_subs s2 su = Some u2" "g_subs s3 = (g_subs s2)(su \<mapsto> u2\<lparr>su_subs := k\<rparr>)"
    using assms(2) by (auto simp: unsubscribe_result_def)
  ultimately have "g_subs s3 = (g_subs s1)(su \<mapsto> u\<lparr>su_subs := k\<rparr>)" by auto
  then have "\<exists>u l. g_subs s1 su = Some u \<and> g_subs s3 = (g_subs s1)(su \<mapsto> u\<lparr>su_subs := l\<rparr>)" using u(1) by blast
  then show ?thesis using assms by (auto simp: unsubscribe_result_def)
qed

lemma unsubscribe_result_refl: "g_subs s su = Some u \<Longrightarrow> unsubscribe_result su {} s s"
proof -
  assume u: "g_subs s su = Some u"
  then have "g_subs s = (g_subs s)(su \<mapsto> u\<lparr>su_subs := su_subs u\<rparr>)" by (simp add: fun_upd_idem)
  then have "\<exists>u l. g_subs s su = Some u \<and> g_subs s = (g_subs s)(su \<mapsto> u\<lparr>su_subs := l\<rparr>)" using u by blast
  then show ?thesis by (simp add: unsubscribe_result_def)
qed

lemma ps_unsubscribe_result:
  assumes ok: "broker_ok qi msgs U s" and u: "g_subs s su = Some u"
  shows "\<exists>s'. ps_unsubscribe su topic s = Some (if cut_topic topic \<in> subscribed s su then 0 else -1, s')
      \<and> broker_ok qi msgs U s' \<and> unsubscribe_result su {cut_topic topic} s s'"
proof -
  obtain s' l where s': "ps_unsubscribe su topic s = Some (if cut_topic topic \<in> subscribed s su then 0 else -1, s')"
    "broker_ok qi msgs U s'" "topic_at s' = unsubscribe_update su (cut_topic topic) (topic_at s)"
    "g_subs s' = (g_subs s)(su \<mapsto> u\<lparr>su_subs := l\<rparr>)" "g_heap s' = g_heap s" "g_cbs s' = g_cbs s"
    "card (dom (g_tms s')) \<le> card (dom (g_tms s))"
    using ps_unsubscribe_ok [OF ok u refl] by blast
  have "unsubscribe_result su {cut_topic topic} s s'"
    using s'(4-7) u subscribed_unsubscribe [OF s'(3)] unfolding unsubscribe_result_def by blast
  with s'(1,2) show ?thesis by blast
qed

lemma unsubscribe_result_su: "unsubscribe_result su X s s' \<Longrightarrow> \<exists>u. g_subs s' su = Some u"
  by (auto simp: unsubscribe_result_def)

lemma ps_unsubscribe_each_ok:
  "broker_ok qi msgs U s \<Longrightarrow> g_subs s su = Some u \<Longrightarrow>
   \<exists>s'. ps_unsubscribe_each su topics n s = Some (n + int (card (cut_topic ` set topics \<inter> subscribed s su)), s')
      \<and> broker_ok qi msgs U s' \<and> unsubscribe_result su (cut_topic ` set topics) s s'"
proof (induction topics arbitrary: n s u)
  case Nil
  then show ?case using unsubscribe_result_refl by auto
next
  case (Cons t ts)
  let ?r = "if cut_topic t \<in> subscribed s su then 0 else -1 :: int"
  let ?n = "if ?r = 0 then n + 1 else n"
  obtain s1 where s1: "ps_unsubscribe su t s = Some (?r, s1)" "broker_ok qi msgs U s1" "unsubscribe_result su {cut_topic t} s s1"
    using ps_unsubscribe_result [OF Cons.prems, of t] by blast
  obtain u1 where u1: "g_subs s1 su = Some u1" using unsubscribe_result_su [OF s1(3)] by blast
  obtain s' where s': "ps_unsubscribe_each su ts ?n s1 = Some (?n + int (card (cut_topic ` set ts \<inter> subscribed s1 su)), s')"
    "broker_ok qi msgs U s'" "unsubscribe_result su (cut_topic ` set ts) s1 s'"
    using Cons.IH [OF s1(2) u1, of ?n] by blast
  have sub: "subscribed s1 su = subscribed s su - {cut_topic t}" using s1(3) by (simp add: unsubscribe_result_def)
  have cnt: "?n + int (card (cut_topic ` set ts \<inter> subscribed s1 su)) = n + int (card (cut_topic ` set (t # ts) \<inter> subscribed s su))"
  proof (cases "cut_topic t \<in> subscribed s su")
    case True
    let ?A = "cut_topic ` set ts \<inter> (subscribed s su - {cut_topic t})"
    have "cut_topic ` set (t # ts) \<inter> subscribed s su = insert (cut_topic t) ?A" using True by auto
    moreover have "card (insert (cut_topic t) ?A) = card ?A + 1" by (subst card_insert_disjoint) simp_all
    ultimately show ?thesis using True by (simp add: sub)
  next
    case False
    then show ?thesis by (simp add: sub)
  qed
  have run: "ps_unsubscribe_each su (t # ts) n s = Some (n + int (card (cut_topic ` set (t # ts) \<inter> subscribed s su)), s')"
    using s1(1) s'(1) unfolding cnt ps_unsubscribe_each.simps by simp
  moreover have "unsubscribe_result su (cut_topic ` set (t # ts)) s s'"
    using unsubscribe_result_trans [OF s1(3) s'(3)] by simp
  ultimately show ?case using s'(2) by blast
qed

section \<open>All topics\<close>

text \<open>
  The loop runs down the list in the subscriber, which it leaves as it is; the record that is in
  step with the topic map has the rest of that list.
\<close>

lemma unsubscribe_loop_ok:
  "core_ok qi msgs U (put_su su (u\<lparr>su_subs := tms\<rparr>) s) \<Longrightarrow>
   \<exists>s'. unsubscribe_loop su tms n s = Some (n + length tms, s')
      \<and> core_ok qi msgs U (put_su su (u\<lparr>su_subs := []\<rparr>) s') \<and> quiet s s' \<and> g_heap s' = g_heap s
      \<and> topic_at s' = (\<lambda>x. if x \<in> subscribed s su then Option.bind (topic_at s x) (unlinked su) else topic_at s x)
      \<and> card (dom (g_tms s')) \<le> card (dom (g_tms s))"
proof (induction tms arbitrary: n s)
  case Nil
  let ?s = "put_su su (u\<lparr>su_subs := []\<rparr>) s"
  note l = core_ok_linked [OF Nil]
  have "subs_view ?s su = Some []" by (simp add: subs_view_def)
  then have "x \<notin> subscribed ?s su" for x
    using links_ok_D(9) [OF l, of su "[]"] subscribed_iff_tm [OF l, of x su] by fastforce
  then have "subscribed ?s su = {}" by blast
  then have "subscribed s su = {}" by (simp add: subscribed_def)
  then show ?case using Nil by simp
next
  case (Cons a tms)
  let ?s = "put_su su (u\<lparr>su_subs := a # tms\<rparr>) s"
  note l = core_ok_linked [OF Cons.prems]
  have v: "subs_view ?s su = Some (a # tms)" by (simp add: subs_view_def)
  then obtain t where t: "g_tms s a = Some t" "su \<in> sl_su ` set (tm_subscribers t)"
    using links_ok_D(9) [OF l v, of a] by auto
  then obtain sl where sl: "find_su su (tm_subscribers t) = Some sl" using find_su_None [of su] by fastforce
  obtain r s1 where s1: "free_topic_if_empty a (put_tm a (t\<lparr>tm_subscribers := remove1 sl (tm_subscribers t)\<rparr>) s) = Some (r, s1)"
    "core_ok qi msgs U (put_su su (u\<lparr>su_subs := tms\<rparr>) s1)"
    "quiet s s1" "g_heap s1 = g_heap s" "g_tms s1 = (g_tms s)(a := unlinked su t)"
    "topic_at s1 = (topic_at s)(tm_topic t := unlinked su t)"
    using unlink_step [OF Cons.prems t(1) sl] by auto
  obtain s' where s': "unsubscribe_loop su tms (n + 1) s1 = Some (n + 1 + length tms, s')"
    "core_ok qi msgs U (put_su su (u\<lparr>su_subs := []\<rparr>) s')" "quiet s1 s'" "g_heap s' = g_heap s1"
    "topic_at s' = (\<lambda>x. if x \<in> subscribed s1 su then Option.bind (topic_at s1 x) (unlinked su) else topic_at s1 x)"
    "card (dom (g_tms s')) \<le> card (dom (g_tms s1))"
    using Cons.IH [OF s1(2), of "n + 1"] by blast
  have run: "unsubscribe_loop su (a # tms) n s = Some (n + length (a # tms), s')"
    using t(1) sl s1(1) s'(1) by simp
  have at: "topic_at s (tm_topic t) = Some t" using topic_at_tm [OF l, of a t] t(1) by simp
  have "topic_at s1 = unsubscribe_update su (tm_topic t) (topic_at s)" by (simp add: s1(6) unsubscribe_update_def at)
  then have sub: "subscribed s1 su = subscribed s su - {tm_topic t}" by (simp add: subscribed_unsubscribe)
  have "tm_topic t \<in> subscribed s su" using at sl by (simp add: find_su_at)
  then have T: "topic_at s' = (\<lambda>x. if x \<in> subscribed s su then Option.bind (topic_at s x) (unlinked su) else topic_at s x)"
    unfolding s'(5) sub s1(6) by (auto simp: fun_eq_iff at)
  have "finite (dom (g_tms s))" using core_ok_D(4) [OF Cons.prems] by simp
  then have "card (dom (g_tms s1)) \<le> card (dom (g_tms s))"
    using t(1) unfolding s1(5) by (intro card_mono) (auto split: if_splits)
  then have "card (dom (g_tms s')) \<le> card (dom (g_tms s))" "g_heap s' = g_heap s" using s'(4,6) s1(4) by simp_all
  then show ?case using run s'(2) quiet_trans [OF s1(3) s'(3)] T by blast
qed

lemma ps_unsubscribe_all_ok:
  assumes ok: "broker_ok qi msgs U s" and u: "g_subs s su = Some u"
  shows "\<exists>s'. ps_unsubscribe_all su s = Some (int (card (subscribed s su)), s') \<and> broker_ok qi msgs U s'
      \<and> unsubscribe_result su UNIV s s' \<and> topic_at s' = (\<lambda>x. Option.bind (topic_at s x) (unlinked su))
      \<and> g_subs s' = (g_subs s)(su \<mapsto> u\<lparr>su_subs := []\<rparr>)"
proof -
  note b = broker_ok_D [OF ok]
  define s0 where "s0 = s\<lparr>g_lock := True\<rparr>"
  have f0: "g_subs s0 = g_subs s" "g_tms s0 = g_tms s" "g_heap s0 = g_heap s" "g_cbs s0 = g_cbs s"
    "g_stat_live_subscribers s0 = g_stat_live_subscribers s" "g_lock s0" by (simp_all add: s0_def)
  have T0: "topic_at s0 = topic_at s" by (simp add: s0_def topic_at_links)
  have same: "put_su su (u\<lparr>su_subs := su_subs u\<rparr>) s0 = s0" using u f0(1) by (simp add: fun_upd_idem)
  have "core_ok qi msgs U s0" using b(1) by (simp add: s0_def)
  then have ok0: "core_ok qi msgs U (put_su su (u\<lparr>su_subs := su_subs u\<rparr>) s0)" by (simp only: same)
  let ?n = "length (su_subs u)"
  obtain s1 where s1: "unsubscribe_loop su (su_subs u) 0 s0 = Some (0 + ?n, s1)"
    "core_ok qi msgs U (put_su su (u\<lparr>su_subs := []\<rparr>) s1)" "quiet s0 s1" "g_heap s1 = g_heap s0"
    "topic_at s1 = (\<lambda>x. if x \<in> subscribed s0 su then Option.bind (topic_at s0 x) (unlinked su) else topic_at s0 x)"
    "card (dom (g_tms s1)) \<le> card (dom (g_tms s0))"
    using unsubscribe_loop_ok [OF ok0, of 0] by blast
  have q: "g_subs s1 = g_subs s" "g_lock s1" "g_cbs s1 = g_cbs s" "g_stat_live_subscribers s1 = g_stat_live_subscribers s"
    using s1(3) by (simp_all add: quiet_def f0)
  let ?s1 = "put_su su (u\<lparr>su_subs := []\<rparr>) s1"
  let ?s = "?s1\<lparr>g_lock := False\<rparr>"
  have run: "ps_unsubscribe_all su s = Some (int ?n, ?s)"
    using b(3) u q s1(1) f0(1)
    by (simp add: ps_unsubscribe_all_def lock_run unlock_run s0_def [symmetric])
  have "subscribed s0 su = subscribed s su" by (simp add: subscribed_def T0)
  then have T: "topic_at ?s = (\<lambda>x. Option.bind (topic_at s x) (unlinked su))"
    using s1(5) T0 not_subscribed_update [OF ok, of _ su] by (simp add: fun_eq_iff)
  have nd: "needed t'" if "topic_at ?s1 y = Some t'" for y t'
    using that T unlinked_needed by (auto simp: fun_eq_iff bind_Some_iff)
  have "dom (g_subs ?s1) = dom (g_subs s)" using u q(1) by auto
  then have ok': "broker_ok qi msgs U ?s" using q(4) by (intro broker_ok_unlinked [OF ok s1(2) nd]) simp_all
  have gs: "g_subs ?s = (g_subs s)(su \<mapsto> u\<lparr>su_subs := []\<rparr>)" by (simp add: q(1))
  have "subscribed ?s su' = (if su' = su then subscribed s su' - UNIV else subscribed s su')" for su'
    using unlinked_subs [of "topic_at s" su] unfolding subscribed_iff set_eq_iff T by (auto simp: subscribed_iff)
  then have "unsubscribe_result su UNIV s ?s"
    using gs u q s1(4,6) f0 unfolding unsubscribe_result_def by (intro conjI exI [of _ u] exI [of _ "[]"]) simp_all
  then show ?thesis
    using run ok' T gs subscribed_card(1) [OF b(5) u] by (intro exI [of _ ?s]) simp
qed

section \<open>There and back\<close>

lemma unsubscribe_subscribe:
  assumes new: "su \<notin> sl_su ` set (subs_at T x)" and need: "\<And>t. T x = Some t \<Longrightarrow> needed t"
  shows "unsubscribe_update su x (subscribe_update su fl x T) = T"
proof (cases "T x")
  case None
  then show ?thesis by (auto simp: unsubscribe_update_def subscribe_update_def unlinked_def needed_def new_link_def fun_eq_iff)
next
  case (Some t)
  have "unlinked su (t\<lparr>tm_subscribers := tm_subscribers t @ [new_link su fl]\<rparr>) = unlinked su t"
    by (simp add: unlinked_def new_link_def)
  moreover have "unlinked su t = Some t"
    using unlinked_other [OF need [OF Some], of su] new Some by (simp add: subs_at_def)
  ultimately show ?thesis using Some by (auto simp: unsubscribe_update_def subscribe_update_def fun_eq_iff)
qed

end
