(* ===== verification/Broker_Api.thy ===== *)
theory Broker_Api
  imports Broker_Unsubscribe
begin

text \<open>
  Receiving, flushing, making and freeing subscribers, the small accessors, and the operations that
  user code applies to its own references, on a well-formed broker.
\<close>

unbundle bit_operations_syntax

section \<open>Changing one subscriber\<close>

lemma core_ok_put_su:
  assumes ok: "core_ok qi msgs U s" and u: "g_subs s su = Some u" and u': "su_subs u' = su_subs u" "qi (su_q u')"
    and refs: "\<And>m. U' m + count (mset (msgs (su_q u'))) m = U m + count (mset (msgs (su_q u))) m"
  shows "core_ok qi msgs U' (put_su su u' s)"
proof -
  note d = core_ok_D [OF ok]
  have "U' m + held msgs (put_su su u' s) m = U m + held msgs s m" for m
    using held_put_su [OF d(5) u, of msgs u' m] refs [of m] by simp
  then have "refs_ok msgs U' (put_su su u' s)" using d(1) by (simp add: refs_ok_def)
  moreover have "queues_ok qi (put_su su u' s)" using d(2) u'(2) by (auto simp: queues_ok_def)
  moreover have "subs_view (put_su su u' s) = subs_view s" using u u'(1) by (auto simp: fun_eq_iff subs_view_def)
  ultimately show ?thesis using d(3) by (simp add: core_ok_def)
qed

lemma broker_ok_frame:
  assumes ok: "broker_ok qi msgs U s" and c: "core_ok qi msgs U' s'"
    and f: "g_tms s' = g_tms s" "g_lock s' = g_lock s" "dom (g_subs s') = dom (g_subs s)"
      "g_stat_live_subscribers s' = g_stat_live_subscribers s"
  shows "broker_ok qi msgs U' s'"
  using ok c f by (simp add: broker_ok_def all_needed_def)

lemma broker_ok_put_su:
  assumes ok: "broker_ok qi msgs U s" and u: "g_subs s su = Some u" "su_subs u' = su_subs u" "qi (su_q u')"
    "\<And>m. U' m + count (mset (msgs (su_q u'))) m = U m + count (mset (msgs (su_q u))) m"
  shows "broker_ok qi msgs U' (put_su su u' s)"
proof (rule broker_ok_frame [OF ok])
  show "core_ok qi msgs U' (put_su su u' s)" by (rule core_ok_put_su [OF broker_ok_D(1) [OF ok] u])
  show "dom (g_subs (put_su su u' s)) = dom (g_subs s)" using u(1) by auto
qed simp_all

lemma broker_ok_queue: "broker_ok qi msgs U s \<Longrightarrow> g_subs s su = Some u \<Longrightarrow> qi (su_q u)"
  using core_ok_D(2) [OF broker_ok_D(1)] by (fastforce simp: queues_ok_def)

lemma broker_ok_heap: "broker_ok qi msgs U s \<Longrightarrow> heap_ok (\<lambda>m. U m + held msgs s m) (g_heap s)"
  using core_ok_D(1) [OF broker_ok_D(1)] by (fastforce simp: refs_ok_def)

lemma broker_ok_user: "broker_ok qi msgs U s \<Longrightarrow> U NULL = 0"
  using heap_ok_D(3) [OF broker_ok_heap] by fastforce

section \<open>References of user code\<close>

lemma user_heap_ok:
  assumes ok: "broker_ok qi msgs U s" and h: "heap_ok (\<lambda>m. U' m + held msgs s m) h"
  shows "broker_ok qi msgs U' (s\<lparr>g_heap := h\<rparr>)"
proof (rule broker_ok_frame [OF ok])
  show "core_ok qi msgs U' (s\<lparr>g_heap := h\<rparr>)"
    using core_ok_D [OF broker_ok_D(1) [OF ok]] h by (simp add: core_ok_def refs_ok_def)
qed simp_all

lemma api_unref_ok:
  assumes ok: "broker_ok qi msgs U s" and m: "0 < U m"
  shows "\<exists>h. on_heap (ps_unref_msg m) s = Some (s\<lparr>g_heap := h\<rparr>) \<and> same_content (g_heap s) h
      \<and> broker_ok qi msgs (U(m := U m - 1)) (s\<lparr>g_heap := h\<rparr>)"
proof -
  obtain h where h: "ps_unref_msg m (g_heap s) = Some h" "same_content (g_heap s) h"
    "core_ok qi msgs (U(m := U m - 1)) (s\<lparr>g_heap := h\<rparr>)"
    using user_unref_ok [OF broker_ok_D(1) [OF ok] m] by blast
  have "broker_ok qi msgs (U(m := U m - 1)) (s\<lparr>g_heap := h\<rparr>)" by (rule broker_ok_frame [OF ok h(3)]) simp_all
  then show ?thesis using h by (auto simp: on_heap_def)
qed

lemma fresh_msg:
  assumes ok: "broker_ok qi msgs U s"
  shows "U (mh_brk (g_heap s)) + held msgs s (mh_brk (g_heap s)) = 0"
proof -
  note heap = broker_ok_heap [OF ok]
  have "mh_msgs (g_heap s) (mh_brk (g_heap s)) = None"
    using mheap_wf_D [of "g_heap s" "mh_brk (g_heap s)"] heap_ok_D(1) [OF heap]
    by (cases "mh_msgs (g_heap s) (mh_brk (g_heap s))") (auto simp: mheap_ok_def)
  then show ?thesis using heap_ok_D(4) [OF heap, of "mh_brk (g_heap s)"] by (metis neq0_conv option.distinct(1))
qed

text \<open>A message made at the next free address: user code has the one reference to it.\<close>

lemma user_new_ok:
  assumes ok: "broker_ok qi msgs U s" and h: "heap_ok ((\<lambda>m. U m + held msgs s m)(mh_brk (g_heap s) := 1)) h"
  shows "broker_ok qi msgs (U(mh_brk (g_heap s) := 1)) (s\<lparr>g_heap := h\<rparr>)"
proof -
  let ?a = "mh_brk (g_heap s)"
  have "(\<lambda>m. U m + held msgs s m)(?a := 1) = (\<lambda>m. (U(?a := 1)) m + held msgs s m)"
    using fresh_msg [OF ok] by (auto simp: fun_eq_iff)
  then show ?thesis using h by (intro user_heap_ok [OF ok]) simp
qed

lemma api_new_msg_ok:
  assumes ok: "broker_ok qi msgs U s" and f: "va_ok (f AND PS_MSK_TYP) args (g_heap s)"
  shows "\<exists>h. ps_new_msg (Some t) f args (g_heap s) = Some (mh_brk (g_heap s), h)
      \<and> broker_ok qi msgs (U(mh_brk (g_heap s) := 1)) (s\<lparr>g_heap := h\<rparr>)"
  using ps_new_msg_ok [OF broker_ok_heap [OF ok] f, of t] user_new_ok [OF ok] by blast

lemma api_dup_msg_ok:
  assumes ok: "broker_ok qi msgs U s" and m: "mh_msgs (g_heap s) a = Some m"
    and buf: "msg_typ m = PS_BUF_TYP \<Longrightarrow>
       \<exists>p sz d bs. m_val m = V_buf p sz d \<and> mh_bufs (g_heap s) p = Some bs \<and> unat sz \<le> length bs"
  shows "\<exists>h. ps_dup_msg a (g_heap s) = Some (mh_brk (g_heap s), h)
      \<and> broker_ok qi msgs (U(mh_brk (g_heap s) := 1)) (s\<lparr>g_heap := h\<rparr>)"
  using ps_dup_msg_ok [OF broker_ok_heap [OF ok] m buf] user_new_ok [OF ok] by blast

lemma api_set_rtopic_ok:
  assumes ok: "broker_ok qi msgs U s" and m: "0 < U a"
  shows "\<exists>m h. mh_msgs (g_heap s) a = Some m \<and> ps_msg_set_rtopic a t (g_heap s) = Some h
      \<and> h = put_msg a (m\<lparr>m_rtopic := t\<rparr>) (g_heap s) \<and> broker_ok qi msgs U (s\<lparr>g_heap := h\<rparr>)"
proof -
  let ?n = "\<lambda>m. U m + held msgs s m"
  note heap = broker_ok_heap [OF ok]
  have pos: "0 < ?n a" using m by simp
  obtain mm where mm: "mh_msgs (g_heap s) a = Some mm" using heap_ok_live [OF heap pos] by (elim exE conjE)
  let ?h = "put_msg a (mm\<lparr>m_rtopic := t\<rparr>) (g_heap s)"
  have hs: "mheap_ok (g_heap s)" "refs_match ?n (g_heap s)" using heap by (simp_all add: heap_ok_def)
  have cnt: "unat (m_ref (mm\<lparr>m_rtopic := t\<rparr>)) = ?n a" using heap_ok_D(5) [OF heap mm] by simp
  have "mheap_ok ?h" by (rule mheap_ok_put_same [OF hs(1) mm]) simp_all
  moreover have "refs_match (?n(a := ?n a)) ?h" by (rule refs_match_put [OF hs(2) pos cnt])
  moreover have "?n(a := ?n a) = ?n" by (rule fun_upd_triv)
  ultimately have "heap_ok ?n ?h" unfolding heap_ok_def by (metis (no_types))
  then have "broker_ok qi msgs U (s\<lparr>g_heap := ?h\<rparr>)" by (rule user_heap_ok [OF ok])
  then show ?thesis using mm by (simp add: ps_msg_set_rtopic_def)
qed

context msg_queue
begin

lemma api_ref_ok:
  assumes ok: "broker_ok inv msgs U s" and m: "0 < U m" and room: "room cap 1 U s"
  shows "\<exists>h. on_heap (ps_ref_msg m) s = Some (s\<lparr>g_heap := h\<rparr>) \<and> same_content (g_heap s) h
      \<and> broker_ok inv msgs (U(m := U m + 1)) (s\<lparr>g_heap := h\<rparr>)"
proof -
  let ?n = "\<lambda>m. U m + held msgs s m"
  note d = core_ok_D [OF broker_ok_D(1) [OF ok]]
  have pos: "0 < ?n m" and w: "?n m + 1 < 2 ^ 32" using m room_ref [OF room d(2,4), of m] by simp_all
  obtain h where h: "ps_ref_msg m (g_heap s) = Some h" "heap_ok (?n(m := ?n m + 1)) h"
    using ps_ref_msg_ok [OF broker_ok_heap [OF ok] pos w] by blast
  have "?n(m := ?n m + 1) = (\<lambda>x. (U(m := U m + 1)) x + held msgs s x)" by auto
  then have "broker_ok inv msgs (U(m := U m + 1)) (s\<lparr>g_heap := h\<rparr>)" using h(2) by (intro user_heap_ok [OF ok]) simp
  then show ?thesis using h(1) same_content_ref [OF h(1)] by (auto simp: on_heap_def)
qed

section \<open>Receiving\<close>

lemma ps_get_some:
  assumes ok: "broker_ok inv msgs U s" and u: "g_subs s su = Some u" and m: "msgs (su_q u) = m # ms"
  shows "\<exists>q. ps_get Q su t s = Some (m, put_su su (u\<lparr>su_q := q\<rparr>) s) \<and> inv q \<and> msgs q = ms \<and> cap q = cap (su_q u)
      \<and> m \<noteq> NULL \<and> broker_ok inv msgs (U(m := U m + 1)) (put_su su (u\<lparr>su_q := q\<rparr>) s)"
proof -
  note iq = broker_ok_queue [OF ok u]
  obtain q where q: "q_pull Q (su_q u) t = Some (m, q)" "inv q" "msgs q = ms" "cap q = cap (su_q u)"
    using pull_some [OF iq m, of t] by blast
  have "broker_ok inv msgs (U(m := U m + 1)) (put_su su (u\<lparr>su_q := q\<rparr>) s)"
    by (rule broker_ok_put_su [OF ok u]) (simp_all add: q m)
  moreover have "m \<noteq> NULL" using nonnull [OF iq] m by auto
  ultimately show ?thesis using q u by (auto simp: ps_get_def)
qed

lemma ps_get_none:
  assumes ok: "broker_ok inv msgs U s" and u: "g_subs s su = Some u" and m: "msgs (su_q u) = []"
    and t: "\<not> pull_timeout t <s 0"
  shows "ps_get Q su t s = Some (NULL, s)"
  using pull_none [OF broker_ok_queue [OF ok u] m t] u by (simp add: ps_get_def fun_upd_idem)

lemma flush_loop_ok:
  "broker_ok inv msgs U s \<Longrightarrow> g_subs s su = Some u \<Longrightarrow>
   \<exists>q h. flush_loop Q su n s = Some (n + int (length (msgs (su_q u))), (put_su su (u\<lparr>su_q := q\<rparr>) s)\<lparr>g_heap := h\<rparr>)
      \<and> broker_ok inv msgs U ((put_su su (u\<lparr>su_q := q\<rparr>) s)\<lparr>g_heap := h\<rparr>)
      \<and> msgs q = [] \<and> cap q = cap (su_q u) \<and> same_content (g_heap s) h"
proof (induction "msgs (su_q u)" arbitrary: U s u n)
  case Nil
  have "\<not> pull_timeout 0 <s 0" by (simp add: pull_timeout_def)
  from ps_get_none [OF Nil.prems Nil.hyps [symmetric] this]
  have "flush_loop Q su n s = Some (n, s)" by (subst flush_loop.simps) simp
  moreover have eq: "(put_su su (u\<lparr>su_q := su_q u\<rparr>) s)\<lparr>g_heap := g_heap s\<rparr> = s"
    using Nil.prems(2) by (simp add: fun_upd_idem)
  ultimately show ?case
    using Nil.prems(1) Nil.hyps [symmetric]
    by (intro exI [of _ "su_q u"] exI [of _ "g_heap s"], unfold eq) simp
next
  case (Cons m ms)
  obtain q where q: "ps_get Q su 0 s = Some (m, put_su su (u\<lparr>su_q := q\<rparr>) s)" "msgs q = ms" "cap q = cap (su_q u)"
    "m \<noteq> NULL" "broker_ok inv msgs (U(m := U m + 1)) (put_su su (u\<lparr>su_q := q\<rparr>) s)"
    using ps_get_some [OF Cons.prems Cons.hyps(2) [symmetric], of 0] by blast
  let ?s1 = "put_su su (u\<lparr>su_q := q\<rparr>) s"
  have pos: "0 < (U(m := U m + 1)) m" by simp
  obtain h1 where h1: "on_heap (ps_unref_msg m) ?s1 = Some (?s1\<lparr>g_heap := h1\<rparr>)" "same_content (g_heap ?s1) h1"
    "broker_ok inv msgs ((U(m := U m + 1))(m := (U(m := U m + 1)) m - 1)) (?s1\<lparr>g_heap := h1\<rparr>)"
    using api_unref_ok [OF q(5) pos] by blast
  let ?s2 = "?s1\<lparr>g_heap := h1\<rparr>"
  have ok2: "broker_ok inv msgs U ?s2" using h1(3) by simp
  have u2: "g_subs ?s2 su = Some (u\<lparr>su_q := q\<rparr>)" by simp
  have ms: "ms = msgs (su_q (u\<lparr>su_q := q\<rparr>))" by (simp add: q(2))
  obtain q' h where q': "flush_loop Q su (n + 1) ?s2 = Some (n + 1 + int (length ms), (put_su su (u\<lparr>su_q := q'\<rparr>) ?s2)\<lparr>g_heap := h\<rparr>)"
    "broker_ok inv msgs U ((put_su su (u\<lparr>su_q := q'\<rparr>) ?s2)\<lparr>g_heap := h\<rparr>)" "msgs q' = []" "cap q' = cap q"
    "same_content (g_heap ?s2) h"
    using Cons.hyps(1) [OF ms ok2 u2, of "n + 1"] by (auto simp: q(2))
  have run: "flush_loop Q su n s = flush_loop Q su (n + 1) ?s2"
    using q(1,4) h1(1) by (subst flush_loop.simps) simp
  have "length (msgs (su_q u)) = Suc (length ms)" by (simp add: Cons.hyps(2) [symmetric])
  moreover have "same_content (g_heap s) h" using same_content_trans [OF h1(2)] q'(5) by simp
  ultimately show ?case
    using q' q(3) unfolding run by (intro exI [of _ q'] exI [of _ h]) simp
qed

lemma ps_flush_ok:
  assumes ok: "broker_ok inv msgs U s" and u: "g_subs s su = Some u"
  shows "\<exists>q h. ps_flush Q su s = Some (int (length (msgs (su_q u))), (put_su su (u\<lparr>su_q := q\<rparr>) s)\<lparr>g_heap := h\<rparr>)
      \<and> broker_ok inv msgs U ((put_su su (u\<lparr>su_q := q\<rparr>) s)\<lparr>g_heap := h\<rparr>)
      \<and> msgs q = [] \<and> cap q = cap (su_q u) \<and> same_content (g_heap s) h"
  using flush_loop_ok [OF assms, of 0] by (simp add: ps_flush_def)

end

section \<open>Subscribing between calls\<close>

context msg_queue
begin

lemma api_subscribe_ok:
  assumes ok: "broker_ok inv msgs U s" and u: "g_subs s su = Some u" and nul: "NUL \<notin> set topic"
    and room: "room cap 2 U s" and p: "\<And>f. pflags = Some f \<Longrightarrow> unat (fl_priority f) < 10"
  shows "\<exists>s'. ps_subscribe_flags Q su topic pflags s = Some (if cut_topic topic \<in> subscribed s su then -1 else 0, s')
      \<and> broker_ok inv msgs U s' \<and> for_su cap su s s' \<and> (\<forall>k. room cap (k + 1) U s \<longrightarrow> room cap k U s')
      \<and> (\<forall>su'. subscribed s' su' = (if su' = su then insert (cut_topic topic) (subscribed s su') else subscribed s su'))"
  using ps_subscribe_flags_ok [OF _ u nul room p, of pflags] ok for_su_dom [of cap su s] unfolding broker_ok_idle
  by fastforce

lemma api_subscribe_many_ok:
  assumes ok: "broker_ok inv msgs U s" and u: "g_subs s su = Some u" and nul: "\<forall>t\<in>set topics. NUL \<notin> set t"
    and room: "room cap (length topics + k) U s" "1 \<le> k"
  shows "\<exists>s'. ps_subscribe_many Q su (Some topics) s = Some (int (card (cut_topic ` set topics - subscribed s su)), s')
      \<and> broker_ok inv msgs U s' \<and> for_su cap su s s' \<and> room cap k U s'
      \<and> (\<forall>su'. subscribed s' su' = (if su' = su then subscribed s su' \<union> cut_topic ` set topics else subscribed s su'))"
  using ps_subscribe_each_ok [OF _ u nul room, of 0] ok for_su_dom [of cap su s] unfolding broker_ok_idle ps_subscribe_many_def
  by fastforce

end

section \<open>New subscribers\<close>

lemma held_new_su:
  assumes fin: "finite (dom (g_subs s))" and new: "g_subs s su = None" and q: "msgs (su_q u) = []"
  shows "held msgs ((put_su su u s)\<lparr>g_next := n\<rparr>) = held msgs s"
proof
  fix m
  show "held msgs ((put_su su u s)\<lparr>g_next := n\<rparr>) m = held msgs s m"
    using hsum_insert [OF fin new, of "\<lambda>u. count (mset (msgs (su_q u))) m" u] q by (simp add: held_def)
qed

lemma idle_ok_new_su:
  assumes ok: "idle_ok qi msgs U s" and u: "qi (su_q u)" "msgs (su_q u) = []" "su_subs u = []"
  defines "s' \<equiv> (put_su (g_next s) u s)\<lparr>g_next := g_next s + 1\<rparr>"
  shows "idle_ok qi msgs U s'" "g_subs s (g_next s) = None" "topic_at s' = topic_at s"
proof -
  note d = core_ok_D [OF idle_ok_D(1) [OF ok]]
  show new: "g_subs s (g_next s) = None"
    using links_ok_D(5) [OF d(3), of "g_next s"] by (cases "g_subs s (g_next s)") (auto simp: subs_view_def)
  have "refs_ok msgs U s'" using d(1) held_new_su [where msgs = msgs, OF d(5) new u(2)] by (simp add: refs_ok_def s'_def)
  moreover have "queues_ok qi s'" using d(2) u(1) by (auto simp: queues_ok_def s'_def)
  moreover have "subs_view s' = (subs_view s)(g_next s \<mapsto> [])" by (auto simp: fun_eq_iff subs_view_def s'_def u(3))
  then have "linked s'" using links_ok_new_su [OF d(3)] by (simp add: s'_def)
  ultimately have "core_ok qi msgs U s'" by (simp add: core_ok_def)
  then show "idle_ok qi msgs U s'" using ok by (simp add: idle_ok_def s'_def all_needed_def)
  show "topic_at s' = topic_at s" by (rule topic_at_cong) (simp_all add: s'_def)
qed

context msg_queue
begin

lemma ps_new_subscriber_ok:
  assumes ok: "broker_ok inv msgs U s" and n: "n \<le> SEM_VALUE_MAX" and nul: "\<forall>t\<in>set topics. NUL \<notin> set t"
    and room: "room cap (n + length topics + k) U s" "1 \<le> k"
  shows "\<exists>s' u. ps_new_subscriber Q n (Some topics) s = Some (g_next s, s') \<and> broker_ok inv msgs U s'
      \<and> g_subs s (g_next s) = None \<and> g_subs s' (g_next s) = Some u \<and> cap (su_q u) = n
      \<and> (\<forall>su. su \<noteq> g_next s \<longrightarrow> g_subs s' su = g_subs s su) \<and> same_content (g_heap s) (g_heap s')
      \<and> g_next s < g_next s' \<and> room cap k U s'
      \<and> (\<forall>su. subscribed s' su = (if su = g_next s then cut_topic ` set topics else subscribed s su))"
proof -
  let ?su = "g_next s"
  obtain q where q: "q_new Q n = Some q" "inv q" "msgs q = []" "cap q = n" using new [OF n] by blast
  define u where "u = \<lparr>su_q = q, su_subs = [], su_overflow = 0, su_new_msg_cb = None, su_non_empty_cb = None, su_userData = NULL\<rparr>"
  have uf: "su_q u = q" "su_subs u = []" by (simp_all add: u_def)
  define s1 where "s1 = (put_su ?su u s)\<lparr>g_next := ?su + 1\<rparr>"
  have idle: "idle_ok inv msgs U s" using ok by (simp add: broker_ok_idle)
  have s1_ok: "idle_ok inv msgs U s1" "g_subs s ?su = None" "topic_at s1 = topic_at s"
    using idle_ok_new_su [OF idle, of u] unfolding s1_def [symmetric] uf by (simp_all add: q(2,3))
  have f1: "g_subs s1 = (g_subs s)(?su \<mapsto> u)" "g_tms s1 = g_tms s" "g_heap s1 = g_heap s" "g_next s1 = ?su + 1"
    "g_stat_live_subscribers s1 = g_stat_live_subscribers s" by (simp_all add: s1_def)
  note d = core_ok_D [OF idle_ok_D(1) [OF idle]]
  have u1: "g_subs s1 ?su = Some u" by (simp add: f1)
  have hs: "hsum (\<lambda>u. cap (su_q u)) (g_subs s1) = n + hsum (\<lambda>u. cap (su_q u)) (g_subs s)"
    unfolding f1 using hsum_insert [OF d(5) s1_ok(2), of "\<lambda>u. cap (su_q u)" u] by (simp add: uf q(4))
  have "U m + hsum (\<lambda>u. cap (su_q u)) (g_subs s1) + card (dom (g_tms s1)) + (length topics + k) < 2 ^ 32" for m
  proof -
    have "U m + hsum (\<lambda>u. cap (su_q u)) (g_subs s) + card (dom (g_tms s)) + (n + length topics + k) < 2 ^ 32"
      using room(1) by (simp add: room_def)
    then show ?thesis unfolding hs f1(2) by linarith
  qed
  then have room1: "room cap (length topics + k) U s1" unfolding room_def by blast
  obtain s2 where s2: "ps_subscribe_each Q ?su topics 0 s1 = Some (0 + int (card (cut_topic ` set topics - subscribed s1 ?su)), s2)"
    "idle_ok inv msgs U s2" "g_stat_live_subscribers s2 = g_stat_live_subscribers s1" "for_su cap ?su s1 s2" "room cap k U s2"
    "\<forall>su. subscribed s2 su = (if su = ?su then subscribed s1 su \<union> cut_topic ` set topics else subscribed s1 su)"
    using ps_subscribe_each_ok [OF s1_ok(1) u1 nul room1 room(2), of 0] by blast
  let ?s = "s2\<lparr>g_stat_live_subscribers := g_stat_live_subscribers s2 + 1\<rparr>"
  have run: "ps_new_subscriber Q n (Some topics) s = Some (?su, ?s)"
    unfolding ps_new_subscriber_def ps_subscribe_many_def Let_def option.case q(1) Option.bind.simps
    unfolding u_def [symmetric] unfolding s1_def [symmetric] unfolding s2(1) by simp
  obtain u2 where u2: "g_subs s2 ?su = Some u2" "cap (su_q u2) = n" "\<forall>su. su \<noteq> ?su \<longrightarrow> g_subs s2 su = g_subs s su"
    "?su + 1 \<le> g_next s2" "same_content (g_heap s) (g_heap s2)"
    using s2(4) by (auto simp: for_su_def f1 uf q(4))
  have "subscribed s ?su = {}"
  proof -
    have "?su \<notin> sl_su ` set (subs_at (topic_at s) x)" for x
      using subs_at_ok [OF d(3), of x] s1_ok(2) by (auto simp: sls_ok_def dom_def)
    then show ?thesis by (auto simp: subscribed_iff)
  qed
  then have sub: "\<forall>su. subscribed ?s su = (if su = ?su then cut_topic ` set topics else subscribed s su)"
    using s2(6) by (simp add: subscribed_def s1_ok(3))
  have dom: "dom (g_subs s2) = insert ?su (dom (g_subs s))" using for_su_dom [OF s2(4)] by (simp add: f1)
  have "card (dom (g_subs s2)) = Suc (card (dom (g_subs s)))"
    unfolding dom using d(5) s1_ok(2) by (simp add: card_insert_if domIff)
  then have "g_stat_live_subscribers ?s = of_nat (card (dom (g_subs ?s)))"
    using s2(3) f1(5) ok by (simp add: broker_ok_idle)
  moreover have "idle_ok inv msgs U ?s" using s2(2) by (simp add: idle_ok_def all_needed_def)
  ultimately have "broker_ok inv msgs U ?s" by (simp add: broker_ok_idle)
  moreover have "room cap k U ?s" using s2(5) by (simp add: room_def)
  ultimately show ?thesis using run s1_ok(2) u2 sub by (intro exI [of _ ?s] exI [of _ u2]) simp
qed

end

section \<open>Freeing a subscriber\<close>

lemma held_del_su:
  assumes fin: "finite (dom (g_subs s))" and u: "g_subs s su = Some u" and q: "msgs (su_q u) = []"
  shows "held msgs (s\<lparr>g_subs := (g_subs s)(su := None), g_stat_live_subscribers := n\<rparr>) = held msgs s"
proof
  fix m
  show "held msgs (s\<lparr>g_subs := (g_subs s)(su := None), g_stat_live_subscribers := n\<rparr>) m = held msgs s m"
    using hsum_remove [OF fin u, of "\<lambda>u. count (mset (msgs (su_q u))) m"] q by (simp add: held_def)
qed

lemma broker_ok_del_su:
  assumes ok: "broker_ok qi msgs U s" and u: "g_subs s su = Some u" "msgs (su_q u) = []" "su_subs u = []"
  defines "s' \<equiv> s\<lparr>g_subs := (g_subs s)(su := None), g_stat_live_subscribers := g_stat_live_subscribers s - 1\<rparr>"
  shows "broker_ok qi msgs U s'"
proof -
  note b = broker_ok_D [OF ok]
  note d = core_ok_D [OF b(1)]
  have "refs_ok msgs U s'" using d(1) held_del_su [where msgs = msgs, OF d(5) u(1,2)] by (simp add: refs_ok_def s'_def)
  moreover have "queues_ok qi s'" using d(2) by (auto simp: queues_ok_def s'_def)
  moreover have "subs_view s' = (subs_view s)(su := None)" by (auto simp: fun_eq_iff subs_view_def s'_def)
  then have "linked s'" using links_ok_free_su [OF d(3), of su] u by (simp add: s'_def subs_view_def)
  ultimately have "core_ok qi msgs U s'" by (simp add: core_ok_def)
  moreover have "g_stat_live_subscribers s' = of_nat (card (dom (g_subs s')))"
  proof -
    have "card (dom (g_subs s)) = Suc (card (dom (g_subs s) - {su}))"
      using card.remove [OF d(5), of su] u(1) by (simp add: domI)
    then show ?thesis using b(4) by (simp add: s'_def)
  qed
  ultimately show ?thesis using ok by (simp add: broker_ok_def s'_def all_needed_def)
qed

context msg_queue
begin

lemma ps_free_subscriber_ok:
  assumes ok: "broker_ok inv msgs U s" and u: "g_subs s su = Some u"
  shows "\<exists>s'. ps_free_subscriber Q su s = Some s' \<and> broker_ok inv msgs U s'
      \<and> g_subs s' = (g_subs s)(su := None) \<and> same_content (g_heap s) (g_heap s')
      \<and> topic_at s' = (\<lambda>x. Option.bind (topic_at s x) (unlinked su))
      \<and> card (dom (g_tms s')) \<le> card (dom (g_tms s)) \<and> g_cbs s' = g_cbs s"
proof -
  obtain s1 where s1: "ps_unsubscribe_all su s = Some (int (card (subscribed s su)), s1)" "broker_ok inv msgs U s1"
    "unsubscribe_result su UNIV s s1" "topic_at s1 = (\<lambda>x. Option.bind (topic_at s x) (unlinked su))"
    "g_subs s1 = (g_subs s)(su \<mapsto> u\<lparr>su_subs := []\<rparr>)"
    using ps_unsubscribe_all_ok [OF ok u] by blast
  let ?u = "u\<lparr>su_subs := []\<rparr>"
  have u1: "g_subs s1 su = Some ?u" by (simp add: s1(5))
  obtain q h where q: "ps_flush Q su s1 = Some (int (length (msgs (su_q ?u))), (put_su su (?u\<lparr>su_q := q\<rparr>) s1)\<lparr>g_heap := h\<rparr>)"
    "broker_ok inv msgs U ((put_su su (?u\<lparr>su_q := q\<rparr>) s1)\<lparr>g_heap := h\<rparr>)" "msgs q = []" "same_content (g_heap s1) h"
    using ps_flush_ok [OF s1(2) u1] by blast
  define s2 where "s2 = (put_su su (?u\<lparr>su_q := q\<rparr>) s1)\<lparr>g_heap := h\<rparr>"
  have ok2: "broker_ok inv msgs U s2" using q(2) by (simp add: s2_def)
  have u2: "g_subs s2 su = Some (?u\<lparr>su_q := q\<rparr>)" by (simp add: s2_def)
  have f: "q_free Q q (g_heap s2) = Some (g_heap s2)"
    using free [OF broker_ok_queue [OF ok2 u2]] q(3) by simp
  let ?s = "s2\<lparr>g_subs := (g_subs s2)(su := None), g_stat_live_subscribers := g_stat_live_subscribers s2 - 1\<rparr>"
  have run: "ps_free_subscriber Q su s = Some ?s"
    using s1(1) q(1) u2 f by (simp add: ps_free_subscriber_def s2_def [symmetric] on_heap_def)
  have "broker_ok inv msgs U ?s" using broker_ok_del_su [OF ok2 u2] q(3) by simp
  moreover have "g_subs ?s = (g_subs s)(su := None)" by (simp add: s2_def s1(5))
  moreover have "same_content (g_heap s) (g_heap ?s)" using q(4) s1(3) by (simp add: s2_def unsubscribe_result_def)
  moreover have "topic_at ?s = (\<lambda>x. Option.bind (topic_at s x) (unlinked su))"
    unfolding s1(4) [symmetric] by (rule topic_at_cong) (simp_all add: s2_def)
  moreover have "card (dom (g_tms ?s)) \<le> card (dom (g_tms s))" "g_cbs ?s = g_cbs s"
    using s1(3) by (simp_all add: s2_def unsubscribe_result_def)
  ultimately show ?thesis using run by blast
qed

end

section \<open>Accessors\<close>

lemma ps_overflow_ok:
  assumes ok: "broker_ok qi msgs U s" and u: "g_subs s su = Some u"
  shows "ps_overflow su s = Some (sint (su_overflow u), put_su su (u\<lparr>su_overflow := 0\<rparr>) s)
      \<and> broker_ok qi msgs U (put_su su (u\<lparr>su_overflow := 0\<rparr>) s)"
  using broker_ok_same_queue [OF ok u, of "u\<lparr>su_overflow := 0\<rparr>"] u by (simp add: ps_overflow_def)

lemma ps_user_data_ok:
  assumes ok: "broker_ok qi msgs U s" and u: "g_subs s su = Some u"
  shows "\<exists>s'. ps_subscriber_user_data_set su d s = Some s' \<and> broker_ok qi msgs U s'
      \<and> ps_subscriber_user_data su s' = Some d \<and> (\<forall>su'. su' \<noteq> su \<longrightarrow> g_subs s' su' = g_subs s su')
      \<and> s' = put_su su (u\<lparr>su_userData := d\<rparr>) s"
  using broker_ok_same_queue [OF ok u, of "u\<lparr>su_userData := d\<rparr>"] u
  by (simp add: ps_subscriber_user_data_set_def ps_subscriber_user_data_def)

lemma ps_stats_live_ok:
  assumes "broker_ok qi msgs U s" and "card (dom (g_subs s)) < 2 ^ 31"
  shows "ps_stats_live_subscribers s = int (card (dom (g_subs s)))"
proof -
  have "sint (word_of_nat n :: u32) = int n" if "n < 2 ^ 31" for n
    using that by (simp add: sint_uint unat_of_nat uint_nat signed_take_bit_int_eq_self take_bit_nat_eq_self)
  then show ?thesis using assms by (simp add: ps_stats_live_subscribers_def broker_ok_def)
qed

context msg_queue
begin

text \<open>Setting a callback fires it when messages are waiting already.\<close>

lemma ps_set_new_msg_cb_ok:
  assumes ok: "broker_ok inv msgs U s" and u: "g_subs s su = Some u"
  shows "\<exists>s'. ps_set_new_msg_cb Q su cb s = Some s' \<and> broker_ok inv msgs U s'
      \<and> g_subs s' = (g_subs s)(su \<mapsto> u\<lparr>su_new_msg_cb := cb\<rparr>) \<and> g_heap s' = g_heap s \<and> topic_at s' = topic_at s
      \<and> g_cbs s' = g_cbs s @ (if msgs (su_q u) = [] then [] else case cb of None \<Rightarrow> [] | Some k \<Rightarrow> [New_msg k su])"
proof -
  let ?u = "u\<lparr>su_new_msg_cb := cb\<rparr>"
  let ?s = "(put_su su ?u s)\<lparr>g_cbs := g_cbs s @ (if msgs (su_q u) = [] then [] else case cb of None \<Rightarrow> [] | Some k \<Rightarrow> [New_msg k su])\<rparr>"
  have lk: "\<not> g_lock s" using ok by (simp add: broker_ok_def)
  have ok1: "broker_ok inv msgs U (put_su su ?u s)" using broker_ok_same_queue [OF ok u, of ?u] by simp
  have "broker_ok inv msgs U ?s"
    by (rule broker_ok_frame [OF ok1]) (use broker_ok_D(1) [OF ok1] in simp_all)
  moreover have "ps_set_new_msg_cb Q su cb s = Some ?s"
    using lk u waiting [OF broker_ok_queue [OF ok u]]
    by (auto simp: ps_set_new_msg_cb_def lock_run unlock_run log_cb_eq Let_def)
  moreover have "topic_at ?s = topic_at s" by (rule topic_at_cong) simp_all
  ultimately show ?thesis by (intro exI [of _ ?s]) simp
qed

lemma ps_set_non_empty_cb_ok:
  assumes ok: "broker_ok inv msgs U s" and u: "g_subs s su = Some u"
  shows "\<exists>s'. ps_set_non_empty_cb Q su cb s = Some s' \<and> broker_ok inv msgs U s'
      \<and> g_subs s' = (g_subs s)(su \<mapsto> u\<lparr>su_non_empty_cb := cb\<rparr>) \<and> g_heap s' = g_heap s \<and> topic_at s' = topic_at s
      \<and> g_cbs s' = g_cbs s @ (if msgs (su_q u) = [] then [] else case cb of None \<Rightarrow> [] | Some k \<Rightarrow> [Non_empty k su])"
proof -
  let ?u = "u\<lparr>su_non_empty_cb := cb\<rparr>"
  let ?s = "(put_su su ?u s)\<lparr>g_cbs := g_cbs s @ (if msgs (su_q u) = [] then [] else case cb of None \<Rightarrow> [] | Some k \<Rightarrow> [Non_empty k su])\<rparr>"
  have lk: "\<not> g_lock s" using ok by (simp add: broker_ok_def)
  have ok1: "broker_ok inv msgs U (put_su su ?u s)" using broker_ok_same_queue [OF ok u, of ?u] by simp
  have "broker_ok inv msgs U ?s"
    by (rule broker_ok_frame [OF ok1]) (use broker_ok_D(1) [OF ok1] in simp_all)
  moreover have "ps_set_non_empty_cb Q su cb s = Some ?s"
    using lk u waiting [OF broker_ok_queue [OF ok u]]
    by (auto simp: ps_set_non_empty_cb_def lock_run unlock_run log_cb_eq Let_def)
  moreover have "topic_at ?s = topic_at s" by (rule topic_at_cong) simp_all
  ultimately show ?thesis by (intro exI [of _ ?s]) simp
qed

end

section \<open>Counting the subscriptions to a topic\<close>

definition shown :: "subscriber_list list \<Rightarrow> nat" where
  "shown sls = length (filter (\<lambda>sl. \<not> sl_hidden sl) sls)"

lemma shown_append [simp]: "shown (xs @ ys) = shown xs + shown ys"
  by (simp add: shown_def)

lemma subs_count_loop_ok:
  "linked s \<Longrightarrow> \<exists>c. subs_count_loop x n s = Some c \<and> c + shown (subs_at (topic_at s) []) = n + shown (publish_targets (topic_at s) True x)"
proof (induction x arbitrary: n rule: ancestors.induct)
  case (1 x)
  show ?case
  proof (cases "x = []")
    case True
    then show ?thesis by (subst subs_count_loop.simps) (simp add: publish_targets_def)
  next
    case False
    obtain a where a: "fetch_topic x s = Some a" "addr_of s x a" using fetch_addr_of [OF "1.prems"] by blast
    let ?n = "n + shown (subs_at (topic_at s) x)"
    have turn: "(if a \<noteq> NULL then do { t \<leftarrow> g_tms s a; Some (n + length (filter (\<lambda>sl. \<not> sl_hidden sl) (tm_subscribers t))) } else Some n) = Some ?n"
      using a(2) by (auto simp: addr_of_def subs_at_def shown_def split: option.splits)
    obtain c where c: "subs_count_loop (parent x) ?n s = Some c"
      "c + shown (subs_at (topic_at s) []) = ?n + shown (publish_targets (topic_at s) True (parent x))"
      using "1.IH" [OF False "1.prems", of ?n] by blast
    have "subs_count_loop x n s = subs_count_loop (parent x) ?n s"
      using False a(1) turn by (subst subs_count_loop.simps) simp
    moreover have "publish_targets (topic_at s) True x = subs_at (topic_at s) x @ publish_targets (topic_at s) True (parent x)"
      by (simp add: publish_targets_def ancestors_step [OF False])
    ultimately show ?thesis using c by simp
  qed
qed

lemma ps_subs_count_ok:
  assumes ok: "broker_ok qi msgs U s" and t: "t \<noteq> []"
  shows "ps_subs_count (Some t) s = Some (int (shown (publish_targets (topic_at s) True (cut_topic t))) - int (shown (subs_at (topic_at s) [])), s)"
proof -
  note b = broker_ok_D [OF ok]
  define s0 where "s0 = s\<lparr>g_lock := True\<rparr>"
  have f: "linked s0" "topic_at s0 = topic_at s" "g_lock s0" "s0\<lparr>g_lock := False\<rparr> = s"
    using b by (simp_all add: s0_def topic_at_links)
  obtain c where c: "subs_count_loop (cut_topic t) 0 s0 = Some c"
    "c + shown (subs_at (topic_at s) []) = 0 + shown (publish_targets (topic_at s) True (cut_topic t))"
    using subs_count_loop_ok [OF f(1), of "cut_topic t" 0] unfolding f(2) by blast
  have "ps_subs_count (Some t) s = Some (int c, s)"
    using t b(3) c(1) f(3,4) by (simp add: ps_subs_count_def lock_run s0_def [symmetric] unlock_run Let_def)
  then show ?thesis using c(2) by simp
qed

end
