(* ===== verification/Broker_Reach.thy ===== *)
theory Broker_Reach
  imports Broker_Api
begin

text \<open>
  Runs of the library: user code makes API calls one after the other, each within its contract
  (\<open>allowed\<close>: it passes references that it holds, subscribers that exist, terminated strings and
  priorities below 10, and the counts do not wrap). The ghost function \<open>U\<close> counts the references
  of user code; \<open>exec\<close> moves it as the documentation of each function says. Every reachable state
  meets the invariant, and no call within its contract faults or fails to return.
\<close>

unbundle bit_operations_syntax

datatype api_call =
    New_subscriber nat "string list"
  | Free_subscriber addr
  | Subscribe addr string "sub_flags option"
  | Subscribe_many addr "string list"
  | Unsubscribe addr string
  | Unsubscribe_many addr "string list"
  | Unsubscribe_all addr
  | Make_msg string u32 "va list"
  | Dup_msg addr
  | Ref_msg addr
  | Unref_msg addr
  | Set_rtopic addr "string option"
  | Publish addr
  | Get addr i64
  | Flush addr
  | Clean_sticky string
  | Set_new_msg_cb addr "nat option"
  | Set_non_empty_cb addr "nat option"
  | Overflow addr
  | User_data addr addr
  | Subs_count string

type_synonym 'q run_state = "(addr \<Rightarrow> nat) \<times> 'q state"

text \<open>The effect of a call on the state and on the references of user code.\<close>

fun exec :: "'q qops \<Rightarrow> api_call \<Rightarrow> 'q run_state \<Rightarrow> 'q run_state option" where
  "exec Q (New_subscriber n ts) (U, s) = do { (_, s) \<leftarrow> ps_new_subscriber Q n (Some ts) s; Some (U, s) }"
| "exec Q (Free_subscriber su) (U, s) = do { s \<leftarrow> ps_free_subscriber Q su s; Some (U, s) }"
| "exec Q (Subscribe su t f) (U, s) = do { (_, s) \<leftarrow> ps_subscribe_flags Q su t f s; Some (U, s) }"
| "exec Q (Subscribe_many su ts) (U, s) = do { (_, s) \<leftarrow> ps_subscribe_many Q su (Some ts) s; Some (U, s) }"
| "exec Q (Unsubscribe su t) (U, s) = do { (_, s) \<leftarrow> ps_unsubscribe su t s; Some (U, s) }"
| "exec Q (Unsubscribe_many su ts) (U, s) = do { (_, s) \<leftarrow> ps_unsubscribe_many su (Some ts) s; Some (U, s) }"
| "exec Q (Unsubscribe_all su) (U, s) = do { (_, s) \<leftarrow> ps_unsubscribe_all su s; Some (U, s) }"
| "exec Q (Make_msg t f args) (U, s) = do { (m, h) \<leftarrow> ps_new_msg (Some t) f args (g_heap s); Some (U(m := 1), s\<lparr>g_heap := h\<rparr>) }"
| "exec Q (Dup_msg m) (U, s) = do { (m', h) \<leftarrow> ps_dup_msg m (g_heap s); Some (U(m' := 1), s\<lparr>g_heap := h\<rparr>) }"
| "exec Q (Ref_msg m) (U, s) = do { s \<leftarrow> on_heap (ps_ref_msg m) s; Some (U(m := U m + 1), s) }"
| "exec Q (Unref_msg m) (U, s) = do { s \<leftarrow> on_heap (ps_unref_msg m) s; Some (U(m := U m - 1), s) }"
| "exec Q (Set_rtopic m t) (U, s) = do { s \<leftarrow> on_heap (ps_msg_set_rtopic m t) s; Some (U, s) }"
| "exec Q (Publish m) (U, s) = do { (_, s) \<leftarrow> ps_publish Q m s; Some (U(m := U m - 1), s) }"
| "exec Q (Get su t) (U, s) = do { (m, s) \<leftarrow> ps_get Q su t s; Some (if m = NULL then U else U(m := U m + 1), s) }"
| "exec Q (Flush su) (U, s) = do { (_, s) \<leftarrow> ps_flush Q su s; Some (U, s) }"
| "exec Q (Clean_sticky p) (U, s) = do { s \<leftarrow> ps_clean_sticky p s; Some (U, s) }"
| "exec Q (Set_new_msg_cb su cb) (U, s) = do { s \<leftarrow> ps_set_new_msg_cb Q su cb s; Some (U, s) }"
| "exec Q (Set_non_empty_cb su cb) (U, s) = do { s \<leftarrow> ps_set_non_empty_cb Q su cb s; Some (U, s) }"
| "exec Q (Overflow su) (U, s) = do { (_, s) \<leftarrow> ps_overflow su s; Some (U, s) }"
| "exec Q (User_data su d) (U, s) = do { s \<leftarrow> ps_subscriber_user_data_set su d s; Some (U, s) }"
| "exec Q (Subs_count t) (U, s) = do { (_, s) \<leftarrow> ps_subs_count (Some t) s; Some (U, s) }"

text \<open>The contract of the caller.\<close>

fun allowed :: "('q \<Rightarrow> addr list) \<Rightarrow> ('q \<Rightarrow> nat) \<Rightarrow> api_call \<Rightarrow> 'q run_state \<Rightarrow> bool" where
  "allowed msgs cap (New_subscriber n ts) (U, s) \<longleftrightarrow>
     n \<le> SEM_VALUE_MAX \<and> (\<forall>t\<in>set ts. NUL \<notin> set t) \<and> room cap (n + length ts + 1) U s"
| "allowed msgs cap (Subscribe su t f) (U, s) \<longleftrightarrow>
     su \<in> dom (g_subs s) \<and> NUL \<notin> set t \<and> (case f of None \<Rightarrow> True | Some f \<Rightarrow> unat (fl_priority f) < 10) \<and> room cap 2 U s"
| "allowed msgs cap (Subscribe_many su ts) (U, s) \<longleftrightarrow>
     su \<in> dom (g_subs s) \<and> (\<forall>t\<in>set ts. NUL \<notin> set t) \<and> room cap (length ts + 1) U s"
| "allowed msgs cap (Make_msg t f args) (U, s) \<longleftrightarrow> va_ok (f AND PS_MSK_TYP) args (g_heap s)"
| "allowed msgs cap (Dup_msg m) (U, s) \<longleftrightarrow> 0 < U m \<and>
     (case mh_msgs (g_heap s) m of None \<Rightarrow> False | Some mm \<Rightarrow> msg_typ mm = PS_BUF_TYP \<longrightarrow>
        (case m_val mm of V_buf p sz d \<Rightarrow> (case mh_bufs (g_heap s) p of None \<Rightarrow> False | Some bs \<Rightarrow> unat sz \<le> length bs) | _ \<Rightarrow> False))"
| "allowed msgs cap (Ref_msg m) (U, s) \<longleftrightarrow> 0 < U m \<and> room cap 1 U s"
| "allowed msgs cap (Unref_msg m) (U, s) \<longleftrightarrow> 0 < U m"
| "allowed msgs cap (Set_rtopic m t) (U, s) \<longleftrightarrow> 0 < U m"
| "allowed msgs cap (Publish m) (U, s) \<longleftrightarrow> 0 < U m \<and> room cap 2 U s \<and>
     (case mh_msgs (g_heap s) m of None \<Rightarrow> False | Some mm \<Rightarrow>
        (case m_topic mm of None \<Rightarrow> False | Some t \<Rightarrow> NUL \<notin> set t))"
| "allowed msgs cap (Get su t) (U, s) \<longleftrightarrow>
     (case g_subs s su of None \<Rightarrow> False | Some u \<Rightarrow> msgs (su_q u) \<noteq> [] \<or> \<not> pull_timeout t <s 0)"
| "allowed msgs cap (Clean_sticky p) (U, s) \<longleftrightarrow> True"
| "allowed msgs cap (Subs_count t) (U, s) \<longleftrightarrow> t \<noteq> []"
| "allowed msgs cap (Free_subscriber su) (U, s) \<longleftrightarrow> su \<in> dom (g_subs s)"
| "allowed msgs cap (Unsubscribe su t) (U, s) \<longleftrightarrow> su \<in> dom (g_subs s)"
| "allowed msgs cap (Unsubscribe_many su ts) (U, s) \<longleftrightarrow> su \<in> dom (g_subs s)"
| "allowed msgs cap (Unsubscribe_all su) (U, s) \<longleftrightarrow> su \<in> dom (g_subs s)"
| "allowed msgs cap (Flush su) (U, s) \<longleftrightarrow> su \<in> dom (g_subs s)"
| "allowed msgs cap (Set_new_msg_cb su cb) (U, s) \<longleftrightarrow> su \<in> dom (g_subs s)"
| "allowed msgs cap (Set_non_empty_cb su cb) (U, s) \<longleftrightarrow> su \<in> dom (g_subs s)"
| "allowed msgs cap (Overflow su) (U, s) \<longleftrightarrow> su \<in> dom (g_subs s)"
| "allowed msgs cap (User_data su d) (U, s) \<longleftrightarrow> su \<in> dom (g_subs s)"

inductive api_step :: "'q qops \<Rightarrow> ('q \<Rightarrow> addr list) \<Rightarrow> ('q \<Rightarrow> nat) \<Rightarrow> api_call \<Rightarrow> 'q run_state \<Rightarrow> 'q run_state \<Rightarrow> bool"
  for Q :: "'q qops" and msgs :: "'q \<Rightarrow> addr list" and cap :: "'q \<Rightarrow> nat" where
  call: "allowed msgs cap c x \<Longrightarrow> exec Q c x = Some y \<Longrightarrow> api_step Q msgs cap c x y"

inductive_simps api_step_iff: "api_step Q msgs cap c x y"

inductive reachable :: "'q qops \<Rightarrow> ('q \<Rightarrow> addr list) \<Rightarrow> ('q \<Rightarrow> nat) \<Rightarrow> 'q run_state \<Rightarrow> bool"
  for Q :: "'q qops" and msgs :: "'q \<Rightarrow> addr list" and cap :: "'q \<Rightarrow> nat" where
  start: "reachable Q msgs cap (\<lambda>_. 0, ps_init static_state)"
| step: "reachable Q msgs cap x \<Longrightarrow> api_step Q msgs cap c x y \<Longrightarrow> reachable Q msgs cap y"

lemma broker_ok_start: "broker_ok qi msgs (\<lambda>_. 0) (ps_init static_state)"
proof -
  let ?s = "ps_init static_state"
  have "held msgs ?s = (\<lambda>_. 0)" by (simp add: held_def hsum_def ps_init_def static_state_def fun_eq_iff)
  then have "refs_ok msgs (\<lambda>_. 0) ?s"
    using heap_ok_init by (simp add: refs_ok_def ps_init_def static_state_def)
  moreover have "linked ?s"
    by (rule links_okI) (simp_all add: ps_init_def static_state_def subs_view_def)
  ultimately show ?thesis
    by (simp add: broker_ok_def core_ok_def queues_ok_def all_needed_def ps_init_def static_state_def mutex_defs)
qed

context msg_queue
begin

text \<open>One call within its contract: it returns, and the invariant holds again.\<close>

definition good :: "'q run_state option \<Rightarrow> bool" where
  "good r \<longleftrightarrow> (\<exists>U s. r = Some (U, s) \<and> broker_ok inv msgs U s)"

lemma goodI: "r = Some (U, s) \<Longrightarrow> broker_ok inv msgs U s \<Longrightarrow> good r"
  by (auto simp: good_def)

lemma exec_subscriber:
  assumes ok: "broker_ok inv msgs U s"
  shows "allowed msgs cap (New_subscriber n ts) (U, s) \<Longrightarrow> good (exec Q (New_subscriber n ts) (U, s))"
    and "allowed msgs cap (Free_subscriber su) (U, s) \<Longrightarrow> good (exec Q (Free_subscriber su) (U, s))"
proof -
  show "good (exec Q (New_subscriber n ts) (U, s))" if "allowed msgs cap (New_subscriber n ts) (U, s)"
  proof -
    from that have a: "n \<le> SEM_VALUE_MAX" "\<forall>t\<in>set ts. NUL \<notin> set t" "room cap (n + length ts + 1) U s" by simp_all
    show ?thesis using ps_new_subscriber_ok [OF ok a order_refl] by (elim exE conjE) (rule goodI, simp, simp)
  qed
  show "good (exec Q (Free_subscriber su) (U, s))" if "allowed msgs cap (Free_subscriber su) (U, s)"
  proof -
    from that obtain u where u: "g_subs s su = Some u" by auto
    show ?thesis using ps_free_subscriber_ok [OF ok u] by (elim exE conjE) (rule goodI, simp, simp)
  qed
qed

lemma exec_subscribe:
  assumes ok: "broker_ok inv msgs U s"
  shows "allowed msgs cap (Subscribe su t f) (U, s) \<Longrightarrow> good (exec Q (Subscribe su t f) (U, s))"
    and "allowed msgs cap (Subscribe_many su ts) (U, s) \<Longrightarrow> good (exec Q (Subscribe_many su ts) (U, s))"
proof -
  show "good (exec Q (Subscribe su t f) (U, s))" if a: "allowed msgs cap (Subscribe su t f) (U, s)"
  proof -
    from a obtain u where u: "g_subs s su = Some u" by auto
    have p: "unat (fl_priority g) < 10" if "f = Some g" for g using a that by simp
    from a have n: "NUL \<notin> set t" "room cap 2 U s" by simp_all
    obtain s' where "ps_subscribe_flags Q su t f s = Some (if cut_topic t \<in> subscribed s su then -1 else 0, s')"
      "broker_ok inv msgs U s'" using api_subscribe_ok [OF ok u n, of f] p by blast
    then show ?thesis by (intro goodI) simp_all
  qed
  show "good (exec Q (Subscribe_many su ts) (U, s))" if a: "allowed msgs cap (Subscribe_many su ts) (U, s)"
  proof -
    from a obtain u where u: "g_subs s su = Some u" by auto
    from a have "\<forall>t\<in>set ts. NUL \<notin> set t" "room cap (length ts + 1) U s" by simp_all
    from api_subscribe_many_ok [OF ok u this order_refl] show ?thesis by (elim exE conjE) (rule goodI, simp, simp)
  qed
qed

lemma exec_unsubscribe:
  assumes ok: "broker_ok inv msgs U s" and u: "su \<in> dom (g_subs s)"
  shows "good (exec Q (Unsubscribe su t) (U, s))" "good (exec Q (Unsubscribe_many su ts) (U, s))"
    "good (exec Q (Unsubscribe_all su) (U, s))"
proof -
  obtain u where u: "g_subs s su = Some u" using u by auto
  show "good (exec Q (Unsubscribe su t) (U, s))"
    using ps_unsubscribe_result [OF ok u, of t] by (elim exE conjE) (rule goodI, simp, simp)
  show "good (exec Q (Unsubscribe_many su ts) (U, s))"
    using ps_unsubscribe_each_ok [OF ok u, of ts 0] by (elim exE conjE) (rule goodI, simp add: ps_unsubscribe_many_def, simp)
  show "good (exec Q (Unsubscribe_all su) (U, s))"
    using ps_unsubscribe_all_ok [OF ok u] by (elim exE conjE) (rule goodI, simp, simp)
qed

lemma exec_refs:
  assumes ok: "broker_ok inv msgs U s" and m: "0 < U m"
  shows "room cap 1 U s \<Longrightarrow> good (exec Q (Ref_msg m) (U, s))" "good (exec Q (Unref_msg m) (U, s))"
    "good (exec Q (Set_rtopic m t) (U, s))"
proof -
  show "good (exec Q (Ref_msg m) (U, s))" if "room cap 1 U s"
    using api_ref_ok [OF ok m that] by (elim exE conjE) (rule goodI, simp, simp)
  show "good (exec Q (Unref_msg m) (U, s))"
    using api_unref_ok [OF ok m] by (elim exE conjE) (rule goodI, simp, simp)
  show "good (exec Q (Set_rtopic m t) (U, s))"
    using api_set_rtopic_ok [OF ok m, of t] by (elim exE conjE) (rule goodI, simp add: on_heap_def, simp)
qed

lemma exec_messages:
  assumes ok: "broker_ok inv msgs U s"
  shows "allowed msgs cap (Make_msg t f args) (U, s) \<Longrightarrow> good (exec Q (Make_msg t f args) (U, s))"
    and "allowed msgs cap (Dup_msg m) (U, s) \<Longrightarrow> good (exec Q (Dup_msg m) (U, s))"
    and "allowed msgs cap (Publish m) (U, s) \<Longrightarrow> good (exec Q (Publish m) (U, s))"
proof -
  show "good (exec Q (Make_msg t f args) (U, s))" if a: "allowed msgs cap (Make_msg t f args) (U, s)"
  proof -
    from a have "va_ok (f AND PS_MSK_TYP) args (g_heap s)" by simp
    from api_new_msg_ok [OF ok this, of t] show ?thesis by (elim exE conjE) (rule goodI, simp, simp)
  qed
  show "good (exec Q (Dup_msg m) (U, s))" if a: "allowed msgs cap (Dup_msg m) (U, s)"
  proof -
    from a obtain mm where mm: "mh_msgs (g_heap s) m = Some mm" by (auto split: option.splits)
    have "\<exists>p sz d bs. m_val mm = V_buf p sz d \<and> mh_bufs (g_heap s) p = Some bs \<and> unat sz \<le> length bs"
      if "msg_typ mm = PS_BUF_TYP"
      using a mm that by (auto split: mval.splits option.splits)
    then obtain h where "ps_dup_msg m (g_heap s) = Some (mh_brk (g_heap s), h)"
      "broker_ok inv msgs (U(mh_brk (g_heap s) := 1)) (s\<lparr>g_heap := h\<rparr>)" using api_dup_msg_ok [OF ok mm] by blast
    then show ?thesis by (intro goodI) simp_all
  qed
  show "good (exec Q (Publish m) (U, s))" if a: "allowed msgs cap (Publish m) (U, s)"
  proof -
    from a obtain mm t where mm: "mh_msgs (g_heap s) m = Some mm" "m_topic mm = Some t" "NUL \<notin> set t"
      by (auto split: option.splits)
    from a have m: "0 < U m" "room cap 2 U s" by simp_all
    from ps_publish_run [OF ok m(1) mm m(2)] show ?thesis by (elim exE conjE) (rule goodI, simp, simp)
  qed
qed

lemma exec_receive:
  assumes ok: "broker_ok inv msgs U s"
  shows "allowed msgs cap (Get su t) (U, s) \<Longrightarrow> good (exec Q (Get su t) (U, s))"
    and "su \<in> dom (g_subs s) \<Longrightarrow> good (exec Q (Flush su) (U, s))"
    and "good (exec Q (Clean_sticky p) (U, s))"
proof -
  show "good (exec Q (Get su t) (U, s))" if a: "allowed msgs cap (Get su t) (U, s)"
  proof -
    from a obtain u where u: "g_subs s su = Some u" by (auto split: option.splits)
    show ?thesis
    proof (cases "msgs (su_q u)")
      case Nil
      then have "\<not> pull_timeout t <s 0" using a u by simp
      from ps_get_none [OF ok u Nil this] show ?thesis using ok by (intro goodI) simp_all
    next
      case (Cons m ms)
      from ps_get_some [OF ok u Cons, of t] show ?thesis by (elim exE conjE) (rule goodI, simp, simp)
    qed
  qed
  show "good (exec Q (Flush su) (U, s))" if a: "su \<in> dom (g_subs s)"
  proof -
    from a obtain u where u: "g_subs s su = Some u" by auto
    from ps_flush_ok [OF ok u] show ?thesis by (elim exE conjE) (rule goodI, simp, simp)
  qed
  show "good (exec Q (Clean_sticky p) (U, s))"
    using ps_clean_sticky_ok [OF ok, of p] by (elim exE conjE) (rule goodI, simp, simp)
qed

lemma exec_accessors:
  assumes ok: "broker_ok inv msgs U s" and u: "su \<in> dom (g_subs s)"
  shows "good (exec Q (Set_new_msg_cb su cb) (U, s))" "good (exec Q (Set_non_empty_cb su cb) (U, s))"
    "good (exec Q (Overflow su) (U, s))" "good (exec Q (User_data su d) (U, s))"
proof -
  obtain u where u: "g_subs s su = Some u" using u by auto
  show "good (exec Q (Set_new_msg_cb su cb) (U, s))"
    using ps_set_new_msg_cb_ok [OF ok u, of cb] by (elim exE conjE) (rule goodI, simp, simp)
  show "good (exec Q (Set_non_empty_cb su cb) (U, s))"
    using ps_set_non_empty_cb_ok [OF ok u, of cb] by (elim exE conjE) (rule goodI, simp, simp)
  show "good (exec Q (Overflow su) (U, s))"
    using ps_overflow_ok [OF ok u] by (elim conjE) (rule goodI, simp, simp)
  show "good (exec Q (User_data su d) (U, s))"
    using ps_user_data_ok [OF ok u, of d] by (elim exE conjE) (rule goodI, simp, simp)
qed

lemma exec_subs_count: "broker_ok inv msgs U s \<Longrightarrow> t \<noteq> [] \<Longrightarrow> good (exec Q (Subs_count t) (U, s))"
  using ps_subs_count_ok [of inv msgs U s t] by (intro goodI) simp_all

lemma exec_good:
  assumes ok: "broker_ok inv msgs U s" and a: "allowed msgs cap c (U, s)"
  shows "good (exec Q c (U, s))"
  using a exec_subscriber [OF ok] exec_subscribe [OF ok] exec_unsubscribe [OF ok] exec_messages [OF ok]
    exec_receive [OF ok] exec_accessors [OF ok] exec_refs [OF ok] exec_subs_count [OF ok]
  by (cases c) (simp_all del: exec.simps)

lemma reachable_broker_ok: "reachable Q msgs cap x \<Longrightarrow> broker_ok inv msgs (fst x) (snd x)"
proof (induction rule: reachable.induct)
  case start
  show ?case using broker_ok_start by simp
next
  case (step x c y)
  then have "good (exec Q c x)" "exec Q c x = Some y"
    using exec_good [of "fst x" "snd x" c] by (simp_all add: api_step_iff)
  then show ?case by (auto simp: good_def)
qed

lemma reachable_progress:
  assumes "reachable Q msgs cap x" and "allowed msgs cap c x"
  shows "\<exists>y. api_step Q msgs cap c x y"
  using exec_good [of "fst x" "snd x" c] reachable_broker_ok [OF assms(1)] assms(2)
  by (auto simp: good_def api_step_iff)

end

section \<open>No leaks, no ill-typed reads\<close>

text \<open>Without subscribers, sticky messages and references of user code the store is empty.\<close>

lemma no_leak:
  assumes ok: "broker_ok qi msgs U s" and su: "g_subs s = Map.empty" and st: "\<And>x t. topic_at s x = Some t \<Longrightarrow> tm_sticky t = NULL"
    and user: "\<And>m. U m = 0"
  shows "mh_msgs (g_heap s) = Map.empty \<and> g_tms s = Map.empty \<and> ps_stats_live_msg (g_heap s) = 0 \<and> ps_stats_live_subscribers s = 0"
proof -
  note b = broker_ok_D [OF ok] and heap = broker_ok_heap [OF ok]
  have tms: "g_tms s = Map.empty"
  proof (rule ccontr)
    assume "g_tms s \<noteq> Map.empty"
    then obtain a t where t: "g_tms s a = Some t" by (metis not_None_eq)
    have T: "topic_at s (tm_topic t) = Some t" by (rule topic_at_tm [OF b(5) t])
    then have "needed t" "tm_sticky t = NULL" using st [OF T] b(2) t unfolding all_needed_def by blast+
    then have "tm_subscribers t \<noteq> []" by (simp add: needed_def)
    then obtain sl where sl: "sl \<in> set (tm_subscribers t)" by (cases "tm_subscribers t") auto
    have "sls_ok s (subs_at (topic_at s) (tm_topic t))" by (rule subs_at_ok [OF b(5)])
    then show False using sl T su by (auto simp: sls_ok_def subs_at_def)
  qed
  have "held msgs s m = 0" for m by (simp add: held_def tms su hsum_def)
  then have "mh_msgs (g_heap s) m = None" for m using heap_ok_D(4) [OF heap, of m] user by (metis add_0 less_irrefl not_None_eq)
  then have ms: "mh_msgs (g_heap s) = Map.empty" by (rule ext)
  moreover have "mh_live (g_heap s) = 0" using heap_ok_D(1) [OF heap] by (simp add: mheap_ok_def ms)
  moreover have "g_stat_live_subscribers s = 0" using b(4) su by simp
  ultimately show ?thesis using tms by (simp add: ps_stats_live_msg_def ps_stats_live_subscribers_def)
qed

lemma ps_deinit_ok: "broker_ok qi msgs U s \<Longrightarrow> ps_deinit s = Some NULL"
  using broker_ok_D(3) [of qi msgs U s] by (simp add: ps_deinit_def mutex_destroy_def)

text \<open>Reading a message by type never reads the wrong member of the union.\<close>

lemma live_values:
  assumes ok: "broker_ok qi msgs U s" and m: "mh_msgs (g_heap s) a = Some m"
  shows "ps_msg_value_double a (g_heap s) \<noteq> None \<and> ps_msg_value_bool a (g_heap s) \<noteq> None
      \<and> (msg_typ m \<noteq> PS_DBL_TYP \<longrightarrow> ps_msg_value_int a (g_heap s) \<noteq> None)"
proof -
  note heap = broker_ok_heap [OF ok]
  have "mheap_wf (g_heap s)" using heap_ok_D(1) [OF heap] by (simp add: mheap_ok_def)
  then have tag: "tag_ok (msg_typ m) (m_val m)" by (rule mheap_wf_tag [OF _ m])
  note defs = ps_msg_value_double_def ps_msg_value_bool_def ps_msg_value_int_def tag_ok_def
  show ?thesis
  proof (intro conjI impI)
    show "ps_msg_value_double a (g_heap s) \<noteq> None" using tag m by (auto simp: defs)
    show "ps_msg_value_bool a (g_heap s) \<noteq> None" using tag m by (auto simp: defs)
    show "ps_msg_value_int a (g_heap s) \<noteq> None" if "msg_typ m \<noteq> PS_DBL_TYP" using tag m that by (auto simp: defs)
  qed
qed

section \<open>A subscriber without topics\<close>

context msg_queue
begin

lemma ps_new_subscriber_none:
  assumes ok: "broker_ok inv msgs U s" and n: "n \<le> SEM_VALUE_MAX"
  shows "\<exists>s' u. ps_new_subscriber Q n None s = Some (g_next s, s') \<and> broker_ok inv msgs U s'
      \<and> g_subs s' = (g_subs s)(g_next s \<mapsto> u) \<and> g_subs s (g_next s) = None \<and> inv (su_q u) \<and> msgs (su_q u) = [] \<and> cap (su_q u) = n
      \<and> su_overflow u = 0 \<and> su_new_msg_cb u = None \<and> su_non_empty_cb u = None
      \<and> g_tms s' = g_tms s \<and> g_heap s' = g_heap s \<and> topic_at s' = topic_at s \<and> g_next s' = g_next s + 1"
proof -
  obtain q where q: "q_new Q n = Some q" "inv q" "msgs q = []" "cap q = n" using new [OF n] by blast
  define u where "u = \<lparr>su_q = q, su_subs = [], su_overflow = 0, su_new_msg_cb = None, su_non_empty_cb = None, su_userData = NULL\<rparr>"
  have uf: "su_q u = q" "su_subs u = []" "su_overflow u = 0" "su_new_msg_cb u = None" "su_non_empty_cb u = None" by (simp_all add: u_def)
  define s1 where "s1 = (put_su (g_next s) u s)\<lparr>g_next := g_next s + 1\<rparr>"
  have idle: "idle_ok inv msgs U s" using ok by (simp add: broker_ok_idle)
  have s1_ok: "idle_ok inv msgs U s1" "g_subs s (g_next s) = None" "topic_at s1 = topic_at s"
    using idle_ok_new_su [OF idle, of u] unfolding s1_def [symmetric] uf by (simp_all add: q(2,3))
  let ?s = "s1\<lparr>g_stat_live_subscribers := g_stat_live_subscribers s1 + 1\<rparr>"
  have run: "ps_new_subscriber Q n None s = Some (g_next s, ?s)"
    unfolding ps_new_subscriber_def ps_subscribe_many_def Let_def option.case q(1) Option.bind.simps
    unfolding u_def [symmetric] unfolding s1_def [symmetric] by simp
  have "card (dom (g_subs s1)) = Suc (card (dom (g_subs s)))"
    using core_ok_D(5) [OF broker_ok_D(1) [OF ok]] s1_ok(2) by (simp add: s1_def card_insert_if domIff)
  moreover have "g_stat_live_subscribers s1 = of_nat (card (dom (g_subs s)))" using ok by (simp add: s1_def broker_ok_def)
  ultimately have "g_stat_live_subscribers ?s = of_nat (card (dom (g_subs ?s)))" by simp
  moreover have "idle_ok inv msgs U ?s" using s1_ok(1) by (simp add: idle_ok_def all_needed_def)
  ultimately have "broker_ok inv msgs U ?s" by (simp add: broker_ok_idle)
  moreover have "topic_at ?s = topic_at s" unfolding s1_ok(3) [symmetric] by (rule topic_at_cong) simp_all
  ultimately show ?thesis
    using run s1_ok(2) uf q by (intro exI [of _ ?s] exI [of _ u]) (simp add: s1_def)
qed

end

end
