(* ===== verification/Broker_Call.thy ===== *)
theory Broker_Call
  imports Broker_Reach
begin

text \<open>
  \<open>ps_call\<close> and \<open>ps_wait_one\<close>: each makes a subscriber of its own, waits on it while other threads run
  (\<open>env\<close>), and frees it again. Under a rely condition on \<open>env\<close> (it keeps the invariant and leaves the
  private subscriber alone) a call returns the first message that came in, or null, and leaves no
  trace of the subscriber.
\<close>

unbundle bit_operations_syntax

lemma broker_ok_uuid [simp]: "broker_ok qi msgs U (s\<lparr>g_uuid_ctr := n\<rparr>) = broker_ok qi msgs U s"
  by (simp add: broker_ok_def all_needed_def)

lemma rtopic_facts: "take 31 (rtopic_of n) = rtopic_of n" "cut_topic (rtopic_of n) = rtopic_of n" "NUL \<notin> set (rtopic_of n)"
  using length_rtopic_of [of n] rtopic_of_chars [of n] by (simp_all add: cut_topic_id)

text \<open>What other threads may do while \<open>su\<close> waits.\<close>

definition rely :: "('q \<Rightarrow> bool) \<Rightarrow> ('q \<Rightarrow> addr list) \<Rightarrow> addr \<Rightarrow> (addr \<Rightarrow> nat) \<Rightarrow> (addr \<Rightarrow> nat) \<Rightarrow> ('q state \<Rightarrow> 'q state option) \<Rightarrow> bool" where
  "rely qi msgs su U V env \<longleftrightarrow>
     (\<forall>s. broker_ok qi msgs U s \<and> su \<in> dom (g_subs s) \<longrightarrow>
        (\<exists>s'. env s = Some s' \<and> broker_ok qi msgs V s' \<and> su \<in> dom (g_subs s')))"

definition received :: "('q \<Rightarrow> addr list) \<Rightarrow> addr \<Rightarrow> 'q state \<Rightarrow> addr" where
  "received msgs su s = (case g_subs s su of None \<Rightarrow> NULL | Some u \<Rightarrow> (case msgs (su_q u) of [] \<Rightarrow> NULL | m # _ \<Rightarrow> m))"

definition gain :: "addr \<Rightarrow> (addr \<Rightarrow> nat) \<Rightarrow> (addr \<Rightarrow> nat)" where
  "gain m U = (if m = NULL then U else U(m := U m + 1))"

text \<open>
  A call: the request goes out under a reply topic of its own, to which the private subscriber is
  subscribed; \<open>n\<close> is what \<open>ps_publish\<close> counts and \<open>s2\<close> the state after it.
\<close>

definition call_sent :: "'q qops \<Rightarrow> addr \<Rightarrow> 'q state \<Rightarrow> 'q state \<Rightarrow> int \<Rightarrow> 'q state \<Rightarrow> bool" where
  "call_sent Q m s s1 n s2 \<longleftrightarrow> (let x = rtopic_of (g_uuid_ctr s + 1) in
     (\<exists>h. ps_msg_set_rtopic m (Some x) (g_heap s) = Some h
        \<and> ps_new_subscriber Q 1 (Some [x]) (s\<lparr>g_heap := h, g_uuid_ctr := g_uuid_ctr s + 1\<rparr>) = Some (g_next s, s1))
     \<and> subscribed s1 (g_next s) = {x} \<and> ps_publish Q m s1 = Some (n, s2))"

context msg_queue
begin

text \<open>The wait on the private subscriber, and its end.\<close>

lemma get_free_ok:
  assumes ok: "broker_ok inv msgs U s" and su: "su \<in> dom (g_subs s)" and t: "\<not> pull_timeout t <s 0"
  shows "\<exists>s1 s2. ps_get Q su t s = Some (received msgs su s, s1) \<and> ps_free_subscriber Q su s1 = Some s2
      \<and> broker_ok inv msgs (gain (received msgs su s) U) s2 \<and> g_subs s2 = (g_subs s)(su := None)"
proof -
  obtain u where u: "g_subs s su = Some u" using su by auto
  have "\<exists>s1 u1. ps_get Q su t s = Some (received msgs su s, s1) \<and> broker_ok inv msgs (gain (received msgs su s) U) s1
      \<and> g_subs s1 = (g_subs s)(su \<mapsto> u1)"
  proof (cases "msgs (su_q u)")
    case Nil
    then have "received msgs su s = NULL" by (simp add: received_def u)
    moreover have "g_subs s = (g_subs s)(su \<mapsto> u)" using u by (simp add: fun_upd_idem)
    ultimately show ?thesis using ps_get_none [OF ok u Nil t] ok by (auto simp: gain_def)
  next
    case (Cons m ms)
    obtain q where q: "ps_get Q su t s = Some (m, put_su su (u\<lparr>su_q := q\<rparr>) s)" "m \<noteq> NULL"
      "broker_ok inv msgs (U(m := U m + 1)) (put_su su (u\<lparr>su_q := q\<rparr>) s)"
      using ps_get_some [OF ok u Cons, of t] by blast
    have "received msgs su s = m" by (simp add: received_def u Cons)
    then show ?thesis using q
      by (intro exI [of _ "put_su su (u\<lparr>su_q := q\<rparr>) s"] exI [of _ "u\<lparr>su_q := q\<rparr>"]) (simp add: gain_def)
  qed
  then obtain s1 u1 where s1: "ps_get Q su t s = Some (received msgs su s, s1)"
    "broker_ok inv msgs (gain (received msgs su s) U) s1" "g_subs s1 = (g_subs s)(su \<mapsto> u1)" by blast
  have u1: "g_subs s1 su = Some u1" by (simp add: s1(3))
  obtain s2 where s2: "ps_free_subscriber Q su s1 = Some s2" "broker_ok inv msgs (gain (received msgs su s) U) s2"
    "g_subs s2 = (g_subs s1)(su := None)"
    using ps_free_subscriber_ok [OF s1(2) u1] by blast
  then have "g_subs s2 = (g_subs s)(su := None)" by (simp add: s1(3))
  then show ?thesis using s1(1) s2(1,2) by blast
qed

lemma ps_wait_one_ok:
  assumes ok: "broker_ok inv msgs U s" and nul: "NUL \<notin> set topic" and room: "room cap 3 U s"
    and env: "rely inv msgs (g_next s) U V env" and t: "\<not> pull_timeout t <s 0"
  shows "\<exists>s1 s2 s'. ps_new_subscriber Q 1 (Some [topic]) s = Some (g_next s, s1) \<and> env s1 = Some s2
      \<and> ps_wait_one Q env topic t s = Some (received msgs (g_next s) s2, s')
      \<and> broker_ok inv msgs (gain (received msgs (g_next s) s2) V) s' \<and> g_subs s' = (g_subs s2)(g_next s := None)"
proof -
  have r: "room cap (1 + length [topic] + 1) U s" using room by (simp add: eval_nat_numeral)
  have sem: "1 \<le> SEM_VALUE_MAX" by (simp add: SEM_VALUE_MAX_def)
  have nuls: "\<forall>t\<in>set [topic]. NUL \<notin> set t" using nul by simp
  obtain s1 u where s1: "ps_new_subscriber Q 1 (Some [topic]) s = Some (g_next s, s1)" "broker_ok inv msgs U s1"
    "g_subs s1 (g_next s) = Some u"
    using ps_new_subscriber_ok [OF ok sem nuls r order_refl] by blast
  obtain s2 where s2: "env s1 = Some s2" "broker_ok inv msgs V s2" "g_next s \<in> dom (g_subs s2)"
    using env s1(2,3) unfolding rely_def by blast
  obtain s3 s4 where s4: "ps_get Q (g_next s) t s2 = Some (received msgs (g_next s) s2, s3)"
    "ps_free_subscriber Q (g_next s) s3 = Some s4" "broker_ok inv msgs (gain (received msgs (g_next s) s2) V) s4"
    "g_subs s4 = (g_subs s2)(g_next s := None)"
    using get_free_ok [OF s2(2,3) t] by blast
  have "ps_wait_one Q env topic t s = Some (received msgs (g_next s) s2, s4)"
    by (simp only: ps_wait_one_def s1(1) s2(1) s4(1,2) Option.bind.simps prod.case)
  then show ?thesis using s1(1) s2(1) s4(3,4) by blast
qed

lemma call_sent_run:
  assumes "call_sent Q m s s1 n s2"
  shows "ps_call Q env m timeout s = do {
      (ret_msg, t) \<leftarrow> (if n = 0 then Some (NULL, s2) else do { t \<leftarrow> env s2; ps_get Q (g_next s) timeout t });
      t \<leftarrow> ps_free_subscriber Q (g_next s) t;
      Some (ret_msg, t) }"
proof -
  let ?x = "rtopic_of (g_uuid_ctr s + 1)" and ?s = "s\<lparr>g_uuid_ctr := g_uuid_ctr s + 1\<rparr>"
  obtain h where h: "ps_msg_set_rtopic m (Some ?x) (g_heap s) = Some h"
    "ps_new_subscriber Q 1 (Some [?x]) (s\<lparr>g_heap := h, g_uuid_ctr := g_uuid_ctr s + 1\<rparr>) = Some (g_next s, s1)"
    and p: "ps_publish Q m s1 = Some (n, s2)"
    using assms unfolding call_sent_def Let_def by blast
  have x: "take 31 (rtopic_of (g_uuid_ctr ?s)) = ?x" using rtopic_facts(1) by simp
  have set: "on_heap (ps_msg_set_rtopic m (Some ?x)) ?s = Some (s\<lparr>g_heap := h, g_uuid_ctr := g_uuid_ctr s + 1\<rparr>)"
    using h(1) by (simp add: on_heap_def)
  show ?thesis
    unfolding ps_call_def Let_def x set Option.bind.simps h(2) prod.case p ..
qed

lemma ps_call_sent:
  assumes ok: "broker_ok inv msgs U s" and m: "0 < U m" and mm: "mh_msgs (g_heap s) m = Some mm"
    and topic: "m_topic mm = Some topic" "NUL \<notin> set topic" and room: "room cap 4 U s"
  shows "\<exists>s1 n s2. call_sent Q m s s1 n s2 \<and> broker_ok inv msgs (U(m := U m - 1)) s2 \<and> g_next s \<in> dom (g_subs s2)"
proof -
  let ?x = "rtopic_of (g_uuid_ctr s + 1)"
  obtain mm' h where h: "mh_msgs (g_heap s) m = Some mm'" "ps_msg_set_rtopic m (Some ?x) (g_heap s) = Some h"
    "h = put_msg m (mm'\<lparr>m_rtopic := Some ?x\<rparr>) (g_heap s)" "broker_ok inv msgs U (s\<lparr>g_heap := h\<rparr>)"
    using api_set_rtopic_ok [OF ok m] by blast
  let ?s = "s\<lparr>g_heap := h, g_uuid_ctr := g_uuid_ctr s + 1\<rparr>"
  have ok0: "broker_ok inv msgs U ?s" using h(4) by simp
  have sem: "1 \<le> SEM_VALUE_MAX" by (simp add: SEM_VALUE_MAX_def)
  have nuls: "\<forall>t\<in>set [?x]. NUL \<notin> set t" using rtopic_facts(3) by simp
  have r: "room cap (1 + length [?x] + 2) U ?s" by (rule room_mono [OF room]) simp_all
  obtain s1 u where s1: "ps_new_subscriber Q 1 (Some [?x]) ?s = Some (g_next ?s, s1)" "broker_ok inv msgs U s1"
    "g_subs s1 (g_next ?s) = Some u" "same_content (g_heap ?s) (g_heap s1)" "room cap 2 U s1"
    "\<forall>su. subscribed s1 su = (if su = g_next ?s then cut_topic ` set [?x] else subscribed ?s su)"
    using ps_new_subscriber_ok [OF ok0 sem nuls r] by auto
  obtain m1 where m1: "mh_msgs (g_heap s1) m = Some m1" using user_msg_live [OF broker_ok_D(1) [OF s1(2)] m] by blast
  have m0: "mh_msgs (g_heap ?s) m = Some (mm'\<lparr>m_rtopic := Some ?x\<rparr>)" by (simp add: h(3))
  have "m_topic m1 = m_topic (mm'\<lparr>m_rtopic := Some ?x\<rparr>)" by (rule same_content_flags [OF s1(4) m0 m1])
  then have t1: "m_topic m1 = Some topic" using h(1) mm topic(1) by simp
  obtain n s2 h' where s2: "ps_publish Q m s1 = Some (int n, s2\<lparr>g_heap := h', g_lock := False\<rparr>)"
    "broker_ok inv msgs (U(m := U m - 1)) (s2\<lparr>g_heap := h', g_lock := False\<rparr>)" "keeps cap s2 = keeps cap s1"
    using ps_publish_run [OF s1(2) m m1 t1 topic(2) s1(5)] by blast
  let ?t = "s2\<lparr>g_heap := h', g_lock := False\<rparr>"
  have "subscribed s1 (g_next s) = {?x}" using s1(6) rtopic_facts(2) by simp
  then have "call_sent Q m s s1 (int n) ?t"
    unfolding call_sent_def Let_def using h(2) s1(1) s2(1) by auto
  moreover have "g_next s \<in> dom (g_subs ?t)" using keeps_dom [OF s2(3)] s1(3) by auto
  ultimately show ?thesis using s2(2) by blast
qed

lemma ps_call_unheard:
  assumes ok: "broker_ok inv msgs V s2" and su: "g_next s \<in> dom (g_subs s2)" and sent: "call_sent Q m s s1 0 s2"
  shows "\<exists>s'. ps_call Q env m t s = Some (NULL, s') \<and> broker_ok inv msgs V s' \<and> g_subs s' = (g_subs s2)(g_next s := None)"
proof -
  obtain u where u: "g_subs s2 (g_next s) = Some u" using su by auto
  show ?thesis
    using ps_free_subscriber_ok [OF ok u] unfolding call_sent_run [OF sent] by (elim exE conjE) simp
qed

lemma ps_call_heard:
  assumes ok: "broker_ok inv msgs U s2" and su: "g_next s \<in> dom (g_subs s2)" and sent: "call_sent Q m s s1 n s2" "n \<noteq> 0"
    and env: "rely inv msgs (g_next s) U V env" and t: "\<not> pull_timeout t <s 0"
  shows "\<exists>s3 s'. env s2 = Some s3 \<and> ps_call Q env m t s = Some (received msgs (g_next s) s3, s')
      \<and> broker_ok inv msgs (gain (received msgs (g_next s) s3) V) s' \<and> g_subs s' = (g_subs s3)(g_next s := None)"
proof -
  obtain s3 where s3: "env s2 = Some s3" "broker_ok inv msgs V s3" "g_next s \<in> dom (g_subs s3)"
    using env ok su unfolding rely_def by blast
  obtain s4 s5 where s5: "ps_get Q (g_next s) t s3 = Some (received msgs (g_next s) s3, s4)"
    "ps_free_subscriber Q (g_next s) s4 = Some s5" "broker_ok inv msgs (gain (received msgs (g_next s) s3) V) s5"
    "g_subs s5 = (g_subs s3)(g_next s := None)"
    using get_free_ok [OF s3(2,3) t] by blast
  have "ps_call Q env m t s = Some (received msgs (g_next s) s3, s5)"
    unfolding call_sent_run [OF sent(1)] using sent(2) s3(1) s5(1,2) by simp
  then show ?thesis using s3(1) s5(3,4) by blast
qed

lemma ps_call_ok:
  assumes ok: "broker_ok inv msgs U s" and m: "0 < U m" and mm: "mh_msgs (g_heap s) m = Some mm"
    and topic: "m_topic mm = Some topic" "NUL \<notin> set topic" and room: "room cap 4 U s"
    and env: "rely inv msgs (g_next s) (U(m := U m - 1)) V env" and t: "\<not> pull_timeout t <s 0"
  shows "\<exists>r s' W. ps_call Q env m t s = Some (r, s') \<and> broker_ok inv msgs (gain r W) s' \<and> W \<in> {U(m := U m - 1), V}
      \<and> g_next s \<notin> dom (g_subs s')"
proof -
  obtain s1 n s2 where s2: "call_sent Q m s s1 n s2" "broker_ok inv msgs (U(m := U m - 1)) s2" "g_next s \<in> dom (g_subs s2)"
    using ps_call_sent [OF ok m mm topic room] by blast
  show ?thesis
  proof (cases "n = 0")
    case True
    have sent: "call_sent Q m s s1 0 s2" using s2(1) True by simp
    obtain s' where "ps_call Q env m t s = Some (NULL, s')" "broker_ok inv msgs (U(m := U m - 1)) s'"
      "g_subs s' = (g_subs s2)(g_next s := None)" using ps_call_unheard [OF s2(2,3) sent] by blast
    then show ?thesis by (intro exI [of _ NULL] exI [of _ s'] exI [of _ "U(m := U m - 1)"]) (simp add: gain_def)
  next
    case False
    obtain s3 s' where "ps_call Q env m t s = Some (received msgs (g_next s) s3, s')"
      "broker_ok inv msgs (gain (received msgs (g_next s) s3) V) s'" "g_subs s' = (g_subs s3)(g_next s := None)"
      using ps_call_heard [OF s2(2,3,1) False env t] by blast
    then show ?thesis by (intro exI [of _ "received msgs (g_next s) s3"] exI [of _ s'] exI [of _ V]) simp
  qed
qed

end

end
