(* ===== verification/Pubsub_Macros.thy ===== *)
theory Pubsub_Macros
  imports Broker_Call
begin

text \<open>
  The macros of \<open>src/pubsub.h\<close> that make a message and publish it or call with it in one expression, and the tests of the
  origin flags. An argument of a macro has the type that the macro casts it to.
\<close>

unbundle bit_operations_syntax

section \<open>Making and publishing\<close>

text \<open>\<open>ps_publish(ps_new_msg(...))\<close> and \<open>ps_call(ps_new_msg(...), timeout)\<close>.\<close>

definition publish_new :: "'q qops \<Rightarrow> string option \<Rightarrow> u32 \<Rightarrow> va list \<Rightarrow> 'q state \<Rightarrow> (int \<times> 'q state) option" where
  "publish_new Q topic flags args s = do {
     (m, h) \<leftarrow> ps_new_msg topic flags args (g_heap s);
     ps_publish Q m (s\<lparr>g_heap := h\<rparr>) }"

definition call_new ::
    "'q qops \<Rightarrow> ('q state \<Rightarrow> 'q state option) \<Rightarrow> string option \<Rightarrow> u32 \<Rightarrow> va list \<Rightarrow> i64 \<Rightarrow> 'q state \<Rightarrow> (addr \<times> 'q state) option" where
  "call_new Q env topic flags args timeout s = do {
     (m, h) \<leftarrow> ps_new_msg topic flags args (g_heap s);
     ps_call Q env m timeout (s\<lparr>g_heap := h\<rparr>) }"

definition PS_PUB_INT_FL :: "'q qops \<Rightarrow> string option \<Rightarrow> i64 \<Rightarrow> u32 \<Rightarrow> 'q state \<Rightarrow> (int \<times> 'q state) option" where
  "PS_PUB_INT_FL Q topic val fl s = publish_new Q topic (fl OR PS_INT_TYP) [VA_int64 val] s"

definition PS_PUB_DBL_FL :: "'q qops \<Rightarrow> string option \<Rightarrow> dbl \<Rightarrow> u32 \<Rightarrow> 'q state \<Rightarrow> (int \<times> 'q state) option" where
  "PS_PUB_DBL_FL Q topic val fl s = publish_new Q topic (fl OR PS_DBL_TYP) [VA_double val] s"

definition PS_PUB_PTR_FL :: "'q qops \<Rightarrow> string option \<Rightarrow> addr \<Rightarrow> u32 \<Rightarrow> 'q state \<Rightarrow> (int \<times> 'q state) option" where
  "PS_PUB_PTR_FL Q topic val fl s = publish_new Q topic (fl OR PS_PTR_TYP) [VA_ptr val] s"

definition PS_PUB_STR_FL :: "'q qops \<Rightarrow> string option \<Rightarrow> string option \<Rightarrow> u32 \<Rightarrow> 'q state \<Rightarrow> (int \<times> 'q state) option" where
  "PS_PUB_STR_FL Q topic val fl s = publish_new Q topic (fl OR PS_STR_TYP) [VA_str val] s"

definition PS_PUB_BOOL_FL :: "'q qops \<Rightarrow> string option \<Rightarrow> i32 \<Rightarrow> u32 \<Rightarrow> 'q state \<Rightarrow> (int \<times> 'q state) option" where
  "PS_PUB_BOOL_FL Q topic val fl s = publish_new Q topic (fl OR PS_BOOL_TYP) [VA_int val] s"

definition PS_PUB_BUF_FL :: "'q qops \<Rightarrow> string option \<Rightarrow> addr \<Rightarrow> u64 \<Rightarrow> dtor option \<Rightarrow> u32 \<Rightarrow> 'q state \<Rightarrow> (int \<times> 'q state) option" where
  "PS_PUB_BUF_FL Q topic ptr sz dtor fl s = publish_new Q topic (fl OR PS_BUF_TYP) [VA_ptr ptr, VA_size sz, VA_dtor dtor] s"

definition PS_PUB_ERR_FL :: "'q qops \<Rightarrow> string option \<Rightarrow> i32 \<Rightarrow> string option \<Rightarrow> u32 \<Rightarrow> 'q state \<Rightarrow> (int \<times> 'q state) option" where
  "PS_PUB_ERR_FL Q topic i desc fl s = publish_new Q topic (fl OR PS_ERR_TYP) [VA_int i, VA_str desc] s"

definition PS_PUB_NIL_FL :: "'q qops \<Rightarrow> string option \<Rightarrow> u32 \<Rightarrow> 'q state \<Rightarrow> (int \<times> 'q state) option" where
  "PS_PUB_NIL_FL Q topic fl s = publish_new Q topic (fl OR PS_NIL_TYP) [] s"

text \<open>Without flags.\<close>

definition PS_PUB_INT :: "'q qops \<Rightarrow> string option \<Rightarrow> i64 \<Rightarrow> 'q state \<Rightarrow> (int \<times> 'q state) option" where
  "PS_PUB_INT Q topic val s = PS_PUB_INT_FL Q topic val 0 s"

definition PS_PUB_DBL :: "'q qops \<Rightarrow> string option \<Rightarrow> dbl \<Rightarrow> 'q state \<Rightarrow> (int \<times> 'q state) option" where
  "PS_PUB_DBL Q topic val s = PS_PUB_DBL_FL Q topic val 0 s"

definition PS_PUB_PTR :: "'q qops \<Rightarrow> string option \<Rightarrow> addr \<Rightarrow> 'q state \<Rightarrow> (int \<times> 'q state) option" where
  "PS_PUB_PTR Q topic val s = PS_PUB_PTR_FL Q topic val 0 s"

definition PS_PUB_STR :: "'q qops \<Rightarrow> string option \<Rightarrow> string option \<Rightarrow> 'q state \<Rightarrow> (int \<times> 'q state) option" where
  "PS_PUB_STR Q topic val s = PS_PUB_STR_FL Q topic val 0 s"

definition PS_PUB_BOOL :: "'q qops \<Rightarrow> string option \<Rightarrow> i32 \<Rightarrow> 'q state \<Rightarrow> (int \<times> 'q state) option" where
  "PS_PUB_BOOL Q topic val s = PS_PUB_BOOL_FL Q topic val 0 s"

definition PS_PUB_BUF :: "'q qops \<Rightarrow> string option \<Rightarrow> addr \<Rightarrow> u64 \<Rightarrow> dtor option \<Rightarrow> 'q state \<Rightarrow> (int \<times> 'q state) option" where
  "PS_PUB_BUF Q topic ptr sz dtor s = PS_PUB_BUF_FL Q topic ptr sz dtor 0 s"

definition PS_PUB_ERR :: "'q qops \<Rightarrow> string option \<Rightarrow> i32 \<Rightarrow> string option \<Rightarrow> 'q state \<Rightarrow> (int \<times> 'q state) option" where
  "PS_PUB_ERR Q topic i desc s = PS_PUB_ERR_FL Q topic i desc 0 s"

definition PS_PUB_NIL :: "'q qops \<Rightarrow> string option \<Rightarrow> 'q state \<Rightarrow> (int \<times> 'q state) option" where
  "PS_PUB_NIL Q topic s = PS_PUB_NIL_FL Q topic 0 s"

text \<open>Calls; there is no macro for errors.\<close>

definition PS_CALL_INT ::
    "'q qops \<Rightarrow> ('q state \<Rightarrow> 'q state option) \<Rightarrow> string option \<Rightarrow> i64 \<Rightarrow> i64 \<Rightarrow> 'q state \<Rightarrow> (addr \<times> 'q state) option" where
  "PS_CALL_INT Q env topic val timeout s = call_new Q env topic PS_INT_TYP [VA_int64 val] timeout s"

definition PS_CALL_DBL ::
    "'q qops \<Rightarrow> ('q state \<Rightarrow> 'q state option) \<Rightarrow> string option \<Rightarrow> dbl \<Rightarrow> i64 \<Rightarrow> 'q state \<Rightarrow> (addr \<times> 'q state) option" where
  "PS_CALL_DBL Q env topic val timeout s = call_new Q env topic PS_DBL_TYP [VA_double val] timeout s"

definition PS_CALL_PTR ::
    "'q qops \<Rightarrow> ('q state \<Rightarrow> 'q state option) \<Rightarrow> string option \<Rightarrow> addr \<Rightarrow> i64 \<Rightarrow> 'q state \<Rightarrow> (addr \<times> 'q state) option" where
  "PS_CALL_PTR Q env topic val timeout s = call_new Q env topic PS_PTR_TYP [VA_ptr val] timeout s"

definition PS_CALL_STR ::
    "'q qops \<Rightarrow> ('q state \<Rightarrow> 'q state option) \<Rightarrow> string option \<Rightarrow> string option \<Rightarrow> i64 \<Rightarrow> 'q state \<Rightarrow> (addr \<times> 'q state) option" where
  "PS_CALL_STR Q env topic val timeout s = call_new Q env topic PS_STR_TYP [VA_str val] timeout s"

definition PS_CALL_BOOL ::
    "'q qops \<Rightarrow> ('q state \<Rightarrow> 'q state option) \<Rightarrow> string option \<Rightarrow> i32 \<Rightarrow> i64 \<Rightarrow> 'q state \<Rightarrow> (addr \<times> 'q state) option" where
  "PS_CALL_BOOL Q env topic val timeout s = call_new Q env topic PS_BOOL_TYP [VA_int val] timeout s"

definition PS_CALL_BUF ::
    "'q qops \<Rightarrow> ('q state \<Rightarrow> 'q state option) \<Rightarrow> string option \<Rightarrow> addr \<Rightarrow> u64 \<Rightarrow> dtor option \<Rightarrow> i64 \<Rightarrow> 'q state \<Rightarrow> (addr \<times> 'q state) option" where
  "PS_CALL_BUF Q env topic ptr sz dtor timeout s = call_new Q env topic PS_BUF_TYP [VA_ptr ptr, VA_size sz, VA_dtor dtor] timeout s"

definition PS_CALL_NIL ::
    "'q qops \<Rightarrow> ('q state \<Rightarrow> 'q state option) \<Rightarrow> string option \<Rightarrow> i64 \<Rightarrow> 'q state \<Rightarrow> (addr \<times> 'q state) option" where
  "PS_CALL_NIL Q env topic timeout s = call_new Q env topic PS_NIL_TYP [] timeout s"

section \<open>Where a message comes from\<close>

definition has_flag :: "u32 \<Rightarrow> addr \<Rightarrow> mheap \<Rightarrow> bool option" where
  "has_flag f a h = (if a = NULL then Some False else do { m \<leftarrow> mh_msgs h a; Some (m_flags m AND f \<noteq> 0) })"

definition PS_IS_EXTERNAL :: "addr \<Rightarrow> mheap \<Rightarrow> bool option" where "PS_IS_EXTERNAL = has_flag PS_FL_EXTERNAL"
definition PS_IS_UNTRUSTED :: "addr \<Rightarrow> mheap \<Rightarrow> bool option" where "PS_IS_UNTRUSTED = has_flag PS_FL_UNTRUSTED"

definition PS_MSK_FL :: u32 where "PS_MSK_FL = 0xFF"

section \<open>Encodings of buffers and flags of topic strings\<close>

definition PS_RAW_ENC :: u32 where "PS_RAW_ENC = 0"
definition PS_MSGPACK_ENC :: u32 where "PS_MSGPACK_ENC = 0x10000"
definition PS_JSON_ENC :: u32 where "PS_JSON_ENC = 0x20000"
definition PS_BSON_ENC :: u32 where "PS_BSON_ENC = 0x30000"
definition PS_YAML_ENC :: u32 where "PS_YAML_ENC = 0x40000"
definition PS_PROTOBUF_ENC :: u32 where "PS_PROTOBUF_ENC = 0x50000"
definition PS_XML_ENC :: u32 where "PS_XML_ENC = 0x60000"

lemmas enc_defs = PS_RAW_ENC_def PS_MSGPACK_ENC_def PS_JSON_ENC_def PS_BSON_ENC_def PS_YAML_ENC_def PS_PROTOBUF_ENC_def PS_XML_ENC_def

text \<open>\<open>PS_SUB_PRIO\<close> takes the text of its argument.\<close>

definition PS_SUB_PRIO :: "string \<Rightarrow> string" where "PS_SUB_PRIO x = '' p'' @ x"
definition PS_SUB_HIDDEN :: string where "PS_SUB_HIDDEN = '' h''"
definition PS_SUB_EMPTY :: string where "PS_SUB_EMPTY = '' e''"
definition PS_SUB_NOSTICKY :: string where "PS_SUB_NOSTICKY = '' s''"
definition PS_SUB_CHILDSTICKY :: string where "PS_SUB_CHILDSTICKY = '' S''"

lemmas sub_defs = PS_SUB_PRIO_def PS_SUB_HIDDEN_def PS_SUB_EMPTY_def PS_SUB_NOSTICKY_def PS_SUB_CHILDSTICKY_def

section \<open>Lemmas\<close>

text \<open>Flags outside the type bits do not disturb the type that a macro adds; a type does not disturb the flags.\<close>

lemma typ_or:
  assumes "fl AND PS_MSK_TYP = 0" and "t AND PS_MSK_TYP = t"
  shows "(fl OR t) AND PS_MSK_TYP = t"
  using assms by (simp add: bit.conj_disj_distrib2)

lemma flag_or:
  assumes "t AND f = (0 :: u32)"
  shows "(fl OR t) AND f = fl AND f"
  using assms by (simp add: bit.conj_disj_distrib2)

lemma typ_flags: "t \<in> value_typs \<Longrightarrow> t AND PS_FL_NONRECURSIVE = 0 \<and> t AND PS_FL_STICKY = 0 \<and> t AND PS_FL_EXTERNAL = 0 \<and> t AND PS_FL_UNTRUSTED = 0"
  by (auto simp: value_typs_def typ_defs flag_defs)

lemma same_content_D:
  assumes "same_content h h'" and "mh_msgs h a = Some m" and "mh_msgs h' a = Some m'"
  shows "m_topic m' = m_topic m \<and> m_rtopic m' = m_rtopic m \<and> m_flags m' = m_flags m \<and> m_priority m' = m_priority m \<and> m_val m' = m_val m"
proof -
  obtain m0 r where "mh_msgs h a = Some m0" "m' = m0\<lparr>m_ref := r\<rparr>" using assms(1,3) unfolding same_content_def by blast
  then show ?thesis using assms(2) by simp
qed

context msg_queue
begin

text \<open>A message that is made and published at once: no reference to it is left over with user code.\<close>

lemma publish_new_lossless:
  assumes ok: "broker_ok inv msgs U s" and va: "va_ok (f AND PS_MSK_TYP) args (g_heap s)" and nul: "NUL \<notin> set topic"
    and room: "room cap 3 U s" and sls: "sls = publish_targets (topic_at s) (f AND PS_FL_NONRECURSIVE = 0) (cut_topic topic)"
    and oe: "\<forall>sl\<in>set sls. \<not> sl_on_empty sl"
    and fits: "\<And>su u. g_subs s su = Some u \<Longrightarrow> length (msgs (su_q u)) + count_list (map sl_su sls) su \<le> cap (su_q u)"
  shows "\<exists>m v s'. publish_new Q (Some topic) f args s = Some (int (length (filter (\<lambda>sl. \<not> sl_hidden sl) sls)), s')
      \<and> m \<noteq> NULL \<and> va_value (f AND PS_MSK_TYP) args v = Some v \<and> broker_ok inv msgs U s'
      \<and> (\<forall>su u. g_subs s su = Some u \<longrightarrow> (\<exists>u'. g_subs s' su = Some u' \<and> su_overflow u' = su_overflow u \<and>
           mset (msgs (su_q u')) = mset (msgs (su_q u)) + replicate_mset (count_list (map sl_su sls) su) m))
      \<and> (\<forall>mm. mh_msgs (g_heap s') m = Some mm \<longrightarrow> m_topic mm = Some topic \<and> m_flags mm = f \<and> m_val mm = v)"
proof -
  let ?m = "mh_brk (g_heap s)" and ?U1 = "U(mh_brk (g_heap s) := 1)"
  obtain v h where h: "ps_new_msg (Some topic) f args (g_heap s) = Some (?m, h)"
    "mh_msgs h = (mh_msgs (g_heap s))(?m \<mapsto> \<lparr>m_ref = 1, m_topic = Some topic, m_rtopic = None, m_flags = f, m_priority = 0, m_val = v\<rparr>)"
    "va_value (f AND PS_MSK_TYP) args v = Some v" "heap_ok ((\<lambda>m. U m + held msgs s m)(?m := 1)) h"
    using ps_new_msg_ok [OF broker_ok_heap [OF ok] va, of topic] by blast
  let ?s = "s\<lparr>g_heap := h\<rparr>"
  let ?mm = "\<lparr>m_ref = 1, m_topic = Some topic, m_rtopic = None, m_flags = f, m_priority = 0, m_val = v\<rparr>"
  have ok1: "broker_ok inv msgs ?U1 ?s" by (rule user_new_ok [OF ok h(4)])
  have T: "topic_at ?s = topic_at s" by (rule topic_at_cong) simp_all
  have fresh: "U ?m = 0" using fresh_msg [OF ok] by simp
  then have bk: "?U1(?m := ?U1 ?m - 1) = U" by (auto simp: fun_eq_iff)
  have room1: "room cap 2 ?U1 ?s"
  proof -
    have "?U1 x + hsum (\<lambda>u. cap (su_q u)) (g_subs s) + card (dom (g_tms s)) + 2 < 2 ^ 32" for x
    proof -
      have "U x + hsum (\<lambda>u. cap (su_q u)) (g_subs s) + card (dom (g_tms s)) + 3 < 2 ^ 32" using room by (simp add: room_def)
      moreover have "?U1 x \<le> U x + 1" by simp
      ultimately show ?thesis by linarith
    qed
    then show ?thesis by (simp add: room_def)
  qed
  have pos: "0 < ?U1 ?m" by simp
  have mm: "mh_msgs (g_heap ?s) ?m = Some ?mm" by (simp add: h(2))
  have tp: "m_topic ?mm = Some topic" by simp
  have sls1: "sls = publish_targets (topic_at ?s) (m_flags ?mm AND PS_FL_NONRECURSIVE = 0) (cut_topic topic)" by (simp add: T sls)
  have fits1: "length (msgs (su_q u)) + count_list (map sl_su sls) su \<le> cap (su_q u)" if "g_subs ?s su = Some u" for su u
    using that fits by simp
  obtain s' where s': "ps_publish Q ?m ?s = Some (int (length (filter (\<lambda>sl. \<not> sl_hidden sl) sls)), s')" "broker_ok inv msgs U s'"
    "\<forall>su u. g_subs ?s su = Some u \<longrightarrow> (\<exists>u'. g_subs s' su = Some u' \<and> su_overflow u' = su_overflow u \<and>
           mset (msgs (su_q u')) = mset (msgs (su_q u)) + replicate_mset (count_list (map sl_su sls) su) ?m)"
    using ps_publish_lossless [OF ok1 pos mm tp nul room1 sls1 oe fits1] unfolding bk by blast
  obtain r s2 h2 where run: "ps_publish Q ?m ?s = Some (int r, s2\<lparr>g_heap := h2, g_lock := False\<rparr>)" "same_content (g_heap ?s) h2"
    using ps_publish_run [OF ok1 pos mm tp nul room1] by blast
  have "g_heap s' = h2" using s'(1) run(1) by auto
  then have "m_topic m' = Some topic \<and> m_flags m' = f \<and> m_val m' = v" if "mh_msgs (g_heap s') ?m = Some m'" for m'
    using same_content_D [OF run(2) mm] that by simp
  moreover have "publish_new Q (Some topic) f args s = ps_publish Q ?m ?s" by (simp add: publish_new_def h(1))
  moreover have "?m \<noteq> NULL" using broker_ok_user [OF ok1] by (auto split: if_splits)
  ultimately show ?thesis using s' h(3) by (intro exI [of _ ?m] exI [of _ v] exI [of _ s']) simp
qed

text \<open>A subscriber that waits with an empty queue receives what was published: its next pull is the new message.\<close>

lemma publish_new_get:
  assumes ok: "broker_ok inv msgs U s" and va: "va_ok (f AND PS_MSK_TYP) args (g_heap s)" and nul: "NUL \<notin> set topic"
    and room: "room cap 3 U s" and sls: "sls = publish_targets (topic_at s) (f AND PS_FL_NONRECURSIVE = 0) (cut_topic topic)"
    and oe: "\<forall>sl\<in>set sls. \<not> sl_on_empty sl"
    and fits: "\<And>su u. g_subs s su = Some u \<Longrightarrow> length (msgs (su_q u)) + count_list (map sl_su sls) su \<le> cap (su_q u)"
    and u: "g_subs s su = Some u" "msgs (su_q u) = []" "su \<in> sl_su ` set sls"
  shows "\<exists>s' m s'' mm. publish_new Q (Some topic) f args s = Some (int (length (filter (\<lambda>sl. \<not> sl_hidden sl) sls)), s')
      \<and> ps_get Q su t s' = Some (m, s'') \<and> broker_ok inv msgs (U(m := U m + 1)) s'' \<and> m \<noteq> NULL
      \<and> mh_msgs (g_heap s'') m = Some mm \<and> m_topic mm = Some topic \<and> m_flags mm = f
      \<and> va_value (f AND PS_MSK_TYP) args (m_val mm) = Some (m_val mm)"
proof -
  obtain m v s' where p: "publish_new Q (Some topic) f args s = Some (int (length (filter (\<lambda>sl. \<not> sl_hidden sl) sls)), s')"
    "va_value (f AND PS_MSK_TYP) args v = Some v" "broker_ok inv msgs U s'"
    "\<forall>su u. g_subs s su = Some u \<longrightarrow> (\<exists>u'. g_subs s' su = Some u' \<and> su_overflow u' = su_overflow u \<and>
           mset (msgs (su_q u')) = mset (msgs (su_q u)) + replicate_mset (count_list (map sl_su sls) su) m)"
    "\<forall>mm. mh_msgs (g_heap s') m = Some mm \<longrightarrow> m_topic mm = Some topic \<and> m_flags mm = f \<and> m_val mm = v"
    using publish_new_lossless [OF ok va nul room sls oe fits] by blast
  obtain u' where u': "g_subs s' su = Some u'" "mset (msgs (su_q u')) = replicate_mset (count_list (map sl_su sls) su) m"
    using p(4) u(1,2) by fastforce
  have cnt: "count_list (map sl_su sls) su \<noteq> 0" using u(3) by (simp add: count_list_0_iff)
  have "set (msgs (su_q u')) = set_mset (replicate_mset (count_list (map sl_su sls) su) m)"
    unfolding u'(2) [symmetric] by simp
  then have "set (msgs (su_q u')) = {m}" using cnt by simp
  then obtain ms where ms: "msgs (su_q u') = m # ms" by (cases "msgs (su_q u')") auto
  obtain s'' where g: "ps_get Q su t s' = Some (m, s'')" "g_heap s'' = g_heap s'" "broker_ok inv msgs (U(m := U m + 1)) s''" "m \<noteq> NULL"
    using ps_get_some [OF p(3) u'(1) ms, of t] by fastforce
  obtain mm where mm: "mh_msgs (g_heap s'') m = Some mm"
    using heap_ok_live [OF broker_ok_heap [OF g(3)], of m] by auto
  then show ?thesis using p(1,2,5) g by (intro exI [of _ s'] exI [of _ m] exI [of _ s''] exI [of _ mm]) simp
qed

end

text \<open>What a typed reader returns for the message that a macro made.\<close>

lemma va_ok_int: "va_ok PS_INT_TYP [VA_int64 val] h" and va_ok_dbl: "va_ok PS_DBL_TYP [VA_double d] h"
  and va_ok_bool: "va_ok PS_BOOL_TYP [VA_int b] h" and va_ok_ptr: "va_ok PS_PTR_TYP [VA_ptr p] h"
  and va_ok_str: "va_ok PS_STR_TYP [VA_str (Some x)] h" and va_ok_err: "va_ok PS_ERR_TYP [VA_int i, VA_str (Some x)] h"
  and va_ok_nil: "va_ok PS_NIL_TYP [] h"
  by (simp_all add: va_ok_def va_value_def typ_defs strdup_def)

lemma has_flag_read: "m \<noteq> NULL \<Longrightarrow> mh_msgs h m = Some mm \<Longrightarrow> has_flag f m h = Some (m_flags mm AND f \<noteq> 0)"
  by (simp add: has_flag_def)

text \<open>An encoding does not change the type of a message.\<close>

lemma enc_typ: "enc \<in> {PS_RAW_ENC, PS_MSGPACK_ENC, PS_JSON_ENC, PS_BSON_ENC, PS_YAML_ENC, PS_PROTOBUF_ENC, PS_XML_ENC} \<Longrightarrow>
   enc AND PS_MSK_ENC = enc \<and> (enc OR PS_BUF_TYP) AND PS_MSK_TYP = PS_BUF_TYP"
  by (auto simp: enc_defs msk_defs typ_defs)

text \<open>The flag strings, appended to a topic one after the other, set what they name.\<close>

lemma sub_cut: "SPACE \<notin> set t \<Longrightarrow> cut_topic (t @ SPACE # r) = t \<and> flag_chars (t @ SPACE # r) = r"
  by (induction t) (auto simp: cut_topic_def flag_chars_def)

lemma sub_macros:
  assumes "SPACE \<notin> set t" and "d \<in> set ''0123456789''"
  shows "cut_topic (t @ PS_SUB_PRIO [d] @ PS_SUB_HIDDEN @ PS_SUB_EMPTY @ PS_SUB_NOSTICKY @ PS_SUB_CHILDSTICKY) = t"
    and "parse_flags (flag_chars (t @ PS_SUB_PRIO [d] @ PS_SUB_HIDDEN @ PS_SUB_EMPTY @ PS_SUB_NOSTICKY @ PS_SUB_CHILDSTICKY)) f =
      \<lparr>fl_hidden = True, fl_on_empty = True, fl_no_sticky = True, fl_child_sticky = True, fl_priority = of_nat (of_char d - 48 :: nat)\<rparr>"
proof -
  have d: "isdigit d" "d \<noteq> CHR ''h''" "d \<noteq> CHR ''s''" "d \<noteq> CHR ''S''" "d \<noteq> CHR ''e''" "d \<noteq> CHR ''p''"
    using assms(2) by (auto simp: isdigit_def)
  let ?r = "CHR ''p'' # d # '' h e s S''"
  have x: "t @ PS_SUB_PRIO [d] @ PS_SUB_HIDDEN @ PS_SUB_EMPTY @ PS_SUB_NOSTICKY @ PS_SUB_CHILDSTICKY = t @ SPACE # ?r"
    by (simp add: sub_defs)
  show "cut_topic (t @ PS_SUB_PRIO [d] @ PS_SUB_HIDDEN @ PS_SUB_EMPTY @ PS_SUB_NOSTICKY @ PS_SUB_CHILDSTICKY) = t"
    unfolding x using sub_cut [OF assms(1)] by blast
  have "flag_chars (t @ SPACE # ?r) = ?r" using sub_cut [OF assms(1)] by blast
  then show "parse_flags (flag_chars (t @ PS_SUB_PRIO [d] @ PS_SUB_HIDDEN @ PS_SUB_EMPTY @ PS_SUB_NOSTICKY @ PS_SUB_CHILDSTICKY)) f =
      \<lparr>fl_hidden = True, fl_on_empty = True, fl_no_sticky = True, fl_child_sticky = True, fl_priority = of_nat (of_char d - 48 :: nat)\<rparr>"
    unfolding x using d by (simp add: flag_step_def)
qed

section \<open>Lists of topics\<close>

text \<open>The array that the macro builds ends with a null pointer.\<close>

definition PS_STRLIST :: "string list \<Rightarrow> string option list" where
  "PS_STRLIST topics = map Some topics @ [None]"

text \<open>The loop of \<open>ps_subscribe_many\<close> on such an array; to read past its end faults.\<close>

fun subscribe_array :: "'q qops \<Rightarrow> addr \<Rightarrow> string option list \<Rightarrow> int \<Rightarrow> 'q state \<Rightarrow> (int \<times> 'q state) option" where
  "subscribe_array Q su [] n s = None"
| "subscribe_array Q su (None # subs) n s = Some (n, s)"
| "subscribe_array Q su (Some t # subs) n s = do {
     (r, s) \<leftarrow> ps_subscribe Q su t s;
     subscribe_array Q su subs (if r = 0 then n + 1 else n) s
   }"

text \<open>So the model may take the list of the topics in the place of the array.\<close>

lemma strlist_each: "subscribe_array Q su (map Some topics @ [None]) n s = ps_subscribe_each Q su topics n s"
  by (induction topics arbitrary: n s) (auto intro!: arg_cong2 [where f = Option.bind])

lemma strlist_many: "subscribe_array Q su (PS_STRLIST topics) 0 s = ps_subscribe_many Q su (Some topics) s"
  by (simp add: PS_STRLIST_def ps_subscribe_many_def strlist_each)

end
