(* ===== verification/Broker_Conc.thy ===== *)
theory Broker_Conc
  imports Broker_Reach
begin

text \<open>
  \<open>ps_publish\<close> while other threads run. The publisher holds the global lock from before the sticky message to the end, so
  the other threads get no further than that lock in every function that takes it; the functions that do not
  (\<open>lock_free\<close>: making messages, taking and dropping references, receiving, reading the overflow count) run between
  any two deliveries. A step relation interleaves them with the deliveries of one publication. The publisher's own
  reference, which \<open>ps_publish\<close> drops only at its end, keeps the message alive however fast the receivers are.
  A flush by another thread is a run of receives and drops.
\<close>

unbundle bit_operations_syntax

section \<open>Other threads\<close>

fun lock_free :: "api_call \<Rightarrow> bool" where
  "lock_free (Make_msg _ _ _) = True"
| "lock_free (Dup_msg _) = True"
| "lock_free (Ref_msg _) = True"
| "lock_free (Unref_msg _) = True"
| "lock_free (Get _ _) = True"
| "lock_free (Overflow _) = True"
| "lock_free (User_data _ _) = True"
| "lock_free _ = False"

text \<open>\<open>E\<close> counts the references of the other threads; the publisher has one more, to the message that it publishes.\<close>

definition with_ref :: "addr \<Rightarrow> (addr \<Rightarrow> nat) \<Rightarrow> addr \<Rightarrow> nat" where
  "with_ref m E = E(m := E m + 1)"

type_synonym 'q publication = "subscriber_list list \<times> nat \<times> 'q run_state"

inductive pub_step :: "'q qops \<Rightarrow> ('q \<Rightarrow> addr list) \<Rightarrow> ('q \<Rightarrow> nat) \<Rightarrow> addr \<Rightarrow> 'q publication \<Rightarrow> 'q publication \<Rightarrow> bool"
  for Q :: "'q qops" and msgs :: "'q \<Rightarrow> addr list" and cap :: "'q \<Rightarrow> nat" and m :: addr where
  other: "lock_free c \<Longrightarrow> allowed msgs cap c (E, s) \<Longrightarrow> allowed msgs cap c (with_ref m E, s) \<Longrightarrow>
     exec Q c (E, s) = Some (E', s') \<Longrightarrow> pub_step Q msgs cap m (sls, ret, E, s) (sls, ret, E', s')"
| deliver: "room cap 1 (with_ref m E) s \<Longrightarrow> deliver_one Q m sl ret s = Some (ret', s') \<Longrightarrow>
     pub_step Q msgs cap m (sl # sls, ret, E, s) (sls, ret', E, s')"

inductive pub_run :: "'q qops \<Rightarrow> ('q \<Rightarrow> addr list) \<Rightarrow> ('q \<Rightarrow> nat) \<Rightarrow> addr \<Rightarrow> 'q publication \<Rightarrow> 'q publication \<Rightarrow> bool"
  for Q :: "'q qops" and msgs :: "'q \<Rightarrow> addr list" and cap :: "'q \<Rightarrow> nat" and m :: addr where
  none: "pub_run Q msgs cap m x x"
| more: "pub_run Q msgs cap m x y \<Longrightarrow> pub_step Q msgs cap m y z \<Longrightarrow> pub_run Q msgs cap m x z"

text \<open>The invariant of a publication: but for the lock, which is taken, the state is one between API calls.\<close>

definition pub_ok :: "('q \<Rightarrow> bool) \<Rightarrow> ('q \<Rightarrow> addr list) \<Rightarrow> addr \<Rightarrow> 'q publication \<Rightarrow> bool" where
  "pub_ok qi msgs m x \<longleftrightarrow> (case x of (sls, ret, E, s) \<Rightarrow>
     broker_ok qi msgs (with_ref m E) (s\<lparr>g_lock := False\<rparr>) \<and> g_lock s \<and> sls_ok s sls)"

section \<open>Calls that do not take the lock\<close>

lemma lock_free_lock:
  "lock_free c \<Longrightarrow> exec Q c (U, s\<lparr>g_lock := b\<rparr>) = map_option (\<lambda>(U, s). (U, s\<lparr>g_lock := b\<rparr>)) (exec Q c (U, s))"
  by (cases c) (auto simp: on_heap_def ps_get_def ps_overflow_def ps_subscriber_user_data_set_def Let_def
      map_option_case split: Option.bind_split option.splits)

lemma room_lock [simp]: "room cap k U (s\<lparr>g_lock := b\<rparr>) = room cap k U s"
  by (simp add: room_def)

lemma lock_free_allowed_lock: "lock_free c \<Longrightarrow> allowed msgs cap c (U, s\<lparr>g_lock := b\<rparr>) = allowed msgs cap c (U, s)"
  by (cases c) (simp_all cong: option.case_cong mval.case_cong)

lemma with_ref_upd: "a \<noteq> m \<Longrightarrow> (with_ref m E)(a := v) = with_ref m (E(a := v))"
  by (auto simp: with_ref_def)

lemma with_ref_inc: "(with_ref m E)(a := with_ref m E a + 1) = with_ref m (E(a := E a + 1))"
  by (auto simp: with_ref_def)

lemma with_ref_dec: "0 < E a \<Longrightarrow> (with_ref m E)(a := with_ref m E a - 1) = with_ref m (E(a := E a - 1))"
  by (auto simp: with_ref_def)

text \<open>A call by another thread does the same whether or not the publisher's reference is counted.\<close>

lemma lock_free_refs:
  assumes c: "lock_free c" and own: "allowed msgs cap c (E, s)" and run: "exec Q c (E, s) = Some (E', s')"
    and fresh: "mh_brk (g_heap s) \<noteq> m"
  shows "exec Q c (with_ref m E, s) = Some (with_ref m E', s')"
proof (cases c)
  case (Make_msg t f args)
  have "a = mh_brk (g_heap s)" if "ps_new_msg (Some t) f args (g_heap s) = Some (a, h)" for a h
    using that by (auto simp: ps_new_msg_def Let_def bind_Some_iff)
  then show ?thesis using run fresh Make_msg by (auto simp: bind_Some_iff with_ref_upd)
next
  case (Dup_msg a)
  have "b = mh_brk (g_heap s)" if "ps_dup_msg a (g_heap s) = Some (b, h)" for b h
    using that by (auto simp: ps_dup_msg_def Let_def bind_Some_iff split: if_splits)
  then show ?thesis using run fresh Dup_msg by (auto simp: bind_Some_iff with_ref_upd)
next
  case (Ref_msg a)
  then show ?thesis using run with_ref_inc [of m E a] by (auto simp: bind_Some_iff)
next
  case (Unref_msg a)
  then show ?thesis using run own with_ref_dec [of E a m] by (auto simp: bind_Some_iff)
next
  case (Get su t)
  then show ?thesis using run with_ref_inc [of m E] by (auto simp: bind_Some_iff split: if_splits)
qed (use c run in \<open>auto simp: bind_Some_iff\<close>)

text \<open>No such call adds or removes a subscriber.\<close>

lemma lock_free_subs: "lock_free c \<Longrightarrow> exec Q c (E, s) = Some (E', s') \<Longrightarrow> dom (g_subs s') = dom (g_subs s)"
  by (cases c) (auto simp: on_heap_def ps_get_def ps_overflow_def ps_subscriber_user_data_set_def Let_def bind_Some_iff
      split: if_splits)

section \<open>Every step keeps the invariant\<close>

context msg_queue
begin

lemma pub_other_ok:
  assumes ok: "pub_ok inv msgs m (sls, ret, E, s)" and c: "lock_free c"
    and own: "allowed msgs cap c (E, s)" "allowed msgs cap c (with_ref m E, s)"
  shows "\<exists>E' s'. exec Q c (E, s) = Some (E', s') \<and> pub_ok inv msgs m (sls, ret, E', s')"
proof -
  have b: "broker_ok inv msgs (with_ref m E) (s\<lparr>g_lock := False\<rparr>)" and l: "g_lock s" "sls_ok s sls"
    using ok by (simp_all add: pub_ok_def)
  have "good (exec Q c (with_ref m E, s\<lparr>g_lock := False\<rparr>))"
    by (rule exec_good [OF b]) (simp only: lock_free_allowed_lock [OF c] own(2))
  then obtain V s0 where V: "exec Q c (with_ref m E, s\<lparr>g_lock := False\<rparr>) = Some (V, s0)" "broker_ok inv msgs V s0"
    by (auto simp: good_def)
  have same: "s\<lparr>g_lock := True\<rparr> = s" using l(1) by (cases s) simp
  have "exec Q c (with_ref m E, s) = Some (V, s0\<lparr>g_lock := True\<rparr>)"
    using lock_free_lock [OF c, where U = "with_ref m E" and s = "s\<lparr>g_lock := False\<rparr>" and b = True and Q = Q] V(1) by (simp add: same)
  moreover have "exec Q c (E, s) \<noteq> None"
    using calculation c by (cases c) (auto simp: bind_Some_iff Option.is_none_def split: Option.bind_splits)
  then obtain E' s' where run: "exec Q c (E, s) = Some (E', s')" by auto
  have "mh_brk (g_heap s) \<noteq> m" using fresh_msg [OF b] by (auto simp: with_ref_def)
  note eq = lock_free_refs [OF c own(1) run this]
  ultimately have "V = with_ref m E'" "s' = s0\<lparr>g_lock := True\<rparr>" by simp_all
  then have "broker_ok inv msgs (with_ref m E') (s'\<lparr>g_lock := False\<rparr>)"
    using V(2) broker_ok_D(3) [OF V(2)] by simp
  moreover have "sls_ok s' sls" using l(2) sls_ok_cong [OF lock_free_subs [OF c run]] by simp
  ultimately show ?thesis using run \<open>s' = s0\<lparr>g_lock := True\<rparr>\<close> by (simp add: pub_ok_def)
qed

lemma pub_deliver_ok:
  assumes ok: "pub_ok inv msgs m (sl # sls, ret, E, s)" and room: "room cap 1 (with_ref m E) s"
  shows "\<exists>ret' s'. deliver_one Q m sl ret s = Some (ret', s') \<and> pub_ok inv msgs m (sls, ret', E, s')
      \<and> ret \<le> ret' \<and> ret' \<le> ret + of_bool (\<not> sl_hidden sl) \<and> delivered cap s s'"
proof -
  have b: "broker_ok inv msgs (with_ref m E) (s\<lparr>g_lock := False\<rparr>)" and l: "g_lock s" "sls_ok s (sl # sls)"
    using ok by (simp_all add: pub_ok_def)
  have c: "core_ok inv msgs (with_ref m E) s" using broker_ok_D(1) [OF b] by simp
  obtain u where u: "g_subs s (sl_su sl) = Some u" and p: "unat (sl_priority sl) < 10" and rest: "sls_ok s sls"
    using l(2) by (auto simp: sls_ok_def)
  have live: "0 < with_ref m E m + held msgs s m" by (simp add: with_ref_def)
  obtain r s1 where s1: "push_subscriber_queue Q (sl_su sl) m (sl_priority sl) s = Some (r, s1)"
    "core_ok inv msgs (with_ref m E) s1" "push_result msgs cap (sl_su sl) m s r s1"
    using push_subscriber_queue_ok [OF c live u p room] by blast
  have del: "delivered cap s s1" using s1(3) by (simp add: push_result_def)
  note d = delivered_D [OF del]
  have "broker_ok inv msgs (with_ref m E) (s1\<lparr>g_lock := False\<rparr>)"
    by (rule broker_ok_frame [OF b]) (simp_all add: d s1(2))
  moreover have "sls_ok s1 sls" using rest sls_ok_cong [OF d(10)] by simp
  ultimately have ok1: "pub_ok inv msgs m (sls, r', E, s1)" for r' using l(1) d(1) by (simp add: pub_ok_def)
  have ok0: "pub_ok inv msgs m (sls, r', E, s)" for r' using b l(1) rest by (simp add: pub_ok_def)
  note wait = waiting_run [OF core_ok_D(2) [OF c] u]
  show ?thesis
  proof (cases "sl_on_empty sl \<and> length (msgs (su_q u)) \<noteq> 0")
    case True
    then have "deliver_one Q m sl ret s = Some (ret, s)" by (simp add: deliver_one_def wait)
    then show ?thesis using ok0 by auto
  next
    case False
    then have "deliver_one Q m sl ret s = Some (if r = 0 \<and> \<not> sl_hidden sl then ret + 1 else ret, s1)"
      using s1(1) wait by (cases "sl_on_empty sl") (simp_all add: deliver_one_def)
    then show ?thesis using ok1 del by auto
  qed
qed

lemma pub_step_ok: "pub_step Q msgs cap m x y \<Longrightarrow> pub_ok inv msgs m x \<Longrightarrow> pub_ok inv msgs m y"
proof (induction rule: pub_step.induct)
  case (other c E s E' s' sls ret)
  then show ?case using pub_other_ok [OF other(5,1-3)] by auto
next
  case (deliver E s sl ret ret' s' sls)
  then show ?case using pub_deliver_ok [OF deliver(3,1)] by auto
qed

lemma pub_run_ok: "pub_run Q msgs cap m x y \<Longrightarrow> pub_ok inv msgs m x \<Longrightarrow> pub_ok inv msgs m y"
  by (induction rule: pub_run.induct) (auto intro: pub_step_ok)

lemma pub_end_ok:
  assumes ok: "pub_ok inv msgs m ([], ret, E, s)"
  shows "\<exists>s'. publish_end m ret s = Some (int ret, s') \<and> broker_ok inv msgs E s'"
proof -
  have b: "broker_ok inv msgs (with_ref m E) (s\<lparr>g_lock := False\<rparr>)" and l: "g_lock s"
    using ok by (simp_all add: pub_ok_def)
  have m: "0 < with_ref m E m" by (simp add: with_ref_def)
  have drop: "(with_ref m E)(m := with_ref m E m - 1) = E" by (simp add: with_ref_def fun_eq_iff)
  obtain h where h: "on_heap (ps_unref_msg m) (s\<lparr>g_lock := False\<rparr>) = Some (s\<lparr>g_lock := False, g_heap := h\<rparr>)"
    "broker_ok inv msgs E (s\<lparr>g_lock := False, g_heap := h\<rparr>)"
    using api_unref_ok [OF b m] unfolding drop by auto
  have "ps_unref_msg m (g_heap s) = Some h"
    using h(1) by (cases "ps_unref_msg m (g_heap s)") (auto simp: on_heap_def dest!: arg_cong [of _ _ g_heap])
  then have "publish_end m ret s = Some (int ret, s\<lparr>g_heap := h, g_lock := False\<rparr>)"
    using l by (simp add: publish_end_def on_heap_def unlock_run)
  moreover have swap: "s\<lparr>g_lock := False, g_heap := h\<rparr> = s\<lparr>g_heap := h, g_lock := False\<rparr>" by simp
  have "broker_ok inv msgs E (s\<lparr>g_heap := h, g_lock := False\<rparr>)" unfolding swap [symmetric] by (rule h(2))
  ultimately show ?thesis by blast
qed

lemma pub_begin_ok:
  assumes ok: "broker_ok inv msgs (with_ref m E) s" and mm: "mh_msgs (g_heap s) m = Some mm"
    and t: "m_topic mm = Some topic" "NUL \<notin> set topic" and room: "room cap 2 (with_ref m E) s"
  shows "\<exists>s1. publish_begin m s
        = Some (publish_targets (topic_at s) (m_flags mm AND PS_FL_NONRECURSIVE = 0) (cut_topic topic), s1)
      \<and> pub_ok inv msgs m (publish_targets (topic_at s) (m_flags mm AND PS_FL_NONRECURSIVE = 0) (cut_topic topic), 0, E, s1)"
proof -
  have m: "0 < with_ref m E m" by (simp add: with_ref_def)
  obtain s1 where s1: "publish_begin m s
      = Some (publish_targets (topic_at s) (m_flags mm AND PS_FL_NONRECURSIVE = 0) (cut_topic topic), s1)"
    "core_ok inv msgs (with_ref m E) s1" "sls_ok s1 (publish_targets (topic_at s) (m_flags mm AND PS_FL_NONRECURSIVE = 0) (cut_topic topic))"
    "quiet (s\<lparr>g_lock := True\<rparr>) s1" "all_needed s1"
    using publish_begin_run [OF ok m mm t room] by blast
  have f1: "g_lock s1" "g_subs s1 = g_subs s" "g_stat_live_subscribers s1 = g_stat_live_subscribers s"
    using s1(4) by (simp_all add: quiet_def)
  have "broker_ok inv msgs (with_ref m E) (s1\<lparr>g_lock := False\<rparr>)"
    using s1(2,5) f1 broker_ok_D(4) [OF ok] by (simp add: broker_ok_def all_needed_def)
  then show ?thesis using s1(1,3) f1(1) by (auto simp: pub_ok_def)
qed

text \<open>In every state of a publication its message is alive and the publication can go on.\<close>

lemma pub_live:
  assumes ok: "pub_ok inv msgs m (sls, ret, E, s)"
  shows "\<exists>mm. mh_msgs (g_heap s) m = Some mm"
proof -
  have b: "broker_ok inv msgs (with_ref m E) (s\<lparr>g_lock := False\<rparr>)" using ok by (simp add: pub_ok_def)
  have "core_ok inv msgs (with_ref m E) s" using broker_ok_D(1) [OF b] by simp
  then show ?thesis by (rule user_msg_live) (simp add: with_ref_def)
qed

text \<open>The result counts at most the subscriptions that are not hidden.\<close>

lemma pub_step_count: "pub_step Q msgs cap m x y \<Longrightarrow> pub_ok inv msgs m x \<Longrightarrow>
   fst (snd y) + length (filter (\<lambda>sl. \<not> sl_hidden sl) (fst y)) \<le> fst (snd x) + length (filter (\<lambda>sl. \<not> sl_hidden sl) (fst x))"
proof (induction rule: pub_step.induct)
  case (deliver E s sl ret ret' s' sls)
  then have "ret' \<le> ret + of_bool (\<not> sl_hidden sl)" using pub_deliver_ok [OF deliver(3,1)] by auto
  then show ?case by (auto split: if_splits)
qed simp

lemma pub_run_count: "pub_run Q msgs cap m x y \<Longrightarrow> pub_ok inv msgs m x \<Longrightarrow>
   fst (snd y) + length (filter (\<lambda>sl. \<not> sl_hidden sl) (fst y)) \<le> fst (snd x) + length (filter (\<lambda>sl. \<not> sl_hidden sl) (fst x))"
proof (induction rule: pub_run.induct)
  case (more x y z)
  then show ?case using pub_step_count [OF more(2) pub_run_ok [OF more(1,4)]] by fastforce
qed simp

end

end
