(* ===== verification/Uthash.thy ===== *)
theory Uthash
  imports Ps_Prelude
begin

text \<open>
  The hash table of \<open>src/uthash.h\<close>, as \<open>src/pubsub.c\<close> compiles it: string keys, Jenkins' hash, no
  Bloom filter, an allocation failure ends the program. An element and its embedded \<open>UT_hash_handle\<close>
  have one address (\<open>ELMT_FROM_HH\<close> and \<open>HH_FROM_ELMT\<close> add and subtract a constant). Each element is
  on two doubly linked lists: all elements in insertion order, and the chain of its bucket.
\<close>

unbundle bit_operations_syntax

section \<open>The structs\<close>

record handle =
  app_prev :: addr
  app_next :: addr
  hh_prev :: addr
  hh_next :: addr
  hh_key :: string
  hh_keylen :: u32
  hh_hashv :: u32

record bucket =
  bk_head :: addr
  bk_count :: u32
  bk_expand_mult :: u32

record table =
  ht_buckets :: "bucket list"
  ht_num_buckets :: u32
  ht_log2_num_buckets :: u32
  ht_num_items :: u32
  ht_tail :: addr
  ht_ideal_chain_maxlen :: u32
  ht_nonideal_items :: u32
  ht_ineff_expands :: u32
  ht_noexpand :: bool

text \<open>The variable \<open>head\<close>, the table (freed with the last element) and the handles in memory.\<close>

type_synonym handles = "addr \<rightharpoonup> handle"

record hash =
  hs_head :: addr
  hs_tbl :: "table option"
  hs_hh :: handles

definition wr_hh :: "addr \<Rightarrow> (handle \<Rightarrow> handle) \<Rightarrow> handles \<Rightarrow> handles option" where
  "wr_hh a f hh = do { h \<leftarrow> hh a; Some (hh(a \<mapsto> f h)) }"

section \<open>Jenkins' hash\<close>

definition HASH_JEN_MIX :: "u32 \<Rightarrow> u32 \<Rightarrow> u32 \<Rightarrow> u32 \<times> u32 \<times> u32" where
  "HASH_JEN_MIX a b c =
     (let a = a - b; a = a - c; a = a XOR drop_bit 13 c;
          b = b - c; b = b - a; b = b XOR push_bit 8 a;
          c = c - a; c = c - b; c = c XOR drop_bit 13 b;
          a = a - b; a = a - c; a = a XOR drop_bit 12 c;
          b = b - c; b = b - a; b = b XOR push_bit 16 a;
          c = c - a; c = c - b; c = c XOR drop_bit 5 b;
          a = a - b; a = a - c; a = a XOR drop_bit 3 c;
          b = b - c; b = b - a; b = b XOR push_bit 10 a;
          c = c - a; c = c - b; c = c XOR drop_bit 15 b in
      (a, b, c))"

definition le32 :: "u8 list \<Rightarrow> nat \<Rightarrow> u32" where
  "le32 key n =
     ucast (key ! n) + push_bit 8 (ucast (key ! (n + 1))) + push_bit 16 (ucast (key ! (n + 2)))
     + push_bit 24 (ucast (key ! (n + 3)))"

function jen_loop :: "u8 list \<Rightarrow> u32 \<Rightarrow> u32 \<Rightarrow> u32 \<Rightarrow> u8 list \<times> u32 \<times> u32 \<times> u32" where
  "jen_loop key i j h =
     (if 12 \<le> length key
      then (let (i, j, h) = HASH_JEN_MIX (i + le32 key 0) (j + le32 key 4) (h + le32 key 8) in
            jen_loop (drop 12 key) i j h)
      else (key, i, j, h))"
  by pat_completeness auto
termination
  by (relation "measure (\<lambda>(key, _). length key)") auto

declare jen_loop.simps [simp del]

text \<open>The \<open>switch\<close> falls through: a rest of \<open>k\<close> bytes runs the cases \<open>k\<close> down to 1.\<close>

definition jen_tail :: "u8 list \<Rightarrow> u32 \<Rightarrow> u32 \<Rightarrow> u32 \<Rightarrow> u32 \<times> u32 \<times> u32" where
  "jen_tail key i j h =
     (let k = length key;
          h = (if 11 \<le> k then h + push_bit 24 (ucast (key ! 10)) else h);
          h = (if 10 \<le> k then h + push_bit 16 (ucast (key ! 9)) else h);
          h = (if 9 \<le> k then h + push_bit 8 (ucast (key ! 8)) else h);
          j = (if 8 \<le> k then j + push_bit 24 (ucast (key ! 7)) else j);
          j = (if 7 \<le> k then j + push_bit 16 (ucast (key ! 6)) else j);
          j = (if 6 \<le> k then j + push_bit 8 (ucast (key ! 5)) else j);
          j = (if 5 \<le> k then j + ucast (key ! 4) else j);
          i = (if 4 \<le> k then i + push_bit 24 (ucast (key ! 3)) else i);
          i = (if 3 \<le> k then i + push_bit 16 (ucast (key ! 2)) else i);
          i = (if 2 \<le> k then i + push_bit 8 (ucast (key ! 1)) else i);
          i = (if 1 \<le> k then i + ucast (key ! 0) else i) in
      (i, j, h))"

definition HASH_JEN :: "u8 list \<Rightarrow> u32" where
  "HASH_JEN key =
     (let (rest, i, j, h) = jen_loop key 0x9e3779b9 0x9e3779b9 0xfeedbeef;
          h = h + of_nat (length key);
          (i, j, h) = jen_tail rest i j h;
          (i, j, h) = HASH_JEN_MIX i j h in
      h)"

text \<open>\<open>HASH_VALUE\<close> hashes the first \<open>keylen\<close> bytes of the key.\<close>

definition HASH_VALUE :: "string \<Rightarrow> u32 \<Rightarrow> u32" where
  "HASH_VALUE key keylen = HASH_JEN (map of_char (take (unat keylen) key))"

definition HASH_TO_BKT :: "u32 \<Rightarrow> u32 \<Rightarrow> u32" where
  "HASH_TO_BKT hashv num_bkts = hashv AND (num_bkts - 1)"

section \<open>Searching\<close>

partial_function (option) HASH_FIND_IN_BKT :: "handles \<Rightarrow> addr \<Rightarrow> string \<Rightarrow> u32 \<Rightarrow> u32 \<Rightarrow> addr option" where
  "HASH_FIND_IN_BKT hh out key keylen hashval =
     (if out = NULL then Some NULL
      else do {
        h \<leftarrow> hh out;
        if hh_hashv h = hashval \<and> hh_keylen h = keylen \<and> take (unat keylen) (hh_key h) = take (unat keylen) key
        then Some out
        else HASH_FIND_IN_BKT hh (hh_next h) key keylen hashval })"

definition HASH_FIND_BYHASHVALUE :: "string \<Rightarrow> u32 \<Rightarrow> u32 \<Rightarrow> hash \<Rightarrow> addr option" where
  "HASH_FIND_BYHASHVALUE key keylen hashval H =
     (if hs_head H \<noteq> NULL then do {
        t \<leftarrow> hs_tbl H;
        b \<leftarrow> arr_get (ht_buckets t) (unat (HASH_TO_BKT hashval (ht_num_buckets t)));
        HASH_FIND_IN_BKT (hs_hh H) (bk_head b) key keylen hashval
      } else Some NULL)"

definition HASH_FIND :: "string \<Rightarrow> u32 \<Rightarrow> hash \<Rightarrow> addr option" where
  "HASH_FIND key keylen H =
     (if hs_head H \<noteq> NULL then HASH_FIND_BYHASHVALUE key keylen (HASH_VALUE key keylen) H else Some NULL)"

definition HASH_FIND_STR :: "string \<Rightarrow> hash \<Rightarrow> addr option" where
  "HASH_FIND_STR findstr H = HASH_FIND findstr (of_nat (length findstr)) H"

section \<open>Buckets\<close>

definition HASH_BKT_CAPACITY_THRESH :: u32 where "HASH_BKT_CAPACITY_THRESH = 10"

text \<open>One turn of the inner loop of \<open>HASH_EXPAND_BUCKETS\<close>: \<open>thh\<close> moves into its new bucket.\<close>

definition expand_count :: "u32 \<Rightarrow> bucket \<Rightarrow> u32 \<Rightarrow> bucket \<times> u32" where
  "expand_count ideal b nonideal =
     (let b = b\<lparr>bk_count := bk_count b + 1\<rparr> in
      if bk_count b > ideal
      then ((if bk_count b > bk_expand_mult b * ideal then b\<lparr>bk_expand_mult := bk_expand_mult b + 1\<rparr> else b),
            nonideal + 1)
      else (b, nonideal))"

partial_function (option) expand_chain ::
    "u32 \<Rightarrow> u32 \<Rightarrow> addr \<Rightarrow> handles \<Rightarrow> bucket list \<Rightarrow> u32 \<Rightarrow> (handles \<times> bucket list \<times> u32) option" where
  "expand_chain ideal num2 thh hh nb nonideal =
     (if thh = NULL then Some (hh, nb, nonideal)
      else do {
        h \<leftarrow> hh thh;
        let hh_nxt = hh_next h;
        let bkt = HASH_TO_BKT (hh_hashv h) num2;
        b \<leftarrow> arr_get nb (unat bkt);
        let (b, nonideal) = expand_count ideal b nonideal;
        hh \<leftarrow> wr_hh thh (\<lambda>h. h\<lparr>hh_prev := NULL\<rparr>) hh;
        hh \<leftarrow> wr_hh thh (\<lambda>h. h\<lparr>hh_next := bk_head b\<rparr>) hh;
        hh \<leftarrow> (if bk_head b \<noteq> NULL then wr_hh (bk_head b) (\<lambda>h. h\<lparr>hh_prev := thh\<rparr>) hh else Some hh);
        nb \<leftarrow> arr_set nb (unat bkt) (b\<lparr>bk_head := thh\<rparr>);
        expand_chain ideal num2 hh_nxt hh nb nonideal })"

fun expand_loop ::
    "u32 \<Rightarrow> u32 \<Rightarrow> bucket list \<Rightarrow> handles \<Rightarrow> bucket list \<Rightarrow> u32 \<Rightarrow> (handles \<times> bucket list \<times> u32) option" where
  "expand_loop ideal num2 [] hh nb nonideal = Some (hh, nb, nonideal)"
| "expand_loop ideal num2 (b # bs) hh nb nonideal = do {
     (hh, nb, nonideal) \<leftarrow> expand_chain ideal num2 (bk_head b) hh nb nonideal;
     expand_loop ideal num2 bs hh nb nonideal }"

definition empty_bucket :: bucket where
  "empty_bucket = \<lparr>bk_head = NULL, bk_count = 0, bk_expand_mult = 0\<rparr>"

definition HASH_EXPAND_BUCKETS :: "table \<Rightarrow> handles \<Rightarrow> (table \<times> handles) option" where
  "HASH_EXPAND_BUCKETS t hh = do {
     let nb = replicate (2 * unat (ht_num_buckets t)) empty_bucket;
     let ideal = drop_bit (unat (ht_log2_num_buckets t + 1)) (ht_num_items t)
                 + (if ht_num_items t AND (ht_num_buckets t * 2 - 1) \<noteq> 0 then 1 else 0);
     (hh, nb, nonideal) \<leftarrow>
       expand_loop ideal (ht_num_buckets t * 2) (take (unat (ht_num_buckets t)) (ht_buckets t)) hh nb 0;
     let ineff = (if nonideal > drop_bit 1 (ht_num_items t) then ht_ineff_expands t + 1 else 0);
     Some (t\<lparr>ht_buckets := nb, ht_num_buckets := ht_num_buckets t * 2,
             ht_log2_num_buckets := ht_log2_num_buckets t + 1, ht_ideal_chain_maxlen := ideal,
             ht_nonideal_items := nonideal, ht_ineff_expands := ineff,
             ht_noexpand := (if ineff > 1 then True else ht_noexpand t)\<rparr>, hh) }"

text \<open>The first part of \<open>HASH_ADD_TO_BKT\<close> puts the element in front of the chain; then the bucket may be long enough for
an expansion.\<close>

definition bkt_push :: "nat \<Rightarrow> addr \<Rightarrow> table \<Rightarrow> handles \<Rightarrow> (table \<times> handles) option" where
  "bkt_push i addhh t hh = do {
     b \<leftarrow> arr_get (ht_buckets t) i;
     let b = b\<lparr>bk_count := bk_count b + 1\<rparr>;
     hh \<leftarrow> wr_hh addhh (\<lambda>h. h\<lparr>hh_next := bk_head b\<rparr>) hh;
     hh \<leftarrow> wr_hh addhh (\<lambda>h. h\<lparr>hh_prev := NULL\<rparr>) hh;
     hh \<leftarrow> (if bk_head b \<noteq> NULL then wr_hh (bk_head b) (\<lambda>h. h\<lparr>hh_prev := addhh\<rparr>) hh else Some hh);
     bs \<leftarrow> arr_set (ht_buckets t) i (b\<lparr>bk_head := addhh\<rparr>);
     Some (t\<lparr>ht_buckets := bs\<rparr>, hh) }"

definition bkt_full :: "nat \<Rightarrow> table \<Rightarrow> bool option" where
  "bkt_full i t = do {
     b \<leftarrow> arr_get (ht_buckets t) i;
     Some (bk_count b \<ge> (bk_expand_mult b + 1) * HASH_BKT_CAPACITY_THRESH \<and> \<not> ht_noexpand t) }"

definition HASH_ADD_TO_BKT :: "nat \<Rightarrow> addr \<Rightarrow> table \<Rightarrow> handles \<Rightarrow> (table \<times> handles) option" where
  "HASH_ADD_TO_BKT i addhh t hh = do {
     (t, hh) \<leftarrow> bkt_push i addhh t hh;
     expand \<leftarrow> bkt_full i t;
     if expand then HASH_EXPAND_BUCKETS t hh else Some (t, hh) }"

definition HASH_DEL_IN_BKT :: "nat \<Rightarrow> addr \<Rightarrow> table \<Rightarrow> handles \<Rightarrow> (table \<times> handles) option" where
  "HASH_DEL_IN_BKT i delhh t hh = do {
     b \<leftarrow> arr_get (ht_buckets t) i;
     let b = b\<lparr>bk_count := bk_count b - 1\<rparr>;
     d \<leftarrow> hh delhh;
     let b = (if bk_head b = delhh then b\<lparr>bk_head := hh_next d\<rparr> else b);
     hh \<leftarrow> (if hh_prev d \<noteq> NULL then wr_hh (hh_prev d) (\<lambda>h. h\<lparr>hh_next := hh_next d\<rparr>) hh else Some hh);
     hh \<leftarrow> (if hh_next d \<noteq> NULL then wr_hh (hh_next d) (\<lambda>h. h\<lparr>hh_prev := hh_prev d\<rparr>) hh else Some hh);
     bs \<leftarrow> arr_set (ht_buckets t) i b;
     Some (t\<lparr>ht_buckets := bs\<rparr>, hh) }"

section \<open>Adding and deleting\<close>

definition HASH_MAKE_TABLE :: "addr \<Rightarrow> table" where
  "HASH_MAKE_TABLE a =
     \<lparr>ht_buckets = replicate 32 empty_bucket, ht_num_buckets = 32, ht_log2_num_buckets = 5, ht_num_items = 0,
      ht_tail = a, ht_ideal_chain_maxlen = 0, ht_nonideal_items = 0, ht_ineff_expands = 0, ht_noexpand = False\<rparr>"

definition HASH_APPEND_LIST :: "addr \<Rightarrow> table \<Rightarrow> handles \<Rightarrow> (table \<times> handles) option" where
  "HASH_APPEND_LIST a t hh = do {
     hh \<leftarrow> wr_hh a (\<lambda>h. h\<lparr>app_next := NULL\<rparr>) hh;
     hh \<leftarrow> wr_hh a (\<lambda>h. h\<lparr>app_prev := ht_tail t\<rparr>) hh;
     hh \<leftarrow> wr_hh (ht_tail t) (\<lambda>h. h\<lparr>app_next := a\<rparr>) hh;
     Some (t\<lparr>ht_tail := a\<rparr>, hh) }"

definition HASH_ADD_TO_TABLE :: "u32 \<Rightarrow> addr \<Rightarrow> table \<Rightarrow> handles \<Rightarrow> (table \<times> handles) option" where
  "HASH_ADD_TO_TABLE hashval a t hh =
     (let t = t\<lparr>ht_num_items := ht_num_items t + 1\<rparr> in
      HASH_ADD_TO_BKT (unat (HASH_TO_BKT hashval (ht_num_buckets t))) a t hh)"

definition HASH_ADD_KEYPTR_BYHASHVALUE :: "string \<Rightarrow> u32 \<Rightarrow> u32 \<Rightarrow> addr \<Rightarrow> hash \<Rightarrow> hash option" where
  "HASH_ADD_KEYPTR_BYHASHVALUE key keylen hashval a H = do {
     hh \<leftarrow> wr_hh a (\<lambda>h. h\<lparr>hh_hashv := hashval, hh_key := key, hh_keylen := keylen\<rparr>) (hs_hh H);
     (hd', t, hh) \<leftarrow>
       (if hs_head H = NULL then do {
          hh \<leftarrow> wr_hh a (\<lambda>h. h\<lparr>app_next := NULL, app_prev := NULL\<rparr>) hh;
          Some (a, HASH_MAKE_TABLE a, hh)
        } else do {
          t \<leftarrow> hs_tbl H;
          (t, hh) \<leftarrow> HASH_APPEND_LIST a t hh;
          Some (hs_head H, t, hh) });
     (t, hh) \<leftarrow> HASH_ADD_TO_TABLE hashval a t hh;
     Some \<lparr>hs_head = hd', hs_tbl = Some t, hs_hh = hh\<rparr> }"

definition HASH_ADD_KEYPTR :: "string \<Rightarrow> u32 \<Rightarrow> addr \<Rightarrow> hash \<Rightarrow> hash option" where
  "HASH_ADD_KEYPTR key keylen a H = HASH_ADD_KEYPTR_BYHASHVALUE key keylen (HASH_VALUE key keylen) a H"

definition HASH_DELETE_HH :: "addr \<Rightarrow> hash \<Rightarrow> hash option" where
  "HASH_DELETE_HH del H = do {
     d \<leftarrow> hs_hh H del;
     if app_prev d = NULL \<and> app_next d = NULL
     then Some (H\<lparr>hs_head := NULL, hs_tbl := None\<rparr>)
     else do {
       t \<leftarrow> hs_tbl H;
       let t = (if del = ht_tail t then t\<lparr>ht_tail := app_prev d\<rparr> else t);
       (hd', hh) \<leftarrow>
         (if app_prev d \<noteq> NULL then do {
            hh \<leftarrow> wr_hh (app_prev d) (\<lambda>h. h\<lparr>app_next := app_next d\<rparr>) (hs_hh H);
            Some (hs_head H, hh)
          } else Some (app_next d, hs_hh H));
       hh \<leftarrow> (if app_next d \<noteq> NULL then wr_hh (app_next d) (\<lambda>h. h\<lparr>app_prev := app_prev d\<rparr>) hh else Some hh);
       (t, hh) \<leftarrow> HASH_DEL_IN_BKT (unat (HASH_TO_BKT (hh_hashv d) (ht_num_buckets t))) del t hh;
       Some \<lparr>hs_head = hd', hs_tbl = Some (t\<lparr>ht_num_items := ht_num_items t - 1\<rparr>), hs_hh = hh\<rparr> } }"

definition HASH_DEL :: "addr \<Rightarrow> hash \<Rightarrow> hash option" where
  "HASH_DEL delptr H = HASH_DELETE_HH delptr H"

section \<open>Iterating and counting\<close>

text \<open>\<open>body\<close> may change the table; \<open>tmp\<close>, the element after the current one, was read before it ran.\<close>

partial_function (option) hash_iter_loop ::
    "(addr \<Rightarrow> hash \<times> 'a \<Rightarrow> (hash \<times> 'a) option) \<Rightarrow> addr \<Rightarrow> addr \<Rightarrow> hash \<times> 'a \<Rightarrow> (hash \<times> 'a) option" where
  "hash_iter_loop body el tmp s =
     (if el = NULL then Some s
      else do {
        s \<leftarrow> body el s;
        tmp' \<leftarrow> (if tmp \<noteq> NULL then map_option app_next (hs_hh (fst s) tmp) else Some NULL);
        hash_iter_loop body tmp tmp' s })"

definition HASH_ITER :: "(addr \<Rightarrow> hash \<times> 'a \<Rightarrow> (hash \<times> 'a) option) \<Rightarrow> hash \<times> 'a \<Rightarrow> (hash \<times> 'a) option" where
  "HASH_ITER body s = do {
     let el = hs_head (fst s);
     tmp \<leftarrow> (if el \<noteq> NULL then map_option app_next (hs_hh (fst s) el) else Some NULL);
     hash_iter_loop body el tmp s }"

definition HASH_CNT :: "hash \<Rightarrow> u32 option" where
  "HASH_CNT H = (if hs_head H \<noteq> NULL then map_option ht_num_items (hs_tbl H) else Some 0)"

section \<open>Null-terminated lists\<close>

text \<open>\<open>next_links nx xs e\<close>: each element of \<open>xs\<close> points to the following one, the last to \<open>e\<close>;
\<open>prev_links pv p xs\<close>: each points back, the first to \<open>p\<close>.\<close>

fun next_links :: "(addr \<Rightarrow> addr) \<Rightarrow> addr list \<Rightarrow> addr \<Rightarrow> bool" where
  "next_links nx [] e \<longleftrightarrow> True"
| "next_links nx (x # xs) e \<longleftrightarrow> nx x = hd_or e xs \<and> next_links nx xs e"

fun prev_links :: "(addr \<Rightarrow> addr) \<Rightarrow> addr \<Rightarrow> addr list \<Rightarrow> bool" where
  "prev_links pv p [] \<longleftrightarrow> True"
| "prev_links pv p (x # xs) \<longleftrightarrow> pv x = p \<and> prev_links pv x xs"

lemma next_links_append: "next_links nx (xs @ ys) e \<longleftrightarrow> next_links nx xs (hd_or e ys) \<and> next_links nx ys e"
  by (induction xs) (auto simp: hd_or_append)

lemma prev_links_append: "prev_links pv p (xs @ ys) \<longleftrightarrow> prev_links pv p xs \<and> prev_links pv (last_or p xs) ys"
  by (induction xs arbitrary: p) auto

lemma next_links_cong: "(\<And>x. x \<in> set xs \<Longrightarrow> nx' x = nx x) \<Longrightarrow> next_links nx' xs e = next_links nx xs e"
  by (induction xs) auto

lemma prev_links_cong: "(\<And>x. x \<in> set xs \<Longrightarrow> pv' x = pv x) \<Longrightarrow> prev_links pv' p xs = prev_links pv p xs"
  by (induction xs arbitrary: p) auto

definition chain :: "(addr \<Rightarrow> addr) \<Rightarrow> (addr \<Rightarrow> addr) \<Rightarrow> addr \<Rightarrow> addr list \<Rightarrow> bool" where
  "chain nx pv head xs \<longleftrightarrow>
     head = hd_or NULL xs \<and> next_links nx xs NULL \<and> prev_links pv NULL xs \<and> distinct xs \<and> NULL \<notin> set xs"

lemma chain_Nil [simp]: "chain nx pv head [] \<longleftrightarrow> head = NULL"
  by (simp add: chain_def)

lemma chain_cong:
  assumes "\<And>x. x \<in> set xs \<Longrightarrow> nx' x = nx x \<and> pv' x = pv x"
  shows "chain nx' pv' head xs = chain nx pv head xs"
  using next_links_cong [of xs nx' nx NULL] prev_links_cong [of xs pv' pv NULL] assms by (simp add: chain_def)

lemma chain_D:
  assumes "chain nx pv head xs"
  shows "head = hd_or NULL xs" "distinct xs" "NULL \<notin> set xs" "next_links nx xs NULL"
  using assms by (simp_all add: chain_def)

lemma chain_null: "chain nx pv head xs \<Longrightarrow> head = NULL \<longleftrightarrow> xs = []"
  by (cases xs) (auto simp: chain_def)

text \<open>What the fields of an element say about its place.\<close>

lemma chain_at:
  assumes "chain nx pv head (xs @ a # ys)"
  shows "nx a = hd_or NULL ys" "pv a = last_or NULL xs"
    "nx a = NULL \<longleftrightarrow> ys = []" "pv a = NULL \<longleftrightarrow> xs = []" "head = a \<longleftrightarrow> xs = []"
proof -
  note c = assms [unfolded chain_def]
  have n: "NULL \<notin> set xs" "NULL \<notin> set ys" "a \<noteq> NULL" "a \<notin> set xs" using c by auto
  show nx: "nx a = hd_or NULL ys" and pv: "pv a = last_or NULL xs"
    using c by (auto simp: next_links_append prev_links_append)
  show "nx a = NULL \<longleftrightarrow> ys = []" using nx n(2) by (cases ys) auto
  show "pv a = NULL \<longleftrightarrow> xs = []" using pv n(1) last_or_in_set [of xs NULL] by (metis last_or_Nil)
  show "head = a \<longleftrightarrow> xs = []" using c n(4) by (cases xs) auto
qed

lemma chain_push:
  assumes c: "chain nx pv head xs" and a: "a \<notin> set xs" "a \<noteq> NULL"
    and nx: "nx' = nx(a := head)" and pv: "pv' = (if head = NULL then pv(a := NULL) else (pv(a := NULL))(head := a))"
  shows "chain nx' pv' a (a # xs)"
proof (cases xs)
  case Nil
  then show ?thesis using assms by (simp add: chain_def)
next
  case (Cons x ys)
  then have x: "head = x" "x \<noteq> NULL" "x \<noteq> a" "a \<notin> set ys" "x \<notin> set ys" using c a by (auto simp: chain_def)
  have "next_links nx' (x # ys) NULL = next_links nx (x # ys) NULL"
    using x by (intro next_links_cong) (auto simp: nx)
  moreover have "prev_links pv' x ys = prev_links pv x ys"
    using x by (intro prev_links_cong) (auto simp: pv)
  ultimately show ?thesis using c a Cons x by (auto simp: chain_def nx pv)
qed

lemma chain_snoc:
  assumes c: "chain nx pv head xs" and a: "a \<notin> set xs" "a \<noteq> NULL" and ne: "xs \<noteq> []"
    and nx: "nx' = (nx(a := NULL))(last xs := a)" and pv: "pv' = pv(a := last xs)"
  shows "chain nx' pv' head (xs @ [a])"
proof -
  obtain ys z where xs: "xs = ys @ [z]" using ne by (metis append_butlast_last_id)
  have z: "z \<noteq> a" "z \<notin> set ys" "a \<notin> set ys" using c a by (auto simp: chain_def xs)
  have "next_links nx' ys z = next_links nx ys z" using z by (intro next_links_cong) (auto simp: nx xs)
  moreover have "prev_links pv' NULL xs = prev_links pv NULL xs"
    using a by (intro prev_links_cong) (auto simp: pv)
  ultimately show ?thesis
    using c a z by (auto simp: chain_def xs nx pv next_links_append prev_links_append hd_or_append)
qed

lemma chain_delete:
  assumes c: "chain nx pv head (xs @ a # ys)"
    and nx: "nx' = (if pv a = NULL then nx else nx(pv a := nx a))"
    and pv: "pv' = (if nx a = NULL then pv else pv(nx a := pv a))"
  shows "chain nx' pv' (if pv a = NULL then nx a else head) (xs @ ys)"
proof -
  note at = chain_at [OF c] and d = c [unfolded chain_def]
  have dis: "distinct xs" "distinct ys" "a \<notin> set xs" "a \<notin> set ys" "set xs \<inter> set ys = {}" using d by auto
  have n1: "next_links nx' xs (hd_or NULL ys)"
  proof (cases "xs = []")
    case False
    then obtain zs z where xs: "xs = zs @ [z]" by (metis append_butlast_last_id)
    have "next_links nx' zs z = next_links nx zs z"
      using dis at(1,2) by (intro next_links_cong) (auto simp: nx xs)
    then show ?thesis using d at(1,2) by (auto simp: nx xs next_links_append)
  qed simp
  have "last_or NULL xs \<notin> set ys" using dis(5) d last_or_in_set [of xs NULL] by (cases "xs = []") auto
  then have "next_links nx' ys NULL = next_links nx ys NULL"
    using at(1,2) by (intro next_links_cong) (auto simp: nx)
  then have n2: "next_links nx' ys NULL" using d by (simp add: next_links_append)
  have "hd_or NULL ys \<notin> set xs" using dis(5) d hd_or_in_set [of ys NULL] by (cases "ys = []") auto
  then have "prev_links pv' NULL xs = prev_links pv NULL xs"
    using at(1) by (intro prev_links_cong) (auto simp: pv)
  then have p1: "prev_links pv' NULL xs" using d by (simp add: prev_links_append)
  have p2: "prev_links pv' (last_or NULL xs) ys"
  proof (cases ys)
    case (Cons y zs)
    have "prev_links pv' y zs = prev_links pv y zs"
      using dis at(1) Cons by (intro prev_links_cong) (auto simp: pv)
    then show ?thesis using d at(1,2) Cons by (auto simp: pv prev_links_append)
  qed simp
  have h: "(if pv a = NULL then nx a else head) = hd_or NULL (xs @ ys)"
    using d at by (cases xs) (auto simp: hd_or_append)
  show ?thesis
    unfolding chain_def next_links_append prev_links_append using n1 n2 p1 p2 h d dis by auto
qed

section \<open>The invariant of the buckets\<close>

definition fld :: "(handle \<Rightarrow> addr) \<Rightarrow> handles \<Rightarrow> addr \<Rightarrow> addr" where
  "fld g hh a = g (the (hh a))"

lemma fld_upd [simp]: "fld g (hh(a \<mapsto> h)) = (fld g hh)(a := g h)"
  by (auto simp: fld_def)

lemma wr_hh_run: "hh a = Some h \<Longrightarrow> wr_hh a f hh = Some (hh(a \<mapsto> f h))"
  by (simp add: wr_hh_def)

text \<open>With \<open>2 ^ k\<close> buckets an element is in the bucket of its hash value modulo \<open>2 ^ k\<close>.\<close>

definition bkt_of :: "nat \<Rightarrow> handle \<Rightarrow> nat" where
  "bkt_of k h = unat (hh_hashv h) mod 2 ^ k"

lemma to_bkt: "unat (HASH_TO_BKT w (2 ^ k)) = unat w mod 2 ^ k"
proof -
  have "HASH_TO_BKT w (2 ^ k) = take_bit k w"
    by (simp add: HASH_TO_BKT_def take_bit_eq_mask mask_eq_exp_minus_1)
  then show ?thesis by (simp add: unsigned_take_bit_eq take_bit_nat_def)
qed

lemma bkt_of_less: "bkt_of k h < 2 ^ k"
  by (simp add: bkt_of_def)

lemma unat_pow2: "k < 32 \<Longrightarrow> unat ((2 :: u32) ^ k) = 2 ^ k"
proof -
  assume "k < 32"
  then have "(2 :: nat) ^ k < 2 ^ 32" by (intro power_strict_increasing) simp_all
  moreover have "unat (word_of_nat (2 ^ k) :: u32) = 2 ^ k mod 2 ^ LENGTH(32)" by (rule unat_of_nat)
  ultimately show ?thesis by simp
qed

definition bucket_ok :: "handles \<Rightarrow> nat \<Rightarrow> nat \<Rightarrow> bucket \<Rightarrow> addr list \<Rightarrow> bool" where
  "bucket_ok hh k i b xs \<longleftrightarrow>
     chain (fld hh_next hh) (fld hh_prev hh) (bk_head b) xs \<and> bk_count b = of_nat (length xs) \<and>
     (\<forall>a\<in>set xs. \<exists>h. hh a = Some h \<and> bkt_of k h = i)"

definition buckets_ok :: "handles \<Rightarrow> nat \<Rightarrow> bucket list \<Rightarrow> (nat \<Rightarrow> addr list) \<Rightarrow> bool" where
  "buckets_ok hh k bs L \<longleftrightarrow> length bs = 2 ^ k \<and> (\<forall>i<2 ^ k. bucket_ok hh k i (bs ! i) (L i))"

definition members :: "nat \<Rightarrow> (nat \<Rightarrow> addr list) \<Rightarrow> addr set" where
  "members k L = (\<Union>i<2 ^ k. set (L i))"

lemma members_upd: "i < 2 ^ k \<Longrightarrow> members k (L(i := xs)) = set xs \<union> (\<Union>j\<in>{..<2 ^ k} - {i}. set (L j))"
  by (auto simp: members_def split: if_splits)

lemma members_push: "i < 2 ^ k \<Longrightarrow> members k (L(i := a # L i)) = insert a (members k L)"
  by (auto simp: members_def split: if_splits)

lemma bucket_ok_cong:
  assumes "\<And>a. a \<in> set xs \<Longrightarrow> hh' a = hh a"
  shows "bucket_ok hh' k i b xs = bucket_ok hh k i b xs"
proof -
  have "chain (fld hh_next hh') (fld hh_prev hh') (bk_head b) xs = chain (fld hh_next hh) (fld hh_prev hh) (bk_head b) xs"
    using assms by (intro chain_cong) (simp add: fld_def)
  then show ?thesis using assms by (auto simp: bucket_ok_def)
qed

lemma buckets_ok_bkt: "buckets_ok hh k bs L \<Longrightarrow> i < 2 ^ k \<Longrightarrow> a \<in> set (L i) \<Longrightarrow> \<exists>h. hh a = Some h \<and> bkt_of k h = i"
  by (auto simp: buckets_ok_def bucket_ok_def)

lemma buckets_disjoint:
  "buckets_ok hh k bs L \<Longrightarrow> i < 2 ^ k \<Longrightarrow> j < 2 ^ k \<Longrightarrow> a \<in> set (L i) \<Longrightarrow> a \<in> set (L j) \<Longrightarrow> i = j"
  using buckets_ok_bkt [of hh k bs L i a] buckets_ok_bkt [of hh k bs L j a] by auto

lemma buckets_update:
  assumes ok: "buckets_ok hh k bs L" and i: "i < 2 ^ k" and new: "bucket_ok hh' k i b xs"
    and same: "\<And>a j. j < 2 ^ k \<Longrightarrow> j \<noteq> i \<Longrightarrow> a \<in> set (L j) \<Longrightarrow> hh' a = hh a"
  shows "buckets_ok hh' k (bs[i := b]) (L(i := xs))"
proof -
  have "bucket_ok hh' k j (bs ! j) (L j)" if "j < 2 ^ k" "j \<noteq> i" for j
    using bucket_ok_cong [of "L j" hh' hh k j "bs ! j"] same [OF that] ok that by (simp add: buckets_ok_def)
  then show ?thesis using ok i new by (auto simp: buckets_ok_def nth_list_update)
qed

text \<open>Putting an element in front of the chain of its bucket, as the two pushes of the header do.\<close>

lemma buckets_push:
  assumes ok: "buckets_ok hh k bs L" and a: "hh a = Some h" "a \<noteq> NULL" "a \<notin> members k L" and i: "i = bkt_of k h"
    and p: "p = bk_head (bs ! i)" and b': "bk_head b' = a" "bk_count b' = bk_count (bs ! i) + 1"
    and h': "h' = h\<lparr>hh_next := p, hh_prev := NULL\<rparr>"
    and hh': "hh' = (if p = NULL then hh(a \<mapsto> h') else hh(a \<mapsto> h', p \<mapsto> (the (hh p))\<lparr>hh_prev := a\<rparr>))"
  shows "buckets_ok hh' k (bs[i := b']) (L(i := a # L i))"
proof (rule buckets_update [OF ok])
  show ik: "i < 2 ^ k" by (simp add: i bkt_of_less)
  have bo: "bucket_ok hh k i (bs ! i) (L i)" using ok ik by (simp add: buckets_ok_def)
  have c: "chain (fld hh_next hh) (fld hh_prev hh) p (L i)" using bo by (simp add: bucket_ok_def p)
  have nin: "a \<notin> set (L i)" using a(3) ik by (auto simp: members_def)
  have hd_in: "p \<in> set (L i)" if "p \<noteq> NULL"
    using that chain_D(1) [OF c] hd_or_in_set [of "L i" NULL] by (cases "L i = []") auto
  have hda: "p \<noteq> a" using hd_in nin a(2) by blast
  have fn: "fld hh_next hh' = (fld hh_next hh)(a := p)"
    using hda by (auto simp: hh' h' fld_def fun_eq_iff)
  have fp: "fld hh_prev hh' = (if p = NULL then (fld hh_prev hh)(a := NULL) else ((fld hh_prev hh)(a := NULL))(p := a))"
    using hda by (auto simp: hh' h' fld_def fun_eq_iff)
  have "chain (fld hh_next hh') (fld hh_prev hh') a (a # L i)"
    by (rule chain_push [OF c nin a(2) fn fp])
  moreover have "\<exists>g. hh' x = Some g \<and> bkt_of k g = i" if x: "x \<in> set (a # L i)" for x
  proof (cases "x = a")
    case True
    have "bkt_of k h' = i" by (simp add: h' i bkt_of_def)
    then show ?thesis using True hda by (auto simp: hh')
  next
    case False
    then obtain g where "hh x = Some g" "bkt_of k g = i" using bo x by (auto simp: bucket_ok_def)
    then show ?thesis using False by (auto simp: hh' bkt_of_def)
  qed
  ultimately show "bucket_ok hh' k i b' (a # L i)" using bo b' by (simp add: bucket_ok_def)
  show "hh' x = hh x" if j: "j < 2 ^ k" "j \<noteq> i" "x \<in> set (L j)" for x j
  proof -
    have "x \<noteq> a" using a(3) j by (auto simp: members_def)
    moreover have "x \<noteq> p" if "p \<noteq> NULL" using hd_in [OF that] buckets_disjoint [OF ok j(1) ik j(3)] j(2) by blast
    ultimately show ?thesis by (simp add: hh')
  qed
qed

text \<open>Bucket operations do not touch the keys and the insertion order, nor the other way round.\<close>

definition app_view :: "handles \<Rightarrow> handles" where
  "app_view hh = (\<lambda>a. map_option (\<lambda>h. h\<lparr>hh_prev := NULL, hh_next := NULL\<rparr>) (hh a))"

definition bkt_view :: "handles \<Rightarrow> handles" where
  "bkt_view hh = (\<lambda>a. map_option (\<lambda>h. h\<lparr>app_prev := NULL, app_next := NULL\<rparr>) (hh a))"

lemma app_view_D:
  assumes "app_view hh' = app_view hh"
  shows "fld app_next hh' = fld app_next hh" "fld app_prev hh' = fld app_prev hh" "dom hh' = dom hh"
    "hh a = Some h \<Longrightarrow> \<exists>h'. hh' a = Some h' \<and> hh_key h' = hh_key h \<and> hh_keylen h' = hh_keylen h \<and> hh_hashv h' = hh_hashv h"
proof -
  have e: "map_option (\<lambda>h. h\<lparr>hh_prev := NULL, hh_next := NULL\<rparr>) (hh' a) = map_option (\<lambda>h. h\<lparr>hh_prev := NULL, hh_next := NULL\<rparr>) (hh a)" for a
    using fun_cong [OF assms, of a] by (simp add: app_view_def)
  have f: "g (the (hh' a)) = g (the (hh a))" if "\<And>h. g (h\<lparr>hh_prev := NULL, hh_next := NULL\<rparr>) = g h" for g :: "handle \<Rightarrow> 'b" and a
    using e [of a] that by (cases "hh' a"; cases "hh a"; simp) metis
  show "fld app_next hh' = fld app_next hh" "fld app_prev hh' = fld app_prev hh" by (simp_all add: fld_def f fun_eq_iff)
  have d: "hh' a = None \<longleftrightarrow> hh a = None" for a using e [of a] by (cases "hh' a"; cases "hh a") simp_all
  then show "dom hh' = dom hh" by (simp add: dom_def)
  show "\<exists>h'. hh' a = Some h' \<and> hh_key h' = hh_key h \<and> hh_keylen h' = hh_keylen h \<and> hh_hashv h' = hh_hashv h" if "hh a = Some h"
    using that d [of a] f [of hh_key a] f [of hh_keylen a] f [of hh_hashv a] by auto
qed

lemma bkt_view_D:
  assumes "bkt_view hh' = bkt_view hh"
  shows "fld hh_next hh' = fld hh_next hh" "fld hh_prev hh' = fld hh_prev hh" "dom hh' = dom hh"
    "hh a = Some h \<Longrightarrow> \<exists>h'. hh' a = Some h' \<and> hh_key h' = hh_key h \<and> hh_keylen h' = hh_keylen h \<and> hh_hashv h' = hh_hashv h"
proof -
  have e: "map_option (\<lambda>h. h\<lparr>app_prev := NULL, app_next := NULL\<rparr>) (hh' a) = map_option (\<lambda>h. h\<lparr>app_prev := NULL, app_next := NULL\<rparr>) (hh a)" for a
    using fun_cong [OF assms, of a] by (simp add: bkt_view_def)
  have f: "g (the (hh' a)) = g (the (hh a))" if "\<And>h. g (h\<lparr>app_prev := NULL, app_next := NULL\<rparr>) = g h" for g :: "handle \<Rightarrow> 'b" and a
    using e [of a] that by (cases "hh' a"; cases "hh a"; simp) metis
  show "fld hh_next hh' = fld hh_next hh" "fld hh_prev hh' = fld hh_prev hh" by (simp_all add: fld_def f fun_eq_iff)
  have d: "hh' a = None \<longleftrightarrow> hh a = None" for a using e [of a] by (cases "hh' a"; cases "hh a") simp_all
  then show "dom hh' = dom hh" by (simp add: dom_def)
  show "\<exists>h'. hh' a = Some h' \<and> hh_key h' = hh_key h \<and> hh_keylen h' = hh_keylen h \<and> hh_hashv h' = hh_hashv h" if "hh a = Some h"
    using that d [of a] f [of hh_key a] f [of hh_keylen a] f [of hh_hashv a] by auto
qed

lemma bkt_view_buckets:
  assumes "bkt_view hh' = bkt_view hh"
  shows "buckets_ok hh k bs L \<Longrightarrow> buckets_ok hh' k bs L"
  using bkt_view_D(4) [OF assms] unfolding buckets_ok_def bucket_ok_def bkt_view_D(1,2) [OF assms] bkt_of_def
  by metis

section \<open>Searching a bucket\<close>

definition matches :: "handles \<Rightarrow> string \<Rightarrow> u32 \<Rightarrow> u32 \<Rightarrow> addr \<Rightarrow> bool" where
  "matches hh key keylen hashval a \<longleftrightarrow>
     (case hh a of None \<Rightarrow> False
      | Some h \<Rightarrow> hh_hashv h = hashval \<and> hh_keylen h = keylen \<and> take (unat keylen) (hh_key h) = take (unat keylen) key)"

lemma find_in_bkt:
  "next_links (fld hh_next hh) xs NULL \<Longrightarrow> NULL \<notin> set xs \<Longrightarrow> set xs \<subseteq> dom hh \<Longrightarrow>
   HASH_FIND_IN_BKT hh (hd_or NULL xs) key keylen hashval
     = Some (case find (matches hh key keylen hashval) xs of None \<Rightarrow> NULL | Some a \<Rightarrow> a)"
proof (induction xs)
  case Nil
  then show ?case by (simp add: HASH_FIND_IN_BKT.simps)
next
  case (Cons x xs)
  then obtain h where h: "hh x = Some h" by auto
  then have "hh_next h = hd_or NULL xs" using Cons.prems(1) by (simp add: fld_def)
  moreover have "matches hh key keylen hashval x \<longleftrightarrow>
      hh_hashv h = hashval \<and> hh_keylen h = keylen \<and> take (unat keylen) (hh_key h) = take (unat keylen) key"
    using h by (simp add: matches_def)
  ultimately show ?case
    using Cons h by (subst HASH_FIND_IN_BKT.simps) auto
qed

section \<open>Expanding the buckets\<close>

lemma expand_count_frame:
  "bk_head (fst (expand_count ideal b n)) = bk_head b" "bk_count (fst (expand_count ideal b n)) = bk_count b + 1"
  by (simp_all add: expand_count_def Let_def)

lemma expand_chain_ok:
  "buckets_ok hh k nb L \<Longrightarrow> k < 32 \<Longrightarrow> next_links (fld hh_next hh) ys NULL \<Longrightarrow> distinct ys \<Longrightarrow> NULL \<notin> set ys \<Longrightarrow>
   set ys \<subseteq> dom hh \<Longrightarrow> set ys \<inter> members k L = {} \<Longrightarrow>
   \<exists>hh' nb' n' L'. expand_chain ideal (2 ^ k) (hd_or NULL ys) hh nb n = Some (hh', nb', n')
      \<and> buckets_ok hh' k nb' L' \<and> members k L' = members k L \<union> set ys \<and> app_view hh' = app_view hh
      \<and> (\<forall>b. b \<notin> set ys \<longrightarrow> fld hh_next hh' b = fld hh_next hh b)"
proof (induction ys arbitrary: hh nb n L)
  case Nil
  show ?case
    by (rule exI [of _ hh], rule exI [of _ nb], rule exI [of _ n], rule exI [of _ L])
      (use Nil.prems(1) in \<open>simp add: expand_chain.simps\<close>)
next
  case (Cons a ys)
  obtain h where h: "hh a = Some h" using Cons.prems(6) by auto
  have an: "a \<noteq> NULL" and am: "a \<notin> members k L" using Cons.prems(5,7) by auto
  define i where "i = bkt_of k h"
  have ik: "i < 2 ^ k" by (simp add: i_def bkt_of_less)
  have len: "length nb = 2 ^ k" and bo: "bucket_ok hh k i (nb ! i) (L i)"
    using Cons.prems(1) ik by (simp_all add: buckets_ok_def)
  have tb: "unat (HASH_TO_BKT (hh_hashv h) (2 ^ k)) = i" by (simp add: to_bkt i_def bkt_of_def)
  define p where "p = bk_head (nb ! i)"
  obtain b1 n1 where b1: "expand_count ideal (nb ! i) n = (b1, n1)" by (cases "expand_count ideal (nb ! i) n") auto
  have b1f: "bk_head b1 = p" "bk_count b1 = bk_count (nb ! i) + 1"
    using expand_count_frame [of ideal "nb ! i" n] b1 by (simp_all add: p_def)
  define h' where "h' = h\<lparr>hh_next := p, hh_prev := NULL\<rparr>"
  define hh' where "hh' = (if p = NULL then hh(a \<mapsto> h') else hh(a \<mapsto> h', p \<mapsto> (the (hh p))\<lparr>hh_prev := a\<rparr>))"
  define nb' where "nb' = nb[i := b1\<lparr>bk_head := a\<rparr>]"
  have ok': "buckets_ok hh' k nb' (L(i := a # L i))"
    unfolding nb'_def
    by (rule buckets_push [OF Cons.prems(1) h an am i_def p_def _ _ h'_def hh'_def]) (simp_all add: b1f)
  have pin: "p \<in> set (L i)" if "p \<noteq> NULL"
    using that bo hd_or_in_set [of "L i" NULL] by (cases "L i = []") (auto simp: bucket_ok_def p_def chain_def)
  then have pm: "p \<in> members k L" if "p \<noteq> NULL" using that ik by (auto simp: members_def)
  have pa: "p \<noteq> a" using pm am an by blast
  have pd: "\<exists>g. hh p = Some g" if "p \<noteq> NULL" using pin [OF that] bo by (auto simp: bucket_ok_def)
  have pny: "p \<notin> set ys" if "p \<noteq> NULL" using pm [OF that] Cons.prems(7) by auto
  have nxt: "fld hh_next hh' b = fld hh_next hh b" if "b \<noteq> a" for b
    using that pd by (auto simp: hh'_def fld_def)
  have l: "next_links (fld hh_next hh') ys NULL"
  proof -
    have "a \<notin> set ys" using Cons.prems(4) by simp
    then have "next_links (fld hh_next hh') ys NULL = next_links (fld hh_next hh) ys NULL"
      by (intro next_links_cong nxt) blast
    then show ?thesis using Cons.prems(3) by simp
  qed
  have dm: "dom hh \<subseteq> dom hh'" by (auto simp: hh'_def)
  have view: "app_view hh' = app_view hh"
  proof
    fix b
    show "app_view hh' b = app_view hh b"
      using pd h pa by (cases "b = a"; cases "b = p"; cases "p = NULL") (auto simp: hh'_def app_view_def h'_def)
  qed
  have mem: "members k (L(i := a # L i)) = insert a (members k L)" by (rule members_push [OF ik])
  have rest: "distinct ys" "NULL \<notin> set ys" "set ys \<inter> members k (L(i := a # L i)) = {}"
    using Cons.prems(4-7) unfolding mem by auto
  have "set ys \<subseteq> dom hh" using Cons.prems(6) by simp
  then have sub: "set ys \<subseteq> dom hh'" using dm by blast
  obtain hh2 nb2 n2 L2 where 2: "expand_chain ideal (2 ^ k) (hd_or NULL ys) hh' nb' n1 = Some (hh2, nb2, n2)"
    "buckets_ok hh2 k nb2 L2" "members k L2 = members k (L(i := a # L i)) \<union> set ys" "app_view hh2 = app_view hh'"
    "\<forall>b. b \<notin> set ys \<longrightarrow> fld hh_next hh2 b = fld hh_next hh' b"
    using Cons.IH [OF ok' Cons.prems(2) l rest(1,2) sub rest(3), of n1] by blast
  have step: "expand_chain ideal (2 ^ k) a hh nb n = expand_chain ideal (2 ^ k) (hd_or NULL ys) hh' nb' n1"
  proof -
    have "hh_next h = hd_or NULL ys" using Cons.prems(3) h by (simp add: fld_def)
    moreover have "h' = h\<lparr>hh_prev := NULL, hh_next := p\<rparr>" by (cases h) (simp add: h'_def)
    ultimately show ?thesis
      using an h tb ik len b1 b1f pa pd
      by (subst expand_chain.simps) (cases "p = NULL"; auto simp: wr_hh_def Let_def nb'_def hh'_def)
  qed
  show ?case
    using 2 step nxt mem view
    by (intro exI [of _ hh2] exI [of _ nb2] exI [of _ n2] exI [of _ L2]) auto
qed

lemma expand_loop_ok:
  "buckets_ok hh k nb L \<Longrightarrow> k < 32 \<Longrightarrow> map bk_head bs = map (hd_or NULL) Ys \<Longrightarrow>
   (\<And>ys. ys \<in> set Ys \<Longrightarrow> next_links (fld hh_next hh) ys NULL) \<Longrightarrow> distinct (concat Ys) \<Longrightarrow> NULL \<notin> set (concat Ys) \<Longrightarrow>
   set (concat Ys) \<subseteq> dom hh \<Longrightarrow> set (concat Ys) \<inter> members k L = {} \<Longrightarrow>
   \<exists>hh' nb' n' L'. expand_loop ideal (2 ^ k) bs hh nb n = Some (hh', nb', n')
      \<and> buckets_ok hh' k nb' L' \<and> members k L' = members k L \<union> set (concat Ys) \<and> app_view hh' = app_view hh"
proof (induction bs arbitrary: Ys hh nb n L)
  case Nil
  show ?case
    by (rule exI [of _ hh], rule exI [of _ nb], rule exI [of _ n], rule exI [of _ L]) (use Nil.prems in simp)
next
  case (Cons b bs)
  then obtain ys Zs where Ys: "Ys = ys # Zs" "bk_head b = hd_or NULL ys" "map bk_head bs = map (hd_or NULL) Zs"
    by (cases Ys) auto
  have ys: "next_links (fld hh_next hh) ys NULL" "distinct ys" "NULL \<notin> set ys" "set ys \<subseteq> dom hh" "set ys \<inter> members k L = {}"
    using Cons.prems(4-8) unfolding Ys(1) by auto
  obtain hh1 nb1 n1 L1 where 1: "expand_chain ideal (2 ^ k) (hd_or NULL ys) hh nb n = Some (hh1, nb1, n1)"
    "buckets_ok hh1 k nb1 L1" "members k L1 = members k L \<union> set ys" "app_view hh1 = app_view hh"
    "\<forall>b. b \<notin> set ys \<longrightarrow> fld hh_next hh1 b = fld hh_next hh b"
    using expand_chain_ok [OF Cons.prems(1,2) ys] by blast
  have zs: "next_links (fld hh_next hh1) zs NULL" if "zs \<in> set Zs" for zs
  proof -
    have "set zs \<inter> set ys = {}" using Cons.prems(5) that unfolding Ys(1) by auto
    then have "next_links (fld hh_next hh1) zs NULL = next_links (fld hh_next hh) zs NULL"
      using 1(5) by (intro next_links_cong) auto
    then show ?thesis using Cons.prems(4) [of zs] that unfolding Ys(1) by simp
  qed
  have rest: "distinct (concat Zs)" "NULL \<notin> set (concat Zs)" "set (concat Zs) \<subseteq> dom hh1"
    "set (concat Zs) \<inter> members k L1 = {}"
    using Cons.prems(5-8) app_view_D(3) [OF 1(4)] 1(3) unfolding Ys(1) by auto
  obtain hh2 nb2 n2 L2 where 2: "expand_loop ideal (2 ^ k) bs hh1 nb1 n1 = Some (hh2, nb2, n2)"
    "buckets_ok hh2 k nb2 L2" "members k L2 = members k L1 \<union> set (concat Zs)" "app_view hh2 = app_view hh1"
    using Cons.IH [OF 1(2) Cons.prems(2) Ys(3) zs rest, of n1] by blast
  show ?case
    using 1 2 Ys(1,2) by (intro exI [of _ hh2] exI [of _ nb2] exI [of _ n2] exI [of _ L2]) auto
qed

text \<open>The number of buckets is a power of two and \<open>log2_num_buckets\<close> is its logarithm.\<close>

definition sized :: "nat \<Rightarrow> table \<Rightarrow> bool" where
  "sized k t \<longleftrightarrow> k < 32 \<and> ht_num_buckets t = 2 ^ k \<and> ht_log2_num_buckets t = of_nat k"

lemma buckets_concat_distinct:
  assumes "buckets_ok hh k bs L"
  shows "distinct (concat (map L [0..<2 ^ k]))"
proof -
  have "distinct (concat (map L [0..<n]))" if "n \<le> 2 ^ k" for n
    using that
  proof (induction n)
    case (Suc n)
    have "distinct (L n)" using assms Suc.prems by (auto simp: buckets_ok_def bucket_ok_def chain_def)
    moreover have "set (L n) \<inter> set (concat (map L [0..<n])) = {}"
    proof -
      have "x \<notin> set (L j)" if "x \<in> set (L n)" "j < n" for x j
        using buckets_disjoint [OF assms, of n j x] Suc.prems that by auto
      then show ?thesis by auto
    qed
    ultimately show ?case using Suc by auto
  qed simp
  then show ?thesis by simp
qed

lemma expand_ok:
  assumes ok: "buckets_ok hh k (ht_buckets t) L" and s: "sized k t" and k: "k < 31"
  shows "\<exists>t' hh' L'. HASH_EXPAND_BUCKETS t hh = Some (t', hh') \<and> buckets_ok hh' (Suc k) (ht_buckets t') L'
      \<and> members (Suc k) L' = members k L \<and> app_view hh' = app_view hh \<and> sized (Suc k) t'
      \<and> ht_num_items t' = ht_num_items t \<and> ht_tail t' = ht_tail t"
proof -
  let ?Ys = "map L [0..<2 ^ k]"
  have n: "unat (ht_num_buckets t) = 2 ^ k" using s by (simp add: sized_def unat_pow2)
  have num2: "ht_num_buckets t * 2 = 2 ^ Suc k" using s by (simp add: sized_def)
  have b: "bucket_ok hh k i (ht_buckets t ! i) (L i)" if "i < 2 ^ k" for i using ok that by (simp add: buckets_ok_def)
  have new: "buckets_ok hh (Suc k) (replicate (2 * 2 ^ k) empty_bucket) (\<lambda>_. [])"
    by (simp add: buckets_ok_def bucket_ok_def empty_bucket_def)
  have mem: "set (concat ?Ys) = members k L" by (auto simp: members_def)
  have heads: "map bk_head (take (2 ^ k) (ht_buckets t)) = map (hd_or NULL) ?Ys"
    using b ok by (intro nth_equalityI) (auto simp: buckets_ok_def bucket_ok_def chain_def)
  have nl: "next_links (fld hh_next hh) ys NULL" if "ys \<in> set ?Ys" for ys
    using that b by (auto simp: bucket_ok_def chain_def)
  have nn: "NULL \<notin> set (concat ?Ys)" "set (concat ?Ys) \<subseteq> dom hh" "set (concat ?Ys) \<inter> members (Suc k) (\<lambda>_. []) = {}"
  proof -
    have "x \<noteq> NULL \<and> x \<in> dom hh" if "i < 2 ^ k" "x \<in> set (L i)" for x i
      using b [OF that(1)] that(2) unfolding bucket_ok_def chain_def by (metis domI)
    then show "NULL \<notin> set (concat ?Ys)" "set (concat ?Ys) \<subseteq> dom hh" by fastforce+
    show "set (concat ?Ys) \<inter> members (Suc k) (\<lambda>_. []) = {}" by (simp add: members_def)
  qed
  define ideal where "ideal = drop_bit (unat (ht_log2_num_buckets t + 1)) (ht_num_items t)
                 + (if ht_num_items t AND (ht_num_buckets t * 2 - 1) \<noteq> 0 then 1 else 0)"
  obtain hh' nb' n' L' where e: "expand_loop ideal (2 ^ Suc k) (take (2 ^ k) (ht_buckets t)) hh
      (replicate (2 * 2 ^ k) empty_bucket) 0 = Some (hh', nb', n')"
    "buckets_ok hh' (Suc k) nb' L'" "members (Suc k) L' = members (Suc k) (\<lambda>_. []) \<union> set (concat ?Ys)" "app_view hh' = app_view hh"
    using expand_loop_ok [OF new _ heads nl buckets_concat_distinct [OF ok] nn, of ideal 0] k by auto
  have "members (Suc k) L' = members k L" using e(3) mem by (auto simp: members_def)
  moreover have "\<exists>t'. HASH_EXPAND_BUCKETS t hh = Some (t', hh') \<and> ht_buckets t' = nb' \<and> ht_num_buckets t' = 2 ^ Suc k
      \<and> ht_log2_num_buckets t' = ht_log2_num_buckets t + 1 \<and> ht_num_items t' = ht_num_items t \<and> ht_tail t' = ht_tail t"
    unfolding HASH_EXPAND_BUCKETS_def Let_def ideal_def [symmetric] unfolding n num2 e(1) by simp
  then obtain t' where "HASH_EXPAND_BUCKETS t hh = Some (t', hh')" "ht_buckets t' = nb'" "ht_num_buckets t' = 2 ^ Suc k"
    "ht_log2_num_buckets t' = ht_log2_num_buckets t + 1" "ht_num_items t' = ht_num_items t" "ht_tail t' = ht_tail t"
    by blast
  moreover have "sized (Suc k) t'" using calculation(4,5) s k by (simp add: sized_def)
  ultimately show ?thesis using e(2,4) by auto
qed

lemma bkt_push_ok:
  assumes ok: "buckets_ok hh k (ht_buckets t) L"
    and a: "hh a = Some h" "a \<noteq> NULL" "a \<notin> members k L" and i: "i = bkt_of k h"
  shows "\<exists>b hh'. bkt_push i a t hh = Some (t\<lparr>ht_buckets := (ht_buckets t)[i := b]\<rparr>, hh')
      \<and> buckets_ok hh' k ((ht_buckets t)[i := b]) (L(i := a # L i)) \<and> app_view hh' = app_view hh"
proof -
  have ik: "i < 2 ^ k" by (simp add: i bkt_of_less)
  have len: "length (ht_buckets t) = 2 ^ k" and bo: "bucket_ok hh k i (ht_buckets t ! i) (L i)"
    using ok ik by (simp_all add: buckets_ok_def)
  define p where "p = bk_head (ht_buckets t ! i)"
  define h' where "h' = h\<lparr>hh_next := p, hh_prev := NULL\<rparr>"
  define hh' where "hh' = (if p = NULL then hh(a \<mapsto> h') else hh(a \<mapsto> h', p \<mapsto> (the (hh p))\<lparr>hh_prev := a\<rparr>))"
  define b' where "b' = (ht_buckets t ! i)\<lparr>bk_count := bk_count (ht_buckets t ! i) + 1, bk_head := a\<rparr>"
  have ok': "buckets_ok hh' k ((ht_buckets t)[i := b']) (L(i := a # L i))"
    using buckets_push [OF ok a i p_def _ _ h'_def hh'_def, of b'] by (simp add: b'_def)
  have pin: "p \<in> set (L i)" if "p \<noteq> NULL"
    using that bo hd_or_in_set [of "L i" NULL] by (cases "L i = []") (auto simp: bucket_ok_def p_def chain_def)
  have pa: "p \<noteq> a" using pin a(2,3) ik by (auto simp: members_def)
  have pd: "\<exists>g. hh p = Some g" if "p \<noteq> NULL" using pin [OF that] bo by (auto simp: bucket_ok_def)
  have view: "app_view hh' = app_view hh"
  proof
    fix b
    show "app_view hh' b = app_view hh b"
      using pd a(1) pa by (cases "b = a"; cases "b = p"; cases "p = NULL") (auto simp: hh'_def app_view_def h'_def)
  qed
  have "bkt_push i a t hh = Some (t\<lparr>ht_buckets := (ht_buckets t)[i := b']\<rparr>, hh')"
    using a(1) len ik pa pd
    by (cases "p = NULL") (auto simp: bkt_push_def wr_hh_def Let_def p_def [symmetric] h'_def hh'_def b'_def)
  with ok' view show ?thesis by blast
qed

lemma bkt_full_in: "i < length (ht_buckets t) \<Longrightarrow> \<exists>e. bkt_full i t = Some e"
  by (simp add: bkt_full_def)

lemma add_to_bkt_ok:
  assumes ok: "buckets_ok hh k (ht_buckets t) L" and s: "sized k t" and k: "k < 31"
    and a: "hh a = Some h" "a \<noteq> NULL" "a \<notin> members k L" and i: "i = bkt_of k h"
  shows "\<exists>t' hh' k' L'. HASH_ADD_TO_BKT i a t hh = Some (t', hh') \<and> buckets_ok hh' k' (ht_buckets t') L'
      \<and> members k' L' = insert a (members k L) \<and> app_view hh' = app_view hh \<and> sized k' t' \<and> k' \<le> Suc k
      \<and> ht_num_items t' = ht_num_items t \<and> ht_tail t' = ht_tail t"
proof -
  have ik: "i < 2 ^ k" by (simp add: i bkt_of_less)
  obtain b hh' where 1: "bkt_push i a t hh = Some (t\<lparr>ht_buckets := (ht_buckets t)[i := b]\<rparr>, hh')"
    "buckets_ok hh' k ((ht_buckets t)[i := b]) (L(i := a # L i))" "app_view hh' = app_view hh"
    using bkt_push_ok [OF ok a i] by blast
  define t' where "t' = t\<lparr>ht_buckets := (ht_buckets t)[i := b]\<rparr>"
  have t': "buckets_ok hh' k (ht_buckets t') (L(i := a # L i))" "sized k t'" using 1(2) s by (simp_all add: sized_def t'_def)
  have mem: "members k (L(i := a # L i)) = insert a (members k L)" by (rule members_push [OF ik])
  obtain e where "bkt_full i t' = Some e" using t'(1) ik bkt_full_in [of i t'] by (auto simp: buckets_ok_def)
  then have run: "HASH_ADD_TO_BKT i a t hh = (if e then HASH_EXPAND_BUCKETS t' hh' else Some (t', hh'))"
    using 1(1) by (simp add: HASH_ADD_TO_BKT_def t'_def)
  show ?thesis
  proof (cases e)
    case True
    obtain t2 hh2 L2 where 2: "HASH_EXPAND_BUCKETS t' hh' = Some (t2, hh2)" "buckets_ok hh2 (Suc k) (ht_buckets t2) L2"
      "members (Suc k) L2 = members k (L(i := a # L i))" "app_view hh2 = app_view hh'" "sized (Suc k) t2"
      "ht_num_items t2 = ht_num_items t'" "ht_tail t2 = ht_tail t'"
      using expand_ok [OF t' k] by blast
    then show ?thesis
      using run True mem 1(3) by (intro exI [of _ t2] exI [of _ hh2] exI [of _ "Suc k"] exI [of _ L2]) (simp add: t'_def)
  next
    case False
    then show ?thesis
      using run t' mem 1(3)
      by (intro exI [of _ t'] exI [of _ hh'] exI [of _ k] exI [of _ "L(i := a # L i)"]) (auto simp: t'_def)
  qed
qed

section \<open>The table as a list\<close>

definition elem_ok :: "handles \<Rightarrow> addr \<Rightarrow> bool" where
  "elem_ok hh a \<longleftrightarrow>
     (\<exists>h. hh a = Some h \<and> hh_keylen h = of_nat (length (hh_key h)) \<and> length (hh_key h) < 2 ^ 32 \<and>
          hh_hashv h = HASH_VALUE (hh_key h) (hh_keylen h))"

definition table_ok :: "handles \<Rightarrow> table \<Rightarrow> addr list \<Rightarrow> bool" where
  "table_ok hh t xs \<longleftrightarrow>
     (\<exists>k L. sized k t \<and> buckets_ok hh k (ht_buckets t) L \<and> members k L = set xs) \<and>
     ht_num_items t = of_nat (length xs) \<and> ht_tail t = last xs"

text \<open>\<open>hash_ok H xs\<close>: the table holds the elements \<open>xs\<close>, in the order of their insertion.\<close>

definition hash_ok :: "hash \<Rightarrow> addr list \<Rightarrow> bool" where
  "hash_ok H xs \<longleftrightarrow>
     chain (fld app_next (hs_hh H)) (fld app_prev (hs_hh H)) (hs_head H) xs \<and>
     (\<forall>a\<in>set xs. elem_ok (hs_hh H) a) \<and>
     (if xs = [] then hs_tbl H = None else \<exists>t. hs_tbl H = Some t \<and> table_ok (hs_hh H) t xs)"

definition key_of :: "hash \<Rightarrow> addr \<Rightarrow> string" where
  "key_of H a = hh_key (the (hs_hh H a))"

lemma hash_ok_empty: "hash_ok \<lparr>hs_head = NULL, hs_tbl = None, hs_hh = hh\<rparr> []"
  by (simp add: hash_ok_def)

lemma elem_ok_app_view:
  assumes "app_view hh' = app_view hh" and "elem_ok hh a"
  shows "elem_ok hh' a" "hh_key (the (hh' a)) = hh_key (the (hh a))"
proof -
  obtain h where h: "hh a = Some h" "hh_keylen h = of_nat (length (hh_key h))" "length (hh_key h) < 2 ^ 32"
    "hh_hashv h = HASH_VALUE (hh_key h) (hh_keylen h)" using assms(2) by (auto simp: elem_ok_def)
  obtain h' where h': "hh' a = Some h'" "hh_key h' = hh_key h" "hh_keylen h' = hh_keylen h" "hh_hashv h' = hh_hashv h"
    using app_view_D(4) [OF assms(1) h(1)] by blast
  show "elem_ok hh' a" unfolding elem_ok_def using h h' by auto
  show "hh_key (the (hh' a)) = hh_key (the (hh a))" using h h' by simp
qed

lemma elem_ok_bkt_view:
  assumes "bkt_view hh' = bkt_view hh" and "elem_ok hh a"
  shows "elem_ok hh' a" "hh_key (the (hh' a)) = hh_key (the (hh a))"
proof -
  obtain h where h: "hh a = Some h" "hh_keylen h = of_nat (length (hh_key h))" "length (hh_key h) < 2 ^ 32"
    "hh_hashv h = HASH_VALUE (hh_key h) (hh_keylen h)" using assms(2) by (auto simp: elem_ok_def)
  obtain h' where h': "hh' a = Some h'" "hh_key h' = hh_key h" "hh_keylen h' = hh_keylen h" "hh_hashv h' = hh_hashv h"
    using bkt_view_D(4) [OF assms(1) h(1)] by blast
  show "elem_ok hh' a" unfolding elem_ok_def using h h' by auto
  show "hh_key (the (hh' a)) = hh_key (the (hh a))" using h h' by simp
qed

section \<open>Finding\<close>

lemma unat_len: "n < 2 ^ 32 \<Longrightarrow> unat (of_nat n :: u32) = n"
proof -
  assume "n < 2 ^ 32"
  moreover have "unat (word_of_nat n :: u32) = n mod 2 ^ LENGTH(32)" by (rule unat_of_nat)
  ultimately show ?thesis by simp
qed

lemma of_nat_len_inj: "m < 2 ^ 32 \<Longrightarrow> n < 2 ^ 32 \<Longrightarrow> (of_nat m :: u32) = of_nat n \<Longrightarrow> m = n"
  by (metis unat_len)

lemma matches_key:
  assumes "elem_ok hh a" and "length s < 2 ^ 32"
  shows "matches hh s (of_nat (length s)) (HASH_VALUE s (of_nat (length s))) a \<longleftrightarrow> hh_key (the (hh a)) = s"
proof -
  obtain h where h: "hh a = Some h" "hh_keylen h = of_nat (length (hh_key h))" "length (hh_key h) < 2 ^ 32"
    "hh_hashv h = HASH_VALUE (hh_key h) (hh_keylen h)" using assms(1) by (auto simp: elem_ok_def)
  have "hh_key h = s" if "hh_keylen h = of_nat (length s)" "take (length s) (hh_key h) = take (length s) s"
    using that of_nat_len_inj [OF h(3) assms(2)] h(2) by simp
  then show ?thesis using h unat_len [OF assms(2)] by (auto simp: matches_def)
qed

lemma find_only:
  assumes "a \<in> set xs" and "P a" and "\<And>b. b \<in> set xs \<Longrightarrow> P b \<Longrightarrow> b = a"
  shows "find P xs = Some a"
proof (cases "find P xs")
  case None
  then show ?thesis using assms(1,2) by (auto simp: find_None_iff)
next
  case (Some b)
  then have "b \<in> set xs" "P b" by (auto simp: find_Some_iff)
  then show ?thesis using Some assms(3) by simp
qed

lemma hash_find_ok:
  assumes ok: "hash_ok H xs" and s: "length s < 2 ^ 32" and dis: "distinct (map (key_of H) xs)"
  shows "HASH_FIND_STR s H = Some (case find (\<lambda>a. key_of H a = s) xs of None \<Rightarrow> NULL | Some a \<Rightarrow> a)"
proof (cases "xs = []")
  case True
  then show ?thesis using ok by (simp add: HASH_FIND_STR_def HASH_FIND_def hash_ok_def)
next
  case False
  let ?hh = "hs_hh H" and ?kl = "of_nat (length s) :: u32"
  let ?hv = "HASH_VALUE s ?kl"
  obtain t where t: "hs_tbl H = Some t" "table_ok ?hh t xs" using ok False by (auto simp: hash_ok_def)
  obtain k L where kL: "sized k t" "buckets_ok ?hh k (ht_buckets t) L" "members k L = set xs"
    using t(2) by (auto simp: table_ok_def)
  have head: "hs_head H \<noteq> NULL" using ok False chain_null by (auto simp: hash_ok_def)
  define i where "i = unat ?hv mod 2 ^ k"
  have ik: "i < 2 ^ k" by (simp add: i_def)
  have tb: "unat (HASH_TO_BKT ?hv (ht_num_buckets t)) = i" using kL(1) by (simp add: sized_def to_bkt i_def)
  have len: "length (ht_buckets t) = 2 ^ k" and bo: "bucket_ok ?hh k i (ht_buckets t ! i) (L i)"
    using kL(2) ik by (simp_all add: buckets_ok_def)
  have el: "elem_ok ?hh a" if "a \<in> set xs" for a using ok that by (simp add: hash_ok_def)
  have sub: "set (L i) \<subseteq> set xs" using kL(3) ik by (auto simp: members_def)
  have m: "matches ?hh s ?kl ?hv a \<longleftrightarrow> key_of H a = s" if "a \<in> set xs" for a
    using matches_key [OF el [OF that] s] by (simp add: key_of_def)
  have inb: "a \<in> set (L i)" if a: "a \<in> set xs" "key_of H a = s" for a
  proof -
    obtain h where h: "?hh a = Some h" "hh_keylen h = of_nat (length (hh_key h))"
      "hh_hashv h = HASH_VALUE (hh_key h) (hh_keylen h)" using el [OF a(1)] by (auto simp: elem_ok_def)
    obtain j where j: "j < 2 ^ k" "a \<in> set (L j)" using a(1) kL(3) by (auto simp: members_def)
    have "bkt_of k h = j" using buckets_ok_bkt [OF kL(2) j] h(1) by simp
    moreover have "hh_hashv h = ?hv" using h a(2) by (simp add: key_of_def)
    ultimately show ?thesis using j by (simp add: bkt_of_def i_def)
  qed
  have uniq: "b = a" if "a \<in> set xs" "b \<in> set xs" "key_of H a = s" "key_of H b = s" for a b
    using dis that by (metis distinct_map inj_onD)
  have "find (matches ?hh s ?kl ?hv) (L i) = find (\<lambda>a. key_of H a = s) xs"
  proof (cases "find (\<lambda>a. key_of H a = s) xs")
    case None
    then have "find (matches ?hh s ?kl ?hv) (L i) = None" using m sub by (auto simp: find_None_iff)
    then show ?thesis using None by simp
  next
    case (Some a)
    then have a: "a \<in> set xs" "key_of H a = s" by (auto simp: find_Some_iff)
    have "find (matches ?hh s ?kl ?hv) (L i) = Some a"
      by (rule find_only [OF inb [OF a]]) (use a m sub uniq in auto)
    then show ?thesis using Some by simp
  qed
  moreover have "HASH_FIND_IN_BKT ?hh (bk_head (ht_buckets t ! i)) s ?kl ?hv
      = Some (case find (matches ?hh s ?kl ?hv) (L i) of None \<Rightarrow> NULL | Some a \<Rightarrow> a)"
  proof -
    have "bk_head (ht_buckets t ! i) = hd_or NULL (L i)" using bo by (simp add: bucket_ok_def chain_def)
    moreover have "set (L i) \<subseteq> dom ?hh" using bo by (auto simp: bucket_ok_def)
    ultimately show ?thesis using bo find_in_bkt [of ?hh "L i"] by (simp add: bucket_ok_def chain_def)
  qed
  ultimately show ?thesis
    using head t(1) tb len ik by (simp add: HASH_FIND_STR_def HASH_FIND_def HASH_FIND_BYHASHVALUE_def)
qed

section \<open>Adding\<close>

text \<open>
  \<open>hh_linked hh1 xs a hd' t hh2 ys\<close>: the element \<open>a\<close> has joined the list of insertion, which is now
  \<open>ys\<close>, and is not yet in the table, which holds \<open>xs\<close>; \<open>hh1\<close> is the store before the links were set.
\<close>

definition hh_linked :: "handles \<Rightarrow> addr list \<Rightarrow> addr \<Rightarrow> addr \<Rightarrow> table \<Rightarrow> handles \<Rightarrow> addr list \<Rightarrow> bool" where
  "hh_linked hh1 xs a hd' t hh2 ys \<longleftrightarrow>
     chain (fld app_next hh2) (fld app_prev hh2) hd' ys \<and> bkt_view hh2 = bkt_view hh1 \<and>
     (\<exists>k L. sized k t \<and> k < 31 \<and> buckets_ok hh2 k (ht_buckets t) L \<and> members k L = set xs) \<and>
     ht_num_items t = of_nat (length xs) \<and> ht_tail t = last ys \<and> set ys = insert a (set xs) \<and> length ys = Suc (length xs)"

text \<open>The key of \<open>a\<close> has been written, nothing else.\<close>

definition keyed :: "hash \<Rightarrow> addr \<Rightarrow> string \<Rightarrow> handles \<Rightarrow> bool" where
  "keyed H a key hh1 \<longleftrightarrow>
     (\<exists>h0. hh1 = (hs_hh H)(a \<mapsto> h0\<lparr>hh_hashv := HASH_VALUE key (of_nat (length key)), hh_key := key,
                                   hh_keylen := of_nat (length key)\<rparr>))"

lemma buckets_frame:
  assumes a: "a \<notin> members k L" and ok: "buckets_ok hh k bs L"
  shows "buckets_ok (hh(a \<mapsto> g)) k bs L"
proof -
  have "bucket_ok (hh(a \<mapsto> g)) k i b (L i) = bucket_ok hh k i b (L i)" if "i < 2 ^ k" for i b
    using a that by (intro bucket_ok_cong) (auto simp: members_def)
  then show ?thesis using ok by (simp add: buckets_ok_def)
qed

lemma keyed_buckets:
  "keyed H a key hh1 \<Longrightarrow> a \<notin> members k L \<Longrightarrow> buckets_ok (hs_hh H) k bs L \<Longrightarrow> buckets_ok hh1 k bs L"
  by (auto simp: keyed_def intro: buckets_frame)

lemma make_table_linked:
  assumes kd: "keyed H a key hh1" and a: "a \<noteq> NULL"
  shows "\<exists>hh2. wr_hh a (\<lambda>h. h\<lparr>app_next := NULL, app_prev := NULL\<rparr>) hh1 = Some hh2
      \<and> hh_linked hh1 [] a a (HASH_MAKE_TABLE a) hh2 [a]"
proof -
  obtain g where g: "hh1 a = Some g" using kd by (auto simp: keyed_def)
  let ?hh2 = "hh1(a \<mapsto> g\<lparr>app_next := NULL, app_prev := NULL\<rparr>)"
  have "bkt_view ?hh2 = bkt_view hh1" using g by (auto simp: fun_eq_iff bkt_view_def)
  moreover have "sized 5 (HASH_MAKE_TABLE a) \<and> (5 :: nat) < 31 \<and> buckets_ok ?hh2 5 (ht_buckets (HASH_MAKE_TABLE a)) (\<lambda>_. [])
      \<and> members 5 (\<lambda>_. []) = set []"
    by (simp add: buckets_ok_def bucket_ok_def empty_bucket_def HASH_MAKE_TABLE_def sized_def members_def)
  then have "\<exists>k L. sized k (HASH_MAKE_TABLE a) \<and> k < 31 \<and> buckets_ok ?hh2 k (ht_buckets (HASH_MAKE_TABLE a)) L
      \<and> members k L = set []" by blast
  moreover have "chain (fld app_next ?hh2) (fld app_prev ?hh2) a [a]" using a by (simp add: chain_def fld_def)
  ultimately show ?thesis using g by (simp add: hh_linked_def wr_hh_def HASH_MAKE_TABLE_def)
qed

lemma table_linked:
  assumes kd: "keyed H a key hh1" and t: "table_ok (hs_hh H) t xs" and a: "a \<notin> set xs"
    and size: "unat (ht_log2_num_buckets t) < 31" and view: "bkt_view hh2 = bkt_view hh1"
    and t': "ht_buckets t' = ht_buckets t" "ht_num_buckets t' = ht_num_buckets t"
      "ht_log2_num_buckets t' = ht_log2_num_buckets t"
  shows "\<exists>k L. sized k t' \<and> k < 31 \<and> buckets_ok hh2 k (ht_buckets t') L \<and> members k L = set xs"
proof -
  obtain k L where kL: "sized k t" "buckets_ok (hs_hh H) k (ht_buckets t) L" "members k L = set xs"
    using t by (auto simp: table_ok_def)
  have "unat (of_nat k :: u32) = k mod 2 ^ LENGTH(32)" by (rule unat_of_nat)
  then have "k < 31" using size kL(1) by (simp add: sized_def)
  moreover have "buckets_ok hh2 k (ht_buckets t) L"
    by (rule bkt_view_buckets [OF view keyed_buckets [OF kd _ kL(2)]]) (simp add: kL(3) a)
  moreover have "sized k t'" using kL(1) t' by (simp add: sized_def)
  ultimately show ?thesis using kL(3) t'(1) by auto
qed

lemma append_list_linked:
  assumes kd: "keyed H a key hh1" and c: "chain (fld app_next (hs_hh H)) (fld app_prev (hs_hh H)) (hs_head H) xs"
    and t: "table_ok (hs_hh H) t xs" and dom: "set xs \<subseteq> dom (hs_hh H)"
    and a: "a \<notin> set xs" "a \<noteq> NULL" and ne: "xs \<noteq> []" and size: "unat (ht_log2_num_buckets t) < 31"
  shows "\<exists>t' hh2. HASH_APPEND_LIST a t hh1 = Some (t', hh2) \<and> hh_linked hh1 xs a (hs_head H) t' hh2 (xs @ [a])"
proof -
  obtain h1 where h1: "hh1 = (hs_hh H)(a \<mapsto> h1)" using kd by (auto simp: keyed_def)
  define z where "z = last xs"
  have tail: "ht_tail t = z" "ht_num_items t = of_nat (length xs)" using t by (simp_all add: table_ok_def z_def)
  have zx: "z \<in> set xs" using ne by (simp add: z_def)
  then have za: "z \<noteq> a" using a(1) by blast
  obtain hz where hz: "hs_hh H z = Some hz" using dom zx by blast
  define hh2 where "hh2 = hh1(a \<mapsto> h1\<lparr>app_next := NULL, app_prev := z\<rparr>, z \<mapsto> hz\<lparr>app_next := a\<rparr>)"
  have run: "HASH_APPEND_LIST a t hh1 = Some (t\<lparr>ht_tail := a\<rparr>, hh2)"
    using za hz tail by (simp add: HASH_APPEND_LIST_def wr_hh_def hh2_def h1)
  have view: "bkt_view hh2 = bkt_view hh1" using za hz by (auto simp: fun_eq_iff bkt_view_def hh2_def h1)
  have fn: "fld app_next hh2 = ((fld app_next (hs_hh H))(a := NULL))(last xs := a)"
    using za by (auto simp: fun_eq_iff fld_def hh2_def h1 z_def [symmetric])
  have fp: "fld app_prev hh2 = (fld app_prev (hs_hh H))(a := last xs)"
    using za hz by (auto simp: fun_eq_iff fld_def hh2_def h1 z_def [symmetric])
  have "hh_linked hh1 xs a (hs_head H) (t\<lparr>ht_tail := a\<rparr>) hh2 (xs @ [a])"
    unfolding hh_linked_def
    using chain_snoc [OF c a ne fn fp] view tail(2)
      table_linked [OF kd t a(1) size view, of "t\<lparr>ht_tail := a\<rparr>"] by simp
  with run show ?thesis by blast
qed

lemma add_to_table_ok:
  assumes kd: "keyed H a key hh1" and key: "length key < 2 ^ 32" and el: "\<forall>b\<in>set xs. elem_ok (hs_hh H) b"
    and li: "hh_linked hh1 xs a hd' t hh2 ys" and a: "a \<notin> set xs" "a \<noteq> NULL"
  shows "\<exists>t3 hh3. HASH_ADD_TO_TABLE (HASH_VALUE key (of_nat (length key))) a t hh2 = Some (t3, hh3)
      \<and> hash_ok \<lparr>hs_head = hd', hs_tbl = Some t3, hs_hh = hh3\<rparr> ys \<and> hh_key (the (hh3 a)) = key
      \<and> (\<forall>b\<in>set xs. hh_key (the (hh3 b)) = key_of H b) \<and> dom hh3 = insert a (dom (hs_hh H))"
proof -
  let ?hv = "HASH_VALUE key (of_nat (length key))" and ?t = "t\<lparr>ht_num_items := ht_num_items t + 1\<rparr>"
  obtain h0 where hh1: "hh1 = (hs_hh H)(a \<mapsto> h0\<lparr>hh_hashv := ?hv, hh_key := key, hh_keylen := of_nat (length key)\<rparr>)"
    using kd by (auto simp: keyed_def)
  obtain k L where 2: "chain (fld app_next hh2) (fld app_prev hh2) hd' ys" "bkt_view hh2 = bkt_view hh1"
    "sized k t" "k < 31" "buckets_ok hh2 k (ht_buckets t) L" "members k L = set xs"
    "ht_num_items t = of_nat (length xs)" "ht_tail t = last ys" "set ys = insert a (set xs)" "length ys = Suc (length xs)"
    using li unfolding hh_linked_def by blast
  obtain h2 where h2: "hh2 a = Some h2" "hh_hashv h2 = ?hv"
    using bkt_view_D(4) [OF 2(2), of a "h0\<lparr>hh_hashv := ?hv, hh_key := key, hh_keylen := of_nat (length key)\<rparr>"] by (auto simp: hh1)
  have i: "unat (HASH_TO_BKT ?hv (ht_num_buckets t)) = bkt_of k h2"
    using 2(3) h2(2) by (simp add: sized_def to_bkt bkt_of_def)
  have b: "buckets_ok hh2 k (ht_buckets ?t) L" "sized k ?t" "a \<notin> members k L" using 2 a(1) by (simp_all add: sized_def)
  obtain t3 hh3 k3 L3 where 3: "HASH_ADD_TO_BKT (bkt_of k h2) a ?t hh2 = Some (t3, hh3)"
    "buckets_ok hh3 k3 (ht_buckets t3) L3" "members k3 L3 = insert a (members k L)" "app_view hh3 = app_view hh2"
    "sized k3 t3" "ht_num_items t3 = ht_num_items ?t" "ht_tail t3 = ht_tail ?t"
    using add_to_bkt_ok [OF b(1,2) 2(4) h2(1) a(2) b(3) refl] by blast
  have el3: "elem_ok hh3 b \<and> hh_key (the (hh3 b)) = hh_key (the (hh1 b))" if "b \<in> set ys" for b
  proof -
    have "elem_ok hh1 b" using that 2(9) el a(1) key by (auto simp: elem_ok_def hh1)
    then show ?thesis using elem_ok_bkt_view [OF 2(2)] elem_ok_app_view [OF 3(4)] by simp
  qed
  have ys: "ys \<noteq> []" using 2(10) by auto
  have "table_ok hh3 t3 ys" using 3 2 by (auto simp: table_ok_def)
  then have "hash_ok \<lparr>hs_head = hd', hs_tbl = Some t3, hs_hh = hh3\<rparr> ys"
    using 2(1) app_view_D(1,2) [OF 3(4)] el3 ys by (simp add: hash_ok_def)
  moreover have "HASH_ADD_TO_TABLE ?hv a t hh2 = Some (t3, hh3)" using 3(1) i by (simp add: HASH_ADD_TO_TABLE_def Let_def)
  moreover have "hh_key (the (hh3 a)) = key" using el3 [of a] 2(9) by (simp add: hh1)
  moreover have "\<forall>b\<in>set xs. hh_key (the (hh3 b)) = key_of H b" using el3 2(9) a(1) by (auto simp: key_of_def hh1)
  moreover have "dom hh3 = insert a (dom (hs_hh H))" using app_view_D(3) [OF 3(4)] bkt_view_D(3) [OF 2(2)] by (simp add: hh1)
  ultimately show ?thesis by blast
qed

lemma hash_add_dom:
  assumes ok: "hash_ok H xs" and a: "hs_hh H a = Some h0" "a \<noteq> NULL" "a \<notin> set xs" and key: "length key < 2 ^ 32"
    and size: "\<And>t. hs_tbl H = Some t \<Longrightarrow> unat (ht_log2_num_buckets t) < 31"
  shows "\<exists>H'. HASH_ADD_KEYPTR key (of_nat (length key)) a H = Some H' \<and> hash_ok H' (xs @ [a])
      \<and> key_of H' a = key \<and> (\<forall>b\<in>set xs. key_of H' b = key_of H b) \<and> dom (hs_hh H') = dom (hs_hh H)"
proof -
  let ?kl = "of_nat (length key) :: u32"
  let ?hv = "HASH_VALUE key ?kl"
  define hh1 where "hh1 = (hs_hh H)(a \<mapsto> h0\<lparr>hh_hashv := ?hv, hh_key := key, hh_keylen := ?kl\<rparr>)"
  have kd: "keyed H a key hh1" by (auto simp: keyed_def hh1_def)
  have c: "chain (fld app_next (hs_hh H)) (fld app_prev (hs_hh H)) (hs_head H) xs"
    and el: "\<forall>b\<in>set xs. elem_ok (hs_hh H) b" using ok by (simp_all add: hash_ok_def)
  have "\<exists>hd' t hh2. (if hs_head H = NULL then do {
          hh \<leftarrow> wr_hh a (\<lambda>h. h\<lparr>app_next := NULL, app_prev := NULL\<rparr>) hh1;
          Some (a, HASH_MAKE_TABLE a, hh)
        } else do {
          t \<leftarrow> hs_tbl H;
          (t, hh) \<leftarrow> HASH_APPEND_LIST a t hh1;
          Some (hs_head H, t, hh) }) = Some (hd', t, hh2) \<and> hh_linked hh1 xs a hd' t hh2 (xs @ [a])"
  proof (cases "xs = []")
    case True
    then have "hs_head H = NULL" using c by simp
    with True make_table_linked [OF kd a(2)] show ?thesis by auto
  next
    case False
    then have h: "hs_head H \<noteq> NULL" using chain_null [OF c] by simp
    obtain t where t: "hs_tbl H = Some t" "table_ok (hs_hh H) t xs" using ok False by (auto simp: hash_ok_def)
    have "set xs \<subseteq> dom (hs_hh H)" using el by (auto simp: elem_ok_def)
    from append_list_linked [OF kd c t(2) this a(3,2) False size [OF t(1)]] h t(1) show ?thesis by auto
  qed
  then obtain hd' t hh2 where 2: "(if hs_head H = NULL then do {
          hh \<leftarrow> wr_hh a (\<lambda>h. h\<lparr>app_next := NULL, app_prev := NULL\<rparr>) hh1;
          Some (a, HASH_MAKE_TABLE a, hh)
        } else do {
          t \<leftarrow> hs_tbl H;
          (t, hh) \<leftarrow> HASH_APPEND_LIST a t hh1;
          Some (hs_head H, t, hh) }) = Some (hd', t, hh2)" "hh_linked hh1 xs a hd' t hh2 (xs @ [a])" by blast
  obtain t3 hh3 where 3: "HASH_ADD_TO_TABLE ?hv a t hh2 = Some (t3, hh3)"
    "hash_ok \<lparr>hs_head = hd', hs_tbl = Some t3, hs_hh = hh3\<rparr> (xs @ [a])" "hh_key (the (hh3 a)) = key"
    "\<forall>b\<in>set xs. hh_key (the (hh3 b)) = key_of H b" "dom hh3 = insert a (dom (hs_hh H))"
    using add_to_table_ok [OF kd key el 2(2) a(3,2)] by blast
  have "wr_hh a (\<lambda>h. h\<lparr>hh_hashv := ?hv, hh_key := key, hh_keylen := ?kl\<rparr>) (hs_hh H) = Some hh1"
    using a(1) by (simp add: wr_hh_def hh1_def)
  then have "HASH_ADD_KEYPTR key ?kl a H = Some \<lparr>hs_head = hd', hs_tbl = Some t3, hs_hh = hh3\<rparr>"
    unfolding HASH_ADD_KEYPTR_def HASH_ADD_KEYPTR_BYHASHVALUE_def using 2(1) 3(1) by simp
  moreover have "dom hh3 = dom (hs_hh H)" using 3(5) a(1) by auto
  ultimately show ?thesis using 3 by (auto simp: key_of_def)
qed

lemma hash_add_ok:
  assumes ok: "hash_ok H xs" and a: "hs_hh H a = Some h0" "a \<noteq> NULL" "a \<notin> set xs" and key: "length key < 2 ^ 32"
    and size: "\<And>t. hs_tbl H = Some t \<Longrightarrow> unat (ht_log2_num_buckets t) < 31"
  shows "\<exists>H'. HASH_ADD_KEYPTR key (of_nat (length key)) a H = Some H' \<and> hash_ok H' (xs @ [a])
      \<and> key_of H' a = key \<and> (\<forall>b\<in>set xs. key_of H' b = key_of H b)"
  using hash_add_dom [OF assms] by blast

text \<open>An insertion doubles the number of buckets at most once.\<close>

definition log_buckets :: "hash \<Rightarrow> nat" where
  "log_buckets H = (case hs_tbl H of None \<Rightarrow> 5 | Some t \<Rightarrow> unat (ht_log2_num_buckets t))"

lemma unat_Suc_le: "unat (w + 1) \<le> Suc (unat w)" for w :: u32
proof -
  have "unat (w + 1) = (unat w + 1) mod 2 ^ LENGTH(32)" by (simp add: unat_word_ariths)
  also have "\<dots> \<le> unat w + 1" by (rule mod_less_eq_dividend)
  finally show ?thesis by simp
qed

lemma log_add_to_bkt:
  "HASH_ADD_TO_BKT i a t hh = Some (t', hh') \<Longrightarrow> unat (ht_log2_num_buckets t') \<le> Suc (unat (ht_log2_num_buckets t))"
  using unat_Suc_le [of "ht_log2_num_buckets t"]
  by (auto simp: HASH_ADD_TO_BKT_def bkt_push_def bkt_full_def HASH_EXPAND_BUCKETS_def Let_def split: Option.bind_splits if_splits prod.splits)

lemma log_hash_add: "HASH_ADD_KEYPTR key keylen a H = Some H' \<Longrightarrow> hs_head H = NULL \<longleftrightarrow> hs_tbl H = None \<Longrightarrow>
  log_buckets H' \<le> Suc (log_buckets H)"
  by (auto simp: HASH_ADD_KEYPTR_def HASH_ADD_KEYPTR_BYHASHVALUE_def HASH_ADD_TO_TABLE_def HASH_APPEND_LIST_def HASH_MAKE_TABLE_def
      log_buckets_def Let_def split: Option.bind_splits if_splits dest!: log_add_to_bkt)

section \<open>Deleting\<close>

lemma del_in_bkt_ok:
  assumes ok: "buckets_ok hh k bs L" and bs: "ht_buckets t = bs" and i: "i < 2 ^ k" and L: "L i = us @ a # vs"
  shows "\<exists>b hh'. HASH_DEL_IN_BKT i a t hh = Some (t\<lparr>ht_buckets := bs[i := b]\<rparr>, hh')
      \<and> buckets_ok hh' k (bs[i := b]) (L(i := us @ vs)) \<and> app_view hh' = app_view hh"
proof -
  have len: "length bs = 2 ^ k" and bo: "bucket_ok hh k i (bs ! i) (L i)" using ok i by (simp_all add: buckets_ok_def)
  have c: "chain (fld hh_next hh) (fld hh_prev hh) (bk_head (bs ! i)) (us @ a # vs)"
    and cnt: "bk_count (bs ! i) = of_nat (length (us @ a # vs))"
    and mem: "\<And>x. x \<in> set (us @ a # vs) \<Longrightarrow> \<exists>h. hh x = Some h \<and> bkt_of k h = i"
    using bo unfolding bucket_ok_def L by blast+
  obtain d where d: "hh a = Some d" using mem [of a] by auto
  define p n where "p = hh_prev d" and "n = hh_next d"
  have fd: "fld hh_prev hh a = p" "fld hh_next hh a = n" by (simp_all add: fld_def d p_def n_def)
  note at = chain_at [OF c] and cd = chain_D [OF c]
  have pin: "p \<in> set us" if "p \<noteq> NULL" using that at(2) fd last_or_in_set [of us NULL] by (cases "us = []") auto
  have nin: "n \<in> set vs" if "n \<noteq> NULL" using that at(1) fd hd_or_in_set [of vs NULL] by (cases "vs = []") auto
  have pn: "p \<noteq> n" if "p \<noteq> NULL" "n \<noteq> NULL" using pin [OF that(1)] nin [OF that(2)] cd(2) by auto
  have ne: "p \<noteq> a" if "p \<noteq> NULL" using pin [OF that] cd(2) by auto
  have ne': "n \<noteq> a" if "n \<noteq> NULL" using nin [OF that] cd(2) by auto
  have pd: "\<exists>g. hh p = Some g" if "p \<noteq> NULL" using mem [of p] pin [OF that] by auto
  have nd: "\<exists>g. hh n = Some g" if "n \<noteq> NULL" using mem [of n] nin [OF that] by auto
  define hh1 where "hh1 = (if p = NULL then hh else hh(p \<mapsto> (the (hh p))\<lparr>hh_next := n\<rparr>))"
  define hh' where "hh' = (if n = NULL then hh1 else hh1(n \<mapsto> (the (hh n))\<lparr>hh_prev := p\<rparr>))"
  define b where "b = (let b = (bs ! i)\<lparr>bk_count := bk_count (bs ! i) - 1\<rparr> in
      if bk_head b = a then b\<lparr>bk_head := n\<rparr> else b)"
  have fn: "fld hh_next hh' = (if fld hh_prev hh a = NULL then fld hh_next hh else (fld hh_next hh)(fld hh_prev hh a := fld hh_next hh a))"
    unfolding fd using pn nd by (auto simp: fun_eq_iff fld_def hh'_def hh1_def)
  have fp: "fld hh_prev hh' = (if fld hh_next hh a = NULL then fld hh_prev hh else (fld hh_prev hh)(fld hh_next hh a := fld hh_prev hh a))"
    unfolding fd using pn pd by (auto simp: fun_eq_iff fld_def hh'_def hh1_def)
  have ch: "chain (fld hh_next hh') (fld hh_prev hh') (bk_head b) (us @ vs)"
  proof -
    have "bk_head b = (if fld hh_prev hh a = NULL then fld hh_next hh a else bk_head (bs ! i))"
      using at(4,5) by (auto simp: b_def Let_def fd)
    then show ?thesis using chain_delete [OF c fn fp] by simp
  qed
  have cb: "bk_count b = of_nat (length (us @ vs))" using cnt by (simp add: b_def Let_def)
  have mem': "\<exists>h. hh' x = Some h \<and> bkt_of k h = i" if x: "x \<in> set (us @ vs)" for x
  proof -
    obtain g where g: "hh x = Some g" "bkt_of k g = i" using mem [of x] x by auto
    then show ?thesis by (auto simp: hh'_def hh1_def bkt_of_def)
  qed
  have new: "bucket_ok hh' k i b (us @ vs)" using ch cb mem' by (simp add: bucket_ok_def)
  have same: "hh' x = hh x" if j: "j < 2 ^ k" "j \<noteq> i" "x \<in> set (L j)" for x j
  proof -
    have "x \<notin> set (L i)" using buckets_disjoint [OF ok j(1) i j(3)] j(2) by blast
    then have "p \<noteq> NULL \<Longrightarrow> x \<noteq> p" "n \<noteq> NULL \<Longrightarrow> x \<noteq> n" using pin nin by (auto simp: L)
    then show ?thesis by (simp add: hh'_def hh1_def)
  qed
  have view: "app_view hh' = app_view hh"
  proof
    fix x show "app_view hh' x = app_view hh x"
      using pd nd pn by (cases "x = n"; cases "x = p"; cases "p = NULL"; cases "n = NULL") (auto simp: hh'_def hh1_def app_view_def)
  qed
  have run1: "(if p \<noteq> NULL then wr_hh p (\<lambda>h. h\<lparr>hh_next := n\<rparr>) hh else Some hh) = Some hh1"
    using pd by (auto simp: hh1_def wr_hh_def)
  have run2: "(if n \<noteq> NULL then wr_hh n (\<lambda>h. h\<lparr>hh_prev := p\<rparr>) hh1 else Some hh1) = Some hh'"
    using nd pn by (cases "p = NULL") (auto simp: hh1_def hh'_def wr_hh_def)
  have "HASH_DEL_IN_BKT i a t hh = Some (t\<lparr>ht_buckets := bs[i := b]\<rparr>, hh')"
    unfolding HASH_DEL_IN_BKT_def bs arr_get_in [OF i [folded len]] Option.bind.simps d Let_def
    unfolding p_def [symmetric] n_def [symmetric] b_def [unfolded Let_def, symmetric] run1 Option.bind.simps run2
    using i len by simp
  moreover have "buckets_ok hh' k (bs[i := b]) (L(i := us @ vs))"
    by (rule buckets_update [OF ok i new]) (rule same)
  ultimately show ?thesis using view by blast
qed

lemma members_delete:
  assumes ok: "buckets_ok hh k bs L" and i: "i < 2 ^ k" and L: "L i = us @ a # vs"
  shows "members k (L(i := us @ vs)) = members k L - {a}"
proof -
  have "distinct (us @ a # vs)" using ok i by (auto simp: buckets_ok_def bucket_ok_def chain_def simp flip: L)
  moreover have "a \<notin> set (L j)" if "j < 2 ^ k" "j \<noteq> i" for j
    using buckets_disjoint [OF ok that(1) i, of a] that(2) by (auto simp: L)
  moreover have "members k L = set (L i) \<union> (\<Union>j\<in>{..<2 ^ k} - {i}. set (L j))"
    using members_upd [OF i, of L "L i"] by simp
  ultimately show ?thesis unfolding members_upd [OF i] L by auto
qed

text \<open>\<open>HASH_DELETE_HH\<close> takes the element out of the list of insertion, then out of its bucket.\<close>

lemma delete_unlink:
  assumes c: "chain (fld app_next (hs_hh H)) (fld app_prev (hs_hh H)) (hs_head H) (xs @ a # ys)"
    and dom: "set (xs @ a # ys) \<subseteq> dom (hs_hh H)" and ne: "xs @ ys \<noteq> []" and d: "hs_hh H a = Some d"
    and t: "hs_tbl H = Some t" "ht_tail t = last (xs @ a # ys)"
  shows "\<exists>hd' hh2. HASH_DELETE_HH a H = do {
        (t, hh) \<leftarrow> HASH_DEL_IN_BKT (unat (HASH_TO_BKT (hh_hashv d) (ht_num_buckets t))) a (t\<lparr>ht_tail := last (xs @ ys)\<rparr>) hh2;
        Some \<lparr>hs_head = hd', hs_tbl = Some (t\<lparr>ht_num_items := ht_num_items t - 1\<rparr>), hs_hh = hh\<rparr> }
      \<and> chain (fld app_next hh2) (fld app_prev hh2) hd' (xs @ ys) \<and> bkt_view hh2 = bkt_view (hs_hh H)"
proof -
  let ?hh = "hs_hh H"
  define p n where "p = app_prev d" and "n = app_next d"
  have fd: "fld app_prev ?hh a = p" "fld app_next ?hh a = n" by (simp_all add: fld_def d p_def n_def)
  note at = chain_at [OF c] and cd = chain_D [OF c]
  have pn0: "\<not> (p = NULL \<and> n = NULL)" using at(3,4) fd ne by auto
  have pin: "p \<in> set xs" if "p \<noteq> NULL" using that at(2) fd last_or_in_set [of xs NULL] by (cases "xs = []") auto
  have nin: "n \<in> set ys" if "n \<noteq> NULL" using that at(1) fd hd_or_in_set [of ys NULL] by (cases "ys = []") auto
  have pn: "p \<noteq> n" if "p \<noteq> NULL" "n \<noteq> NULL" using pin [OF that(1)] nin [OF that(2)] cd(2) by auto
  have pd: "\<exists>g. ?hh p = Some g" if "p \<noteq> NULL" using pin [OF that] dom by auto
  have nd: "\<exists>g. ?hh n = Some g" if "n \<noteq> NULL" using nin [OF that] dom by auto
  define hh1 where "hh1 = (if p = NULL then ?hh else ?hh(p \<mapsto> (the (?hh p))\<lparr>app_next := n\<rparr>))"
  define hh2 where "hh2 = (if n = NULL then hh1 else hh1(n \<mapsto> (the (?hh n))\<lparr>app_prev := p\<rparr>))"
  define hd' where "hd' = (if p = NULL then n else hs_head H)"
  define t1 where "t1 = (if a = ht_tail t then t\<lparr>ht_tail := p\<rparr> else t)"
  have fn: "fld app_next hh2 = (if fld app_prev ?hh a = NULL then fld app_next ?hh else (fld app_next ?hh)(fld app_prev ?hh a := fld app_next ?hh a))"
    unfolding fd using pn nd by (auto simp: fun_eq_iff fld_def hh2_def hh1_def)
  have fp: "fld app_prev hh2 = (if fld app_next ?hh a = NULL then fld app_prev ?hh else (fld app_prev ?hh)(fld app_next ?hh a := fld app_prev ?hh a))"
    unfolding fd using pn pd by (auto simp: fun_eq_iff fld_def hh2_def hh1_def)
  have ch: "chain (fld app_next hh2) (fld app_prev hh2) hd' (xs @ ys)"
    using chain_delete [OF c fn fp] unfolding fd hd'_def .
  have view: "bkt_view hh2 = bkt_view ?hh"
  proof
    fix x show "bkt_view hh2 x = bkt_view ?hh x"
      using pd nd pn by (cases "x = n"; cases "x = p"; cases "p = NULL"; cases "n = NULL") (auto simp: hh2_def hh1_def bkt_view_def)
  qed
  have run1: "(if p \<noteq> NULL then do { hh \<leftarrow> wr_hh p (\<lambda>h. h\<lparr>app_next := n\<rparr>) ?hh; Some (hs_head H, hh) } else Some (n, ?hh)) = Some (hd', hh1)"
    using pd by (auto simp: hh1_def wr_hh_def hd'_def)
  have run2: "(if n \<noteq> NULL then wr_hh n (\<lambda>h. h\<lparr>app_prev := p\<rparr>) hh1 else Some hh1) = Some hh2"
    using nd pn by (cases "p = NULL") (auto simp: hh1_def hh2_def wr_hh_def)
  have "last (xs @ ys) = (if ys = [] then p else last (xs @ a # ys))"
    using at(2) fd ne by (auto simp: last_or_def)
  moreover have "a = last (xs @ a # ys) \<longleftrightarrow> ys = []" using cd(2) by auto
  ultimately have tl: "t1 = t\<lparr>ht_tail := last (xs @ ys)\<rparr>" using t(2) by (auto simp: t1_def)
  have "HASH_DELETE_HH a H = do {
        (t, hh) \<leftarrow> HASH_DEL_IN_BKT (unat (HASH_TO_BKT (hh_hashv d) (ht_num_buckets t1))) a t1 hh2;
        Some \<lparr>hs_head = hd', hs_tbl = Some (t\<lparr>ht_num_items := ht_num_items t - 1\<rparr>), hs_hh = hh\<rparr> }"
    unfolding HASH_DELETE_HH_def d t(1) Option.bind.simps Let_def p_def [symmetric] n_def [symmetric]
      t1_def [symmetric] run1 prod.case run2 if_not_P [OF pn0] ..
  with ch view show ?thesis unfolding tl by auto
qed

lemma hash_delete_ok:
  assumes ok: "hash_ok H (xs @ a # ys)"
  shows "\<exists>H'. HASH_DEL a H = Some H' \<and> hash_ok H' (xs @ ys) \<and> (\<forall>b\<in>set (xs @ ys). key_of H' b = key_of H b)"
proof -
  let ?hh = "hs_hh H"
  have c: "chain (fld app_next ?hh) (fld app_prev ?hh) (hs_head H) (xs @ a # ys)"
    and el: "\<And>b. b \<in> set (xs @ a # ys) \<Longrightarrow> elem_ok ?hh b" using ok unfolding hash_ok_def by blast+
  obtain t where t: "hs_tbl H = Some t" "table_ok ?hh t (xs @ a # ys)" using ok by (auto simp: hash_ok_def)
  obtain k L where kL: "sized k t" "buckets_ok ?hh k (ht_buckets t) L" "members k L = set (xs @ a # ys)"
    using t(2) by (auto simp: table_ok_def)
  obtain d where d: "?hh a = Some d" using el [of a] by (auto simp: elem_ok_def)
  show ?thesis
  proof (cases "xs @ ys = []")
    case True
    then have "app_prev d = NULL" "app_next d = NULL" using chain_at(3,4) [OF c] d by (simp_all add: fld_def)
    then have "HASH_DEL a H = Some (H\<lparr>hs_head := NULL, hs_tbl := None\<rparr>)"
      by (simp add: HASH_DEL_def HASH_DELETE_HH_def d)
    then show ?thesis using True by (simp add: hash_ok_def)
  next
    case False
    have "set (xs @ a # ys) \<subseteq> dom ?hh" and tl: "ht_tail t = last (xs @ a # ys)"
      using el t(2) by (auto simp: elem_ok_def table_ok_def)
    from delete_unlink [OF c this(1) False d t(1) tl]
    obtain hd' hh2 where 2: "HASH_DELETE_HH a H = do {
        (t, hh) \<leftarrow> HASH_DEL_IN_BKT (unat (HASH_TO_BKT (hh_hashv d) (ht_num_buckets t))) a (t\<lparr>ht_tail := last (xs @ ys)\<rparr>) hh2;
        Some \<lparr>hs_head = hd', hs_tbl = Some (t\<lparr>ht_num_items := ht_num_items t - 1\<rparr>), hs_hh = hh\<rparr> }"
      "chain (fld app_next hh2) (fld app_prev hh2) hd' (xs @ ys)" "bkt_view hh2 = bkt_view ?hh" by blast
    obtain i where i: "i < 2 ^ k" "a \<in> set (L i)" using kL(3) by (auto simp: members_def)
    have "bkt_of k d = i" using buckets_ok_bkt [OF kL(2) i] d by simp
    then have tb: "unat (HASH_TO_BKT (hh_hashv d) (ht_num_buckets t)) = i" using kL(1) by (simp add: sized_def to_bkt bkt_of_def)
    obtain us vs where L: "L i = us @ a # vs" using i(2) by (meson split_list)
    obtain b hh3 where 3: "HASH_DEL_IN_BKT i a (t\<lparr>ht_tail := last (xs @ ys)\<rparr>) hh2 =
        Some (t\<lparr>ht_tail := last (xs @ ys), ht_buckets := (ht_buckets t)[i := b]\<rparr>, hh3)"
      "buckets_ok hh3 k ((ht_buckets t)[i := b]) (L(i := us @ vs))" "app_view hh3 = app_view hh2"
      using del_in_bkt_ok [OF bkt_view_buckets [OF 2(3) kL(2)] _ i(1) L, of "t\<lparr>ht_tail := last (xs @ ys)\<rparr>"] by auto
    define t3 where "t3 = t\<lparr>ht_tail := last (xs @ ys), ht_buckets := (ht_buckets t)[i := b], ht_num_items := ht_num_items t - 1\<rparr>"
    let ?H = "\<lparr>hs_head = hd', hs_tbl = Some t3, hs_hh = hh3\<rparr>"
    have run: "HASH_DEL a H = Some ?H" using 2(1) 3(1) by (simp add: HASH_DEL_def tb t3_def)
    have keys: "elem_ok hh3 b \<and> hh_key (the (hh3 b)) = hh_key (the (?hh b))" if "b \<in> set (xs @ ys)" for b
      using elem_ok_bkt_view [OF 2(3), of b] elem_ok_app_view [OF 3(3), of b] el [of b] that by auto
    have "a \<notin> set xs" "a \<notin> set ys" using chain_D(2) [OF c] by auto
    then have "members k (L(i := us @ vs)) = set (xs @ ys)" using members_delete [OF kL(2) i(1) L] kL(3) by auto
    moreover have "sized k t3" using kL(1) by (simp add: sized_def t3_def)
    ultimately have "table_ok hh3 t3 (xs @ ys)" using 3(2) t(2) by (auto simp: table_ok_def t3_def)
    then have "hash_ok ?H (xs @ ys)"
      using False 2(2) app_view_D(1,2) [OF 3(3)] keys by (auto simp: hash_ok_def)
    moreover have "\<forall>b\<in>set (xs @ ys). key_of ?H b = key_of H b" using keys by (simp add: key_of_def)
    ultimately show ?thesis using run by blast
  qed
qed

section \<open>Iterating and counting\<close>

text \<open>
  A loop whose body may delete the element it is at, and no other: it visits the elements that were
  there at the start, in insertion order, and those that it did not delete remain.
\<close>

definition visit :: "(addr \<Rightarrow> bool) \<Rightarrow> (addr \<Rightarrow> 'a \<Rightarrow> 'a) \<Rightarrow> addr \<Rightarrow> hash \<times> 'a \<Rightarrow> (hash \<times> 'a) option" where
  "visit del f a = (\<lambda>(H, s). do { H \<leftarrow> (if del a then HASH_DEL a H else Some H); Some (H, f a s) })"

lemma hash_iter_loop_ok:
  "hash_ok H (us @ a # vs) \<Longrightarrow>
   \<exists>H'. hash_iter_loop (visit del f) a (hd_or NULL vs) (H, s) = Some (H', fold f (a # vs) s)
      \<and> hash_ok H' (us @ filter (\<lambda>x. \<not> del x) (a # vs))
      \<and> (\<forall>b\<in>set (us @ filter (\<lambda>x. \<not> del x) (a # vs)). key_of H' b = key_of H b)"
proof (induction vs arbitrary: H us a s)
  case Nil
  obtain H1 where H1: "visit del f a (H, s) = Some (H1, f a s)" "hash_ok H1 (us @ filter (\<lambda>x. \<not> del x) [a])"
    "\<forall>b\<in>set (us @ filter (\<lambda>x. \<not> del x) [a]). key_of H1 b = key_of H b"
    using hash_delete_ok [OF Nil] Nil by (cases "del a") (auto simp: visit_def)
  have "a \<noteq> NULL" using Nil by (auto simp: hash_ok_def chain_def)
  then have "hash_iter_loop (visit del f) a NULL (H, s) = Some (H1, f a s)"
    using H1(1) by (subst hash_iter_loop.simps, simp) (subst hash_iter_loop.simps, simp)
  then show ?case using H1(2,3) by auto
next
  case (Cons v vs)
  define us' where "us' = us @ filter (\<lambda>x. \<not> del x) [a]"
  obtain H1 where H1: "visit del f a (H, s) = Some (H1, f a s)" "hash_ok H1 (us' @ v # vs)"
    "\<forall>b\<in>set (us' @ v # vs). key_of H1 b = key_of H b"
    using hash_delete_ok [OF Cons.prems] Cons.prems by (cases "del a") (auto simp: visit_def us'_def)
  have a: "a \<noteq> NULL" and v: "v \<noteq> NULL" using Cons.prems by (auto simp: hash_ok_def chain_def)
  have c: "chain (fld app_next (hs_hh H1)) (fld app_prev (hs_hh H1)) (hs_head H1) (us' @ v # vs)"
    and "elem_ok (hs_hh H1) v" using H1(2) by (simp_all add: hash_ok_def)
  then obtain h where h: "hs_hh H1 v = Some h" "app_next h = hd_or NULL vs"
    using chain_at(1) [OF c] by (auto simp: elem_ok_def fld_def)
  obtain H' where H': "hash_iter_loop (visit del f) v (hd_or NULL vs) (H1, f a s) = Some (H', fold f (v # vs) (f a s))"
    "hash_ok H' (us' @ filter (\<lambda>x. \<not> del x) (v # vs))"
    "\<forall>b\<in>set (us' @ filter (\<lambda>x. \<not> del x) (v # vs)). key_of H' b = key_of H1 b"
    using Cons.IH [OF H1(2)] by blast
  have eq: "us' @ filter (\<lambda>x. \<not> del x) (v # vs) = us @ filter (\<lambda>x. \<not> del x) (a # v # vs)" by (simp add: us'_def)
  have "hash_iter_loop (visit del f) a v (H, s) = hash_iter_loop (visit del f) v (hd_or NULL vs) (H1, f a s)"
    using a v h H1(1) by (subst hash_iter_loop.simps) simp
  moreover have "\<forall>b\<in>set (us @ filter (\<lambda>x. \<not> del x) (a # v # vs)). key_of H' b = key_of H b"
  proof
    fix b assume b: "b \<in> set (us @ filter (\<lambda>x. \<not> del x) (a # v # vs))"
    then have "b \<in> set (us' @ v # vs)" by (auto simp: us'_def split: if_splits)
    then show "key_of H' b = key_of H b" using H'(3) [unfolded eq] H1(3) b by metis
  qed
  ultimately show ?case using H'(1,2) unfolding eq by auto
qed

lemma hash_iter_ok:
  assumes ok: "hash_ok H xs"
  shows "\<exists>H'. HASH_ITER (visit del f) (H, s) = Some (H', fold f xs s) \<and> hash_ok H' (filter (\<lambda>x. \<not> del x) xs)
      \<and> (\<forall>b\<in>set (filter (\<lambda>x. \<not> del x) xs). key_of H' b = key_of H b)"
proof (cases xs)
  case Nil
  then have "hs_head H = NULL" using ok by (simp add: hash_ok_def)
  then show ?thesis using Nil ok by (simp add: HASH_ITER_def hash_iter_loop.simps)
next
  case (Cons a vs)
  have c: "chain (fld app_next (hs_hh H)) (fld app_prev (hs_hh H)) (hs_head H) ([] @ a # vs)"
    and "elem_ok (hs_hh H) a" using ok Cons by (simp_all add: hash_ok_def)
  then obtain h where h: "hs_hh H a = Some h" "app_next h = hd_or NULL vs"
    using chain_at(1) [OF c] by (auto simp: elem_ok_def fld_def)
  have hd: "hs_head H = a" "a \<noteq> NULL" using c by (auto simp: chain_def)
  have "hash_ok H ([] @ a # vs)" using ok Cons by simp
  from hash_iter_loop_ok [OF this, of del f s] show ?thesis
    using Cons h hd by (simp add: HASH_ITER_def)
qed

lemma hash_count_ok: "hash_ok H xs \<Longrightarrow> HASH_CNT H = Some (of_nat (length xs))"
  using chain_null [of "fld app_next (hs_hh H)" "fld app_prev (hs_hh H)" "hs_head H" xs]
  by (cases "xs = []") (auto simp: HASH_CNT_def hash_ok_def table_ok_def)

end
