(* ===== verification/Psqueue_threads.thy ===== *)
theory Psqueue_threads
  imports Psqueue
begin

text \<open>
  A queue under threads, for any implementation. \<open>ps_queue_push\<close> is one critical section of the
  queue's mutex; \<open>ps_queue_pull\<close> is two atomic actions, the wait on the semaphore and then the
  critical section, and other threads run in between. A step relation interleaves these actions
  for any number of threads; \<open>k\<close> of them have passed the semaphore and not yet reached the critical
  section. The locale \<open>threads\<close> says what the actions must do to the invariant, which may depend on
  \<open>k\<close>, and to the abstract queue; then every run is a run of the abstract queue.
\<close>

section \<open>Atomic actions and runs\<close>

record 'q atomics =
  a_push :: "'q \<Rightarrow> addr \<Rightarrow> u8 \<Rightarrow> mheap \<Rightarrow> (int \<times> 'q \<times> mheap) option"
  a_sem :: "'q \<Rightarrow> semaphore"
  a_set_sem :: "'q \<Rightarrow> semaphore \<Rightarrow> 'q"
  a_take :: "'q \<Rightarrow> (addr \<times> 'q) option"

datatype conc_event = C_push addr u8 int | C_acquire | C_take addr

text \<open>The queue, the threads between the two halves of a pull, and the message store.\<close>

type_synonym 'q conc = "'q \<times> nat \<times> mheap"

inductive conc_step :: "'q atomics \<Rightarrow> conc_event \<Rightarrow> 'q conc \<Rightarrow> 'q conc \<Rightarrow> bool" for A where
  push: "m \<noteq> NULL \<Longrightarrow> unat p < 10 \<Longrightarrow> a_push A q m p h = Some (r, q', h') \<Longrightarrow>
     conc_step A (C_push m p r) (q, k, h) (q', k, h')"
| acquire: "semaphore_wait epoch (a_sem A q) t = Some (0, v) \<Longrightarrow>
     conc_step A C_acquire (q, k, h) (a_set_sem A q v, Suc k, h)"
| take: "a_take A q = Some (m, q') \<Longrightarrow> conc_step A (C_take m) (q, Suc k, h) (q', k, h)"

inductive_cases conc_pushE: "conc_step A (C_push m p r) x y"
inductive_cases conc_acquireE: "conc_step A C_acquire x y"
inductive_cases conc_takeE: "conc_step A (C_take m) x y"

inductive conc_run :: "'q atomics \<Rightarrow> conc_event list \<Rightarrow> 'q conc \<Rightarrow> 'q conc \<Rightarrow> bool" for A where
  none: "conc_run A [] x x"
| more: "conc_run A es x y \<Longrightarrow> conc_step A e y z \<Longrightarrow> conc_run A (es @ [e]) x z"

section \<open>The abstract queue\<close>

record 's aspec =
  sp_push :: "'s \<Rightarrow> addr \<Rightarrow> u8 \<Rightarrow> int \<times> 's"
  sp_pull :: "'s \<Rightarrow> addr \<times> 's"

text \<open>The same events on the abstract queue: an acquisition is invisible, a take is never empty.\<close>

fun spec_event :: "'s aspec \<Rightarrow> conc_event \<Rightarrow> 's \<Rightarrow> 's option" where
  "spec_event S (C_push m p r) s = (case sp_push S s m p of (r', s') \<Rightarrow> if r' = r then Some s' else None)"
| "spec_event S C_acquire s = Some s"
| "spec_event S (C_take m) s = (case sp_pull S s of (m', s') \<Rightarrow> if m' = m \<and> m \<noteq> NULL then Some s' else None)"

fun spec_events :: "'s aspec \<Rightarrow> conc_event list \<Rightarrow> 's \<Rightarrow> 's option" where
  "spec_events S [] s = Some s"
| "spec_events S (e # es) s = Option.bind (spec_event S e s) (spec_events S es)"

lemma spec_events_append: "spec_events S (xs @ ys) s = Option.bind (spec_events S xs s) (spec_events S ys)"
  by (induction xs arbitrary: s) (auto split: Option.bind_split)

section \<open>Every run is a run of the abstract queue\<close>

locale threads =
  fixes A :: "'q atomics" and S :: "'s aspec"
    and cinv :: "nat \<Rightarrow> 'q \<Rightarrow> bool" and abst :: "'q \<Rightarrow> 's" and stored :: "'s \<Rightarrow> nat"
  assumes push_ok: "cinv k q \<Longrightarrow> m \<noteq> NULL \<Longrightarrow> unat p < 10 \<Longrightarrow> a_push A q m p h = Some (r, q', h') \<Longrightarrow>
      cinv k q' \<and> sp_push S (abst q) m p = (r, abst q')"
    and acquire_ok: "cinv k q \<Longrightarrow> 0 < a_sem A q \<Longrightarrow>
      cinv (Suc k) (a_set_sem A q (a_sem A q - 1)) \<and> abst (a_set_sem A q (a_sem A q - 1)) = abst q"
    and take_ok: "cinv (Suc k) q \<Longrightarrow>
      \<exists>m q'. a_take A q = Some (m, q') \<and> m \<noteq> NULL \<and> cinv k q' \<and> sp_pull S (abst q) = (m, abst q')"
    and counted: "cinv k q \<Longrightarrow> a_sem A q + k = stored (abst q)"
begin

lemma step_ok:
  "conc_step A e x y \<Longrightarrow> cinv (fst (snd x)) (fst x) \<Longrightarrow>
   cinv (fst (snd y)) (fst y) \<and> spec_event S e (abst (fst x)) = Some (abst (fst y))"
proof (induction rule: conc_step.induct)
  case (push m p q h r q' h' k)
  then show ?case using push_ok [of k q m p h r q' h'] by simp
next
  case (acquire q t v k h)
  have "0 < a_sem A q \<and> v = a_sem A q - 1"
    using acquire(1) by (cases "a_sem A q") (auto simp: semaphore_wait_zero split: if_splits)
  then show ?case using acquire_ok [of k q] acquire(2) by simp
next
  case (take q m q' k h)
  then show ?case using take_ok [of k q] by auto
qed

lemma run_ok:
  "conc_run A es x y \<Longrightarrow> cinv (fst (snd x)) (fst x) \<Longrightarrow>
   cinv (fst (snd y)) (fst y) \<and> spec_events S es (abst (fst x)) = Some (abst (fst y))"
  by (induction rule: conc_run.induct) (auto simp: spec_events_append dest!: step_ok)

lemma take_enabled:
  assumes "cinv k q" and "0 < k"
  shows "\<exists>m q'. a_take A q = Some (m, q') \<and> m \<noteq> NULL \<and> conc_step A (C_take m) (q, k, h) (q', k - 1, h)"
proof -
  obtain j where j: "k = Suc j" using gr0_implies_Suc [OF assms(2)] by blast
  then have "cinv (Suc j) q" using assms(1) by simp
  from take_ok [OF this] show ?thesis using j conc_step.take [of A q _ _ j h] by fastforce
qed

lemma linearisable:
  assumes "cinv 0 q0" and "conc_run A es (q0, 0, h0) (q, k, h)"
  shows "spec_events S es (abst q0) = Some (abst q) \<and> a_sem A q + k = stored (abst q)
      \<and> (0 < k \<longrightarrow> (\<exists>m q'. a_take A q = Some (m, q') \<and> m \<noteq> NULL
            \<and> conc_step A (C_take m) (q, k, h) (q', k - 1, h)))"
proof -
  have "cinv k q \<and> spec_events S es (abst q0) = Some (abst q)" using run_ok [OF assms(2)] assms(1) by simp
  then show ?thesis using counted [of k q] take_enabled [of k q h] by blast
qed

end

end
