(* ===== verification/Psqueue_conc.thy ===== *)
theory Psqueue_conc
  imports Psqueue_b Psqueue_threads
begin

text \<open>
  The priority queue of \<open>src/psqueue_b.c\<close> under threads. The invariant is that the semaphore and the
  \<open>k\<close> threads that have passed it and not yet taken a message together count the stored messages, so
  such a thread always finds one.
\<close>

section \<open>The two halves of a pull\<close>

definition b_pull_take :: "bqueue \<Rightarrow> (addr \<times> bqueue) option" where
  "b_pull_take q = do {
     m \<leftarrow> mutex_lock (b_mux q);
     (msg, q) \<leftarrow> bqueue_get (q\<lparr>b_mux := m\<rparr>);
     m \<leftarrow> mutex_unlock (b_mux q);
     Some (msg, q\<lparr>b_mux := m\<rparr>) }"

lemma b_queue_pull_split:
  "b_queue_pull q t = do {
     (r, s) \<leftarrow> semaphore_wait epoch (b_not_empty q) (pull_timeout t);
     if r < 0 then Some (NULL, q\<lparr>b_not_empty := s\<rparr>) else b_pull_take (q\<lparr>b_not_empty := s\<rparr>) }"
  unfolding b_queue_pull_def b_pull_take_def Let_def ..

section \<open>The critical sections do not read the semaphore\<close>

text \<open>\<open>k\<close> more units in the semaphore.\<close>

definition add_units :: "nat \<Rightarrow> bqueue \<Rightarrow> bqueue" where
  "add_units k q = q\<lparr>b_not_empty := b_not_empty q + k\<rparr>"

lemma add_units_simps [simp]:
  "b_links (add_units k q) = b_links q" "b_msg (add_units k q) = b_msg q" "b_priorities (add_units k q) = b_priorities q"
  "b_available (add_units k q) = b_available q" "b_mux (add_units k q) = b_mux q" "b_not_empty (add_units k q) = b_not_empty q + k"
  "b_brk (add_units k q) = b_brk q" "(add_units k q)\<lparr>b_links := l\<rparr> = add_units k (q\<lparr>b_links := l\<rparr>)"
  "(add_units k q)\<lparr>b_msg := f\<rparr> = add_units k (q\<lparr>b_msg := f\<rparr>)" "(add_units k q)\<lparr>b_priorities := ps\<rparr> = add_units k (q\<lparr>b_priorities := ps\<rparr>)"
  "(add_units k q)\<lparr>b_available := a\<rparr> = add_units k (q\<lparr>b_available := a\<rparr>)" "(add_units k q)\<lparr>b_mux := m\<rparr> = add_units k (q\<lparr>b_mux := m\<rparr>)"
  by (simp_all add: add_units_def)

lemma add_units_nodes [simp]: "b_nodes (add_units k q) = b_nodes q" "b_abs (add_units k q) = b_abs q"
  by (simp_all add: b_nodes_def b_abs_def)

lemma add_units_inj: "add_units k q = add_units k q' \<longleftrightarrow> q = q'"
  by (cases q; cases q') (auto simp: add_units_def)

lemma wr_msg_add_units: "wr_msg (add_units k q) n m = map_option (add_units k) (wr_msg q n m)"
  by (cases "b_msg q n") (simp_all add: wr_msg_def)

lemma b_get_loop_add_units: "b_get_loop is (add_units k q) = map_option (apsnd (add_units k)) (b_get_loop is q)"
proof (induction "is")
  case (Cons i "is")
  then show ?case
    by (auto simp: wr_msg_add_units Let_def split: Option.bind_split)
qed simp

lemma b_pull_take_add_units: "b_pull_take (add_units k q) = map_option (apsnd (add_units k)) (b_pull_take q)"
  by (auto simp: b_pull_take_def bqueue_get_def b_get_loop_add_units Let_def split: Option.bind_split)


lemma b_drop_loop_add_units:
  "b_drop_loop is (add_units k q) h = map_option (\<lambda>(r, n, q, h). (r, n, add_units k q, h)) (b_drop_loop is q h)"
  by (induction "is") (auto simp: wr_msg_add_units Let_def split: Option.bind_split)

lemma bqueue_get_available_add_units:
  "bqueue_get_available (add_units k q) p h
     = map_option (\<lambda>(r, n, q, h). (r, n, add_units k q, h)) (bqueue_get_available q p h)"
  by (auto simp: bqueue_get_available_def b_drop_loop_add_units Let_def split: Option.bind_split)

lemma bqueue_insert_add_units:
  "bqueue_insert (add_units k q) n p = map_option (add_units k) (bqueue_insert q n p)"
  by (auto simp: bqueue_insert_def Let_def split: Option.bind_split)

text \<open>Nothing before \<open>semaphore_post\<close> changes the semaphore.\<close>

lemma wr_msg_sem: "wr_msg q n m = Some q' \<Longrightarrow> b_not_empty q' = b_not_empty q"
  by (auto simp: wr_msg_def bind_Some_iff)

lemma b_drop_loop_sem: "b_drop_loop is q h = Some (r, n, q', h') \<Longrightarrow> b_not_empty q' = b_not_empty q"
  by (induction "is") (auto simp: Let_def bind_Some_iff dest!: wr_msg_sem split: if_splits)

lemma bqueue_get_available_sem: "bqueue_get_available q p h = Some (r, n, q', h') \<Longrightarrow> b_not_empty q' = b_not_empty q"
  by (auto simp: bqueue_get_available_def Let_def bind_Some_iff dest!: b_drop_loop_sem split: if_splits)

lemma bqueue_insert_sem: "bqueue_insert q n p = Some q' \<Longrightarrow> b_not_empty q' = b_not_empty q"
  by (auto simp: bqueue_insert_def Let_def bind_Some_iff)

lemma post_add_units:
  "b_not_empty q + k < SEM_VALUE_MAX \<Longrightarrow>
   (add_units k q)\<lparr>b_not_empty := snd (semaphore_post (b_not_empty q + k))\<rparr>
     = add_units k (q\<lparr>b_not_empty := snd (semaphore_post (b_not_empty q))\<rparr>)"
  by (simp add: semaphore_post_def add_units_def)

lemma b_queue_push_add_units:
  assumes "b_not_empty q + k < SEM_VALUE_MAX \<or> (\<forall>r n q' h'. bqueue_get_available (q\<lparr>b_mux := True\<rparr>) p h = Some (r, n, q', h') \<longrightarrow> r \<noteq> PS_QUEUE_OK)"
  shows "b_queue_push (add_units k q) m p h = map_option (\<lambda>(r, q, h). (r, add_units k q, h)) (b_queue_push q m p h)"
proof (cases "b_mux q")
  case True
  then show ?thesis by (simp add: b_queue_push_def mutex_defs)
next
  case free: False
  show ?thesis
  proof (cases "bqueue_get_available (q\<lparr>b_mux := True\<rparr>) p h")
    case None
    then show ?thesis using free by (simp add: b_queue_push_def mutex_defs Let_def bqueue_get_available_add_units)
  next
    case (Some x)
    obtain r n q1 h1 where x: "x = (r, n, q1, h1)" by (cases x)
    have av: "bqueue_get_available (q\<lparr>b_mux := True\<rparr>) p h = Some (r, n, q1, h1)" using Some x by simp
    have s1: "b_not_empty q1 = b_not_empty q" using bqueue_get_available_sem [of "q\<lparr>b_mux := True\<rparr>"] Some x by simp
    have post: "(add_units k q3)\<lparr>b_not_empty := snd (semaphore_post (b_not_empty q3 + k))\<rparr>
        = add_units k (q3\<lparr>b_not_empty := snd (semaphore_post (b_not_empty q3))\<rparr>)"
      if "r = PS_QUEUE_OK" "wr_msg q1 n m = Some q2" "bqueue_insert q2 n p = Some q3" for q2 q3
      using that(1) assms Some x s1 wr_msg_sem [OF that(2)] bqueue_insert_sem [OF that(3)]
      by (intro post_add_units) auto
    show ?thesis
    proof (cases "r = PS_QUEUE_EFULL")
      case True
      then show ?thesis using free Some x
        by (auto simp: b_queue_push_def mutex_defs Let_def bqueue_get_available_add_units split: Option.bind_split)
    next
      case False
      note run = b_queue_push_def mutex_defs Let_def bqueue_get_available_add_units wr_msg_add_units
      show ?thesis
      proof (cases "wr_msg q1 n m")
        case None
        then show ?thesis by (simp add: run free av False)
      next
        case w: (Some q2)
        show ?thesis
        proof (cases "bqueue_insert q2 n p")
          case None
          then show ?thesis by (simp add: run free av False w bqueue_insert_add_units)
        next
          case i: (Some q3)
          show ?thesis
          proof (cases "r = PS_QUEUE_OK")
            case True
            show ?thesis
              by (cases "b_mux q3") (simp_all add: run free av w i True queue_codes bqueue_insert_add_units post [OF True w i])
          next
            case no: False
            show ?thesis
              by (cases "b_mux q3") (simp_all add: run free av w i no False bqueue_insert_add_units)
          qed
        qed
      qed
    qed
  qed
qed

section \<open>The atomic actions keep the invariant\<close>

definition b_atomics :: "bqueue atomics" where
  "b_atomics = \<lparr>a_push = b_queue_push, a_sem = b_not_empty, a_set_sem = (\<lambda>q v. q\<lparr>b_not_empty := v\<rparr>),
                a_take = b_pull_take\<rparr>"

definition b_aspec :: "pq aspec" where
  "b_aspec = \<lparr>sp_push = (\<lambda>s m p. case spec_push s m (unat p) of (r, _, s') \<Rightarrow> (r, s')), sp_pull = spec_pull\<rparr>"

definition conc_inv :: "nat \<Rightarrow> bqueue \<Rightarrow> bool" where
  "conc_inv k q \<longleftrightarrow> b_inv (add_units k q)"

lemma add_units_0 [simp]: "add_units 0 q = q"
  by (simp add: add_units_def)

lemma conc_inv_D:
  assumes "conc_inv k q"
  shows "b_inv (add_units k q)" "\<not> b_mux q" "b_not_empty q + k = length (concat (fst (b_abs q)))"
    "length (concat (fst (b_abs q))) + snd (b_abs q) \<le> SEM_VALUE_MAX"
  using assms unfolding conc_inv_def b_inv_def by (simp_all del: length_concat)

text \<open>With a full queue the search for a node never answers OK.\<close>

lemma get_available_full:
  assumes "b_available q = NULL" and "bqueue_get_available q p h = Some (r, n, q', h')"
  shows "r \<noteq> PS_QUEUE_OK"
proof -
  have "b_drop_loop is q h = Some (r, n, q', h') \<Longrightarrow> r \<noteq> PS_QUEUE_OK" for "is"
    by (induction "is") (auto simp: queue_codes Let_def bind_Some_iff split: if_splits)
  then show ?thesis using assms by (auto simp: bqueue_get_available_def)
qed

lemma conc_push_ok:
  assumes inv: "conc_inv k q" and m: "m \<noteq> NULL" and p: "unat p < PRIORITIES"
    and run: "b_queue_push q m p h = Some (r, q', h')"
  shows "conc_inv k q' \<and> sp_push b_aspec (b_abs q) m p = (r, b_abs q')"
proof -
  note d = conc_inv_D [OF inv]
  obtain r0 dr s' where spec: "spec_push (b_abs (add_units k q)) m (unat p) = (r0, dr, s')" by (cases "spec_push (b_abs (add_units k q)) m (unat p)")
  obtain q1 where q1: "b_inv q1" "b_abs q1 = s'"
    "b_queue_push (add_units k q) m p h = map_option (\<lambda>h'. (r0, q1, h')) (case dr of None \<Rightarrow> Some h | Some e \<Rightarrow> ps_unref_msg e h)"
    using b_queue_push_refines [OF d(1) m p spec] by blast
  have "b_not_empty q + k < SEM_VALUE_MAX \<or>
      (\<forall>r n q' h'. bqueue_get_available (q\<lparr>b_mux := True\<rparr>) p h = Some (r, n, q', h') \<longrightarrow> r \<noteq> PS_QUEUE_OK)"
  proof (cases "snd (b_abs q) = 0")
    case True
    have "length (b_nodes q ! PRIORITIES) = 0" using b_inv_D(8) [OF d(1)] True by simp
    then have "b_available (q\<lparr>b_mux := True\<rparr>) = NULL"
      using b_rel_avail_null [OF b_inv_D(1) [OF d(1)]] by simp
    then show ?thesis using get_available_full by blast
  next
    case False
    then show ?thesis using d(3,4) by linarith
  qed
  then have "b_queue_push (add_units k q) m p h = Some (r, add_units k q', h')"
    using b_queue_push_add_units [of q k p h m] run by simp
  then have "r = r0" "q1 = add_units k q'" using q1(3) by auto
  then show ?thesis using q1(1,2) spec by (auto simp: conc_inv_def b_aspec_def)
qed

lemma conc_acquire_ok:
  assumes inv: "conc_inv k q" and pos: "0 < b_not_empty q"
  shows "conc_inv (Suc k) (q\<lparr>b_not_empty := b_not_empty q - 1\<rparr>) \<and> b_abs (q\<lparr>b_not_empty := b_not_empty q - 1\<rparr>) = b_abs q"
proof -
  have "add_units (Suc k) (q\<lparr>b_not_empty := b_not_empty q - 1\<rparr>) = add_units k q" using pos by (simp add: add_units_def)
  then show ?thesis using inv by (simp add: conc_inv_def b_abs_def b_nodes_def)
qed

lemma conc_take_returns:
  assumes inv: "conc_inv (Suc k) q"
  shows "\<exists>m q'. b_pull_take q = Some (m, q') \<and> m \<noteq> NULL \<and> conc_inv k q' \<and> spec_pull (b_abs q) = (m, b_abs q')"
proof -
  note d = conc_inv_D [OF inv]
  let ?q = "add_units (Suc k) q"
  have ne: "concat (fst (b_abs ?q)) \<noteq> []" using d(3) by (metis add_units_nodes(2) add_is_0 list.size(3) nat.distinct(1))
  obtain m s' where spec: "spec_pull (b_abs ?q) = (m, s')" by (cases "spec_pull (b_abs ?q)")
  obtain q1 where q1: "b_queue_pull ?q 0 = Some (m, q1)" "b_inv q1" "b_abs q1 = s'"
    using b_queue_pull_refines [OF d(1) ne spec] by blast
  have eq: "(add_units (Suc k) q)\<lparr>b_not_empty := b_not_empty q + k\<rparr> = add_units k q" by (simp add: add_units_def)
  have "b_queue_pull ?q 0 = b_pull_take ((add_units (Suc k) q)\<lparr>b_not_empty := b_not_empty q + k\<rparr>)"
    unfolding b_queue_pull_split by simp
  then have "b_pull_take (add_units k q) = Some (m, q1)" using q1(1) unfolding eq by simp
  then obtain q' where q': "b_pull_take q = Some (m, q')" "q1 = add_units k q'"
    unfolding b_pull_take_add_units by auto
  have "m \<in> set (b_msgs ?q)"
  proof -
    obtain i where i: "highest (fst (b_abs ?q)) = Some i"
      using highest_None_iff [OF b_inv_D(5) [OF d(1)]] ne by auto
    have len: "length (fst (b_abs ?q)) = PRIORITIES" by (rule b_inv_D(5) [OF d(1)])
    have "m = hd (fst (b_abs ?q) ! i)" using spec i by (cases "b_abs ?q") (simp add: spec_pull_def)
    then have "m \<in> set (fst (b_abs ?q) ! i)" using highest_Some [OF i] by simp
    then show ?thesis using highest_Some [OF i] len by (auto simp: b_msgs_def)
  qed
  then have "m \<noteq> NULL" using b_msgs_nonnull [OF d(1)] by metis
  then show ?thesis using q' q1(2,3) spec by (auto simp: conc_inv_def)
qed

interpretation bt: threads b_atomics b_aspec conc_inv b_abs "\<lambda>s. length (concat (fst s))"
proof unfold_locales
  fix k q m p h r q' h'
  assume "conc_inv k q" "m \<noteq> NULL" "unat p < 10" "a_push b_atomics q m p h = Some (r, q', h')"
  then show "conc_inv k q' \<and> sp_push b_aspec (b_abs q) m p = (r, b_abs q')"
    using conc_push_ok [of k q m p h r q' h'] by (simp add: b_atomics_def PRIORITIES_def)
next
  fix k q assume "conc_inv k q" "0 < a_sem b_atomics q"
  then show "conc_inv (Suc k) (a_set_sem b_atomics q (a_sem b_atomics q - 1))
      \<and> b_abs (a_set_sem b_atomics q (a_sem b_atomics q - 1)) = b_abs q"
    using conc_acquire_ok [of k q] by (simp add: b_atomics_def)
next
  fix k q assume "conc_inv (Suc k) q"
  then show "\<exists>m q'. a_take b_atomics q = Some (m, q') \<and> m \<noteq> NULL \<and> conc_inv k q' \<and> sp_pull b_aspec (b_abs q) = (m, b_abs q')"
    using conc_take_returns [of k q] by (simp add: b_atomics_def b_aspec_def)
next
  fix k q assume "conc_inv k q"
  then show "a_sem b_atomics q + k = length (concat (fst (b_abs q)))"
    using conc_inv_D(3) [of k q] by (simp add: b_atomics_def)
qed

lemma conc_inv_new: "n \<le> SEM_VALUE_MAX \<Longrightarrow> b_new_queue n = Some q \<Longrightarrow> conc_inv 0 q \<and> b_abs q = (replicate PRIORITIES [], n)"
  using b_new_queue_ok [of n] by (auto simp: conc_inv_def)

end
