(* ===== verification/Psqueue_ll_conc.thy ===== *)
theory Psqueue_ll_conc
  imports Psqueue_ll Psqueue_threads
begin

text \<open>
  The ring of \<open>src/psqueue_ll.c\<close> under threads: the invariant of the ring with the \<open>k\<close> units given
  back that threads have taken from the semaphore and not yet used.
\<close>

section \<open>The two halves of a pull\<close>

definition ll_pull_take :: "ring \<Rightarrow> (addr \<times> ring) option" where
  "ll_pull_take q = do {
     m \<leftarrow> mutex_lock (r_mux q);
     let q = q\<lparr>r_mux := m\<rparr>;
     msg \<leftarrow> arr_get (r_messages q) (r_tail q);
     let q = q\<lparr>r_tail := r_tail q + 1\<rparr>;
     let q = (if r_tail q \<ge> r_size q then q\<lparr>r_tail := 0\<rparr> else q);
     let q = q\<lparr>r_count := r_count q - 1\<rparr>;
     m \<leftarrow> mutex_unlock (r_mux q);
     Some (msg, q\<lparr>r_mux := m\<rparr>) }"

lemma ll_queue_pull_split:
  "ll_queue_pull q t = do {
     (r, s) \<leftarrow> semaphore_wait epoch (r_not_empty q) (pull_timeout t);
     if r < 0 then Some (NULL, q\<lparr>r_not_empty := s\<rparr>) else ll_pull_take (q\<lparr>r_not_empty := s\<rparr>) }"
  unfolding ll_queue_pull_def ll_pull_take_def Let_def ..

section \<open>The critical sections do not read the semaphore\<close>

definition ring_units :: "nat \<Rightarrow> ring \<Rightarrow> ring" where
  "ring_units k q = q\<lparr>r_not_empty := r_not_empty q + k\<rparr>"

lemma ring_units_simps [simp]:
  "r_messages (ring_units k q) = r_messages q" "r_size (ring_units k q) = r_size q"
  "r_count (ring_units k q) = r_count q" "r_head (ring_units k q) = r_head q" "r_tail (ring_units k q) = r_tail q"
  "r_mux (ring_units k q) = r_mux q" "r_not_empty (ring_units k q) = r_not_empty q + k"
  "ll_msgs (ring_units k q) = ll_msgs q" "ring_units 0 q = q"
  by (simp_all add: ring_units_def ll_msgs_def)

lemma ring_units_inj: "ring_units k q = ring_units k q' \<longleftrightarrow> q = q'"
  by (cases q; cases q') (auto simp: ring_units_def)

lemma ll_pull_take_units:
  "ll_pull_take (ring_units k q) = map_option (apsnd (ring_units k)) (ll_pull_take q)"
  by (cases "r_mux q"; cases "arr_get (r_messages q) (r_tail q)")
    (simp_all add: ll_pull_take_def mutex_defs Let_def ring_units_def)

lemma ll_queue_push_units:
  "r_not_empty q + k < SEM_VALUE_MAX \<or> r_size q \<le> r_count q \<Longrightarrow>
   ll_queue_push (ring_units k q) m p h = map_option (\<lambda>(r, q, h). (r, ring_units k q, h)) (ll_queue_push q m p h)"
  by (cases "r_mux q"; cases "arr_set (r_messages q) (r_head q) m")
    (auto simp: ll_queue_push_def mutex_defs Let_def ring_units_def semaphore_post_def)

section \<open>The atomic actions keep the invariant\<close>

definition ll_atomics :: "ring atomics" where
  "ll_atomics = \<lparr>a_push = ll_queue_push, a_sem = r_not_empty, a_set_sem = (\<lambda>q v. q\<lparr>r_not_empty := v\<rparr>),
                 a_take = ll_pull_take\<rparr>"

text \<open>The abstract ring: the stored messages in order, and how many fit.\<close>

type_synonym fifo = "addr list \<times> nat"

definition fifo_push :: "fifo \<Rightarrow> addr \<Rightarrow> u8 \<Rightarrow> int \<times> fifo" where
  "fifo_push s m p = (if length (fst s) < snd s then (PS_QUEUE_OK, fst s @ [m], snd s) else (PS_QUEUE_EFULL, s))"

definition fifo_pull :: "fifo \<Rightarrow> addr \<times> fifo" where
  "fifo_pull s = (case fst s of [] \<Rightarrow> (NULL, s) | m # ms \<Rightarrow> (m, ms, snd s))"

definition ll_aspec :: "fifo aspec" where
  "ll_aspec = \<lparr>sp_push = fifo_push, sp_pull = fifo_pull\<rparr>"

definition ll_abs :: "ring \<Rightarrow> fifo" where
  "ll_abs q = (ll_msgs q, r_size q)"

definition ring_inv :: "nat \<Rightarrow> ring \<Rightarrow> bool" where
  "ring_inv k q \<longleftrightarrow> ll_inv (ring_units k q)"

lemma ring_inv_D:
  assumes "ring_inv k q"
  shows "r_not_empty q + k = r_count q" "r_count q \<le> r_size q" "r_size q \<le> SEM_VALUE_MAX" "\<not> r_mux q"
  using assms by (simp_all add: ring_inv_def ll_inv_def)

lemma ring_push_ok:
  assumes inv: "ring_inv k q" and m: "m \<noteq> NULL" and run: "ll_queue_push q m p h = Some (r, q', h')"
  shows "ring_inv k q' \<and> fifo_push (ll_abs q) m p = (r, ll_abs q')"
proof -
  note d = ring_inv_D [OF inv]
  have i: "ll_inv (ring_units k q)" using inv by (simp add: ring_inv_def)
  have u: "ll_queue_push (ring_units k q) m p h = Some (r, ring_units k q', h')"
    using ll_queue_push_units [of q k m p h] d run by fastforce
  show ?thesis
  proof (cases "r_count q < r_size q")
    case True
    then obtain q1 where "ll_queue_push (ring_units k q) m p h = Some (PS_QUEUE_OK, q1, h)" "ll_inv q1"
      "r_size q1 = r_size q" "ll_msgs q1 = ll_msgs q @ [m]"
      using ll_push_room [OF i m, of p h] by auto
    with u True show ?thesis by (auto simp: ring_inv_def fifo_push_def ll_abs_def)
  next
    case False
    with ll_push_full [OF i, of m p h] u d(2) have "r = PS_QUEUE_EFULL" "ring_units k q' = ring_units k q" by simp_all
    then show ?thesis using inv False by (simp add: ring_units_inj fifo_push_def ll_abs_def)
  qed
qed

lemma ring_acquire_ok:
  assumes "ring_inv k q" and "0 < r_not_empty q"
  shows "ring_inv (Suc k) (q\<lparr>r_not_empty := r_not_empty q - 1\<rparr>) \<and> ll_abs (q\<lparr>r_not_empty := r_not_empty q - 1\<rparr>) = ll_abs q"
proof -
  have "ring_units (Suc k) (q\<lparr>r_not_empty := r_not_empty q - 1\<rparr>) = ring_units k q"
    using assms(2) by (simp add: ring_units_def)
  then show ?thesis using assms(1) by (simp add: ring_inv_def ll_abs_def ll_msgs_def)
qed

lemma ring_take_ok:
  assumes inv: "ring_inv (Suc k) q"
  shows "\<exists>m q'. ll_pull_take q = Some (m, q') \<and> m \<noteq> NULL \<and> ring_inv k q' \<and> fifo_pull (ll_abs q) = (m, ll_abs q')"
proof -
  let ?q = "ring_units (Suc k) q"
  have i: "ll_inv ?q" using inv by (simp add: ring_inv_def)
  obtain m ms where ms: "ll_msgs q = m # ms"
    using ring_inv_D(1) [OF inv] length_ll_msgs [of q] by (cases "ll_msgs q") auto
  then obtain q1 where q1: "ll_queue_pull ?q 0 = Some (m, q1)" "ll_inv q1" "ll_msgs q1 = ms" "r_size q1 = r_size q"
    using ll_pull_some [OF i, of m ms 0] by auto
  have eq: "?q\<lparr>r_not_empty := r_not_empty q + k\<rparr> = ring_units k q" by (simp add: ring_units_def)
  have "ll_queue_pull ?q 0 = ll_pull_take (?q\<lparr>r_not_empty := r_not_empty q + k\<rparr>)"
    unfolding ll_queue_pull_split by simp
  then have "ll_pull_take (ring_units k q) = Some (m, q1)" using q1(1) unfolding eq by simp
  then obtain q' where q': "ll_pull_take q = Some (m, q')" "q1 = ring_units k q'"
    unfolding ll_pull_take_units by auto
  have "m \<noteq> NULL" using ll_bounds(2) [OF i] ms by auto
  then show ?thesis using q' q1 ms by (auto simp: ring_inv_def fifo_pull_def ll_abs_def)
qed

interpretation lt: threads ll_atomics ll_aspec ring_inv ll_abs "\<lambda>s. length (fst s)"
proof unfold_locales
  fix k q m p h r q' h'
  assume "ring_inv k q" "m \<noteq> NULL" "a_push ll_atomics q m p h = Some (r, q', h')"
  then show "ring_inv k q' \<and> sp_push ll_aspec (ll_abs q) m p = (r, ll_abs q')"
    using ring_push_ok [of k q m p h r q' h'] by (simp add: ll_atomics_def ll_aspec_def)
next
  fix k q assume "ring_inv k q" "0 < a_sem ll_atomics q"
  then show "ring_inv (Suc k) (a_set_sem ll_atomics q (a_sem ll_atomics q - 1))
      \<and> ll_abs (a_set_sem ll_atomics q (a_sem ll_atomics q - 1)) = ll_abs q"
    using ring_acquire_ok [of k q] by (simp add: ll_atomics_def)
next
  fix k q assume "ring_inv (Suc k) q"
  then show "\<exists>m q'. a_take ll_atomics q = Some (m, q') \<and> m \<noteq> NULL \<and> ring_inv k q' \<and> sp_pull ll_aspec (ll_abs q) = (m, ll_abs q')"
    using ring_take_ok [of k q] by (simp add: ll_atomics_def ll_aspec_def)
next
  fix k q assume "ring_inv k q"
  then show "a_sem ll_atomics q + k = length (fst (ll_abs q))"
    using ring_inv_D(1) [of k q] by (simp add: ll_atomics_def ll_abs_def)
qed

lemma ring_inv_new:
  "n \<le> SEM_VALUE_MAX \<Longrightarrow> ll_new_queue n = Some q \<Longrightarrow> ring_inv 0 q \<and> ll_abs q = ([], n)"
  using ll_new [of n] by (auto simp: ring_inv_def ll_abs_def)

end
