(* ===== verification/Sync_freertos.thy ===== *)
theory Sync_freertos
  imports Sync
begin

text \<open>
  The FreeRTOS backend \<open>src/sync_freertos.c\<close>. The kernel is not part of the repository: its semaphore API is an
  argument of every definition, a record of functions on an abstract kernel state. \<open>rtos_contract\<close> states what the
  FreeRTOS reference manual promises of these functions, in terms of the count and the maximum of every semaphore.
  A semaphore of this backend then gives the same results as one of the Linux backend, call by call.
\<close>

section \<open>The kernel API\<close>

text \<open>Handles are addresses; \<open>xSemaphoreTake\<close> is \<open>None\<close> when it does not return.\<close>

record 'k freertos =
  xSemaphoreCreateMutex :: "'k \<Rightarrow> addr \<times> 'k"
  xSemaphoreCreateCounting :: "u32 \<Rightarrow> u32 \<Rightarrow> 'k \<Rightarrow> addr \<times> 'k"
  xSemaphoreTake :: "addr \<Rightarrow> u32 \<Rightarrow> 'k \<Rightarrow> (u32 \<times> 'k) option"
  xSemaphoreGive :: "addr \<Rightarrow> 'k \<Rightarrow> u32 \<times> 'k"
  uxSemaphoreGetCount :: "addr \<Rightarrow> 'k \<Rightarrow> u32"
  vSemaphoreDelete :: "addr \<Rightarrow> 'k \<Rightarrow> 'k"
  pdMS_TO_TICKS :: "u32 \<Rightarrow> u32"
  portMAX_DELAY :: u32

section \<open>The backend\<close>

text \<open>The pointer arguments of the init and destroy functions are returned: the handle that is stored in them.\<close>

definition INT32_MAX :: u32 where
  "INT32_MAX = 0x7FFFFFFF"

definition freertos_mutex_init :: "'k freertos \<Rightarrow> 'k \<Rightarrow> int \<times> addr \<times> 'k" where
  "freertos_mutex_init api k = (let (m, k) = xSemaphoreCreateMutex api k in (0, m, k))"

definition freertos_mutex_lock :: "'k freertos \<Rightarrow> addr \<Rightarrow> 'k \<Rightarrow> (int \<times> 'k) option" where
  "freertos_mutex_lock api m k = do {
     (r, k) \<leftarrow> xSemaphoreTake api m (portMAX_DELAY api) k;
     Some (if r \<noteq> 0 then 0 else -1, k) }"

definition freertos_mutex_unlock :: "'k freertos \<Rightarrow> addr \<Rightarrow> 'k \<Rightarrow> int \<times> 'k" where
  "freertos_mutex_unlock api m k = (let (r, k) = xSemaphoreGive api m k in (if r \<noteq> 0 then 0 else -1, k))"

definition freertos_mutex_destroy :: "'k freertos \<Rightarrow> addr \<Rightarrow> 'k \<Rightarrow> addr \<times> 'k" where
  "freertos_mutex_destroy api m k = (let k = vSemaphoreDelete api m k in (NULL, k))"

definition freertos_semaphore_init :: "'k freertos \<Rightarrow> u32 \<Rightarrow> 'k \<Rightarrow> int \<times> addr \<times> 'k" where
  "freertos_semaphore_init api value k = (let (s, k) = xSemaphoreCreateCounting api INT32_MAX value k in (0, s, k))"

definition freertos_semaphore_wait :: "'k freertos \<Rightarrow> addr \<Rightarrow> i32 \<Rightarrow> 'k \<Rightarrow> (int \<times> 'k) option" where
  "freertos_semaphore_wait api s timeout_ms k =
     (if timeout_ms <s 0 then do {
        (r, k) \<leftarrow> xSemaphoreTake api s (portMAX_DELAY api) k;
        Some (if r \<noteq> 0 then 0 else -1, k)
      } else do {
        (r, k) \<leftarrow> xSemaphoreTake api s (pdMS_TO_TICKS api (scast timeout_ms)) k;
        Some (if r \<noteq> 0 then 0 else -1, k)
      })"

definition freertos_semaphore_post :: "'k freertos \<Rightarrow> addr \<Rightarrow> 'k \<Rightarrow> int \<times> 'k" where
  "freertos_semaphore_post api s k = (let (r, k) = xSemaphoreGive api s k in (if r \<noteq> 0 then 0 else -1, k))"

definition freertos_semaphore_get :: "'k freertos \<Rightarrow> addr \<Rightarrow> 'k \<Rightarrow> int" where
  "freertos_semaphore_get api s k = sint (uxSemaphoreGetCount api s k)"

definition freertos_semaphore_destroy :: "'k freertos \<Rightarrow> addr \<Rightarrow> 'k \<Rightarrow> addr \<times> 'k" where
  "freertos_semaphore_destroy api s k = (let k = vSemaphoreDelete api s k in (NULL, k))"

section \<open>What the kernel promises\<close>

text \<open>\<open>cnt k h\<close> is the count and the maximum of the semaphore \<open>h\<close>; a mutex is a semaphore of maximum 1 that starts
full. A creation that finds no memory gives null.\<close>

type_synonym 'k counts = "'k \<Rightarrow> addr \<Rightarrow> (nat \<times> nat) option"

definition create_contract :: "'k counts \<Rightarrow> nat \<times> nat \<Rightarrow> 'k \<Rightarrow> addr \<times> 'k \<Rightarrow> bool" where
  "create_contract cnt new k x \<longleftrightarrow>
     (if fst x = NULL then cnt (snd x) = cnt k
      else cnt k (fst x) = None \<and> cnt (snd x) = (cnt k)(fst x \<mapsto> new))"

definition take_contract :: "'k freertos \<Rightarrow> 'k counts \<Rightarrow> addr \<Rightarrow> nat \<Rightarrow> nat \<Rightarrow> 'k \<Rightarrow> u32 \<Rightarrow> bool" where
  "take_contract api cnt h c m k t \<longleftrightarrow>
     (if 0 < c then \<exists>k'. xSemaphoreTake api h t k = Some (1, k') \<and> cnt k' = (cnt k)(h \<mapsto> (c - 1, m))
      else if t = portMAX_DELAY api then xSemaphoreTake api h t k = None
      else \<exists>k'. xSemaphoreTake api h t k = Some (0, k') \<and> cnt k' = cnt k)"

definition give_contract :: "'k freertos \<Rightarrow> 'k counts \<Rightarrow> addr \<Rightarrow> nat \<Rightarrow> nat \<Rightarrow> 'k \<Rightarrow> bool" where
  "give_contract api cnt h c m k \<longleftrightarrow>
     (if c < m then fst (xSemaphoreGive api h k) = 1 \<and> cnt (snd (xSemaphoreGive api h k)) = (cnt k)(h \<mapsto> (c + 1, m))
      else fst (xSemaphoreGive api h k) = 0 \<and> cnt (snd (xSemaphoreGive api h k)) = cnt k)"

definition rtos_contract :: "'k freertos \<Rightarrow> 'k counts \<Rightarrow> bool" where
  "rtos_contract api cnt \<longleftrightarrow>
     (\<forall>k. create_contract cnt (1, 1) k (xSemaphoreCreateMutex api k)) \<and>
     (\<forall>k m v. v \<le> m \<longrightarrow> create_contract cnt (unat v, unat m) k (xSemaphoreCreateCounting api m v k)) \<and>
     (\<forall>k h c m. cnt k h = Some (c, m) \<longrightarrow> c \<le> m \<and> m < 2 ^ 32 \<and> (\<forall>t. take_contract api cnt h c m k t)
        \<and> give_contract api cnt h c m k \<and> unat (uxSemaphoreGetCount api h k) = c
        \<and> cnt (vSemaphoreDelete api h k) = (cnt k)(h := None))"

lemma rtos_contract_D:
  assumes "rtos_contract api cnt"
  shows "create_contract cnt (1, 1) k (xSemaphoreCreateMutex api k)"
    and "v \<le> m \<Longrightarrow> create_contract cnt (unat v, unat m) k (xSemaphoreCreateCounting api m v k)"
    and "cnt k h = Some (c, n) \<Longrightarrow> c \<le> n" and "cnt k h = Some (c, n) \<Longrightarrow> take_contract api cnt h c n k t"
    and "cnt k h = Some (c, n) \<Longrightarrow> give_contract api cnt h c n k"
    and "cnt k h = Some (c, n) \<Longrightarrow> unat (uxSemaphoreGetCount api h k) = c"
    and "cnt k h = Some (c, n) \<Longrightarrow> cnt (vSemaphoreDelete api h k) = (cnt k)(h := None)"
  using assms unfolding rtos_contract_def by blast+

section \<open>The backend against the Linux backend\<close>

text \<open>The simulation relation: handle \<open>h\<close> is a semaphore of this count, with the range of a POSIX semaphore.\<close>

definition sem_at :: "'k counts \<Rightarrow> 'k \<Rightarrow> addr \<Rightarrow> semaphore \<Rightarrow> bool" where
  "sem_at cnt k h c \<longleftrightarrow> cnt k h = Some (c, SEM_VALUE_MAX)"

text \<open>A finite timeout must not be the tick count that means "for ever".\<close>

definition finite_ticks :: "'k freertos \<Rightarrow> bool" where
  "finite_ticks api \<longleftrightarrow> (\<forall>t :: i32. \<not> t <s 0 \<longrightarrow> pdMS_TO_TICKS api (scast t) \<noteq> portMAX_DELAY api)"

lemma sint_small: "unat (w :: u32) < 2 ^ 31 \<Longrightarrow> sint w = int (unat w)"
proof -
  assume "unat w < 2 ^ 31"
  then have "int (unat w) < 2 ^ 31" by (metis of_nat_less_iff of_nat_numeral of_nat_power)
  then have "uint w < 2 ^ 31" by (simp only: uint_nat)
  moreover have "- (2 ^ 31) \<le> uint w" by (rule order_trans [OF _ uint_ge_0]) simp
  ultimately show ?thesis by (simp add: sint_uint signed_take_bit_int_eq_self)
qed

lemma sem_at_get: "rtos_contract api cnt \<Longrightarrow> sem_at cnt k h c \<Longrightarrow> freertos_semaphore_get api h k = semaphore_get c"
proof -
  assume a: "rtos_contract api cnt" "sem_at cnt k h c"
  then have c: "cnt k h = Some (c, SEM_VALUE_MAX)" by (simp add: sem_at_def)
  have "unat (uxSemaphoreGetCount api h k) < 2 ^ 31"
    using rtos_contract_D(3,6) [OF a(1) c] by (simp add: SEM_VALUE_MAX_def)
  then have "sint (uxSemaphoreGetCount api h k) = int (unat (uxSemaphoreGetCount api h k))"
    by (rule sint_small)
  then show ?thesis using rtos_contract_D(6) [OF a(1) c] by (simp add: freertos_semaphore_get_def semaphore_get_def)
qed

lemma sem_at_post:
  assumes "rtos_contract api cnt" and "sem_at cnt k h c" and "semaphore_post c = (r, c')"
  shows "\<exists>k'. freertos_semaphore_post api h k = (r, k') \<and> sem_at cnt k' h c'"
  using rtos_contract_D(5) [OF assms(1)] assms(2,3)
  by (cases "xSemaphoreGive api h k") (fastforce simp: sem_at_def give_contract_def freertos_semaphore_post_def semaphore_post_def split: if_splits)

lemma sem_at_wait:
  assumes "rtos_contract api cnt" and "finite_ticks api" and "sem_at cnt k h c"
  shows "case semaphore_wait now c t of
      None \<Rightarrow> freertos_semaphore_wait api h t k = None
    | Some (r, c') \<Rightarrow> \<exists>k'. freertos_semaphore_wait api h t k = Some (r, k') \<and> sem_at cnt k' h c'"
proof -
  have T: "take_contract api cnt h c SEM_VALUE_MAX k u" for u
    using rtos_contract_D(4) [OF assms(1)] assms(3) by (simp add: sem_at_def)
  show ?thesis
  proof (cases "0 < c")
    case True
    then show ?thesis
      using T [of "portMAX_DELAY api"] T [of "pdMS_TO_TICKS api (scast t)"] assms(3)
      by (auto simp: freertos_semaphore_wait_def take_contract_def sem_at_def)
  next
    case False
    then show ?thesis
      using T [of "portMAX_DELAY api"] T [of "pdMS_TO_TICKS api (scast t)"] assms(2,3)
      by (auto simp: freertos_semaphore_wait_def take_contract_def sem_at_def semaphore_wait_zero finite_ticks_def)
  qed
qed

text \<open>Runs of semaphore operations, with the results of all of them.\<close>

datatype sem_op = Op_wait i32 | Op_post | Op_get

fun linux_run :: "timespec \<Rightarrow> sem_op list \<Rightarrow> semaphore \<Rightarrow> (int list \<times> semaphore) option" where
  "linux_run now [] c = Some ([], c)"
| "linux_run now (Op_wait t # ops) c = do {
     (r, c) \<leftarrow> semaphore_wait now c t; (rs, c) \<leftarrow> linux_run now ops c; Some (r # rs, c) }"
| "linux_run now (Op_post # ops) c = do {
     let (r, c) = semaphore_post c; (rs, c) \<leftarrow> linux_run now ops c; Some (r # rs, c) }"
| "linux_run now (Op_get # ops) c = do { (rs, c') \<leftarrow> linux_run now ops c; Some (semaphore_get c # rs, c') }"

fun freertos_run :: "'k freertos \<Rightarrow> addr \<Rightarrow> sem_op list \<Rightarrow> 'k \<Rightarrow> (int list \<times> 'k) option" where
  "freertos_run api h [] k = Some ([], k)"
| "freertos_run api h (Op_wait t # ops) k = do {
     (r, k) \<leftarrow> freertos_semaphore_wait api h t k; (rs, k) \<leftarrow> freertos_run api h ops k; Some (r # rs, k) }"
| "freertos_run api h (Op_post # ops) k = do {
     let (r, k) = freertos_semaphore_post api h k; (rs, k) \<leftarrow> freertos_run api h ops k; Some (r # rs, k) }"
| "freertos_run api h (Op_get # ops) k = do {
     (rs, k') \<leftarrow> freertos_run api h ops k; Some (freertos_semaphore_get api h k # rs, k') }"

lemma sem_at_run:
  assumes "rtos_contract api cnt" and "finite_ticks api" and "sem_at cnt k h c"
  shows "map_option fst (freertos_run api h ops k) = map_option fst (linux_run now ops c)"
  using assms(3)
proof (induction ops arbitrary: k c)
  case (Cons op ops)
  show ?case
  proof (cases op)
    case (Op_wait t)
    show ?thesis
    proof (cases "semaphore_wait now c t")
      case None
      then show ?thesis using sem_at_wait [OF assms(1,2) Cons.prems, where now = now and t = t] Op_wait by simp
    next
      case (Some x)
      then obtain k' where k': "freertos_semaphore_wait api h t k = Some (fst x, k')" "sem_at cnt k' h (snd x)"
        using sem_at_wait [OF assms(1,2) Cons.prems, where now = now and t = t] by (cases x) auto
      show ?thesis
        using Cons.IH [OF k'(2)] k'(1) Op_wait Some
        by (cases x; cases "freertos_run api h ops k'"; cases "linux_run now ops (snd x)") auto
    qed
  next
    case Op_post
    obtain r c' where p: "semaphore_post c = (r, c')" by (cases "semaphore_post c")
    obtain k' where k': "freertos_semaphore_post api h k = (r, k')" "sem_at cnt k' h c'"
      using sem_at_post [OF assms(1) Cons.prems p] by blast
    show ?thesis
      using Cons.IH [OF k'(2)] k'(1) Op_post p
      by (cases "freertos_run api h ops k'"; cases "linux_run now ops c'") auto
  next
    case Op_get
    then show ?thesis
      using Cons.IH [OF Cons.prems] sem_at_get [OF assms(1) Cons.prems]
      by (cases "freertos_run api h ops k"; cases "linux_run now ops c") auto
  qed
qed simp

lemma freertos_semaphore_init_ok:
  assumes "rtos_contract api cnt" and "unat v \<le> SEM_VALUE_MAX" and "freertos_semaphore_init api v k = (r, h, k')" and "h \<noteq> NULL"
  shows "r = 0 \<and> sem_at cnt k' h (semaphore_init (unat v))"
proof -
  have "v \<le> INT32_MAX" using assms(2) by (simp add: word_le_nat_alt INT32_MAX_def SEM_VALUE_MAX_def)
  from rtos_contract_D(2) [OF assms(1) this, of k] assms(3,4) show ?thesis
    by (auto simp: freertos_semaphore_init_def create_contract_def sem_at_def semaphore_init_def INT32_MAX_def SEM_VALUE_MAX_def
        split: prod.splits)
qed

text \<open>A mutex of this backend is the \<open>locked\<close> bit of the Linux backend: a count of 0 out of 1 is locked.\<close>

definition mutex_at :: "'k counts \<Rightarrow> 'k \<Rightarrow> addr \<Rightarrow> mutex \<Rightarrow> bool" where
  "mutex_at cnt k h b \<longleftrightarrow> cnt k h = Some (if b then 0 else 1, 1)"

lemma freertos_mutex_ok:
  assumes "rtos_contract api cnt"
  shows "freertos_mutex_init api k = (r, h, k') \<Longrightarrow> h \<noteq> NULL \<Longrightarrow> r = 0 \<and> mutex_at cnt k' h mutex_init"
    and "mutex_at cnt k h b \<Longrightarrow> case mutex_lock b of
           None \<Rightarrow> freertos_mutex_lock api h k = None
         | Some b' \<Rightarrow> \<exists>k'. freertos_mutex_lock api h k = Some (0, k') \<and> mutex_at cnt k' h b'"
    and "mutex_at cnt k h True \<Longrightarrow> \<exists>k'. freertos_mutex_unlock api h k = (0, k') \<and> mutex_at cnt k' h False"
    and "mutex_at cnt k h b \<Longrightarrow> \<exists>k'. freertos_mutex_destroy api h k = (NULL, k') \<and> cnt k' h = None"
proof -
  note d = rtos_contract_D [OF assms]
  show "freertos_mutex_init api k = (r, h, k') \<Longrightarrow> h \<noteq> NULL \<Longrightarrow> r = 0 \<and> mutex_at cnt k' h mutex_init"
    using d(1) [of k] by (auto simp: freertos_mutex_init_def create_contract_def mutex_at_def mutex_init_def split: prod.splits)
  show "mutex_at cnt k h b \<Longrightarrow> case mutex_lock b of
           None \<Rightarrow> freertos_mutex_lock api h k = None
         | Some b' \<Rightarrow> \<exists>k'. freertos_mutex_lock api h k = Some (0, k') \<and> mutex_at cnt k' h b'"
    using d(4) [of k h "if b then 0 else 1" 1 "portMAX_DELAY api"]
    by (auto simp: freertos_mutex_lock_def mutex_lock_def take_contract_def mutex_at_def)
  show "mutex_at cnt k h True \<Longrightarrow> \<exists>k'. freertos_mutex_unlock api h k = (0, k') \<and> mutex_at cnt k' h False"
    using d(5) [of k h 0 1] by (cases "xSemaphoreGive api h k") (auto simp: freertos_mutex_unlock_def give_contract_def mutex_at_def)
  show "mutex_at cnt k h b \<Longrightarrow> \<exists>k'. freertos_mutex_destroy api h k = (NULL, k') \<and> cnt k' h = None"
    using d(7) [of k h] by (auto simp: freertos_mutex_destroy_def mutex_at_def)
qed

section \<open>A kernel that keeps the contract\<close>

text \<open>The smallest kernel: a table of counts and the next handle, ticks of one millisecond.\<close>

type_synonym kernel = "(addr \<rightharpoonup> nat \<times> nat) \<times> addr"

definition kernel_create :: "nat \<times> nat \<Rightarrow> kernel \<Rightarrow> addr \<times> kernel" where
  "kernel_create new k = (if snd k \<noteq> NULL \<and> fst k (snd k) = None then (snd k, ((fst k)(snd k \<mapsto> new), snd k + 1)) else (NULL, k))"

definition kernel_api :: "kernel freertos" where
  "kernel_api = \<lparr>
     xSemaphoreCreateMutex = kernel_create (1, 1),
     xSemaphoreCreateCounting = (\<lambda>m v. kernel_create (unat v, unat m)),
     xSemaphoreTake = (\<lambda>h t k. case fst k h of
         Some (Suc c, m) \<Rightarrow> Some (1, ((fst k)(h \<mapsto> (c, m)), snd k))
       | _ \<Rightarrow> if t = 0xFFFFFFFF then None else Some (0, k)),
     xSemaphoreGive = (\<lambda>h k. case fst k h of
         Some (c, m) \<Rightarrow> if c < m then (1, ((fst k)(h \<mapsto> (c + 1, m)), snd k)) else (0, k)
       | None \<Rightarrow> (0, k)),
     uxSemaphoreGetCount = (\<lambda>h k. case fst k h of Some (c, m) \<Rightarrow> of_nat c | None \<Rightarrow> 0),
     vSemaphoreDelete = (\<lambda>h k. ((fst k)(h := None), snd k)),
     pdMS_TO_TICKS = id,
     portMAX_DELAY = 0xFFFFFFFF\<rparr>"

text \<open>The counts of the table that are in range; every entry that the kernel makes is.\<close>

definition kernel_counts :: "kernel counts" where
  "kernel_counts k h = (case fst k h of Some (c, m) \<Rightarrow> if c \<le> m \<and> m < 2 ^ 32 then Some (c, m) else None | None \<Rightarrow> None)"

lemma kernel_counts_upd [simp]:
  "kernel_counts ((fst k)(h \<mapsto> (c, m)), n) = (kernel_counts k)(h := if c \<le> m \<and> m < 2 ^ 32 then Some (c, m) else None)"
  "kernel_counts ((fst k)(h := None), n) = (kernel_counts k)(h := None)"
  by (simp_all add: kernel_counts_def fun_eq_iff)

lemma kernel_create_ok: "c \<le> m \<Longrightarrow> m < 2 ^ 32 \<Longrightarrow> create_contract kernel_counts (c, m) k (kernel_create (c, m) k)"
  by (auto simp: create_contract_def kernel_create_def) (simp add: kernel_counts_def)

lemma kernel_counts_D: "kernel_counts k h = Some (c, m) \<Longrightarrow> fst k h = Some (c, m) \<and> c \<le> m \<and> m < 2 ^ 32"
  by (auto simp: kernel_counts_def split: option.splits if_splits)

lemma kernel_take_ok: "kernel_counts k h = Some (c, m) \<Longrightarrow> take_contract kernel_api kernel_counts h c m k t"
  using kernel_counts_D [of k h c m] by (cases c) (auto simp: take_contract_def kernel_api_def)

lemma kernel_give_ok: "kernel_counts k h = Some (c, m) \<Longrightarrow> give_contract kernel_api kernel_counts h c m k"
  using kernel_counts_D [of k h c m] by (auto simp: give_contract_def kernel_api_def)

lemma kernel_contract: "rtos_contract kernel_api kernel_counts" and kernel_finite: "finite_ticks kernel_api"
proof -
  have create: "create_contract kernel_counts (1, 1) k (xSemaphoreCreateMutex kernel_api k)"
    "v \<le> m \<Longrightarrow> create_contract kernel_counts (unat v, unat m) k (xSemaphoreCreateCounting kernel_api m v k)" for k m v
    using kernel_create_ok [of 1 1 k] kernel_create_ok [of "unat v" "unat m" k] unsigned_less [of m]
    by (simp_all add: kernel_api_def word_le_nat_alt)
  have range: "c \<le> m" "m < 2 ^ 32" if "kernel_counts k h = Some (c, m)" for k h c m
    using kernel_counts_D [OF that] by simp_all
  have get: "unat (uxSemaphoreGetCount kernel_api h k) = c" if "kernel_counts k h = Some (c, m)" for k h c m
    using kernel_counts_D [OF that] by (simp add: kernel_api_def unsigned_of_nat take_bit_nat_eq_self)
  have del: "kernel_counts (vSemaphoreDelete kernel_api h k) = (kernel_counts k)(h := None)" for h k
    by (simp add: kernel_api_def)
  show "rtos_contract kernel_api kernel_counts"
    unfolding rtos_contract_def
    by (intro conjI allI impI create(1)) (rule create(2) range get del kernel_take_ok kernel_give_ok, assumption?)+
  have "(0xFFFFFFFF :: i32) <s 0" by code_simp
  then show "finite_ticks kernel_api" by (auto simp: finite_ticks_def kernel_api_def)
qed

end
