(* ===== verification/Utlist_Insert.thy ===== *)
theory Utlist_Insert
  imports Utlist
begin

text \<open>
  The other doubly linked list macros of \<open>src/utlist.h\<close>, over the store of Utlist: insertion at the
  head, next to a given node and in order, replacement, concatenation, search with a comparison
  function, and the traversal that allows deletion. Each is related to the operation on the
  sequence of nodes.
\<close>

section \<open>The macros\<close>

definition DL_PREPEND :: "addr \<Rightarrow> addr \<Rightarrow> dlheap \<Rightarrow> (addr \<times> dlheap) option" where
  "DL_PREPEND head add h = do {
     h \<leftarrow> wr_next h add head;
     if head \<noteq> NULL then do {
       hp \<leftarrow> rd_prev h head;
       h \<leftarrow> wr_prev h add hp;
       h \<leftarrow> wr_prev h head add;
       Some (add, h)
     } else do {
       h \<leftarrow> wr_prev h add add;
       Some (add, h)
     }
   }"

definition DL_PREPEND_ELEM :: "addr \<Rightarrow> addr \<Rightarrow> addr \<Rightarrow> dlheap \<Rightarrow> (addr \<times> dlheap) option" where
  "DL_PREPEND_ELEM head el add h =
     (if el \<noteq> NULL then do {
        guard_ok (head \<noteq> NULL);
        guard_ok (add \<noteq> NULL);
        h \<leftarrow> wr_next h add el;
        ep \<leftarrow> rd_prev h el;
        h \<leftarrow> wr_prev h add ep;
        h \<leftarrow> wr_prev h el add;
        if head = el then Some (add, h)
        else do {
          ap \<leftarrow> rd_prev h add;
          h \<leftarrow> wr_next h ap add;
          Some (head, h)
        }
      } else DL_APPEND head add h)"

definition DL_APPEND_ELEM :: "addr \<Rightarrow> addr \<Rightarrow> addr \<Rightarrow> dlheap \<Rightarrow> (addr \<times> dlheap) option" where
  "DL_APPEND_ELEM head el add h =
     (if el \<noteq> NULL then do {
        guard_ok (head \<noteq> NULL);
        guard_ok (add \<noteq> NULL);
        en \<leftarrow> rd_next h el;
        h \<leftarrow> wr_next h add en;
        h \<leftarrow> wr_prev h add el;
        h \<leftarrow> wr_next h el add;
        an \<leftarrow> rd_next h add;
        if an \<noteq> NULL then do {
          h \<leftarrow> wr_prev h an add;
          Some (head, h)
        } else do {
          h \<leftarrow> wr_prev h head add;
          Some (head, h)
        }
      } else DL_PREPEND head add h)"

definition DL_REPLACE_ELEM :: "addr \<Rightarrow> addr \<Rightarrow> addr \<Rightarrow> dlheap \<Rightarrow> (addr \<times> dlheap) option" where
  "DL_REPLACE_ELEM head el add h = do {
     guard_ok (head \<noteq> NULL);
     guard_ok (el \<noteq> NULL);
     guard_ok (add \<noteq> NULL);
     if head = el then do {
       en \<leftarrow> rd_next h el;
       h \<leftarrow> wr_next h add en;
       en \<leftarrow> rd_next h el;
       if en = NULL then do {
         h \<leftarrow> wr_prev h add add;
         Some (add, h)
       } else do {
         ep \<leftarrow> rd_prev h el;
         h \<leftarrow> wr_prev h add ep;
         an \<leftarrow> rd_next h add;
         h \<leftarrow> wr_prev h an add;
         Some (add, h)
       }
     } else do {
       en \<leftarrow> rd_next h el;
       h \<leftarrow> wr_next h add en;
       ep \<leftarrow> rd_prev h el;
       h \<leftarrow> wr_prev h add ep;
       ap \<leftarrow> rd_prev h add;
       h \<leftarrow> wr_next h ap add;
       en \<leftarrow> rd_next h el;
       if en = NULL then do {
         h \<leftarrow> wr_prev h head add;
         Some (head, h)
       } else do {
         an \<leftarrow> rd_next h add;
         h \<leftarrow> wr_prev h an add;
         Some (head, h)
       }
     }
   }"

definition DL_CONCAT :: "addr \<Rightarrow> addr \<Rightarrow> dlheap \<Rightarrow> (addr \<times> dlheap) option" where
  "DL_CONCAT head1 head2 h =
     (if head2 \<noteq> NULL then
        if head1 \<noteq> NULL then do {
          tmp \<leftarrow> rd_prev h head2;
          p1 \<leftarrow> rd_prev h head1;
          h \<leftarrow> wr_prev h head2 p1;
          p1 \<leftarrow> rd_prev h head1;
          h \<leftarrow> wr_next h p1 head2;
          h \<leftarrow> wr_prev h head1 tmp;
          Some (head1, h)
        } else Some (head2, h)
      else Some (head1, h))"

text \<open>
  \<open>cmp\<close> is the comparison function that is passed to the macro. The search for the place of
  \<open>like\<close> gives the last node before it, or null when its place is at the head.
\<close>

partial_function (option) lower_bound_loop ::
    "(addr \<Rightarrow> addr \<Rightarrow> int) \<Rightarrow> dlheap \<Rightarrow> addr \<Rightarrow> addr \<Rightarrow> addr option" where
  "lower_bound_loop cmp h elt like = do {
     nx \<leftarrow> rd_next h elt;
     if nx = NULL \<or> 0 \<le> cmp nx like then Some elt
     else lower_bound_loop cmp h nx like
   }"

definition DL_LOWER_BOUND :: "(addr \<Rightarrow> addr \<Rightarrow> int) \<Rightarrow> dlheap \<Rightarrow> addr \<Rightarrow> addr \<Rightarrow> addr option" where
  "DL_LOWER_BOUND cmp h head like =
     (if head = NULL \<or> 0 \<le> cmp head like then Some NULL else lower_bound_loop cmp h head like)"

definition DL_INSERT_INORDER ::
    "(addr \<Rightarrow> addr \<Rightarrow> int) \<Rightarrow> addr \<Rightarrow> addr \<Rightarrow> dlheap \<Rightarrow> (addr \<times> dlheap) option" where
  "DL_INSERT_INORDER cmp head add h =
     (if head \<noteq> NULL then do {
        tmp \<leftarrow> DL_LOWER_BOUND cmp h head add;
        DL_APPEND_ELEM head tmp add h
      } else do {
        h \<leftarrow> wr_prev h add add;
        h \<leftarrow> wr_next h add NULL;
        Some (add, h)
      })"

partial_function (option) DL_SEARCH ::
    "dlheap \<Rightarrow> (addr \<Rightarrow> 'v \<Rightarrow> int) \<Rightarrow> 'v \<Rightarrow> addr \<Rightarrow> addr option" where
  "DL_SEARCH h cmp elt out =
     (if out = NULL then Some NULL
      else if cmp out elt = 0 then Some out
      else do {
        nx \<leftarrow> rd_next h out;
        DL_SEARCH h cmp elt nx
      })"

text \<open>
  The traversal that reads the successor before the body runs; the body may change the list, its
  head and the links.
\<close>

partial_function (option) DL_FOREACH_SAFE ::
    "(addr \<Rightarrow> addr \<times> dlheap \<Rightarrow> (addr \<times> dlheap) option) \<Rightarrow> addr \<Rightarrow> addr \<times> dlheap
       \<Rightarrow> (addr \<times> dlheap) option" where
  "DL_FOREACH_SAFE body el s =
     (if el = NULL then Some s
      else do {
        tmp \<leftarrow> rd_next (snd s) el;
        s \<leftarrow> body el s;
        DL_FOREACH_SAFE body tmp s
      })"

section \<open>Insertion, replacement and concatenation\<close>

lemma DL_PREPEND_correct:
  assumes "DL h head xs" and "h a \<noteq> None" and "a \<notin> set xs" and "a \<noteq> NULL"
  shows "\<exists>h'. DL_PREPEND head a h = Some (a, h') \<and> DL h' a (a # xs)
      \<and> (\<forall>b. b \<notin> insert a (set xs) \<longrightarrow> h' b = h b) \<and> dom h' = dom h"
proof (cases xs rule: two_ended_cases)
  case 1
  with assms show ?thesis by (auto simp: DL_def DL_PREPEND_def dl_access)
next
  case (2 x)
  with assms show ?thesis by (auto simp: DL_def DL_PREPEND_def dl_access)
next
  case (3 x ms t)
  with assms show ?thesis by (auto simp: DL_def DL_PREPEND_def dl_access links_append)
qed

lemma DL_PREPEND_ELEM_correct:
  assumes "DL h head (xs @ e # ys)" and "h a \<noteq> None" and "a \<notin> set (xs @ e # ys)" and "a \<noteq> NULL"
  shows "\<exists>h'. DL_PREPEND_ELEM head e a h = Some (hd_or a xs, h') \<and> DL h' (hd_or a xs) (xs @ a # e # ys)
      \<and> (\<forall>b. b \<notin> insert a (set (xs @ e # ys)) \<longrightarrow> h' b = h b) \<and> dom h' = dom h"
proof (cases xs rule: two_ended_cases)
  case 1
  with assms show ?thesis
    by (cases ys) (auto simp: DL_def DL_PREPEND_ELEM_def dl_access)
next
  case (2 x)
  with assms show ?thesis
    by (cases ys) (auto simp: DL_def DL_PREPEND_ELEM_def dl_access)
next
  case (3 x ms t)
  with assms show ?thesis
    by (cases ys) (auto simp: DL_def DL_PREPEND_ELEM_def dl_access links_append)
qed

lemma DL_PREPEND_ELEM_null: "DL_PREPEND_ELEM head NULL a h = DL_APPEND head a h"
  by (simp add: DL_PREPEND_ELEM_def)

lemma DL_APPEND_ELEM_correct:
  assumes "DL h head (xs @ e # ys)" and "h a \<noteq> None" and "a \<notin> set (xs @ e # ys)" and "a \<noteq> NULL"
  shows "\<exists>h'. DL_APPEND_ELEM head e a h = Some (head, h') \<and> DL h' head (xs @ e # a # ys)
      \<and> (\<forall>b. b \<notin> insert a (set (xs @ e # ys)) \<longrightarrow> h' b = h b) \<and> dom h' = dom h"
proof (cases ys)
  case Nil
  show ?thesis
    using assms Nil by (cases xs) (auto simp: DL_def DL_APPEND_ELEM_def dl_access links_append)
next
  case (Cons y zs)
  show ?thesis
    using assms Cons
    by (cases xs; cases zs) (auto simp: DL_def DL_APPEND_ELEM_def dl_access links_append)
qed

lemma DL_REPLACE_ELEM_correct:
  assumes "DL h head (xs @ e # ys)" and "h a \<noteq> None" and "a \<notin> set (xs @ e # ys)" and "a \<noteq> NULL"
  shows "\<exists>h'. DL_REPLACE_ELEM head e a h = Some (hd_or a xs, h') \<and> DL h' (hd_or a xs) (xs @ a # ys)
      \<and> (\<forall>b. b \<notin> insert a (set (xs @ e # ys)) \<longrightarrow> h' b = h b) \<and> dom h' = dom h"
proof (cases xs rule: two_ended_cases)
  case 1
  with assms show ?thesis
    by (cases ys) (auto simp: DL_def DL_REPLACE_ELEM_def dl_access)
next
  case (2 x)
  with assms show ?thesis
    by (cases ys) (auto simp: DL_def DL_REPLACE_ELEM_def dl_access)
next
  case (3 x ms t)
  with assms show ?thesis
    by (cases ys) (auto simp: DL_def DL_REPLACE_ELEM_def dl_access links_append)
qed

lemma DL_CONCAT_correct:
  assumes "DL h head1 xs" and "DL h head2 ys" and "set xs \<inter> set ys = {}"
  shows "\<exists>h'. DL_CONCAT head1 head2 h = Some (hd_or NULL (xs @ ys), h')
      \<and> DL h' (hd_or NULL (xs @ ys)) (xs @ ys)
      \<and> (\<forall>b. b \<notin> set (xs @ ys) \<longrightarrow> h' b = h b) \<and> dom h' = dom h"
proof (cases "xs = [] \<or> ys = []")
  case True
  with assms show ?thesis by (cases xs) (auto simp: DL_def DL_CONCAT_def)
next
  case False
  then obtain x xs' y ys' where c: "xs = x # xs'" "ys = y # ys'" by (auto simp: neq_Nil_conv)
  show ?thesis
    using assms c
    by (cases xs' rule: rev_cases; cases ys' rule: rev_cases)
      (auto simp: DL_def DL_CONCAT_def dl_access links_append)
qed

section \<open>Searching and inserting in order\<close>

lemma DL_SEARCH_links:
  "links p xs NULL h \<Longrightarrow> NULL \<notin> set xs \<Longrightarrow>
   DL_SEARCH h cmp elt (hd_or NULL xs)
     = Some (case find (\<lambda>x. cmp x elt = 0) xs of None \<Rightarrow> NULL | Some x \<Rightarrow> x)"
proof (induction xs arbitrary: p)
  case Nil then show ?case by (simp add: DL_SEARCH.simps)
next
  case (Cons x xs)
  then show ?case by (auto simp: DL_SEARCH.simps [of h cmp elt x] dl_access)
qed

lemma DL_SEARCH_correct:
  "DL h head xs \<Longrightarrow>
   DL_SEARCH h cmp elt head
     = Some (case find (\<lambda>x. cmp x elt = 0) xs of None \<Rightarrow> NULL | Some x \<Rightarrow> x)"
  using DL_SEARCH_links [of "last_or NULL xs" xs h cmp elt] by (simp add: DL_def)

lemma lower_bound_loop_links:
  "links p (x # xs) NULL h \<Longrightarrow> NULL \<notin> set xs \<Longrightarrow>
   lower_bound_loop cmp h x a = Some (last_or x (takeWhile (\<lambda>y. cmp y a < 0) xs))"
proof (induction xs arbitrary: p x)
  case Nil then show ?case by (simp add: lower_bound_loop.simps dl_access)
next
  case (Cons y xs)
  from Cons.prems have x: "h x = Some \<lparr>prev = p, next = y\<rparr>" and ys: "links x (y # xs) NULL h"
    and y: "y \<noteq> NULL" "NULL \<notin> set xs" by auto
  show ?case
    using x y Cons.IH [OF ys y(2)] by (subst lower_bound_loop.simps) (simp add: dl_access)
qed

lemma DL_LOWER_BOUND_correct:
  assumes "DL h head xs"
  shows "DL_LOWER_BOUND cmp h head a = Some (last_or NULL (takeWhile (\<lambda>y. cmp y a < 0) xs))"
proof (cases xs)
  case Nil
  with assms show ?thesis by (simp add: DL_def DL_LOWER_BOUND_def)
next
  case (Cons x ys)
  with assms show ?thesis
    using lower_bound_loop_links [of "last_or NULL xs" x ys h cmp a]
    by (auto simp: DL_def DL_LOWER_BOUND_def)
qed

lemma DL_INSERT_INORDER_correct:
  fixes cmp :: "addr \<Rightarrow> addr \<Rightarrow> int"
  assumes dl: "DL h head xs" and a: "h a \<noteq> None" "a \<notin> set xs" "a \<noteq> NULL"
  defines "L \<equiv> takeWhile (\<lambda>y. cmp y a < 0) xs" and "R \<equiv> dropWhile (\<lambda>y. cmp y a < 0) xs"
  shows "\<exists>h'. DL_INSERT_INORDER cmp head a h = Some (hd_or a L, h') \<and> DL h' (hd_or a L) (L @ a # R)
      \<and> (\<forall>b. b \<notin> insert a (set xs) \<longrightarrow> h' b = h b) \<and> dom h' = dom h"
proof -
  have xs: "xs = L @ R" by (simp add: L_def R_def)
  have lb: "DL_LOWER_BOUND cmp h head a = Some (last_or NULL L)"
    using DL_LOWER_BOUND_correct [OF dl] by (simp add: L_def)
  show ?thesis
  proof (cases L rule: rev_cases)
    case Nil
    show ?thesis
    proof (cases xs)
      case Nil
      with dl a show ?thesis
        by (auto simp: DL_INSERT_INORDER_def DL_def dl_access L_def R_def)
    next
      case (Cons x ys)
      then have "head \<noteq> NULL" using dl by (auto simp: DL_def)
      then have "DL_INSERT_INORDER cmp head a h = DL_PREPEND head a h"
        using lb \<open>L = []\<close> by (simp add: DL_INSERT_INORDER_def DL_APPEND_ELEM_def)
      then show ?thesis using DL_PREPEND_correct [OF dl a] xs \<open>L = []\<close> by simp
    qed
  next
    case (snoc M e)
    then have split: "xs = M @ e # R" using xs by simp
    have "e \<in> set xs" using split by simp
    then have e: "e \<noteq> NULL" using DL_nonnull [OF dl] by blast
    have head: "head = hd_or a L" "head \<noteq> NULL"
      using dl split snoc by (cases M; auto simp: DL_def)+
    have "DL_INSERT_INORDER cmp head a h = DL_APPEND_ELEM head e a h"
      using lb snoc head by (simp add: DL_INSERT_INORDER_def)
    then show ?thesis
      using DL_APPEND_ELEM_correct [of h head M e R a] dl a head(1) snoc split by simp
  qed
qed

lemma sorted_insert_inorder:
  assumes "sorted (map key xs)" and "\<And>y. cmp y a < 0 \<longleftrightarrow> key y < (key a :: 'k :: linorder)"
  shows "takeWhile (\<lambda>y. cmp y a < 0) xs @ a # dropWhile (\<lambda>y. cmp y a < 0) xs = insort_key key a xs"
  using assms by (induction xs) (auto simp: not_less)

section \<open>Deleting during a traversal\<close>

text \<open>
  The body of a clean-up loop: the nodes with property \<open>P\<close> leave the list, the others stay.
\<close>

definition delete_if :: "(addr \<Rightarrow> bool) \<Rightarrow> addr \<Rightarrow> addr \<times> dlheap \<Rightarrow> (addr \<times> dlheap) option" where
  "delete_if P el s = (if P el then DL_DELETE (fst s) el (snd s) else Some s)"

lemma delete_if_run:
  "P el \<Longrightarrow> delete_if P el (head, h) = DL_DELETE head el h"
  "\<not> P el \<Longrightarrow> delete_if P el (head, h) = Some (head, h)"
  by (simp_all add: delete_if_def)

lemma links_next: "links p (xs @ x # ys) e h \<Longrightarrow> rd_next h x = Some (hd_or e ys)"
  by (simp add: links_append rd_next_def)

lemma DL_next: "DL h head (xs @ x # ys) \<Longrightarrow> rd_next h x = Some (hd_or NULL ys)"
  unfolding DL_def using links_next by blast

lemma DL_FOREACH_SAFE_delete:
  "DL h head (done @ xs) \<Longrightarrow>
   \<exists>h'. DL_FOREACH_SAFE (delete_if P) (hd_or NULL xs) (head, h)
       = Some (hd_or NULL (done @ filter (\<lambda>x. \<not> P x) xs), h')
     \<and> DL h' (hd_or NULL (done @ filter (\<lambda>x. \<not> P x) xs)) (done @ filter (\<lambda>x. \<not> P x) xs)
     \<and> dom h' = dom h"
proof (induction xs arbitrary: "done" head h)
  case Nil
  then show ?case by (simp add: DL_FOREACH_SAFE.simps DL_def)
next
  case (Cons x xs)
  have x: "x \<noteq> NULL" and nx: "rd_next h x = Some (hd_or NULL xs)"
    using DL_nonnull [OF Cons.prems] DL_next [OF Cons.prems] by auto
  show ?case
  proof (cases "P x")
    case True
    from DL_DELETE_correct [OF Cons.prems] obtain h1 where
      d: "DL_DELETE head x h = Some (hd_or NULL (done @ xs), h1)"
      and l: "DL h1 (hd_or NULL (done @ xs)) (done @ xs)" and dom: "dom h1 = dom h" by blast
    show ?thesis
      using Cons.IH [OF l] x nx d dom True
      by (subst DL_FOREACH_SAFE.simps) (simp add: delete_if_run)
  next
    case False
    have "DL h head ((done @ [x]) @ xs)" using Cons.prems by simp
    from Cons.IH [OF this] x nx False show ?thesis
      by (subst DL_FOREACH_SAFE.simps) (simp add: delete_if_run)
  qed
qed

section \<open>The version of the ordered insertion without decltype\<close>

text \<open>
  For compilers without \<open>decltype\<close> the header walks with \<open>head\<close> itself, which is restored afterwards,
  and links the node in without the other macros. It has the same result.
\<close>

partial_function (option) dl_inorder_walk ::
    "(addr \<Rightarrow> addr \<Rightarrow> int) \<Rightarrow> dlheap \<Rightarrow> addr \<Rightarrow> addr \<Rightarrow> addr option" where
  "dl_inorder_walk cmp h cur add = do {
     nx \<leftarrow> rd_next h cur;
     if nx \<noteq> NULL \<and> cmp nx add < 0 then dl_inorder_walk cmp h nx add else Some cur
   }"

definition DL_INSERT_INORDER_nd ::
    "(addr \<Rightarrow> addr \<Rightarrow> int) \<Rightarrow> addr \<Rightarrow> addr \<Rightarrow> dlheap \<Rightarrow> (addr \<times> dlheap) option" where
  "DL_INSERT_INORDER_nd cmp head add h =
     (if head = NULL then do {
        h \<leftarrow> wr_prev h add add;
        h \<leftarrow> wr_next h add NULL;
        Some (add, h)
      } else if 0 \<le> cmp head add then do {
        hp \<leftarrow> rd_prev h head;
        h \<leftarrow> wr_prev h add hp;
        h \<leftarrow> wr_next h add head;
        h \<leftarrow> wr_prev h head add;
        Some (add, h)
      } else do {
        cur \<leftarrow> dl_inorder_walk cmp h head add;
        h \<leftarrow> wr_prev h add cur;
        cn \<leftarrow> rd_next h cur;
        h \<leftarrow> wr_next h add cn;
        h \<leftarrow> wr_next h cur add;
        an \<leftarrow> rd_next h add;
        if an \<noteq> NULL then do {
          h \<leftarrow> wr_prev h an add;
          Some (head, h)
        } else do {
          h \<leftarrow> wr_prev h head add;
          Some (head, h)
        }
      })"

lemma dl_inorder_walk_links:
  "links p (x # xs) NULL h \<Longrightarrow> NULL \<notin> set xs \<Longrightarrow>
   dl_inorder_walk cmp h x a = Some (last_or x (takeWhile (\<lambda>y. cmp y a < 0) xs))"
proof (induction xs arbitrary: p x)
  case Nil then show ?case by (simp add: dl_inorder_walk.simps dl_access)
next
  case (Cons y xs)
  from Cons.prems have x: "h x = Some \<lparr>prev = p, next = y\<rparr>" and ys: "links x (y # xs) NULL h"
    and y: "y \<noteq> NULL" "NULL \<notin> set xs" by auto
  show ?case
    using x y Cons.IH [OF ys y(2)] by (subst dl_inorder_walk.simps) (simp add: dl_access)
qed

lemma DL_INSERT_INORDER_versions:
  assumes dl: "DL h head xs" and a: "h a \<noteq> None" "a \<notin> set xs" "a \<noteq> NULL"
  shows "DL_INSERT_INORDER_nd cmp head a h = DL_INSERT_INORDER cmp head a h"
proof (cases xs)
  case Nil
  with dl a show ?thesis
    by (auto simp: DL_INSERT_INORDER_nd_def DL_INSERT_INORDER_def DL_def dl_access)
next
  case (Cons x xs')
  have l: "links (last_or NULL xs) (x # xs') NULL h" "NULL \<notin> set xs'" "head = x" "x \<noteq> NULL"
    using dl Cons by (auto simp: DL_def)
  show ?thesis
  proof (cases "0 \<le> cmp head a")
    case True
    then show ?thesis
      using dl a l Cons
      by (cases xs' rule: rev_cases)
        (auto simp: DL_INSERT_INORDER_nd_def DL_INSERT_INORDER_def DL_LOWER_BOUND_def DL_APPEND_ELEM_def
          DL_PREPEND_def DL_def dl_access links_append fun_upd_twist link_swap)
  next
    case neg: False
    define L R where "L = takeWhile (\<lambda>y. cmp y a < 0) xs" and "R = dropWhile (\<lambda>y. cmp y a < 0) xs"
    have xs: "xs = L @ R" by (simp add: L_def R_def)
    have "L \<noteq> []" using neg l(3) Cons by (auto simp: L_def)
    then obtain M e where L: "L = M @ [e]" by (cases L rule: rev_cases) auto
    have lb: "lower_bound_loop cmp h head a = Some e"
      using DL_LOWER_BOUND_correct [OF dl, of cmp a] neg l(3,4) L unfolding L_def [symmetric]
      by (simp add: DL_LOWER_BOUND_def)
    have w: "dl_inorder_walk cmp h head a = Some e"
      using dl_inorder_walk_links [OF l(1,2), of cmp a] lower_bound_loop_links [OF l(1,2), of cmp a] lb l(3) by simp
    have e: "e \<noteq> NULL" "head \<noteq> NULL" using DL_nonnull [OF dl, of e] xs L l(3,4) by simp_all
    show ?thesis
      using dl a lb w e neg unfolding xs L
      by (cases M; cases R)
        (auto simp: DL_INSERT_INORDER_nd_def DL_INSERT_INORDER_def DL_LOWER_BOUND_def DL_APPEND_ELEM_def
          DL_def dl_access links_append fun_upd_twist link_swap)
  qed
qed

end
