(* ===== verification/Link_Sort.thy ===== *)
theory Link_Sort
  imports Ps_Prelude
begin

text \<open>
  The bottom-up merge sort that \<open>src/utlist.h\<close> and \<open>src/uthash.h\<close> write out four times (\<open>LL_SORT\<close>,
  \<open>DL_SORT\<close>, \<open>CDL_SORT\<close>, \<open>HASH_SRT\<close>), each time on other links. The loops are modelled once, one by
  one: \<open>sort_split\<close> steps over a run, \<open>sort_merge\<close> merges two adjacent runs onto the tail of the
  output, \<open>sort_pass\<close> does so for all pairs of runs, \<open>sort_loop\<close> doubles the length of the runs. What
  differs is a record of operations: following a link, appending a node to the output, what ends a
  pass, and the two counters that can grow with the list. The locale \<open>relinker\<close> says what these must
  do; in it the sort is proved to be a stable sort of the sequence of nodes.
\<close>

section \<open>The loops\<close>

record 'c sorter =
  s_next :: "addr \<Rightarrow> (addr \<rightharpoonup> 'c) \<Rightarrow> addr \<Rightarrow> addr option"
  s_link :: "addr \<Rightarrow> addr \<Rightarrow> addr \<Rightarrow> (addr \<rightharpoonup> 'c) \<Rightarrow> (addr \<times> (addr \<rightharpoonup> 'c)) option"
  s_close :: "addr \<Rightarrow> addr \<Rightarrow> (addr \<rightharpoonup> 'c) \<Rightarrow> (addr \<rightharpoonup> 'c) option"
  s_inc :: "nat \<Rightarrow> nat option"
  s_double :: "nat \<Rightarrow> nat option"

text \<open>\<open>s_next\<close> also gets the head of the list before the pass, where a circular list ends.\<close>

text \<open>The counters are signed in three of the sorts (overflow is undefined) and unsigned in the other.\<close>

definition int_inc :: "nat \<Rightarrow> nat option" where
  "int_inc n = (if n + 1 < 2 ^ 31 then Some (n + 1) else None)"

definition int_double :: "nat \<Rightarrow> nat option" where
  "int_double n = (if n * 2 < 2 ^ 31 then Some (n * 2) else None)"

definition uint_inc :: "nat \<Rightarrow> nat option" where
  "uint_inc n = Some ((n + 1) mod 2 ^ 32)"

definition uint_double :: "nat \<Rightarrow> nat option" where
  "uint_double n = Some ((n * 2) mod 2 ^ 32)"

text \<open>The \<open>for\<close> loop over one run: \<open>n\<close> is the number of iterations left.\<close>

fun sort_split :: "(addr \<Rightarrow> addr option) \<Rightarrow> nat \<Rightarrow> addr \<Rightarrow> nat \<Rightarrow> (addr \<times> nat) option" where
  "sort_split nx 0 q psize = Some (q, psize)"
| "sort_split nx (Suc n) q psize = do {
     q \<leftarrow> nx q;
     if q = NULL then Some (q, Suc psize) else sort_split nx n q (Suc psize)
   }"

text \<open>The node that comes next, and the state of the two runs after it is taken.\<close>

definition sort_choose ::
    "(addr \<Rightarrow> addr option) \<Rightarrow> (addr \<Rightarrow> addr \<Rightarrow> int) \<Rightarrow> addr \<Rightarrow> nat \<Rightarrow> addr \<Rightarrow> nat
       \<Rightarrow> (addr \<times> addr \<times> nat \<times> addr \<times> nat) option" where
  "sort_choose nx cmp p psize q qsize =
     (if psize = 0 then do {
        n \<leftarrow> nx q;
        Some (q, p, psize, n, qsize - 1)
      } else if qsize = 0 \<or> q = NULL then do {
        n \<leftarrow> nx p;
        Some (p, n, psize - 1, q, qsize)
      } else if cmp p q \<le> 0 then do {
        n \<leftarrow> nx p;
        Some (p, n, psize - 1, q, qsize)
      } else do {
        n \<leftarrow> nx q;
        Some (q, p, psize, n, qsize - 1)
      })"

partial_function (option) sort_merge ::
    "'c sorter \<Rightarrow> addr \<Rightarrow> (addr \<Rightarrow> addr \<Rightarrow> int) \<Rightarrow> addr \<Rightarrow> nat \<Rightarrow> addr \<Rightarrow> nat \<Rightarrow> addr \<Rightarrow> addr \<Rightarrow> (addr \<rightharpoonup> 'c)
       \<Rightarrow> (addr \<times> addr \<times> addr \<times> (addr \<rightharpoonup> 'c)) option" where
  "sort_merge S oldhead cmp p psize q qsize list0 tail h =
     (if 0 < psize \<or> 0 < qsize \<and> q \<noteq> NULL then do {
        (e, p, psize, q, qsize) \<leftarrow> sort_choose (s_next S oldhead h) cmp p psize q qsize;
        (list0, h) \<leftarrow> s_link S list0 tail e h;
        sort_merge S oldhead cmp p psize q qsize list0 e h
      } else Some (q, list0, tail, h))"

partial_function (option) sort_pass ::
    "'c sorter \<Rightarrow> addr \<Rightarrow> (addr \<Rightarrow> addr \<Rightarrow> int) \<Rightarrow> nat \<Rightarrow> addr \<Rightarrow> addr \<Rightarrow> addr \<Rightarrow> nat \<Rightarrow> (addr \<rightharpoonup> 'c)
       \<Rightarrow> (addr \<times> addr \<times> nat \<times> (addr \<rightharpoonup> 'c)) option" where
  "sort_pass S oldhead cmp insize p list0 tail nmerges h =
     (if p \<noteq> NULL then do {
        nmerges \<leftarrow> s_inc S nmerges;
        (q, psize) \<leftarrow> sort_split (s_next S oldhead h) insize p 0;
        (q, list0, tail, h) \<leftarrow> sort_merge S oldhead cmp p psize q insize list0 tail h;
        sort_pass S oldhead cmp insize q list0 tail nmerges h
      } else Some (list0, tail, nmerges, h))"

text \<open>The head, the last node and the store at the end.\<close>

partial_function (option) sort_loop ::
    "'c sorter \<Rightarrow> (addr \<Rightarrow> addr \<Rightarrow> int) \<Rightarrow> nat \<Rightarrow> addr \<Rightarrow> (addr \<rightharpoonup> 'c) \<Rightarrow> (addr \<times> addr \<times> (addr \<rightharpoonup> 'c)) option" where
  "sort_loop S cmp insize list0 h = do {
     (list0, tail, nmerges, h) \<leftarrow> sort_pass S list0 cmp insize list0 NULL NULL 0 h;
     h \<leftarrow> s_close S list0 tail h;
     insize \<leftarrow> s_double S insize;
     if nmerges \<le> 1 then Some (list0, tail, h) else sort_loop S cmp insize list0 h
   }"

section \<open>The abstract merge sort\<close>

fun mrg :: "('a \<Rightarrow> 'a \<Rightarrow> int) \<Rightarrow> 'a list \<Rightarrow> 'a list \<Rightarrow> 'a list" where
  "mrg cmp [] ys = ys"
| "mrg cmp (x # xs) [] = x # xs"
| "mrg cmp (x # xs) (y # ys) =
     (if cmp x y \<le> 0 then x # mrg cmp xs (y # ys) else y # mrg cmp (x # xs) ys)"

lemma mrg_Nil2 [simp]: "mrg cmp xs [] = xs"
  by (cases xs) simp_all

lemma mset_mrg [simp]: "mset (mrg cmp xs ys) = mset xs + mset ys"
  by (induction cmp xs ys rule: mrg.induct) auto

lemma set_mrg [simp]: "set (mrg cmp xs ys) = set xs \<union> set ys"
  using mset_mrg [of cmp xs ys] by (metis set_mset_mset set_mset_union)

lemma length_mrg [simp]: "length (mrg cmp xs ys) = length xs + length ys"
  by (induction cmp xs ys rule: mrg.induct) auto

text \<open>The comparison function orders by a key.\<close>

definition cmp_by :: "('a \<Rightarrow> 'a \<Rightarrow> int) \<Rightarrow> ('a \<Rightarrow> 'k::linorder) \<Rightarrow> bool" where
  "cmp_by cmp key \<longleftrightarrow> (\<forall>x y. cmp x y \<le> 0 \<longleftrightarrow> key x \<le> key y)"

lemma cmp_by_le: "cmp_by cmp key \<Longrightarrow> cmp x y \<le> 0 \<longleftrightarrow> key x \<le> key y"
  by (simp add: cmp_by_def)

lemma sorted_mrg:
  "cmp_by cmp key \<Longrightarrow> sorted (map key xs) \<Longrightarrow> sorted (map key ys) \<Longrightarrow> sorted (map key (mrg cmp xs ys))"
  by (induction cmp xs ys rule: mrg.induct) (auto simp: cmp_by_le not_le intro: order_trans)

lemma stable_mrg:
  "cmp_by cmp key \<Longrightarrow> sorted (map key xs) \<Longrightarrow>
   filter (\<lambda>x. k = key x) (mrg cmp xs ys) = filter (\<lambda>x. k = key x) xs @ filter (\<lambda>x. k = key x) ys"
proof (induction cmp xs ys rule: mrg.induct)
  case (3 cmp x xs y ys)
  show ?case
  proof (cases "cmp x y \<le> 0")
    case True
    with "3.IH"(1) "3.prems" show ?thesis by auto
  next
    case False
    then have "key y < key x" using "3.prems" by (simp add: cmp_by_le)
    then have "filter (\<lambda>z. key y = key z) (x # xs) = []"
      using "3.prems" by (auto simp: filter_empty_conv)
    with "3.IH"(2) "3.prems" False show ?thesis by auto
  qed
qed simp_all

text \<open>One pass over runs of length \<open>n\<close>, the number of merges in it, and what sorted runs are.\<close>

function mrg_pass :: "('a \<Rightarrow> 'a \<Rightarrow> int) \<Rightarrow> nat \<Rightarrow> 'a list \<Rightarrow> 'a list" where
  "mrg_pass cmp n xs =
     (if n = 0 \<or> xs = [] then []
      else mrg cmp (take n xs) (take n (drop n xs)) @ mrg_pass cmp n (drop n (drop n xs)))"
  by auto
termination by (relation "measure (\<lambda>(c, n, xs). length xs)") (auto simp: neq_Nil_conv)

function runs :: "nat \<Rightarrow> 'a list \<Rightarrow> nat" where
  "runs n xs = (if n = 0 \<or> xs = [] then 0 else Suc (runs n (drop n (drop n xs))))"
  by auto
termination by (relation "measure (\<lambda>(n, xs). length xs)") (auto simp: neq_Nil_conv)

function run_sorted :: "('a \<Rightarrow> 'k::linorder) \<Rightarrow> nat \<Rightarrow> 'a list \<Rightarrow> bool" where
  "run_sorted key n xs =
     (if n = 0 \<or> xs = [] then True
      else sorted (map key (take n xs)) \<and> run_sorted key n (drop n xs))"
  by auto
termination by (relation "measure (\<lambda>(k, n, xs). length xs)") (auto simp: neq_Nil_conv)

declare mrg_pass.simps [simp del] runs.simps [simp del] run_sorted.simps [simp del]

lemma mset_mrg_pass: "0 < n \<Longrightarrow> mset (mrg_pass cmp n xs) = mset xs"
proof (induction cmp n xs rule: mrg_pass.induct)
  case (1 cmp n xs)
  have "mset xs = mset (take n xs @ take n (drop n xs) @ drop n (drop n xs))"
    by (simp only: append_take_drop_id)
  with 1 show ?case by (subst mrg_pass.simps) simp
qed

lemma length_mrg_pass [simp]: "0 < n \<Longrightarrow> length (mrg_pass cmp n xs) = length xs"
  using mset_mrg_pass by (metis size_mset)

lemma set_mrg_pass [simp]: "0 < n \<Longrightarrow> set (mrg_pass cmp n xs) = set xs"
  using mset_mrg_pass by (metis set_mset_mset)

lemma runs_le: "0 < n \<Longrightarrow> runs n xs \<le> length xs"
proof (induction n xs rule: runs.induct)
  case (1 n xs)
  then show ?case by (cases xs; subst runs.simps) (auto intro: le_trans)
qed

lemma runs_one: "0 < n \<Longrightarrow> runs n xs \<le> 1 \<longleftrightarrow> length xs \<le> n * 2"
proof -
  assume n: "0 < n"
  have step: "runs n ys = (if ys = [] then 0 else Suc (runs n (drop n (drop n ys))))" for ys :: "'a list"
    using n by (subst runs.simps) simp
  have "runs n ys = 0 \<longleftrightarrow> ys = []" for ys :: "'a list" using step [of ys] by (cases ys) simp_all
  then show ?thesis unfolding step [of xs] by (cases xs) (simp_all, linarith)
qed

lemma run_sorted_step:
  "0 < n \<Longrightarrow> xs \<noteq> [] \<Longrightarrow> run_sorted key n xs
     \<longleftrightarrow> sorted (map key (take n xs)) \<and> run_sorted key n (drop n xs)"
  by (subst run_sorted.simps) simp

lemma run_sorted_1: "run_sorted key 1 xs"
proof (induction xs)
  case Nil show ?case by (simp add: run_sorted.simps)
next
  case (Cons x xs) then show ?case using run_sorted_step [of 1 "x # xs" key] by simp
qed

lemma run_sorted_take: "0 < n \<Longrightarrow> run_sorted key n xs \<Longrightarrow> sorted (map key (take n xs))"
  by (cases "xs = []") (simp_all add: run_sorted_step)

lemma run_sorted_all: "run_sorted key n xs \<Longrightarrow> length xs \<le> n \<Longrightarrow> sorted (map key xs)"
  using run_sorted_take [of n key xs] by (cases "n = 0") auto

lemma run_sorted_drop: "0 < n \<Longrightarrow> run_sorted key n xs \<Longrightarrow> run_sorted key n (drop n xs)"
  by (cases "xs = []") (simp_all add: run_sorted_step)

lemma run_sorted_mrg_pass:
  "cmp_by cmp key \<Longrightarrow> 0 < n \<Longrightarrow> run_sorted key n xs \<Longrightarrow> run_sorted key (n * 2) (mrg_pass cmp n xs)"
proof (induction cmp n xs rule: mrg_pass.induct)
  case (1 cmp n xs)
  show ?case
  proof (cases "xs = []")
    case True
    then show ?thesis by (simp add: mrg_pass.simps run_sorted.simps)
  next
    case False
    let ?m = "mrg cmp (take n xs) (take n (drop n xs))" and ?r = "drop n (drop n xs)"
    note rs = run_sorted_take [OF "1.prems"(2,3)] run_sorted_drop [OF "1.prems"(2,3)]
    have m: "sorted (map key ?m)"
      using sorted_mrg [OF "1.prems"(1) rs(1) run_sorted_take [OF "1.prems"(2) rs(2)]] .
    have IH: "run_sorted key (n * 2) (mrg_pass cmp n ?r)"
      using 1 False run_sorted_drop [OF "1.prems"(2) rs(2)] by simp
    have eq: "mrg_pass cmp n xs = ?m @ mrg_pass cmp n ?r"
      using False "1.prems"(2) by (subst mrg_pass.simps) simp
    have cut: "take (n * 2) (?m @ mrg_pass cmp n ?r) = ?m \<and> drop (n * 2) (?m @ mrg_pass cmp n ?r) = mrg_pass cmp n ?r"
      using "1.prems"(2) by (cases "length xs \<le> n * 2") (auto simp: mrg_pass.simps [of _ _ "[]"] min_def)
    have "0 < n * 2" and "?m @ mrg_pass cmp n ?r \<noteq> []"
      using False "1.prems"(2) by (auto simp flip: length_greater_0_conv)
    from run_sorted_step [OF this, of key] show ?thesis
      by (simp only: eq cut m IH simp_thms)
  qed
qed

lemma stable_mrg_pass:
  "cmp_by cmp key \<Longrightarrow> 0 < n \<Longrightarrow> run_sorted key n xs \<Longrightarrow>
   filter (\<lambda>x. k = key x) (mrg_pass cmp n xs) = filter (\<lambda>x. k = key x) xs"
proof (induction cmp n xs rule: mrg_pass.induct)
  case (1 cmp n xs)
  show ?case
  proof (cases "xs = []")
    case True
    then show ?thesis by (simp add: mrg_pass.simps)
  next
    case False
    note rs = run_sorted_take [OF "1.prems"(2,3)] run_sorted_drop [OF "1.prems"(2,3)]
    have "filter (\<lambda>x. k = key x) xs
        = filter (\<lambda>x. k = key x) (take n xs @ take n (drop n xs) @ drop n (drop n xs))"
      by (simp only: append_take_drop_id)
    then show ?thesis
      using 1 False run_sorted_drop [OF "1.prems"(2) rs(2)] stable_mrg [OF "1.prems"(1) rs(1)]
      by (subst mrg_pass.simps) simp
  qed
qed

lemma sort_key_filter: "filter (\<lambda>x. k = key x) (sort_key key xs) = filter (\<lambda>x. k = key x) xs"
proof -
  have "(\<lambda>x. k = key x) = (\<lambda>x. key x = k)" by auto
  then show ?thesis by (simp only: sort_key_stable)
qed

section \<open>The links during the sort\<close>

text \<open>\<open>nexts nx xs e\<close>: following \<open>nx\<close> from the first of \<open>xs\<close> visits \<open>xs\<close> and then comes to \<open>e\<close>.\<close>

fun nexts :: "(addr \<Rightarrow> addr option) \<Rightarrow> addr list \<Rightarrow> addr \<Rightarrow> bool" where
  "nexts nx [] e = True"
| "nexts nx (x # xs) e = (nx x = Some (hd_or e xs) \<and> nexts nx xs e)"

lemma nexts_cong: "(\<And>x. x \<in> set xs \<Longrightarrow> nx' x = nx x) \<Longrightarrow> nexts nx' xs e = nexts nx xs e"
  by (induction xs) auto

lemma nexts_append: "nexts nx (xs @ ys) e \<longleftrightarrow> nexts nx xs (hd_or e ys) \<and> nexts nx ys e"
  by (induction xs) (auto simp: hd_or_append)

lemma nexts_Some: "nexts nx xs e \<Longrightarrow> x \<in> set xs \<Longrightarrow> nx x \<noteq> None"
  by (induction xs) auto

lemma hd_or_hd: "xs \<noteq> [] \<Longrightarrow> hd_or d xs = hd xs"
  by (cases xs) simp_all

lemma last_or_last: "xs \<noteq> [] \<Longrightarrow> last_or d xs = last xs"
  by (simp add: last_or_def)

lemma sort_split_run:
  "nexts nx xs NULL \<Longrightarrow> NULL \<notin> set xs \<Longrightarrow> xs \<noteq> [] \<Longrightarrow>
   sort_split nx n (hd_or NULL xs) k = Some (hd_or NULL (drop n xs), k + length (take n xs))"
proof (induction n arbitrary: xs k)
  case (Suc n)
  then obtain x ys where x: "xs = x # ys" by (auto simp: neq_Nil_conv)
  show ?case
  proof (cases ys)
    case Nil
    with Suc.prems x show ?thesis by simp
  next
    case (Cons y zs)
    with Suc.prems x Suc.IH [of ys "Suc k"] show ?thesis by simp
  qed
qed simp

text \<open>
  \<open>out zs h\<close>: the output so far. \<open>lst h head xs\<close>: a well formed list. Between the two, nothing but
  the nodes of the list is written, and no node is allocated or freed.
\<close>

locale relinker =
  fixes S :: "'c sorter" and out :: "addr list \<Rightarrow> (addr \<rightharpoonup> 'c) \<Rightarrow> bool"
    and lst :: "(addr \<rightharpoonup> 'c) \<Rightarrow> addr \<Rightarrow> addr list \<Rightarrow> bool"
  assumes next_local: "h' x = h x \<Longrightarrow> s_next S o' h' x = s_next S o' h x"
    and next_alloc: "s_next S o' h x \<noteq> None \<Longrightarrow> x \<noteq> NULL \<Longrightarrow> h x \<noteq> None"
    and out_Nil: "lst h head xs \<Longrightarrow> out [] h"
    and link: "out zs h \<Longrightarrow> h e \<noteq> None \<Longrightarrow> distinct (zs @ [e]) \<Longrightarrow> NULL \<notin> set (zs @ [e]) \<Longrightarrow>
      \<exists>h'. s_link S (hd_or NULL zs) (last_or NULL zs) e h = Some (hd_or e zs, h') \<and> out (zs @ [e]) h'
         \<and> (\<forall>b. b \<notin> set (zs @ [e]) \<longrightarrow> h' b = h b) \<and> dom h' = dom h"
    and close: "out xs h \<Longrightarrow> xs \<noteq> [] \<Longrightarrow> distinct xs \<Longrightarrow> NULL \<notin> set xs \<Longrightarrow>
      \<exists>h'. s_close S (hd xs) (last xs) h = Some h' \<and> lst h' (hd xs) xs
         \<and> (\<forall>b. b \<notin> set xs \<longrightarrow> h' b = h b) \<and> dom h' = dom h"
    and opened: "lst h head xs \<Longrightarrow> head = hd_or NULL xs \<and> distinct xs \<and> NULL \<notin> set xs \<and> nexts (s_next S head h) xs NULL"
    and inc: "Suc n < 2 ^ 31 \<Longrightarrow> s_inc S n = Some (Suc n)"
    and double: "n * 2 < 2 ^ 31 \<Longrightarrow> s_double S n = Some (n * 2)"
begin

lemma nexts_keep:
  "nexts (s_next S o' h) xs e \<Longrightarrow> \<forall>b. b \<notin> A \<longrightarrow> h' b = h b \<Longrightarrow> set xs \<inter> A = {} \<Longrightarrow> nexts (s_next S o' h') xs e"
  using nexts_cong [of xs "s_next S o' h'" "s_next S o' h" e] next_local [of h' _ h o'] by blast

lemma nexts_allocated: "nexts (s_next S o' h) xs e \<Longrightarrow> x \<in> set xs \<Longrightarrow> x \<noteq> NULL \<Longrightarrow> h x \<noteq> None"
  using nexts_Some next_alloc by blast

text \<open>
  The loop that merges: \<open>as\<close> is what is left of the first run, \<open>bs\<close> all nodes from \<open>q\<close> on.
\<close>

definition merge_state ::
    "addr \<Rightarrow> addr list \<Rightarrow> addr list \<Rightarrow> addr list \<Rightarrow> addr \<Rightarrow> addr \<Rightarrow> addr \<Rightarrow> addr \<Rightarrow> (addr \<rightharpoonup> 'c) \<Rightarrow> bool" where
  "merge_state o' zs as bs p q list0 tail h \<longleftrightarrow>
     out zs h \<and> list0 = hd_or NULL zs \<and> tail = last_or NULL zs
     \<and> (\<exists>e. nexts (s_next S o' h) as e) \<and> nexts (s_next S o' h) bs NULL
     \<and> (as \<noteq> [] \<longrightarrow> p = hd as) \<and> q = hd_or NULL bs
     \<and> distinct (zs @ as @ bs) \<and> NULL \<notin> set (zs @ as @ bs)"

lemma merge_state_first:
  assumes "merge_state o' zs (a # as) bs p q list0 tail h"
  shows "\<exists>n h'. s_next S o' h p = Some n \<and> s_link S list0 tail p h = Some (hd_or a zs, h')
      \<and> merge_state o' (zs @ [a]) as bs n q (hd_or a zs) p h' \<and> p = a
      \<and> (\<forall>b. b \<notin> insert a (set zs) \<longrightarrow> h' b = h b) \<and> dom h' = dom h"
proof -
  obtain e where e: "nexts (s_next S o' h) (a # as) e" using assms by (auto simp: merge_state_def)
  have a: "h a \<noteq> None" "distinct (zs @ [a])" "NULL \<notin> set (zs @ [a])" "p = a"
    and out: "out zs h" "list0 = hd_or NULL zs" "tail = last_or NULL zs"
    using assms nexts_allocated [OF e, of a] by (auto simp: merge_state_def)
  obtain h' where s: "s_link S list0 tail a h = Some (hd_or a zs, h')" "out (zs @ [a]) h'"
    and fr: "\<forall>b. b \<notin> set (zs @ [a]) \<longrightarrow> h' b = h b" "dom h' = dom h"
    using link [OF out(1) a(1-3)] out(2,3) by blast
  have "nexts (s_next S o' h') as e"
    by (rule nexts_keep [OF _ fr(1), of _ _ e]) (use e assms in \<open>auto simp: merge_state_def\<close>)
  moreover have "nexts (s_next S o' h') bs NULL"
    by (rule nexts_keep [OF _ fr(1)]) (use assms in \<open>auto simp: merge_state_def\<close>)
  ultimately have "merge_state o' (zs @ [a]) as bs (hd_or e as) q (hd_or a zs) a h'"
    using s(2) assms by (auto simp: merge_state_def hd_or_hd)
  moreover have "s_next S o' h a = Some (hd_or e as)" using e by simp
  moreover have "\<forall>b. b \<notin> insert a (set zs) \<longrightarrow> h' b = h b" using fr(1) by simp
  ultimately show ?thesis using s(1) fr(2) a(4) by blast
qed

lemma merge_state_second:
  assumes "merge_state o' zs as (b # bs) p q list0 tail h"
  shows "\<exists>h'. s_next S o' h q = Some (hd_or NULL bs) \<and> s_link S list0 tail q h = Some (hd_or b zs, h')
      \<and> merge_state o' (zs @ [b]) as bs p (hd_or NULL bs) (hd_or b zs) q h' \<and> q = b
      \<and> (\<forall>c. c \<notin> insert b (set zs) \<longrightarrow> h' c = h c) \<and> dom h' = dom h"
proof -
  obtain e where e: "nexts (s_next S o' h) as e" and bs: "nexts (s_next S o' h) (b # bs) NULL"
    using assms by (auto simp: merge_state_def)
  have a: "h b \<noteq> None" "distinct (zs @ [b])" "NULL \<notin> set (zs @ [b])" "q = b"
    and out: "out zs h" "list0 = hd_or NULL zs" "tail = last_or NULL zs"
    using assms nexts_allocated [OF bs, of b] by (auto simp: merge_state_def)
  obtain h' where s: "s_link S list0 tail b h = Some (hd_or b zs, h')" "out (zs @ [b]) h'"
    and fr: "\<forall>c. c \<notin> set (zs @ [b]) \<longrightarrow> h' c = h c" "dom h' = dom h"
    using link [OF out(1) a(1-3)] out(2,3) by blast
  have "nexts (s_next S o' h') as e"
    by (rule nexts_keep [OF e fr(1)]) (use assms in \<open>auto simp: merge_state_def\<close>)
  moreover have "nexts (s_next S o' h') bs NULL"
    by (rule nexts_keep [OF _ fr(1)]) (use bs assms in \<open>auto simp: merge_state_def\<close>)
  ultimately have "merge_state o' (zs @ [b]) as bs p (hd_or NULL bs) (hd_or b zs) b h'"
    using s(2) assms by (auto simp: merge_state_def)
  moreover have "s_next S o' h b = Some (hd_or NULL bs)" using bs by simp
  moreover have "\<forall>c. c \<notin> insert b (set zs) \<longrightarrow> h' c = h c" using fr(1) by simp
  ultimately show ?thesis using s(1) fr(2) a(4) by blast
qed

lemma merge_step_first:
  assumes st: "merge_state o' zs (a # as) bs p q l t h" and c: "n = 0 \<or> bs = [] \<or> cmp a (hd bs) \<le> 0"
  shows "\<exists>p' l' h'. sort_merge S o' cmp p (Suc (length as)) q n l t h = sort_merge S o' cmp p' (length as) q n l' a h'
      \<and> merge_state o' (zs @ [a]) as bs p' q l' a h'
      \<and> (\<forall>x. x \<notin> insert a (set zs) \<longrightarrow> h' x = h x) \<and> dom h' = dom h"
proof -
  obtain p' l' h' where r: "s_next S o' h p = Some p'" "s_link S l t p h = Some (l', h')" "p = a"
    and m: "merge_state o' (zs @ [a]) as bs p' q l' p h'"
    and fr: "\<forall>x. x \<notin> insert a (set zs) \<longrightarrow> h' x = h x" "dom h' = dom h"
    using merge_state_first [OF st] by blast
  have q: "q = NULL \<or> bs \<noteq> [] \<and> q = hd bs"
    using st by (cases bs) (auto simp: merge_state_def)
  have "sort_choose (s_next S o' h) cmp p (Suc (length as)) q n = Some (p, p', length as, q, n)"
    using c q r st by (cases bs) (auto simp: sort_choose_def merge_state_def)
  then have "sort_merge S o' cmp p (Suc (length as)) q n l t h = sort_merge S o' cmp p' (length as) q n l' a h'"
    using r by (subst sort_merge.simps) simp
  then show ?thesis using m fr r(3) by blast
qed

lemma merge_step_second:
  assumes st: "merge_state o' zs as (b # bs) p q l t h" and c: "as = [] \<or> \<not> cmp (hd as) b \<le> 0"
  shows "\<exists>l' h'. sort_merge S o' cmp p (length as) q (Suc n) l t h
        = sort_merge S o' cmp p (length as) (hd_or NULL bs) n l' b h'
      \<and> merge_state o' (zs @ [b]) as bs p (hd_or NULL bs) l' b h'
      \<and> (\<forall>x. x \<notin> insert b (set zs) \<longrightarrow> h' x = h x) \<and> dom h' = dom h"
proof -
  obtain l' h' where r: "s_next S o' h q = Some (hd_or NULL bs)" "s_link S l t q h = Some (l', h')" "q = b"
    and m: "merge_state o' (zs @ [b]) as bs p (hd_or NULL bs) l' q h'"
    and fr: "\<forall>x. x \<notin> insert b (set zs) \<longrightarrow> h' x = h x" "dom h' = dom h"
    using merge_state_second [OF st] by blast
  have q: "q \<noteq> NULL" "as \<noteq> [] \<Longrightarrow> p = hd as" using st by (auto simp: merge_state_def)
  have "sort_choose (s_next S o' h) cmp p (length as) q (Suc n) = Some (q, p, length as, hd_or NULL bs, n)"
    using c q r by (cases as) (auto simp: sort_choose_def)
  then have "sort_merge S o' cmp p (length as) q (Suc n) l t h
      = sort_merge S o' cmp p (length as) (hd_or NULL bs) n l' b h'"
    using r q by (subst sort_merge.simps) simp
  then show ?thesis using m fr r(3) by blast
qed

lemma sort_merge_stop: "n = 0 \<or> q = NULL \<Longrightarrow> sort_merge S o' cmp p 0 q n l t h = Some (q, l, t, h)"
  by (subst sort_merge.simps) auto

lemma sort_merge_run:
  "merge_state o' zs as bs p q l t h \<Longrightarrow>
   \<exists>p' l' t' h'. sort_merge S o' cmp p (length as) q n l t h = Some (hd_or NULL (drop n bs), l', t', h')
     \<and> merge_state o' (zs @ mrg cmp as (take n bs)) [] (drop n bs) p' (hd_or NULL (drop n bs)) l' t' h'
     \<and> (\<forall>x. x \<notin> set (zs @ as @ bs) \<longrightarrow> h' x = h x) \<and> dom h' = dom h"
proof (induction "length as + n" arbitrary: zs as bs p q l t h n rule: less_induct)
  case less
  consider (stop) "as = []" "n = 0 \<or> bs = []"
    | (first) a as' where "as = a # as'" "n = 0 \<or> bs = [] \<or> cmp a (hd bs) \<le> 0"
    | (second) m b bs' where "n = Suc m" "bs = b # bs'" "as = [] \<or> \<not> cmp (hd as) b \<le> 0"
    by (cases n; cases bs; cases as) auto
  then show ?case
  proof cases
    case stop
    then have "q = hd_or NULL bs" "n = 0 \<or> q = NULL"
      using less.prems by (auto simp: merge_state_def)
    with stop less.prems show ?thesis by (auto simp: sort_merge_stop)
  next
    case first
    obtain p1 l1 h1 where s: "sort_merge S o' cmp p (Suc (length as')) q n l t h = sort_merge S o' cmp p1 (length as') q n l1 a h1"
      and m: "merge_state o' (zs @ [a]) as' bs p1 q l1 a h1"
      and fr: "\<forall>x. x \<notin> insert a (set zs) \<longrightarrow> h1 x = h x" "dom h1 = dom h"
      using merge_step_first [where cmp = cmp and n = n, OF less.prems [unfolded first(1)] first(2)] by blast
    have eq: "mrg cmp as (take n bs) = a # mrg cmp as' (take n bs)"
      using first by (cases n; cases bs) auto
    show ?thesis
      using less.hyps [OF _ m, of n] s fr eq first(1) by auto
  next
    case second
    obtain l1 h1 where s: "sort_merge S o' cmp p (length as) q (Suc m) l t h
          = sort_merge S o' cmp p (length as) (hd_or NULL bs') m l1 b h1"
      and m: "merge_state o' (zs @ [b]) as bs' p (hd_or NULL bs') l1 b h1"
      and fr: "\<forall>x. x \<notin> insert b (set zs) \<longrightarrow> h1 x = h x" "dom h1 = dom h"
      using merge_step_second [where cmp = cmp and n = m, OF less.prems [unfolded second(2)] second(3)] by blast
    have eq: "mrg cmp as (take n bs) = b # mrg cmp as (take m bs')"
      using second by (cases as) auto
    show ?thesis
      using less.hyps [OF _ m, of m] s fr eq second(1,2) by auto
  qed
qed

text \<open>A whole pass.\<close>

lemma sort_pass_stop: "sort_pass S o' cmp n NULL l t k h = Some (l, t, k, h)"
  by (subst sort_pass.simps) simp

lemma sort_pass_run:
  assumes n: "0 < n"
  shows "out zs h \<Longrightarrow> nexts (s_next S o' h) xs NULL \<Longrightarrow> distinct (zs @ xs) \<Longrightarrow> NULL \<notin> set (zs @ xs) \<Longrightarrow>
   k + length xs < 2 ^ 31 \<Longrightarrow> ys = zs @ mrg_pass cmp n xs \<Longrightarrow>
   \<exists>h'. sort_pass S o' cmp n (hd_or NULL xs) (hd_or NULL zs) (last_or NULL zs) k h
       = Some (hd_or NULL ys, last_or NULL ys, k + runs n xs, h')
     \<and> out ys h' \<and> (\<forall>x. x \<notin> set (zs @ xs) \<longrightarrow> h' x = h x) \<and> dom h' = dom h"
proof (induction "length xs" arbitrary: xs zs k h rule: less_induct)
  case less
  show ?case
  proof (cases "xs = []")
    case True
    with less.prems show ?thesis
      by (auto simp: sort_pass_stop runs.simps [of _ "[]"] mrg_pass.simps [of _ _ "[]"])
  next
    case False
    let ?as = "take n xs" and ?bs = "drop n xs" and ?N = "s_next S o' h"
    let ?zs = "zs @ mrg cmp ?as (take n ?bs)"
    have p: "hd_or NULL xs \<noteq> NULL" using False less.prems(4) by (cases xs) auto
    have k: "s_inc S k = Some (Suc k)" using less.prems(5) False by (intro inc, cases xs) auto
    have split: "sort_split ?N n (hd_or NULL xs) 0 = Some (hd_or NULL ?bs, length ?as)"
      using sort_split_run [OF less.prems(2) _ False, of n 0] less.prems(4) by simp
    have nx: "nexts ?N ?as (hd_or NULL ?bs)" "nexts ?N ?bs NULL"
      using less.prems(2) nexts_append [of ?N ?as ?bs NULL] by simp_all
    have sets: "set xs = set ?as \<union> set ?bs" and dist: "distinct (?as @ ?bs)"
      using less.prems(3) by (simp_all flip: set_append)
    have "hd_or NULL xs = hd ?as" using False n by (cases xs; cases n) auto
    then have "merge_state o' zs ?as ?bs (hd_or NULL xs) (hd_or NULL ?bs) (hd_or NULL zs) (last_or NULL zs) h"
      using less.prems nx sets dist unfolding merge_state_def by auto
    from sort_merge_run [OF this, of cmp n] obtain p1 l1 t1 h1 where
      s: "sort_merge S o' cmp (hd_or NULL xs) (length ?as) (hd_or NULL ?bs) n (hd_or NULL zs) (last_or NULL zs) h
            = Some (hd_or NULL (drop n ?bs), l1, t1, h1)"
      and m: "merge_state o' ?zs [] (drop n ?bs) p1 (hd_or NULL (drop n ?bs)) l1 t1 h1"
      and fr: "\<forall>x. x \<notin> set (zs @ ?as @ ?bs) \<longrightarrow> h1 x = h x" "dom h1 = dom h" by blast
    have len: "length (drop n ?bs) < length xs" using n False by (cases xs) auto
    have out: "out ?zs h1" "nexts (s_next S o' h1) (drop n ?bs) NULL"
      "distinct (?zs @ drop n ?bs)" "NULL \<notin> set (?zs @ drop n ?bs)" "l1 = hd_or NULL ?zs" "t1 = last_or NULL ?zs"
      using m by (auto simp: merge_state_def)
    have k2: "Suc k + length (drop n ?bs) < 2 ^ 31" using len less.prems(5) by simp
    have eqs: "mrg_pass cmp n xs = mrg cmp ?as (take n ?bs) @ mrg_pass cmp n (drop n ?bs)"
      "runs n xs = Suc (runs n (drop n ?bs))"
      using n False by (simp_all only: mrg_pass.simps [of cmp n xs] runs.simps [of n xs]) simp_all
    have ys: "ys = ?zs @ mrg_pass cmp n (drop n ?bs)" using less.prems(6) eqs(1) by simp
    from less.hyps [OF len out(1-4) k2 ys] obtain h2 where
      r: "sort_pass S o' cmp n (hd_or NULL (drop n ?bs)) l1 t1 (Suc k) h1
            = Some (hd_or NULL ys, last_or NULL ys, Suc k + runs n (drop n ?bs), h2)"
      "out ys h2" "\<forall>x. x \<notin> set (?zs @ drop n ?bs) \<longrightarrow> h2 x = h1 x" "dom h2 = dom h1"
      unfolding out(5,6) by blast
    have "sort_pass S o' cmp n (hd_or NULL xs) (hd_or NULL zs) (last_or NULL zs) k h
        = Some (hd_or NULL ys, last_or NULL ys, k + runs n xs, h2)"
      using p k split s r(1) eqs(2) by (subst sort_pass.simps) simp
    moreover have "h2 x = h x" if "x \<notin> set (zs @ xs)" for x
      using that r(3) fr(1) sets set_drop_subset [of n ?bs] set_take_subset [of n ?bs] by auto
    ultimately show ?thesis using r(2,4) fr(2) by auto
  qed
qed

text \<open>All passes.\<close>

lemma sort_loop_run:
  assumes cmp: "cmp_by cmp key"
  shows "lst h head xs \<Longrightarrow> xs \<noteq> [] \<Longrightarrow> length xs \<le> 2 ^ 30 \<Longrightarrow> n = 1 \<or> n < length xs \<Longrightarrow> 0 < n \<Longrightarrow>
    run_sorted key n xs \<Longrightarrow> ys = sort_key key xs \<Longrightarrow>
    \<exists>h'. sort_loop S cmp n head h = Some (hd ys, last ys, h') \<and> lst h' (hd ys) ys
      \<and> (\<forall>x. x \<notin> set xs \<longrightarrow> h' x = h x) \<and> dom h' = dom h"
proof (induction "length xs - n" arbitrary: xs n head h rule: less_induct)
  case less
  note n = less.prems(5) and rs = less.prems(6)
  let ?zs = "mrg_pass cmp n xs"
  have head: "head = hd_or NULL xs" and d: "distinct xs" "NULL \<notin> set xs"
    and nx: "nexts (s_next S head h) xs NULL" using opened [OF less.prems(1)] by auto
  obtain h1 where
    p: "sort_pass S head cmp n head NULL NULL 0 h = Some (hd_or NULL ?zs, last_or NULL ?zs, runs n xs, h1)"
    and out1: "out ?zs h1" and fr1: "\<forall>x. x \<notin> set xs \<longrightarrow> h1 x = h x" "dom h1 = dom h"
    using sort_pass_run [OF n out_Nil [OF less.prems(1)] nx, of 0 ?zs cmp] d less.prems(3) head by auto
  have perm: "mset ?zs = mset xs" using mset_mrg_pass [OF n] .
  have zs: "?zs \<noteq> []" "distinct ?zs" "NULL \<notin> set ?zs"
    using less.prems(2) d n perm by (auto simp: mset_eq_imp_distinct_iff [OF perm] simp flip: length_greater_0_conv)
  obtain h2 where w: "s_close S (hd ?zs) (last ?zs) h1 = Some h2"
    and l2: "lst h2 (hd ?zs) ?zs" and fr2: "\<forall>x. x \<notin> set xs \<longrightarrow> h2 x = h1 x" "dom h2 = dom h1"
    using close [OF out1 zs] n by auto
  have g: "s_double S n = Some (n * 2)" using less.prems(2-4) by (intro double) auto
  have step: "sort_loop S cmp n head h
      = (if runs n xs \<le> 1 then Some (hd ?zs, last ?zs, h2) else sort_loop S cmp (n * 2) (hd ?zs) h2)"
    using p w g by (subst sort_loop.simps) (simp add: hd_or_hd [OF zs(1)] last_or_last [OF zs(1)])
  have run2: "run_sorted key (n * 2) ?zs" using run_sorted_mrg_pass [OF cmp n rs] .
  have sk: "sort_key key ?zs = sort_key key xs"
    by (rule properties_for_sort_key)
      (simp_all add: perm sort_key_filter stable_mrg_pass [OF cmp n rs])
  show ?case
  proof (cases "runs n xs \<le> 1")
    case True
    then have "sorted (map key ?zs)"
      using run_sorted_all [OF run2] runs_one [OF n, of xs] n by simp
    then have "ys = ?zs" using sk less.prems(7) by (simp add: sort_key_id_if_sorted)
    with True step l2 fr1 fr2 show ?thesis by auto
  next
    case False
    then have long: "n * 2 < length xs" using runs_one [OF n, of xs] by simp
    have a: "length ?zs - n * 2 < length xs - n" "length ?zs \<le> 2 ^ 30" "n * 2 = 1 \<or> n * 2 < length ?zs" "0 < n * 2"
      "ys = sort_key key ?zs"
      using n long less.prems(3,7) sk by simp_all
    from less.hyps [OF a(1) l2 zs(1) a(2-4) run2 a(5)] show ?thesis
      using step False fr1 fr2 n by auto
  qed
qed

lemma sort_correct:
  assumes "lst h head xs" "xs \<noteq> []" "length xs \<le> 2 ^ 30" "cmp_by cmp key"
  shows "\<exists>h'. sort_loop S cmp 1 head h = Some (hd (sort_key key xs), last (sort_key key xs), h')
      \<and> lst h' (hd (sort_key key xs)) (sort_key key xs) \<and> (\<forall>x. x \<notin> set xs \<longrightarrow> h' x = h x) \<and> dom h' = dom h"
  using sort_loop_run [OF assms(4) assms(1-3) _ _ run_sorted_1] by simp

end

lemma counters:
  "Suc n < 2 ^ 31 \<Longrightarrow> int_inc n = Some (Suc n)" "n * 2 < 2 ^ 31 \<Longrightarrow> int_double n = Some (n * 2)"
  "Suc n < 2 ^ 31 \<Longrightarrow> uint_inc n = Some (Suc n)" "n * 2 < 2 ^ 31 \<Longrightarrow> uint_double n = Some (n * 2)"
  by (simp_all add: int_inc_def int_double_def uint_inc_def uint_double_def)

end
