(* ===== verification/Utlist_Sort.thy ===== *)
theory Utlist_Sort
  imports Utlist Link_Sort
begin

text \<open>
  \<open>DL_SORT\<close> of \<open>src/utlist.h\<close>: the merge sort of Link_Sort on the links of a doubly linked list.
\<close>

section \<open>The macro\<close>

text \<open>Appending the node \<open>e\<close> to the output.\<close>

definition sort_link :: "addr \<Rightarrow> addr \<Rightarrow> addr \<Rightarrow> dlheap \<Rightarrow> (addr \<times> dlheap) option" where
  "sort_link list0 tail e h = do {
     (list0, h) \<leftarrow> (if tail \<noteq> NULL then do {
         h \<leftarrow> wr_next h tail e;
         Some (list0, h)
       } else Some (e, h));
     h \<leftarrow> wr_prev h e tail;
     Some (list0, h)
   }"

text \<open>The end of a pass.\<close>

definition sort_close :: "addr \<Rightarrow> addr \<Rightarrow> dlheap \<Rightarrow> dlheap option" where
  "sort_close list0 tail h = do {
     h \<leftarrow> wr_prev h list0 tail;
     wr_next h tail NULL
   }"

definition dl_sorter :: "link sorter" where
  "dl_sorter = \<lparr>s_next = (\<lambda>_. rd_next), s_link = sort_link, s_close = sort_close,
                s_inc = int_inc, s_double = int_double\<rparr>"

definition DL_SORT :: "(addr \<Rightarrow> addr \<Rightarrow> int) \<Rightarrow> addr \<Rightarrow> dlheap \<Rightarrow> (addr \<times> dlheap) option" where
  "DL_SORT cmp list0 h =
     (if list0 \<noteq> NULL then do {
        (list0, _, h) \<leftarrow> sort_loop dl_sorter cmp 1 list0 h;
        Some (list0, h)
      } else Some (list0, h))"

section \<open>The links during the sort\<close>

text \<open>
  The output of a pass is linked both ways, except that its last node's \<open>next\<close> is stale and its
  first node's \<open>prev\<close> null.
\<close>

definition sort_out :: "addr list \<Rightarrow> dlheap \<Rightarrow> bool" where
  "sort_out zs h \<longleftrightarrow> (\<exists>e. links NULL zs e h)"

lemma links_nexts: "links p xs e h \<Longrightarrow> nexts (rd_next h) xs e"
  by (induction xs arbitrary: p) (auto simp: rd_next_def)

lemma sort_link_run:
  assumes out: "sort_out zs h" and e: "h e \<noteq> None" "distinct (zs @ [e])" "NULL \<notin> set (zs @ [e])"
  shows "\<exists>h'. sort_link (hd_or NULL zs) (last_or NULL zs) e h = Some (hd_or e zs, h') \<and> sort_out (zs @ [e]) h'
      \<and> (\<forall>b. b \<notin> set (zs @ [e]) \<longrightarrow> h' b = h b) \<and> dom h' = dom h"
proof -
  obtain p n where y: "h e = Some \<lparr>prev = p, next = n\<rparr>" using e(1) by (metis link.surjective not_None_eq old.unit.exhaust)
  show ?thesis
    using out e y
    by (cases zs rule: rev_cases) (auto simp: sort_out_def sort_link_def dl_access links_append hd_or_append)
qed

lemma sort_close_run:
  assumes out: "sort_out xs h" and xs: "xs \<noteq> []" "distinct xs" "NULL \<notin> set xs"
  shows "\<exists>h'. sort_close (hd xs) (last xs) h = Some h' \<and> DL h' (hd xs) xs
      \<and> (\<forall>x. x \<notin> set xs \<longrightarrow> h' x = h x) \<and> dom h' = dom h"
proof (cases xs rule: two_ended_cases)
  case 1 with xs show ?thesis by simp
next
  case (2 x)
  with out xs show ?thesis by (auto simp: sort_out_def sort_close_def DL_def dl_access)
next
  case (3 x ms y)
  with out xs show ?thesis by (auto simp: sort_out_def sort_close_def DL_def dl_access links_append)
qed

interpretation dls: relinker dl_sorter sort_out DL
proof unfold_locales
  fix zs h e assume "sort_out zs h" "h e \<noteq> None" "distinct (zs @ [e])" "NULL \<notin> set (zs @ [e])"
  from sort_link_run [OF this] show "\<exists>h'. s_link dl_sorter (hd_or NULL zs) (last_or NULL zs) e h = Some (hd_or e zs, h')
      \<and> sort_out (zs @ [e]) h' \<and> (\<forall>b. b \<notin> set (zs @ [e]) \<longrightarrow> h' b = h b) \<and> dom h' = dom h"
    by (simp add: dl_sorter_def)
next
  fix xs h assume "sort_out xs h" "xs \<noteq> []" "distinct xs" "NULL \<notin> set xs"
  from sort_close_run [OF this] show "\<exists>h'. s_close dl_sorter (hd xs) (last xs) h = Some h' \<and> DL h' (hd xs) xs
      \<and> (\<forall>b. b \<notin> set xs \<longrightarrow> h' b = h b) \<and> dom h' = dom h"
    by (simp add: dl_sorter_def)
next
  fix h head xs assume "DL h head xs"
  then show "head = hd_or NULL xs \<and> distinct xs \<and> NULL \<notin> set xs \<and> nexts (s_next dl_sorter head h) xs NULL"
    using links_nexts by (auto simp: dl_sorter_def DL_def)
qed (auto simp: dl_sorter_def counters rd_next_def sort_out_def)

section \<open>The sort\<close>

lemma DL_SORT_correct:
  assumes dl: "DL h head xs" and len: "length xs \<le> 2 ^ 30" and cmp: "cmp_by cmp key"
  shows "\<exists>l h'. DL_SORT cmp head h = Some (l, h') \<and> DL h' l (sort_key key xs)
      \<and> (\<forall>x. x \<notin> set xs \<longrightarrow> h' x = h x) \<and> dom h' = dom h"
proof (cases "xs = []")
  case True
  with dl show ?thesis by (auto simp: DL_def DL_SORT_def)
next
  case False
  then have "head \<noteq> NULL" using DL_null_iff [OF dl] by simp
  with dls.sort_correct [OF dl False len cmp] show ?thesis by (auto simp: DL_SORT_def)
qed

end
