(* ===== verification/Utlist_Single.thy ===== *)
theory Utlist_Single
  imports Utlist Link_Sort
begin

text \<open>
  The singly linked list macros of \<open>src/utlist.h\<close>, over a store of \<open>next\<close> fields. \<open>SL h head xs\<close> says
  that the list at \<open>head\<close> is the sequence of nodes \<open>xs\<close>; each macro is related to the operation on
  the sequence. The header has a second version of six macros for compilers without \<open>decltype\<close>,
  which walk with \<open>head\<close> or with the new node's \<open>next\<close> instead of a temporary; both versions are
  modelled and shown to do the same.
\<close>

section \<open>Next fields\<close>

type_synonym slheap = "addr \<rightharpoonup> addr"

definition set_next :: "slheap \<Rightarrow> addr \<Rightarrow> addr \<Rightarrow> slheap option" where
  "set_next h a v = map_option (\<lambda>_. h(a \<mapsto> v)) (h a)"

section \<open>The macros\<close>

definition LL_PREPEND :: "addr \<Rightarrow> addr \<Rightarrow> slheap \<Rightarrow> (addr \<times> slheap) option" where
  "LL_PREPEND head add h = do {
     h \<leftarrow> set_next h add head;
     Some (add, h)
   }"

text \<open>\<open>while (_tmp->next) { _tmp = _tmp->next; }\<close>\<close>

partial_function (option) ll_last :: "slheap \<Rightarrow> addr \<Rightarrow> addr option" where
  "ll_last h tmp = do {
     n \<leftarrow> h tmp;
     if n \<noteq> NULL then ll_last h n else Some tmp
   }"

text \<open>\<open>while (_tmp->next && (_tmp->next != (el))) { _tmp = _tmp->next; }\<close>\<close>

partial_function (option) ll_before :: "slheap \<Rightarrow> addr \<Rightarrow> addr \<Rightarrow> addr option" where
  "ll_before h el tmp = do {
     n \<leftarrow> h tmp;
     if n \<noteq> NULL \<and> n \<noteq> el then ll_before h el n else Some tmp
   }"

definition LL_CONCAT :: "addr \<Rightarrow> addr \<Rightarrow> slheap \<Rightarrow> (addr \<times> slheap) option" where
  "LL_CONCAT head1 head2 h =
     (if head1 \<noteq> NULL then do {
        tmp \<leftarrow> ll_last h head1;
        h \<leftarrow> set_next h tmp head2;
        Some (head1, h)
      } else Some (head2, h))"

definition LL_APPEND :: "addr \<Rightarrow> addr \<Rightarrow> slheap \<Rightarrow> (addr \<times> slheap) option" where
  "LL_APPEND head add h = do {
     h \<leftarrow> set_next h add NULL;
     if head \<noteq> NULL then do {
       tmp \<leftarrow> ll_last h head;
       h \<leftarrow> set_next h tmp add;
       Some (head, h)
     } else Some (add, h)
   }"

definition LL_DELETE :: "addr \<Rightarrow> addr \<Rightarrow> slheap \<Rightarrow> (addr \<times> slheap) option" where
  "LL_DELETE head del h =
     (if head = del then do {
        n \<leftarrow> h head;
        Some (n, h)
      } else do {
        tmp \<leftarrow> ll_before h del head;
        n \<leftarrow> h tmp;
        if n \<noteq> NULL then do {
          d \<leftarrow> h del;
          h \<leftarrow> set_next h tmp d;
          Some (head, h)
        } else Some (head, h)
      })"

definition LL_REPLACE_ELEM :: "addr \<Rightarrow> addr \<Rightarrow> addr \<Rightarrow> slheap \<Rightarrow> (addr \<times> slheap) option" where
  "LL_REPLACE_ELEM head el add h = do {
     guard_ok (head \<noteq> NULL);
     guard_ok (el \<noteq> NULL);
     guard_ok (add \<noteq> NULL);
     n \<leftarrow> h el;
     h \<leftarrow> set_next h add n;
     if head = el then Some (add, h)
     else do {
       tmp \<leftarrow> ll_before h el head;
       n \<leftarrow> h tmp;
       if n \<noteq> NULL then do {
         h \<leftarrow> set_next h tmp add;
         Some (head, h)
       } else Some (head, h)
     }
   }"

definition LL_PREPEND_ELEM :: "addr \<Rightarrow> addr \<Rightarrow> addr \<Rightarrow> slheap \<Rightarrow> (addr \<times> slheap) option" where
  "LL_PREPEND_ELEM head el add h =
     (if el \<noteq> NULL then do {
        guard_ok (head \<noteq> NULL);
        guard_ok (add \<noteq> NULL);
        h \<leftarrow> set_next h add el;
        if head = el then Some (add, h)
        else do {
          tmp \<leftarrow> ll_before h el head;
          n \<leftarrow> h tmp;
          if n \<noteq> NULL then do {
            h \<leftarrow> set_next h tmp add;
            Some (head, h)
          } else Some (head, h)
        }
      } else LL_APPEND head add h)"

definition LL_APPEND_ELEM :: "addr \<Rightarrow> addr \<Rightarrow> addr \<Rightarrow> slheap \<Rightarrow> (addr \<times> slheap) option" where
  "LL_APPEND_ELEM head el add h =
     (if el \<noteq> NULL then do {
        guard_ok (head \<noteq> NULL);
        guard_ok (add \<noteq> NULL);
        n \<leftarrow> h el;
        h \<leftarrow> set_next h add n;
        h \<leftarrow> set_next h el add;
        Some (head, h)
      } else LL_PREPEND head add h)"

partial_function (option) ll_lower_bound_loop ::
    "(addr \<Rightarrow> addr \<Rightarrow> int) \<Rightarrow> slheap \<Rightarrow> addr \<Rightarrow> addr \<Rightarrow> addr option" where
  "ll_lower_bound_loop cmp h elt like = do {
     n \<leftarrow> h elt;
     if n \<noteq> NULL then
       if 0 \<le> cmp n like then Some elt else ll_lower_bound_loop cmp h n like
     else Some elt
   }"

definition LL_LOWER_BOUND :: "(addr \<Rightarrow> addr \<Rightarrow> int) \<Rightarrow> slheap \<Rightarrow> addr \<Rightarrow> addr \<Rightarrow> addr option" where
  "LL_LOWER_BOUND cmp h head like =
     (if head = NULL \<or> 0 \<le> cmp head like then Some NULL else ll_lower_bound_loop cmp h head like)"

definition LL_INSERT_INORDER ::
    "(addr \<Rightarrow> addr \<Rightarrow> int) \<Rightarrow> addr \<Rightarrow> addr \<Rightarrow> slheap \<Rightarrow> (addr \<times> slheap) option" where
  "LL_INSERT_INORDER cmp head add h =
     (if head \<noteq> NULL then do {
        tmp \<leftarrow> LL_LOWER_BOUND cmp h head add;
        LL_APPEND_ELEM head tmp add h
      } else do {
        h \<leftarrow> set_next h add NULL;
        Some (add, h)
      })"

partial_function (option) LL_FOREACH :: "slheap \<Rightarrow> addr \<Rightarrow> addr list option" where
  "LL_FOREACH h el =
     (if el = NULL then Some []
      else do {
        n \<leftarrow> h el;
        els \<leftarrow> LL_FOREACH h n;
        Some (el # els)
      })"

partial_function (option) LL_COUNT :: "slheap \<Rightarrow> addr \<Rightarrow> nat \<Rightarrow> nat option" where
  "LL_COUNT h el counter =
     (if el = NULL then Some counter
      else do {
        n \<leftarrow> h el;
        LL_COUNT h n (Suc counter)
      })"

partial_function (option) LL_FOREACH_SAFE ::
    "(addr \<Rightarrow> addr \<times> slheap \<Rightarrow> (addr \<times> slheap) option) \<Rightarrow> addr \<Rightarrow> addr \<times> slheap
       \<Rightarrow> (addr \<times> slheap) option" where
  "LL_FOREACH_SAFE body el s =
     (if el = NULL then Some s
      else do {
        tmp \<leftarrow> snd s el;
        s \<leftarrow> body el s;
        LL_FOREACH_SAFE body tmp s
      })"

section \<open>The sort\<close>

definition ll_sort_link :: "addr \<Rightarrow> addr \<Rightarrow> addr \<Rightarrow> slheap \<Rightarrow> (addr \<times> slheap) option" where
  "ll_sort_link list0 tail e h =
     (if tail \<noteq> NULL then do {
        h \<leftarrow> set_next h tail e;
        Some (list0, h)
      } else Some (e, h))"

definition ll_sort_close :: "addr \<Rightarrow> addr \<Rightarrow> slheap \<Rightarrow> slheap option" where
  "ll_sort_close list0 tail h = (if tail \<noteq> NULL then set_next h tail NULL else Some h)"

definition ll_sorter :: "addr sorter" where
  "ll_sorter = \<lparr>s_next = (\<lambda>_ h. h), s_link = ll_sort_link, s_close = ll_sort_close,
                s_inc = int_inc, s_double = int_double\<rparr>"

definition LL_SORT :: "(addr \<Rightarrow> addr \<Rightarrow> int) \<Rightarrow> addr \<Rightarrow> slheap \<Rightarrow> (addr \<times> slheap) option" where
  "LL_SORT cmp list0 h =
     (if list0 \<noteq> NULL then do {
        (list0, _, h) \<leftarrow> sort_loop ll_sorter cmp 1 list0 h;
        Some (list0, h)
      } else Some (list0, h))"

section \<open>Lists\<close>

definition SL :: "slheap \<Rightarrow> addr \<Rightarrow> addr list \<Rightarrow> bool" where
  "SL h head xs \<longleftrightarrow> head = hd_or NULL xs \<and> distinct xs \<and> NULL \<notin> set xs \<and> nexts h xs NULL"

lemma nexts_upd [simp]: "a \<notin> set xs \<Longrightarrow> nexts (h(a := v)) xs e = nexts h xs e"
  by (rule nexts_cong) auto

lemma set_next_run: "h a \<noteq> None \<Longrightarrow> set_next h a v = Some (h(a \<mapsto> v))"
  by (auto simp: set_next_def)

lemma nexts_mid: "nexts h (xs @ a # ys) e \<longleftrightarrow> nexts h xs a \<and> h a = Some (hd_or e ys) \<and> nexts h ys e"
  by (simp add: nexts_append)

lemma SL_nonnull: "SL h head xs \<Longrightarrow> x \<in> set xs \<Longrightarrow> x \<noteq> NULL"
  by (cases "x = NULL") (auto simp: SL_def)

lemma SL_null_iff: "SL h head xs \<Longrightarrow> head = NULL \<longleftrightarrow> xs = []"
  by (cases xs) (auto simp: SL_def)

lemma SL_allocated: "SL h head xs \<Longrightarrow> x \<in> set xs \<Longrightarrow> h x \<noteq> None"
  using nexts_Some by (auto simp: SL_def)

lemma SL_frame: "(\<And>x. x \<in> set xs \<Longrightarrow> h' x = h x) \<Longrightarrow> SL h' head xs = SL h head xs"
  unfolding SL_def using nexts_cong by blast

lemma SL_next: "SL h head (xs @ x # ys) \<Longrightarrow> h x = Some (hd_or NULL ys)"
  by (simp add: SL_def nexts_mid)

text \<open>The two walks: to the last node, and to the node before \<open>el\<close> (or the last one).\<close>

lemma ll_last_run: "nexts h (x # xs) NULL \<Longrightarrow> NULL \<notin> set xs \<Longrightarrow> ll_last h x = Some (last_or x xs)"
proof (induction xs arbitrary: x)
  case Nil then show ?case by (simp add: ll_last.simps)
next
  case (Cons y xs)
  then show ?case by (subst ll_last.simps) auto
qed

lemma ll_before_run:
  "nexts h (x # xs @ el # ys) NULL \<Longrightarrow> NULL \<notin> set xs \<Longrightarrow> el \<notin> set xs \<Longrightarrow> ll_before h el x = Some (last_or x xs)"
proof (induction xs arbitrary: x)
  case Nil then show ?case by (simp add: ll_before.simps)
next
  case (Cons y xs)
  then show ?case by (subst ll_before.simps) auto
qed

lemma ll_before_absent:
  "nexts h (x # xs) NULL \<Longrightarrow> NULL \<notin> set xs \<Longrightarrow> el \<notin> set xs \<Longrightarrow> ll_before h el x = Some (last_or x xs)"
proof (induction xs arbitrary: x)
  case Nil then show ?case by (simp add: ll_before.simps)
next
  case (Cons y xs)
  then show ?case by (subst ll_before.simps) auto
qed

text \<open>The node before \<open>el\<close> and its link, when \<open>el\<close> is not the head.\<close>

lemma SL_before:
  assumes "SL h head (xs @ el # ys)" and "xs \<noteq> []"
  shows "head = hd xs" "head \<noteq> NULL" "head \<noteq> el" "ll_before h el head = Some (last xs)" "h (last xs) = Some el" "el \<noteq> NULL"
proof -
  obtain x xs' where x: "xs = x # xs'" using assms(2) by (cases xs) auto
  show "head = hd xs" "head \<noteq> NULL" "head \<noteq> el" "el \<noteq> NULL"
    using assms x by (cases "el = NULL"; auto simp: SL_def)+
  show "ll_before h el head = Some (last xs)"
    using assms x ll_before_run [of h x xs' el ys] by (auto simp: SL_def last_or_def)
  have "xs = butlast xs @ [last xs]" using assms(2) by simp
  then show "h (last xs) = Some el" using assms(1) by (metis SL_def append.assoc append_Cons append_Nil hd_or_simps(2) nexts_mid)
qed

lemma SL_last:
  assumes "SL h head xs" and "xs \<noteq> []"
  shows "head = hd xs" "head \<noteq> NULL" "ll_last h head = Some (last xs)"
proof -
  obtain x xs' where x: "xs = x # xs'" using assms(2) by (cases xs) auto
  show "head = hd xs" "head \<noteq> NULL" using assms x by (auto simp: SL_def)
  show "ll_last h head = Some (last xs)"
    using assms x ll_last_run [of h x xs'] by (auto simp: SL_def last_or_def)
qed

text \<open>Changing the link of the last node of a segment.\<close>

lemma nexts_relink: "nexts h xs e \<Longrightarrow> xs \<noteq> [] \<Longrightarrow> distinct xs \<Longrightarrow> nexts (h(last xs \<mapsto> v)) xs v"
  by (cases xs rule: rev_cases) (auto simp: nexts_append)

lemma last_not_in: "xs \<noteq> [] \<Longrightarrow> set xs \<inter> set ys = {} \<Longrightarrow> last xs \<notin> set ys"
  using last_in_set by blast

section \<open>What the macros do\<close>

lemma LL_PREPEND_correct:
  assumes "SL h head xs" and "h a \<noteq> None" and "a \<notin> set xs" and "a \<noteq> NULL"
  shows "\<exists>h'. LL_PREPEND head a h = Some (a, h') \<and> SL h' a (a # xs)
      \<and> (\<forall>b. b \<noteq> a \<longrightarrow> h' b = h b) \<and> dom h' = dom h"
  using assms by (auto simp: LL_PREPEND_def SL_def set_next_run)

lemma LL_CONCAT_correct:
  assumes "SL h head1 xs" and "SL h head2 ys" and "set xs \<inter> set ys = {}"
  shows "\<exists>h'. LL_CONCAT head1 head2 h = Some (hd_or NULL (xs @ ys), h') \<and> SL h' (hd_or NULL (xs @ ys)) (xs @ ys)
      \<and> (\<forall>b. b \<notin> set xs \<longrightarrow> h' b = h b) \<and> dom h' = dom h"
proof (cases "xs = []")
  case True
  with assms show ?thesis by (auto simp: LL_CONCAT_def SL_def)
next
  case False
  note l = SL_last [OF assms(1) False]
  have a: "h (last xs) \<noteq> None" using SL_allocated [OF assms(1)] False by simp
  have "nexts (h(last xs \<mapsto> head2)) xs head2" "last xs \<notin> set ys"
    using assms False nexts_relink [of h xs NULL head2] by (auto simp: SL_def last_not_in)
  then have "SL (h(last xs \<mapsto> head2)) (hd_or NULL (xs @ ys)) (xs @ ys)"
    using assms False by (auto simp: SL_def nexts_append)
  moreover have "head1 = hd_or NULL (xs @ ys)" using l(1) False by (cases xs) auto
  ultimately show ?thesis
    using l a False by (intro exI [of _ "h(last xs \<mapsto> head2)"]) (auto simp: LL_CONCAT_def set_next_run)
qed

lemma LL_APPEND_correct:
  assumes "SL h head xs" and "h a \<noteq> None" and "a \<notin> set xs" and "a \<noteq> NULL"
  shows "\<exists>h'. LL_APPEND head a h = Some (hd_or a xs, h') \<and> SL h' (hd_or a xs) (xs @ [a])
      \<and> (\<forall>b. b \<notin> insert a (set xs) \<longrightarrow> h' b = h b) \<and> dom h' = dom h"
proof -
  let ?h = "h(a \<mapsto> NULL)"
  have "SL ?h head xs" using assms by (simp add: SL_def)
  moreover have "SL ?h a [a]" using assms by (simp add: SL_def)
  ultimately obtain h' where c: "LL_CONCAT head a ?h = Some (hd_or NULL (xs @ [a]), h')" "SL h' (hd_or NULL (xs @ [a])) (xs @ [a])"
    "\<forall>b. b \<notin> set xs \<longrightarrow> h' b = ?h b" "dom h' = dom ?h"
    using LL_CONCAT_correct [of ?h head xs a "[a]"] assms(3) by auto
  have "LL_APPEND head a h = LL_CONCAT head a ?h"
    using assms by (simp add: LL_APPEND_def LL_CONCAT_def set_next_run)
  then show ?thesis using c assms(2) by auto
qed

lemma LL_DELETE_correct:
  assumes sl: "SL h head (xs @ a # ys)"
  shows "\<exists>h'. LL_DELETE head a h = Some (hd_or NULL (xs @ ys), h') \<and> SL h' (hd_or NULL (xs @ ys)) (xs @ ys)
      \<and> (\<forall>b. b \<notin> set xs \<longrightarrow> h' b = h b) \<and> dom h' = dom h"
proof (cases "xs = []")
  case True
  with sl show ?thesis by (auto simp: LL_DELETE_def SL_def)
next
  case False
  note b = SL_before [OF sl False] and ha = SL_next [OF sl]
  let ?h = "h(last xs \<mapsto> hd_or NULL ys)"
  have "nexts ?h xs (hd_or NULL ys)" "nexts ?h ys NULL"
    using sl False nexts_relink [of h xs a "hd_or NULL ys"] by (auto simp: SL_def nexts_mid last_not_in)
  then have "SL ?h (hd_or NULL (xs @ ys)) (xs @ ys)"
    using sl by (auto simp: SL_def nexts_append)
  moreover have "head = hd_or NULL (xs @ ys)" using b(1) False by (cases xs) auto
  ultimately show ?thesis
    using b ha False by (intro exI [of _ ?h]) (auto simp: LL_DELETE_def set_next_run)
qed

text \<open>Deleting a node that is not in a non-empty list does nothing.\<close>

lemma LL_DELETE_absent:
  assumes sl: "SL h head xs" and "xs \<noteq> []" and "a \<notin> set xs"
  shows "LL_DELETE head a h = Some (head, h)"
proof -
  obtain x xs' where x: "xs = x # xs'" using assms(2) by (cases xs) auto
  have n: "nexts h (x # xs') NULL" "NULL \<notin> set xs'" "a \<notin> set xs'" "head = x" "x \<noteq> a"
    using sl assms(3) x by (auto simp: SL_def)
  have "h (last_or x xs') = Some NULL"
    using n(1) by (cases xs' rule: rev_cases) (auto simp: nexts_append)
  with n ll_before_absent [OF n(1-3)] show ?thesis by (simp add: LL_DELETE_def)
qed

lemma LL_REPLACE_ELEM_correct:
  assumes sl: "SL h head (xs @ e # ys)" and a: "h a \<noteq> None" "a \<notin> set (xs @ e # ys)" "a \<noteq> NULL"
  shows "\<exists>h'. LL_REPLACE_ELEM head e a h = Some (hd_or a xs, h') \<and> SL h' (hd_or a xs) (xs @ a # ys)
      \<and> (\<forall>b. b \<notin> insert a (set xs) \<longrightarrow> h' b = h b) \<and> dom h' = dom h"
proof (cases "xs = []")
  case True
  with sl a show ?thesis by (auto simp: LL_REPLACE_ELEM_def SL_def set_next_run)
next
  case False
  let ?h1 = "h(a \<mapsto> hd_or NULL ys)" let ?h = "?h1(last xs \<mapsto> a)"
  have sl1: "SL ?h1 head (xs @ e # ys)" using sl a by (simp add: SL_def)
  note b = SL_before [OF sl1 False] and he = SL_next [OF sl]
  have "nexts ?h xs a" using sl1 False nexts_relink [of ?h1 xs e a] by (auto simp: SL_def nexts_mid)
  moreover have ne: "last xs \<noteq> a" "last xs \<notin> set ys" using sl a False by (auto simp: SL_def last_not_in)
  ultimately have "SL ?h (hd_or a xs) (xs @ a # ys)"
    using sl1 a by (auto simp: SL_def nexts_mid)
  moreover have "head = hd_or a xs" using b(1) False by (cases xs) auto
  ultimately show ?thesis
    using b he a False ne by (intro exI [of _ ?h]) (auto simp: LL_REPLACE_ELEM_def set_next_run)
qed

lemma LL_PREPEND_ELEM_correct:
  assumes sl: "SL h head (xs @ e # ys)" and a: "h a \<noteq> None" "a \<notin> set (xs @ e # ys)" "a \<noteq> NULL"
  shows "\<exists>h'. LL_PREPEND_ELEM head e a h = Some (hd_or a xs, h') \<and> SL h' (hd_or a xs) (xs @ a # e # ys)
      \<and> (\<forall>b. b \<notin> insert a (set xs) \<longrightarrow> h' b = h b) \<and> dom h' = dom h"
proof (cases "xs = []")
  case True
  with sl a show ?thesis by (auto simp: LL_PREPEND_ELEM_def SL_def set_next_run)
next
  case False
  let ?h1 = "h(a \<mapsto> e)" let ?h = "?h1(last xs \<mapsto> a)"
  have sl1: "SL ?h1 head (xs @ e # ys)" using sl a by (simp add: SL_def)
  note b = SL_before [OF sl1 False]
  have "nexts ?h xs a" using sl1 False nexts_relink [of ?h1 xs e a] by (auto simp: SL_def nexts_mid)
  moreover have ne: "last xs \<noteq> a" "last xs \<notin> set ys" "last xs \<noteq> e" using sl a False by (auto simp: SL_def last_not_in)
  ultimately have "SL ?h (hd_or a xs) (xs @ a # e # ys)"
    using sl1 a by (auto simp: SL_def nexts_mid)
  moreover have "head = hd_or a xs" using b(1) False by (cases xs) auto
  ultimately show ?thesis
    using b a False ne by (intro exI [of _ ?h]) (auto simp: LL_PREPEND_ELEM_def set_next_run)
qed

lemma LL_APPEND_ELEM_correct:
  assumes sl: "SL h head (xs @ e # ys)" and a: "h a \<noteq> None" "a \<notin> set (xs @ e # ys)" "a \<noteq> NULL"
  shows "\<exists>h'. LL_APPEND_ELEM head e a h = Some (head, h') \<and> SL h' head (xs @ e # a # ys)
      \<and> (\<forall>b. b \<notin> {a, e} \<longrightarrow> h' b = h b) \<and> dom h' = dom h"
proof -
  have "e \<noteq> NULL" using SL_nonnull [OF sl, of e] by simp
  moreover have "head \<noteq> NULL" using SL_null_iff [OF sl] by simp
  ultimately show ?thesis
    using sl a SL_next [OF sl]
    by (intro exI [of _ "h(a \<mapsto> hd_or NULL ys, e \<mapsto> a)"]) (auto simp: LL_APPEND_ELEM_def set_next_run SL_def nexts_mid)
qed

section \<open>Searching, inserting in order, traversing\<close>

lemma ll_lower_bound_loop_run:
  "nexts h (x # xs) NULL \<Longrightarrow> NULL \<notin> set xs \<Longrightarrow>
   ll_lower_bound_loop cmp h x a = Some (last_or x (takeWhile (\<lambda>y. cmp y a < 0) xs))"
proof (induction xs arbitrary: x)
  case Nil then show ?case by (simp add: ll_lower_bound_loop.simps)
next
  case (Cons y xs)
  then show ?case by (subst ll_lower_bound_loop.simps) auto
qed

lemma LL_LOWER_BOUND_correct:
  assumes "SL h head xs"
  shows "LL_LOWER_BOUND cmp h head a = Some (last_or NULL (takeWhile (\<lambda>y. cmp y a < 0) xs))"
proof (cases xs)
  case Nil
  with assms show ?thesis by (simp add: SL_def LL_LOWER_BOUND_def)
next
  case (Cons x ys)
  with assms show ?thesis
    using ll_lower_bound_loop_run [of h x ys cmp a] by (auto simp: SL_def LL_LOWER_BOUND_def)
qed

lemma LL_INSERT_INORDER_correct:
  fixes cmp :: "addr \<Rightarrow> addr \<Rightarrow> int"
  assumes sl: "SL h head xs" and a: "h a \<noteq> None" "a \<notin> set xs" "a \<noteq> NULL"
  defines "L \<equiv> takeWhile (\<lambda>y. cmp y a < 0) xs" and "R \<equiv> dropWhile (\<lambda>y. cmp y a < 0) xs"
  shows "\<exists>h'. LL_INSERT_INORDER cmp head a h = Some (hd_or a L, h') \<and> SL h' (hd_or a L) (L @ a # R)
      \<and> (\<forall>b. b \<notin> insert a (set xs) \<longrightarrow> h' b = h b) \<and> dom h' = dom h"
proof (cases "xs = []")
  case True
  with sl a show ?thesis by (auto simp: LL_INSERT_INORDER_def SL_def set_next_run L_def R_def)
next
  case False
  have xs: "xs = L @ R" by (simp add: L_def R_def)
  have head: "head \<noteq> NULL" using SL_null_iff [OF sl] False by simp
  have lb: "LL_INSERT_INORDER cmp head a h = LL_APPEND_ELEM head (last_or NULL L) a h"
    using LL_LOWER_BOUND_correct [OF sl] head by (simp add: LL_INSERT_INORDER_def L_def)
  show ?thesis
  proof (cases L rule: rev_cases)
    case Nil
    then have "LL_INSERT_INORDER cmp head a h = LL_PREPEND head a h" using lb by (simp add: LL_APPEND_ELEM_def)
    then show ?thesis using LL_PREPEND_correct [OF sl a] xs Nil by auto
  next
    case (snoc M e)
    have "SL h head (M @ e # R)" "a \<notin> set (M @ e # R)" using sl a(2) xs snoc by simp_all
    from LL_APPEND_ELEM_correct [OF this(1) a(1) this(2) a(3)] obtain h' where
      "LL_APPEND_ELEM head e a h = Some (head, h')" "SL h' head (M @ e # a # R)" "\<forall>b. b \<notin> {a, e} \<longrightarrow> h' b = h b" "dom h' = dom h"
      by blast
    moreover have "head = hd_or a L" using sl xs snoc by (cases M) (auto simp: SL_def)
    ultimately show ?thesis using lb snoc xs by auto
  qed
qed

lemma LL_FOREACH_nexts: "nexts h xs NULL \<Longrightarrow> NULL \<notin> set xs \<Longrightarrow> LL_FOREACH h (hd_or NULL xs) = Some xs"
proof (induction xs)
  case Nil then show ?case by (simp add: LL_FOREACH.simps)
next
  case (Cons x xs)
  then show ?case by (simp add: LL_FOREACH.simps [of h x])
qed

lemma LL_FOREACH_correct: "SL h head xs \<Longrightarrow> LL_FOREACH h head = Some xs"
  using LL_FOREACH_nexts [of h xs] by (simp add: SL_def)

lemma LL_COUNT_nexts:
  "nexts h xs NULL \<Longrightarrow> NULL \<notin> set xs \<Longrightarrow> LL_COUNT h (hd_or NULL xs) n = Some (n + length xs)"
proof (induction xs arbitrary: n)
  case Nil then show ?case by (simp add: LL_COUNT.simps)
next
  case (Cons x xs)
  then show ?case by (simp add: LL_COUNT.simps [of h x])
qed

lemma LL_COUNT_correct: "SL h head xs \<Longrightarrow> LL_COUNT h head 0 = Some (length xs)"
  using LL_COUNT_nexts [of h xs 0] by (simp add: SL_def)

definition ll_delete_if :: "(addr \<Rightarrow> bool) \<Rightarrow> addr \<Rightarrow> addr \<times> slheap \<Rightarrow> (addr \<times> slheap) option" where
  "ll_delete_if P el s = (if P el then LL_DELETE (fst s) el (snd s) else Some s)"

lemma ll_delete_if_run:
  "P el \<Longrightarrow> ll_delete_if P el (head, h) = LL_DELETE head el h"
  "\<not> P el \<Longrightarrow> ll_delete_if P el (head, h) = Some (head, h)"
  by (simp_all add: ll_delete_if_def)

lemma LL_FOREACH_SAFE_delete:
  "SL h head (done @ xs) \<Longrightarrow>
   \<exists>h'. LL_FOREACH_SAFE (ll_delete_if P) (hd_or NULL xs) (head, h)
       = Some (hd_or NULL (done @ filter (\<lambda>x. \<not> P x) xs), h')
     \<and> SL h' (hd_or NULL (done @ filter (\<lambda>x. \<not> P x) xs)) (done @ filter (\<lambda>x. \<not> P x) xs)
     \<and> dom h' = dom h"
proof (induction xs arbitrary: "done" head h)
  case Nil
  then show ?case by (simp add: LL_FOREACH_SAFE.simps SL_def)
next
  case (Cons x xs)
  have x: "x \<noteq> NULL" and nx: "h x = Some (hd_or NULL xs)"
    using SL_nonnull [OF Cons.prems] SL_next [OF Cons.prems] by auto
  show ?case
  proof (cases "P x")
    case True
    from LL_DELETE_correct [OF Cons.prems] obtain h1 where
      d: "LL_DELETE head x h = Some (hd_or NULL (done @ xs), h1)"
      and l: "SL h1 (hd_or NULL (done @ xs)) (done @ xs)" and dom: "dom h1 = dom h" by blast
    show ?thesis
      using Cons.IH [OF l] x nx d dom True
      by (subst LL_FOREACH_SAFE.simps) (simp add: ll_delete_if_run)
  next
    case False
    have "SL h head ((done @ [x]) @ xs)" using Cons.prems by simp
    from Cons.IH [OF this] x nx False show ?thesis
      by (subst LL_FOREACH_SAFE.simps) (simp add: ll_delete_if_run)
  qed
qed

section \<open>Sorting\<close>

definition ll_out :: "addr list \<Rightarrow> slheap \<Rightarrow> bool" where
  "ll_out zs h \<longleftrightarrow> (\<exists>e. nexts h zs e)"

lemma ll_link_run:
  assumes out: "ll_out zs h" and e: "h e \<noteq> None" "distinct (zs @ [e])" "NULL \<notin> set (zs @ [e])"
  shows "\<exists>h'. ll_sort_link (hd_or NULL zs) (last_or NULL zs) e h = Some (hd_or e zs, h') \<and> ll_out (zs @ [e]) h'
      \<and> (\<forall>b. b \<notin> set (zs @ [e]) \<longrightarrow> h' b = h b) \<and> dom h' = dom h"
  using out e
  by (cases zs rule: rev_cases) (auto simp: ll_out_def ll_sort_link_def set_next_run nexts_append hd_or_append)

lemma ll_close_run:
  assumes out: "ll_out xs h" and xs: "xs \<noteq> []" "distinct xs" "NULL \<notin> set xs"
  shows "\<exists>h'. ll_sort_close (hd xs) (last xs) h = Some h' \<and> SL h' (hd xs) xs
      \<and> (\<forall>x. x \<notin> set xs \<longrightarrow> h' x = h x) \<and> dom h' = dom h"
proof -
  obtain e where e: "nexts h xs e" using out by (auto simp: ll_out_def)
  have l: "last xs \<in> set xs" using xs by simp
  then have "h (last xs) \<noteq> None" "last xs \<noteq> NULL" using nexts_Some [OF e] xs by metis+
  then show ?thesis
    using nexts_relink [OF e xs(1,2), of NULL] xs l
    by (intro exI [of _ "h(last xs \<mapsto> NULL)"]) (auto simp: ll_sort_close_def set_next_run SL_def hd_or_hd)
qed

interpretation lls: relinker ll_sorter ll_out SL
proof unfold_locales
  fix zs h e assume "ll_out zs h" "h e \<noteq> None" "distinct (zs @ [e])" "NULL \<notin> set (zs @ [e])"
  from ll_link_run [OF this] show "\<exists>h'. s_link ll_sorter (hd_or NULL zs) (last_or NULL zs) e h = Some (hd_or e zs, h')
      \<and> ll_out (zs @ [e]) h' \<and> (\<forall>b. b \<notin> set (zs @ [e]) \<longrightarrow> h' b = h b) \<and> dom h' = dom h"
    by (simp add: ll_sorter_def)
next
  fix xs h assume "ll_out xs h" "xs \<noteq> []" "distinct xs" "NULL \<notin> set xs"
  from ll_close_run [OF this] show "\<exists>h'. s_close ll_sorter (hd xs) (last xs) h = Some h' \<and> SL h' (hd xs) xs
      \<and> (\<forall>b. b \<notin> set xs \<longrightarrow> h' b = h b) \<and> dom h' = dom h"
    by (simp add: ll_sorter_def)
qed (auto simp: ll_sorter_def counters ll_out_def SL_def)

lemma LL_SORT_correct:
  assumes sl: "SL h head xs" and len: "length xs \<le> 2 ^ 30" and cmp: "cmp_by cmp key"
  shows "\<exists>l h'. LL_SORT cmp head h = Some (l, h') \<and> SL h' l (sort_key key xs)
      \<and> (\<forall>x. x \<notin> set xs \<longrightarrow> h' x = h x) \<and> dom h' = dom h"
proof (cases "xs = []")
  case True
  with sl show ?thesis by (auto simp: SL_def LL_SORT_def)
next
  case False
  then have "head \<noteq> NULL" using SL_null_iff [OF sl] by simp
  with lls.sort_correct [OF sl False len cmp] show ?thesis by (auto simp: LL_SORT_def)
qed

section \<open>The versions without decltype\<close>

text \<open>\<open>while ((add)->next->next) { (add)->next = (add)->next->next; }\<close>, the new node's link as cursor.\<close>

partial_function (option) nd_last :: "addr \<Rightarrow> slheap \<Rightarrow> slheap option" where
  "nd_last add h = do {
     n \<leftarrow> h add;
     m \<leftarrow> h n;
     if m \<noteq> NULL then do {
       h \<leftarrow> set_next h add m;
       nd_last add h
     } else Some h
   }"

partial_function (option) nd_before :: "addr \<Rightarrow> addr \<Rightarrow> slheap \<Rightarrow> slheap option" where
  "nd_before el add h = do {
     n \<leftarrow> h add;
     m \<leftarrow> h n;
     if m \<noteq> NULL \<and> m \<noteq> el then do {
       h \<leftarrow> set_next h add m;
       nd_before el add h
     } else Some h
   }"

definition LL_APPEND_nd :: "addr \<Rightarrow> addr \<Rightarrow> slheap \<Rightarrow> (addr \<times> slheap) option" where
  "LL_APPEND_nd head add h = do {
     (head, h) \<leftarrow> (if head \<noteq> NULL then do {
         h \<leftarrow> set_next h add head;
         h \<leftarrow> nd_last add h;
         n \<leftarrow> h add;
         h \<leftarrow> set_next h n add;
         Some (head, h)
       } else Some (add, h));
     h \<leftarrow> set_next h add NULL;
     Some (head, h)
   }"

text \<open>The cursor is the variable \<open>head\<close> itself, saved in \<open>tmp\<close> and restored by \<open>UTLIST_RS\<close>.\<close>

definition LL_CONCAT_nd :: "addr \<Rightarrow> addr \<Rightarrow> slheap \<Rightarrow> (addr \<times> slheap) option" where
  "LL_CONCAT_nd head1 head2 h =
     (if head1 \<noteq> NULL then do {
        let tmp = head1;
        head1 \<leftarrow> ll_last h head1;
        h \<leftarrow> set_next h head1 head2;
        let head1 = tmp;
        Some (head1, h)
      } else Some (head2, h))"

definition LL_DELETE_nd :: "addr \<Rightarrow> addr \<Rightarrow> slheap \<Rightarrow> (addr \<times> slheap) option" where
  "LL_DELETE_nd head del h =
     (if head = del then do {
        n \<leftarrow> h head;
        Some (n, h)
      } else do {
        let tmp = head;
        head \<leftarrow> ll_before h del head;
        n \<leftarrow> h head;
        h \<leftarrow> (if n \<noteq> NULL then do { d \<leftarrow> h del; set_next h head d } else Some h);
        let head = tmp;
        Some (head, h)
      })"

text \<open>The walk shared by the next two: link \<open>add\<close> behind the node before \<open>el\<close>.\<close>

definition nd_hook :: "addr \<Rightarrow> addr \<Rightarrow> addr \<Rightarrow> slheap \<Rightarrow> slheap option" where
  "nd_hook head el add h = do {
     h \<leftarrow> set_next h add head;
     h \<leftarrow> nd_before el add h;
     n \<leftarrow> h add;
     m \<leftarrow> h n;
     if m \<noteq> NULL then set_next h n add else Some h
   }"

definition LL_REPLACE_ELEM_nd :: "addr \<Rightarrow> addr \<Rightarrow> addr \<Rightarrow> slheap \<Rightarrow> (addr \<times> slheap) option" where
  "LL_REPLACE_ELEM_nd head el add h = do {
     guard_ok (head \<noteq> NULL);
     guard_ok (el \<noteq> NULL);
     guard_ok (add \<noteq> NULL);
     (head, h) \<leftarrow> (if head = el then Some (add, h)
       else do { h \<leftarrow> nd_hook head el add h; Some (head, h) });
     n \<leftarrow> h el;
     h \<leftarrow> set_next h add n;
     Some (head, h)
   }"

definition LL_PREPEND_ELEM_nd :: "addr \<Rightarrow> addr \<Rightarrow> addr \<Rightarrow> slheap \<Rightarrow> (addr \<times> slheap) option" where
  "LL_PREPEND_ELEM_nd head el add h =
     (if el \<noteq> NULL then do {
        guard_ok (head \<noteq> NULL);
        guard_ok (add \<noteq> NULL);
        (head, h) \<leftarrow> (if head = el then Some (add, h)
          else do { h \<leftarrow> nd_hook head el add h; Some (head, h) });
        h \<leftarrow> set_next h add el;
        Some (head, h)
      } else LL_APPEND_nd head add h)"

partial_function (option) nd_inorder_walk ::
    "(addr \<Rightarrow> addr \<Rightarrow> int) \<Rightarrow> slheap \<Rightarrow> addr \<Rightarrow> addr \<Rightarrow> addr option" where
  "nd_inorder_walk cmp h cur add = do {
     n \<leftarrow> h cur;
     if n \<noteq> NULL \<and> cmp n add < 0 then nd_inorder_walk cmp h n add else Some cur
   }"

definition LL_INSERT_INORDER_nd ::
    "(addr \<Rightarrow> addr \<Rightarrow> int) \<Rightarrow> addr \<Rightarrow> addr \<Rightarrow> slheap \<Rightarrow> (addr \<times> slheap) option" where
  "LL_INSERT_INORDER_nd cmp head add h =
     (if head = NULL \<or> 0 \<le> cmp head add then do {
        h \<leftarrow> set_next h add head;
        Some (add, h)
      } else do {
        cur \<leftarrow> nd_inorder_walk cmp h head add;
        n \<leftarrow> h cur;
        h \<leftarrow> set_next h add n;
        h \<leftarrow> set_next h cur add;
        Some (head, h)
      })"

lemma nd_last_run:
  "nexts h (x # xs) NULL \<Longrightarrow> NULL \<notin> set xs \<Longrightarrow> add \<notin> set (x # xs) \<Longrightarrow> h add = Some x \<Longrightarrow>
   nd_last add h = Some (h(add \<mapsto> last_or x xs))"
proof (induction xs arbitrary: x h)
  case Nil then show ?case by (subst nd_last.simps) (auto simp: fun_upd_idem)
next
  case (Cons y xs)
  let ?h = "h(add \<mapsto> y)"
  have "nexts ?h (y # xs) NULL" "NULL \<notin> set xs" "add \<notin> set (y # xs)" "?h add = Some y"
    using Cons.prems by auto
  from Cons.IH [OF this] have "nd_last add ?h = Some (h(add \<mapsto> last_or y xs))" by (simp only: fun_upd_upd)
  with Cons.prems show ?case by (subst nd_last.simps) (auto simp: set_next_run)
qed

lemma nd_before_run:
  "nexts h (x # xs @ el # ys) NULL \<Longrightarrow> NULL \<notin> set xs \<Longrightarrow> el \<notin> set xs \<Longrightarrow> add \<notin> set (x # xs @ el # ys) \<Longrightarrow>
   h add = Some x \<Longrightarrow> nd_before el add h = Some (h(add \<mapsto> last_or x xs))"
proof (induction xs arbitrary: x h)
  case Nil then show ?case by (subst nd_before.simps) (auto simp: fun_upd_idem)
next
  case (Cons y xs)
  let ?h = "h(add \<mapsto> y)"
  have "nexts ?h (y # xs @ el # ys) NULL" "NULL \<notin> set xs" "el \<notin> set xs" "add \<notin> set (y # xs @ el # ys)" "?h add = Some y"
    using Cons.prems by auto
  from Cons.IH [OF this] have "nd_before el add ?h = Some (h(add \<mapsto> last_or y xs))" by (simp only: fun_upd_upd)
  with Cons.prems show ?case by (subst nd_before.simps) (auto simp: set_next_run)
qed

lemma nd_inorder_walk_eq: "nd_inorder_walk cmp h cur add = ll_lower_bound_loop cmp h cur add"
  if "nexts h (cur # xs) NULL" "NULL \<notin> set xs" for xs
  using that
proof (induction xs arbitrary: cur)
  case Nil
  then show ?case by (simp add: nd_inorder_walk.simps ll_lower_bound_loop.simps)
next
  case (Cons y xs)
  from Cons.prems have "nexts h (y # xs) NULL" "NULL \<notin> set xs" "h cur = Some y" "y \<noteq> NULL" by auto
  with Cons.IH show ?case
    by (subst nd_inorder_walk.simps, subst ll_lower_bound_loop.simps) simp
qed

lemma nd_hook_run:
  assumes sl: "SL h head (xs @ el # ys)" and xs: "xs \<noteq> []" and a: "h a \<noteq> None" "a \<notin> set (xs @ el # ys)"
  shows "nd_hook head el a h = Some (h(a \<mapsto> last xs, last xs \<mapsto> a))"
proof -
  obtain x xs' where x: "xs = x # xs'" using xs by (cases xs) auto
  note b = SL_before [OF sl xs]
  let ?h = "h(a \<mapsto> x)"
  have "nd_before el a ?h = Some (?h(a \<mapsto> last_or x xs'))"
    using nd_before_run [of ?h x xs' el ys a] sl a x by (auto simp: SL_def)
  moreover have "last_or x xs' = last xs" "head = x" "last xs \<noteq> a"
    using x b(1) a(2) xs last_in_set [of xs] by (auto simp: last_or_def)
  ultimately show ?thesis
    using a b by (auto simp: nd_hook_def set_next_run)
qed

text \<open>Both versions have the same result on a list.\<close>

lemma LL_CONCAT_versions: "LL_CONCAT_nd = LL_CONCAT"
  by (simp add: fun_eq_iff LL_CONCAT_nd_def LL_CONCAT_def)

lemma LL_DELETE_versions: "LL_DELETE_nd = LL_DELETE"
  by (auto simp: fun_eq_iff LL_DELETE_nd_def LL_DELETE_def split: Option.bind_splits)

lemma LL_APPEND_versions:
  assumes sl: "SL h head xs" and a: "h a \<noteq> None" "a \<notin> set xs"
  shows "LL_APPEND_nd head a h = LL_APPEND head a h"
proof (cases xs)
  case Nil
  with sl show ?thesis by (simp add: LL_APPEND_nd_def LL_APPEND_def SL_def)
next
  case (Cons x xs')
  let ?l = "last_or x xs'"
  have n: "nexts h (x # xs') NULL" "NULL \<notin> set xs'" "head = x" "x \<noteq> NULL" "a \<notin> set (x # xs')"
    using sl a(2) Cons by (auto simp: SL_def)
  have l: "?l \<in> set (x # xs')" by (simp add: last_or_def)
  then have ls: "h ?l \<noteq> None" "?l \<noteq> a" using nexts_Some [OF n(1)] n(5) by blast+
  have "nd_last a (h(a \<mapsto> x)) = Some (h(a \<mapsto> ?l))"
    using nd_last_run [of "h(a \<mapsto> x)" x xs' a] n by simp
  moreover have "ll_last (h(a \<mapsto> NULL)) x = Some ?l"
    using ll_last_run [of "h(a \<mapsto> NULL)" x xs'] n by simp
  ultimately show ?thesis
    using a(1) n(3,4) ls by (auto simp: LL_APPEND_nd_def LL_APPEND_def set_next_run fun_upd_twist)
qed

lemma LL_REPLACE_versions:
  assumes sl: "SL h head (xs @ e # ys)" and a: "h a \<noteq> None" "a \<notin> set (xs @ e # ys)" "a \<noteq> NULL"
  shows "LL_REPLACE_ELEM_nd head e a h = LL_REPLACE_ELEM head e a h"
proof (cases "xs = []")
  case True
  with sl show ?thesis by (auto simp: LL_REPLACE_ELEM_nd_def LL_REPLACE_ELEM_def SL_def)
next
  case False
  have sl1: "SL (h(a \<mapsto> hd_or NULL ys)) head (xs @ e # ys)" using sl a by (simp add: SL_def)
  note b = SL_before [OF sl1 False] and he = SL_next [OF sl] and hk = nd_hook_run [OF sl False a(1,2)]
  have ne: "last xs \<noteq> a" "last xs \<noteq> e" "e \<noteq> a" using sl a(2) False last_in_set [OF False] by (auto simp: SL_def)
  show ?thesis
    using b he hk a(1,3) ne by (auto simp: LL_REPLACE_ELEM_nd_def LL_REPLACE_ELEM_def set_next_run fun_upd_twist)
qed

lemma LL_PREPEND_ELEM_versions:
  assumes sl: "SL h head (xs @ e # ys)" and a: "h a \<noteq> None" "a \<notin> set (xs @ e # ys)" "a \<noteq> NULL"
  shows "LL_PREPEND_ELEM_nd head e a h = LL_PREPEND_ELEM head e a h"
proof (cases "xs = []")
  case True
  with sl show ?thesis by (auto simp: LL_PREPEND_ELEM_nd_def LL_PREPEND_ELEM_def SL_def)
next
  case False
  have sl1: "SL (h(a \<mapsto> e)) head (xs @ e # ys)" using sl a by (simp add: SL_def)
  note b = SL_before [OF sl1 False] and hk = nd_hook_run [OF sl False a(1,2)]
  have ne: "last xs \<noteq> a" using a(2) False last_in_set [OF False] by auto
  show ?thesis
    using b hk a(1,3) ne by (auto simp: LL_PREPEND_ELEM_nd_def LL_PREPEND_ELEM_def set_next_run fun_upd_twist)
qed

lemma LL_INSERT_INORDER_versions:
  assumes sl: "SL h head xs" and a: "h a \<noteq> None" "a \<notin> set xs" "a \<noteq> NULL"
  shows "LL_INSERT_INORDER_nd cmp head a h = LL_INSERT_INORDER cmp head a h"
proof (cases xs)
  case Nil
  with sl show ?thesis by (simp add: LL_INSERT_INORDER_nd_def LL_INSERT_INORDER_def SL_def)
next
  case (Cons x xs')
  have n: "nexts h (x # xs') NULL" "NULL \<notin> set xs'" "head = x" "x \<noteq> NULL" using sl Cons by (auto simp: SL_def)
  have w: "nd_inorder_walk cmp h x a = ll_lower_bound_loop cmp h x a" by (rule nd_inorder_walk_eq [OF n(1,2)])
  let ?l = "last_or x (takeWhile (\<lambda>y. cmp y a < 0) xs')"
  have "?l \<in> set xs" using Cons set_takeWhileD by (fastforce simp: last_or_def dest: last_in_set)
  then have "?l \<noteq> NULL" "h ?l \<noteq> None" "?l \<noteq> a" using SL_nonnull [OF sl] SL_allocated [OF sl] a(2) by metis+
  with w n a ll_lower_bound_loop_run [OF n(1,2), of cmp a] show ?thesis
    by (auto simp: LL_INSERT_INORDER_nd_def LL_INSERT_INORDER_def LL_LOWER_BOUND_def LL_APPEND_ELEM_def
        LL_PREPEND_def set_next_run)
qed

end
