(* ===== verification/Utlist_Circular.thy ===== *)
theory Utlist_Circular
  imports Utlist_Insert Utlist_Sort
begin

text \<open>
  The circular doubly linked list macros of \<open>src/utlist.h\<close>, over the store of Utlist. In a circular
  list the last node's \<open>next\<close> is the head; \<open>CD h head xs\<close> says that the list at \<open>head\<close> is the sequence
  of nodes \<open>xs\<close>.
\<close>

section \<open>The macros\<close>

definition CDL_APPEND :: "addr \<Rightarrow> addr \<Rightarrow> dlheap \<Rightarrow> (addr \<times> dlheap) option" where
  "CDL_APPEND head add h =
     (if head \<noteq> NULL then do {
        hp \<leftarrow> rd_prev h head;
        h \<leftarrow> wr_prev h add hp;
        h \<leftarrow> wr_next h add head;
        h \<leftarrow> wr_prev h head add;
        ap \<leftarrow> rd_prev h add;
        h \<leftarrow> wr_next h ap add;
        Some (head, h)
      } else do {
        h \<leftarrow> wr_prev h add add;
        h \<leftarrow> wr_next h add add;
        Some (add, h)
      })"

definition CDL_PREPEND :: "addr \<Rightarrow> addr \<Rightarrow> dlheap \<Rightarrow> (addr \<times> dlheap) option" where
  "CDL_PREPEND head add h =
     (if head \<noteq> NULL then do {
        hp \<leftarrow> rd_prev h head;
        h \<leftarrow> wr_prev h add hp;
        h \<leftarrow> wr_next h add head;
        h \<leftarrow> wr_prev h head add;
        ap \<leftarrow> rd_prev h add;
        h \<leftarrow> wr_next h ap add;
        Some (add, h)
      } else do {
        h \<leftarrow> wr_prev h add add;
        h \<leftarrow> wr_next h add add;
        Some (add, h)
      })"

definition CDL_PREPEND_ELEM :: "addr \<Rightarrow> addr \<Rightarrow> addr \<Rightarrow> dlheap \<Rightarrow> (addr \<times> dlheap) option" where
  "CDL_PREPEND_ELEM head el add h =
     (if el \<noteq> NULL then do {
        guard_ok (head \<noteq> NULL);
        guard_ok (add \<noteq> NULL);
        h \<leftarrow> wr_next h add el;
        ep \<leftarrow> rd_prev h el;
        h \<leftarrow> wr_prev h add ep;
        h \<leftarrow> wr_prev h el add;
        ap \<leftarrow> rd_prev h add;
        h \<leftarrow> wr_next h ap add;
        if head = el then Some (add, h) else Some (head, h)
      } else CDL_APPEND head add h)"

definition CDL_APPEND_ELEM :: "addr \<Rightarrow> addr \<Rightarrow> addr \<Rightarrow> dlheap \<Rightarrow> (addr \<times> dlheap) option" where
  "CDL_APPEND_ELEM head el add h =
     (if el \<noteq> NULL then do {
        guard_ok (head \<noteq> NULL);
        guard_ok (add \<noteq> NULL);
        en \<leftarrow> rd_next h el;
        h \<leftarrow> wr_next h add en;
        h \<leftarrow> wr_prev h add el;
        h \<leftarrow> wr_next h el add;
        an \<leftarrow> rd_next h add;
        h \<leftarrow> wr_prev h an add;
        Some (head, h)
      } else CDL_PREPEND head add h)"

definition CDL_REPLACE_ELEM :: "addr \<Rightarrow> addr \<Rightarrow> addr \<Rightarrow> dlheap \<Rightarrow> (addr \<times> dlheap) option" where
  "CDL_REPLACE_ELEM head el add h = do {
     guard_ok (head \<noteq> NULL);
     guard_ok (el \<noteq> NULL);
     guard_ok (add \<noteq> NULL);
     en \<leftarrow> rd_next h el;
     if en = el then do {
       h \<leftarrow> wr_next h add add;
       h \<leftarrow> wr_prev h add add;
       Some (add, h)
     } else do {
       h \<leftarrow> wr_next h add en;
       ep \<leftarrow> rd_prev h el;
       h \<leftarrow> wr_prev h add ep;
       an \<leftarrow> rd_next h add;
       h \<leftarrow> wr_prev h an add;
       ap \<leftarrow> rd_prev h add;
       h \<leftarrow> wr_next h ap add;
       if head = el then Some (add, h) else Some (head, h)
     }
   }"

definition CDL_DELETE :: "addr \<Rightarrow> addr \<Rightarrow> dlheap \<Rightarrow> (addr \<times> dlheap) option" where
  "CDL_DELETE head del h = do {
     single \<leftarrow> (if head = del then map_option (\<lambda>n. n = head) (rd_next h head) else Some False);
     if single then Some (NULL, h)
     else do {
       dn \<leftarrow> rd_next h del;
       dp \<leftarrow> rd_prev h del;
       h \<leftarrow> wr_prev h dn dp;
       dp \<leftarrow> rd_prev h del;
       dn \<leftarrow> rd_next h del;
       h \<leftarrow> wr_next h dp dn;
       if del = head then do {
         dn \<leftarrow> rd_next h del;
         Some (dn, h)
       } else Some (head, h)
     }
   }"

partial_function (option) cdl_lower_bound_loop ::
    "(addr \<Rightarrow> addr \<Rightarrow> int) \<Rightarrow> dlheap \<Rightarrow> addr \<Rightarrow> addr \<Rightarrow> addr \<Rightarrow> addr option" where
  "cdl_lower_bound_loop cmp h head elt like = do {
     nx \<leftarrow> rd_next h elt;
     if nx \<noteq> head then
       if 0 \<le> cmp nx like then Some elt else cdl_lower_bound_loop cmp h head nx like
     else Some elt
   }"

definition CDL_LOWER_BOUND :: "(addr \<Rightarrow> addr \<Rightarrow> int) \<Rightarrow> dlheap \<Rightarrow> addr \<Rightarrow> addr \<Rightarrow> addr option" where
  "CDL_LOWER_BOUND cmp h head like =
     (if head = NULL \<or> 0 \<le> cmp head like then Some NULL else cdl_lower_bound_loop cmp h head head like)"

definition CDL_INSERT_INORDER ::
    "(addr \<Rightarrow> addr \<Rightarrow> int) \<Rightarrow> addr \<Rightarrow> addr \<Rightarrow> dlheap \<Rightarrow> (addr \<times> dlheap) option" where
  "CDL_INSERT_INORDER cmp head add h =
     (if head \<noteq> NULL then do {
        tmp \<leftarrow> CDL_LOWER_BOUND cmp h head add;
        CDL_APPEND_ELEM head tmp add h
      } else do {
        h \<leftarrow> wr_next h add add;
        h \<leftarrow> wr_prev h add add;
        Some (add, h)
      })"

text \<open>The step of the traversals: null once around.\<close>

definition cdl_step :: "dlheap \<Rightarrow> addr \<Rightarrow> addr \<Rightarrow> addr option" where
  "cdl_step h head el = map_option (\<lambda>n. if n = head then NULL else n) (rd_next h el)"

partial_function (option) CDL_FOREACH :: "dlheap \<Rightarrow> addr \<Rightarrow> addr \<Rightarrow> addr list option" where
  "CDL_FOREACH h head el =
     (if el = NULL then Some []
      else do {
        nx \<leftarrow> cdl_step h head el;
        els \<leftarrow> CDL_FOREACH h head nx;
        Some (el # els)
      })"

partial_function (option) CDL_COUNT :: "dlheap \<Rightarrow> addr \<Rightarrow> addr \<Rightarrow> nat \<Rightarrow> nat option" where
  "CDL_COUNT h head el counter =
     (if el = NULL then Some counter
      else do {
        nx \<leftarrow> cdl_step h head el;
        CDL_COUNT h head nx (Suc counter)
      })"

partial_function (option) CDL_SEARCH_SCALAR ::
    "dlheap \<Rightarrow> (addr \<Rightarrow> 'v option) \<Rightarrow> 'v \<Rightarrow> addr \<Rightarrow> addr \<Rightarrow> addr option" where
  "CDL_SEARCH_SCALAR h field val head out =
     (if out = NULL then Some NULL
      else do {
        f \<leftarrow> field out;
        if f = val then Some out
        else do {
          nx \<leftarrow> cdl_step h head out;
          CDL_SEARCH_SCALAR h field val head nx
        }
      })"

partial_function (option) CDL_SEARCH ::
    "dlheap \<Rightarrow> (addr \<Rightarrow> 'v \<Rightarrow> int) \<Rightarrow> 'v \<Rightarrow> addr \<Rightarrow> addr \<Rightarrow> addr option" where
  "CDL_SEARCH h cmp elt head out =
     (if out = NULL then Some NULL
      else if cmp out elt = 0 then Some out
      else do {
        nx \<leftarrow> cdl_step h head out;
        CDL_SEARCH h cmp elt head nx
      })"

text \<open>\<open>last0\<close> is the last node before the loop: the traversal ends there, whatever the body deletes.\<close>

partial_function (option) cdl_safe_loop ::
    "(addr \<Rightarrow> addr \<times> dlheap \<Rightarrow> (addr \<times> dlheap) option) \<Rightarrow> addr \<Rightarrow> addr \<Rightarrow> addr \<times> dlheap
       \<Rightarrow> (addr \<times> dlheap) option" where
  "cdl_safe_loop body last0 el s =
     (if el = NULL then Some s
      else do {
        tmp2 \<leftarrow> rd_next (snd s) el;
        s \<leftarrow> body el s;
        cdl_safe_loop body last0 (if el = last0 then NULL else tmp2) s
      })"

definition CDL_FOREACH_SAFE ::
    "(addr \<Rightarrow> addr \<times> dlheap \<Rightarrow> (addr \<times> dlheap) option) \<Rightarrow> addr \<times> dlheap \<Rightarrow> (addr \<times> dlheap) option" where
  "CDL_FOREACH_SAFE body s = do {
     tmp1 \<leftarrow> (if fst s \<noteq> NULL then rd_prev (snd s) (fst s) else Some NULL);
     cdl_safe_loop body tmp1 (fst s) s
   }"

definition cdl_sort_close :: "addr \<Rightarrow> addr \<Rightarrow> dlheap \<Rightarrow> dlheap option" where
  "cdl_sort_close list0 tail h = do {
     h \<leftarrow> wr_prev h list0 tail;
     wr_next h tail list0
   }"

definition cdl_sorter :: "link sorter" where
  "cdl_sorter = \<lparr>s_next = (\<lambda>oldhead h q. cdl_step h oldhead q), s_link = sort_link, s_close = cdl_sort_close,
                 s_inc = int_inc, s_double = int_double\<rparr>"

definition CDL_SORT :: "(addr \<Rightarrow> addr \<Rightarrow> int) \<Rightarrow> addr \<Rightarrow> dlheap \<Rightarrow> (addr \<times> dlheap) option" where
  "CDL_SORT cmp list0 h =
     (if list0 \<noteq> NULL then do {
        (list0, _, h) \<leftarrow> sort_loop cdl_sorter cmp 1 list0 h;
        Some (list0, h)
      } else Some (list0, h))"

section \<open>Circular lists\<close>

definition CD :: "dlheap \<Rightarrow> addr \<Rightarrow> addr list \<Rightarrow> bool" where
  "CD h head xs \<longleftrightarrow>
     head = hd_or NULL xs \<and> distinct xs \<and> NULL \<notin> set xs \<and> links (last_or NULL xs) xs head h"

lemma CD_nonnull: "CD h head xs \<Longrightarrow> x \<in> set xs \<Longrightarrow> x \<noteq> NULL"
  by (cases "x = NULL") (auto simp: CD_def)

lemma CD_null_iff: "CD h head xs \<Longrightarrow> head = NULL \<longleftrightarrow> xs = []"
  by (cases xs) (auto simp: CD_def)

lemma CD_allocated: "CD h head xs \<Longrightarrow> x \<in> set xs \<Longrightarrow> h x \<noteq> None"
  unfolding CD_def using links_allocated by blast

lemma CDL_APPEND_correct:
  assumes "CD h head xs" and "h a \<noteq> None" and "a \<notin> set xs" and "a \<noteq> NULL"
  shows "\<exists>h'. CDL_APPEND head a h = Some (hd_or a xs, h') \<and> CD h' (hd_or a xs) (xs @ [a])
      \<and> (\<forall>b. b \<notin> insert a (set xs) \<longrightarrow> h' b = h b) \<and> dom h' = dom h"
proof (cases xs rule: two_ended_cases)
  case 1
  with assms show ?thesis by (auto simp: CD_def CDL_APPEND_def dl_access)
next
  case (2 x)
  with assms show ?thesis by (auto simp: CD_def CDL_APPEND_def dl_access)
next
  case (3 x ms t)
  with assms show ?thesis by (auto simp: CD_def CDL_APPEND_def dl_access links_append)
qed

lemma CDL_PREPEND_correct:
  assumes "CD h head xs" and "h a \<noteq> None" and "a \<notin> set xs" and "a \<noteq> NULL"
  shows "\<exists>h'. CDL_PREPEND head a h = Some (a, h') \<and> CD h' a (a # xs)
      \<and> (\<forall>b. b \<notin> insert a (set xs) \<longrightarrow> h' b = h b) \<and> dom h' = dom h"
proof (cases xs rule: two_ended_cases)
  case 1
  with assms show ?thesis by (auto simp: CD_def CDL_PREPEND_def dl_access)
next
  case (2 x)
  with assms show ?thesis by (auto simp: CD_def CDL_PREPEND_def dl_access)
next
  case (3 x ms t)
  with assms show ?thesis by (auto simp: CD_def CDL_PREPEND_def dl_access links_append)
qed

lemma CDL_PREPEND_ELEM_correct:
  assumes "CD h head (xs @ e # ys)" and "h a \<noteq> None" and "a \<notin> set (xs @ e # ys)" and "a \<noteq> NULL"
  shows "\<exists>h'. CDL_PREPEND_ELEM head e a h = Some (hd_or a xs, h') \<and> CD h' (hd_or a xs) (xs @ a # e # ys)
      \<and> (\<forall>b. b \<notin> insert a (set (xs @ e # ys)) \<longrightarrow> h' b = h b) \<and> dom h' = dom h"
proof (cases xs rule: rev_cases)
  case Nil
  with assms show ?thesis
    by (cases ys rule: rev_cases) (auto simp: CD_def CDL_PREPEND_ELEM_def dl_access links_append)
next
  case (snoc zs z)
  with assms show ?thesis
    by (cases zs; cases ys rule: rev_cases) (auto simp: CD_def CDL_PREPEND_ELEM_def dl_access links_append)
qed

lemma CDL_APPEND_ELEM_correct:
  assumes "CD h head (xs @ e # ys)" and "h a \<noteq> None" and "a \<notin> set (xs @ e # ys)" and "a \<noteq> NULL"
  shows "\<exists>h'. CDL_APPEND_ELEM head e a h = Some (head, h') \<and> CD h' head (xs @ e # a # ys)
      \<and> (\<forall>b. b \<notin> insert a (set (xs @ e # ys)) \<longrightarrow> h' b = h b) \<and> dom h' = dom h"
proof (cases ys)
  case Nil
  show ?thesis
    using assms Nil by (cases xs) (auto simp: CD_def CDL_APPEND_ELEM_def dl_access links_append)
next
  case (Cons y zs)
  show ?thesis
    using assms Cons
    by (cases xs; cases zs rule: rev_cases) (auto simp: CD_def CDL_APPEND_ELEM_def dl_access links_append)
qed

lemma CDL_REPLACE_ELEM_correct:
  assumes "CD h head (xs @ e # ys)" and "h a \<noteq> None" and "a \<notin> set (xs @ e # ys)" and "a \<noteq> NULL"
  shows "\<exists>h'. CDL_REPLACE_ELEM head e a h = Some (hd_or a xs, h') \<and> CD h' (hd_or a xs) (xs @ a # ys)
      \<and> (\<forall>b. b \<notin> insert a (set (xs @ e # ys)) \<longrightarrow> h' b = h b) \<and> dom h' = dom h"
proof (cases xs rule: two_ended_cases)
  case 1
  with assms show ?thesis
    by (cases ys rule: two_ended_cases) (auto simp: CD_def CDL_REPLACE_ELEM_def dl_access links_append)
next
  case (2 x)
  with assms show ?thesis
    by (cases ys rule: two_ended_cases) (auto simp: CD_def CDL_REPLACE_ELEM_def dl_access links_append)
next
  case (3 x ms t)
  with assms show ?thesis
    by (cases ys rule: two_ended_cases) (auto simp: CD_def CDL_REPLACE_ELEM_def dl_access links_append)
qed

lemma CDL_DELETE_correct:
  assumes "CD h head (xs @ a # ys)"
  shows "\<exists>h'. CDL_DELETE head a h = Some (hd_or NULL (xs @ ys), h')
      \<and> CD h' (hd_or NULL (xs @ ys)) (xs @ ys)
      \<and> (\<forall>b. b \<notin> set xs \<union> set ys \<longrightarrow> h' b = h b) \<and> dom h' = dom h"
proof (cases xs rule: two_ended_cases)
  case 1
  with assms show ?thesis
    by (cases ys rule: two_ended_cases) (auto simp: CD_def CDL_DELETE_def dl_access links_append)
next
  case (2 x)
  with assms show ?thesis
    by (cases ys rule: two_ended_cases) (auto simp: CD_def CDL_DELETE_def dl_access links_append)
next
  case (3 x ms t)
  with assms show ?thesis
    by (cases ys rule: two_ended_cases) (auto simp: CD_def CDL_DELETE_def dl_access links_append)
qed

section \<open>Once around\<close>

lemma links_step: "links p xs e h \<Longrightarrow> e \<notin> set (tl xs) \<Longrightarrow> nexts (cdl_step h e) xs NULL"
proof (induction xs arbitrary: p)
  case (Cons x xs)
  then have "nexts (cdl_step h e) xs NULL" by (cases xs) auto
  moreover have "cdl_step h e x = Some (hd_or NULL xs)"
    using Cons.prems by (cases xs) (auto simp: cdl_step_def rd_next_def)
  ultimately show ?case by simp
qed simp

lemma CD_nexts:
  assumes "CD h head xs"
  shows "nexts (cdl_step h head) xs NULL"
proof -
  have "links (last_or NULL xs) xs head h" "head \<notin> set (tl xs)"
    using assms by (cases xs; auto simp: CD_def)+
  then show ?thesis by (rule links_step)
qed

lemma CDL_FOREACH_nexts:
  "nexts (cdl_step h head) xs NULL \<Longrightarrow> NULL \<notin> set xs \<Longrightarrow> CDL_FOREACH h head (hd_or NULL xs) = Some xs"
proof (induction xs)
  case Nil then show ?case by (simp add: CDL_FOREACH.simps)
next
  case (Cons x xs)
  then show ?case by (simp add: CDL_FOREACH.simps [of h head x])
qed

lemma CDL_FOREACH_correct: "CD h head xs \<Longrightarrow> CDL_FOREACH h head head = Some xs"
  using CDL_FOREACH_nexts [OF CD_nexts, of h head xs] by (auto simp: CD_def)

lemma CDL_COUNT_nexts:
  "nexts (cdl_step h head) xs NULL \<Longrightarrow> NULL \<notin> set xs \<Longrightarrow> CDL_COUNT h head (hd_or NULL xs) n = Some (n + length xs)"
proof (induction xs arbitrary: n)
  case Nil then show ?case by (simp add: CDL_COUNT.simps)
next
  case (Cons x xs)
  then show ?case by (simp add: CDL_COUNT.simps [of h head x])
qed

lemma CDL_COUNT_correct: "CD h head xs \<Longrightarrow> CDL_COUNT h head head 0 = Some (length xs)"
  using CDL_COUNT_nexts [OF CD_nexts, of h head xs 0] by (auto simp: CD_def)

lemma CDL_SEARCH_SCALAR_correct:
  assumes cd: "CD h head xs" and field: "\<And>x. x \<in> set xs \<Longrightarrow> field x = Some (f x)"
  shows "CDL_SEARCH_SCALAR h field v head head
     = Some (case find (\<lambda>x. f x = v) xs of None \<Rightarrow> NULL | Some x \<Rightarrow> x)"
proof -
  have "nexts (cdl_step h head) ys NULL \<Longrightarrow> NULL \<notin> set ys \<Longrightarrow> set ys \<subseteq> set xs \<Longrightarrow>
      CDL_SEARCH_SCALAR h field v head (hd_or NULL ys)
        = Some (case find (\<lambda>x. f x = v) ys of None \<Rightarrow> NULL | Some x \<Rightarrow> x)" for ys
  proof (induction ys)
    case Nil then show ?case by (simp add: CDL_SEARCH_SCALAR.simps)
  next
    case (Cons y ys)
    then show ?case using field by (auto simp: CDL_SEARCH_SCALAR.simps [of h field v head y])
  qed
  from this [OF CD_nexts [OF cd]] cd show ?thesis by (simp add: CD_def)
qed

lemma CDL_SEARCH_correct:
  assumes cd: "CD h head xs"
  shows "CDL_SEARCH h cmp elt head head
     = Some (case find (\<lambda>x. cmp x elt = 0) xs of None \<Rightarrow> NULL | Some x \<Rightarrow> x)"
proof -
  have "nexts (cdl_step h head) ys NULL \<Longrightarrow> NULL \<notin> set ys \<Longrightarrow>
      CDL_SEARCH h cmp elt head (hd_or NULL ys)
        = Some (case find (\<lambda>x. cmp x elt = 0) ys of None \<Rightarrow> NULL | Some x \<Rightarrow> x)" for ys
  proof (induction ys)
    case Nil then show ?case by (simp add: CDL_SEARCH.simps)
  next
    case (Cons y ys)
    then show ?case by (auto simp: CDL_SEARCH.simps [of h cmp elt head y])
  qed
  from this [OF CD_nexts [OF cd]] cd show ?thesis by (simp add: CD_def)
qed

section \<open>Inserting in order\<close>

lemma cdl_step_next:
  "cdl_step h head x = Some n \<Longrightarrow> n \<noteq> NULL \<Longrightarrow> rd_next h x = Some n \<and> n \<noteq> head"
  "cdl_step h head x = Some NULL \<Longrightarrow> head \<noteq> NULL \<Longrightarrow> rd_next h x = Some head \<or> rd_next h x = Some NULL"
  by (auto simp: cdl_step_def split: if_splits)

lemma cdl_lower_bound_loop_run:
  "links p (x # xs) head h \<Longrightarrow> head \<notin> set xs \<Longrightarrow>
   cdl_lower_bound_loop cmp h head x a = Some (last_or x (takeWhile (\<lambda>y. cmp y a < 0) xs))"
proof (induction xs arbitrary: p x)
  case Nil then show ?case by (simp add: cdl_lower_bound_loop.simps dl_access)
next
  case (Cons y xs)
  from Cons.prems have x: "h x = Some \<lparr>prev = p, next = y\<rparr>" and ys: "links x (y # xs) head h"
    and y: "y \<noteq> head" "head \<notin> set xs" by auto
  show ?case
    using x y Cons.IH [OF ys y(2)] by (subst cdl_lower_bound_loop.simps) (simp add: dl_access)
qed

lemma CDL_LOWER_BOUND_correct:
  assumes "CD h head xs"
  shows "CDL_LOWER_BOUND cmp h head a = Some (last_or NULL (takeWhile (\<lambda>y. cmp y a < 0) xs))"
proof (cases xs)
  case Nil
  with assms show ?thesis by (simp add: CD_def CDL_LOWER_BOUND_def)
next
  case (Cons x ys)
  with assms show ?thesis
    using cdl_lower_bound_loop_run [of "last_or NULL xs" x ys head h cmp a]
    by (auto simp: CD_def CDL_LOWER_BOUND_def)
qed

lemma CDL_INSERT_INORDER_correct:
  fixes cmp :: "addr \<Rightarrow> addr \<Rightarrow> int"
  assumes cd: "CD h head xs" and a: "h a \<noteq> None" "a \<notin> set xs" "a \<noteq> NULL"
  defines "L \<equiv> takeWhile (\<lambda>y. cmp y a < 0) xs" and "R \<equiv> dropWhile (\<lambda>y. cmp y a < 0) xs"
  shows "\<exists>h'. CDL_INSERT_INORDER cmp head a h = Some (hd_or a L, h') \<and> CD h' (hd_or a L) (L @ a # R)
      \<and> (\<forall>b. b \<notin> insert a (set xs) \<longrightarrow> h' b = h b) \<and> dom h' = dom h"
proof (cases "xs = []")
  case True
  with cd a show ?thesis by (auto simp: CDL_INSERT_INORDER_def CD_def dl_access L_def R_def)
next
  case False
  have xs: "xs = L @ R" by (simp add: L_def R_def)
  have head: "head \<noteq> NULL" using CD_null_iff [OF cd] False by simp
  have lb: "CDL_INSERT_INORDER cmp head a h = CDL_APPEND_ELEM head (last_or NULL L) a h"
    using CDL_LOWER_BOUND_correct [OF cd] head by (simp add: CDL_INSERT_INORDER_def L_def)
  show ?thesis
  proof (cases L rule: rev_cases)
    case Nil
    then have "CDL_INSERT_INORDER cmp head a h = CDL_PREPEND head a h" using lb by (simp add: CDL_APPEND_ELEM_def)
    then show ?thesis using CDL_PREPEND_correct [OF cd a] xs Nil by auto
  next
    case (snoc M e)
    have "CD h head (M @ e # R)" "a \<notin> set (M @ e # R)" using cd a(2) xs snoc by simp_all
    from CDL_APPEND_ELEM_correct [OF this(1) a(1) this(2) a(3)] obtain h' where
      "CDL_APPEND_ELEM head e a h = Some (head, h')" "CD h' head (M @ e # a # R)"
      "\<forall>b. b \<notin> insert a (set (M @ e # R)) \<longrightarrow> h' b = h b" "dom h' = dom h" by blast
    moreover have "head = hd_or a L" using cd xs snoc by (cases M) (auto simp: CD_def)
    ultimately show ?thesis using lb snoc xs by auto
  qed
qed

section \<open>Deleting during a traversal\<close>

definition cdl_delete_if :: "(addr \<Rightarrow> bool) \<Rightarrow> addr \<Rightarrow> addr \<times> dlheap \<Rightarrow> (addr \<times> dlheap) option" where
  "cdl_delete_if P el s = (if P el then CDL_DELETE (fst s) el (snd s) else Some s)"

lemma cdl_delete_if_run:
  "P el \<Longrightarrow> cdl_delete_if P el (head, h) = CDL_DELETE head el h"
  "\<not> P el \<Longrightarrow> cdl_delete_if P el (head, h) = Some (head, h)"
  by (simp_all add: cdl_delete_if_def)

lemma CD_next: "CD h head (xs @ x # ys) \<Longrightarrow> rd_next h x = Some (hd_or head ys)"
  using links_next [of _ xs x ys head h] by (auto simp: CD_def)

lemma cdl_safe_loop_null: "cdl_safe_loop body last0 NULL s = Some s"
  by (subst cdl_safe_loop.simps) simp

lemma cdl_safe_loop_delete:
  "CD h head (done @ xs) \<Longrightarrow> xs \<noteq> [] \<Longrightarrow>
   \<exists>h'. cdl_safe_loop (cdl_delete_if P) (last xs) (hd xs) (head, h)
       = Some (hd_or NULL (done @ filter (\<lambda>x. \<not> P x) xs), h')
     \<and> CD h' (hd_or NULL (done @ filter (\<lambda>x. \<not> P x) xs)) (done @ filter (\<lambda>x. \<not> P x) xs)
     \<and> dom h' = dom h"
proof (induction xs arbitrary: "done" head h)
  case (Cons x xs)
  have x: "x \<noteq> NULL" and nx: "rd_next h x = Some (hd_or head xs)"
    using CD_nonnull [OF Cons.prems(1)] CD_next [OF Cons.prems(1)] by auto
  have notin: "x \<notin> set xs" using Cons.prems(1) by (auto simp: CD_def)
  define head' ys where "head' = (if P x then hd_or NULL (done @ xs) else head)"
    and "ys = (if P x then done else done @ [x])"
  obtain h1 where run: "cdl_delete_if P x (head, h) = Some (head', h1)" and l: "CD h1 head' (ys @ xs)" and dom: "dom h1 = dom h"
  proof (cases "P x")
    case True
    with CDL_DELETE_correct [OF Cons.prems(1)] that show ?thesis by (auto simp: head'_def ys_def cdl_delete_if_run)
  next
    case False
    with Cons.prems(1) that show ?thesis by (auto simp: head'_def ys_def cdl_delete_if_run)
  qed
  have fin: "done @ filter (\<lambda>x. \<not> P x) (x # xs) = ys @ filter (\<lambda>x. \<not> P x) xs" by (simp add: ys_def)
  have step: "cdl_safe_loop (cdl_delete_if P) (last (x # xs)) x (head, h)
      = cdl_safe_loop (cdl_delete_if P) (last (x # xs)) (if x = last (x # xs) then NULL else hd_or head xs) (head', h1)"
    using x nx run by (subst cdl_safe_loop.simps) simp
  show ?case
  proof (cases "xs = []")
    case True
    then have "head' = hd_or NULL ys" using l by (simp add: CD_def)
    with True step l dom show ?thesis unfolding fin by (simp add: cdl_safe_loop_null)
  next
    case False
    then have "x \<noteq> last (x # xs)" "hd_or head xs = hd xs" "last (x # xs) = last xs"
      using notin last_in_set [OF False] by (auto simp: hd_or_hd)
    with step Cons.IH [OF l False] dom show ?thesis unfolding fin by auto
  qed
qed simp

lemma CDL_FOREACH_SAFE_delete:
  assumes cd: "CD h head xs"
  shows "\<exists>h'. CDL_FOREACH_SAFE (cdl_delete_if P) (head, h) = Some (hd_or NULL (filter (\<lambda>x. \<not> P x) xs), h')
     \<and> CD h' (hd_or NULL (filter (\<lambda>x. \<not> P x) xs)) (filter (\<lambda>x. \<not> P x) xs) \<and> dom h' = dom h"
proof (cases "xs = []")
  case True
  with cd show ?thesis by (simp add: CDL_FOREACH_SAFE_def cdl_safe_loop_null CD_def)
next
  case False
  then obtain x ys where x: "xs = x # ys" by (cases xs) auto
  then have "rd_prev h head = Some (last xs)" "head \<noteq> NULL" "hd xs = head"
    using cd by (auto simp: CD_def rd_prev_def last_or_def)
  with cdl_safe_loop_delete [of h head "[]" xs P] cd False show ?thesis
    by (simp add: CDL_FOREACH_SAFE_def)
qed

section \<open>Sorting\<close>

lemma cdl_sort_close_run:
  assumes out: "sort_out xs h" and xs: "xs \<noteq> []" "distinct xs" "NULL \<notin> set xs"
  shows "\<exists>h'. cdl_sort_close (hd xs) (last xs) h = Some h' \<and> CD h' (hd xs) xs
      \<and> (\<forall>x. x \<notin> set xs \<longrightarrow> h' x = h x) \<and> dom h' = dom h"
proof (cases xs rule: two_ended_cases)
  case 1 with xs show ?thesis by simp
next
  case (2 x)
  with out xs show ?thesis by (auto simp: sort_out_def cdl_sort_close_def CD_def dl_access)
next
  case (3 x ms y)
  with out xs show ?thesis by (auto simp: sort_out_def cdl_sort_close_def CD_def dl_access links_append)
qed

interpretation cdls: relinker cdl_sorter sort_out CD
proof unfold_locales
  fix zs h e assume "sort_out zs h" "h e \<noteq> None" "distinct (zs @ [e])" "NULL \<notin> set (zs @ [e])"
  from sort_link_run [OF this] show "\<exists>h'. s_link cdl_sorter (hd_or NULL zs) (last_or NULL zs) e h = Some (hd_or e zs, h')
      \<and> sort_out (zs @ [e]) h' \<and> (\<forall>b. b \<notin> set (zs @ [e]) \<longrightarrow> h' b = h b) \<and> dom h' = dom h"
    by (simp add: cdl_sorter_def)
next
  fix xs h assume "sort_out xs h" "xs \<noteq> []" "distinct xs" "NULL \<notin> set xs"
  from cdl_sort_close_run [OF this] show "\<exists>h'. s_close cdl_sorter (hd xs) (last xs) h = Some h' \<and> CD h' (hd xs) xs
      \<and> (\<forall>b. b \<notin> set xs \<longrightarrow> h' b = h b) \<and> dom h' = dom h"
    by (simp add: cdl_sorter_def)
next
  fix h head xs assume cd: "CD h head xs"
  show "head = hd_or NULL xs \<and> distinct xs \<and> NULL \<notin> set xs \<and> nexts (s_next cdl_sorter head h) xs NULL"
    using CD_nexts [OF cd] cd by (simp add: cdl_sorter_def CD_def)
qed (auto simp: cdl_sorter_def counters cdl_step_def rd_next_def sort_out_def)

lemma CDL_SORT_correct:
  assumes cd: "CD h head xs" and len: "length xs \<le> 2 ^ 30" and cmp: "cmp_by cmp key"
  shows "\<exists>l h'. CDL_SORT cmp head h = Some (l, h') \<and> CD h' l (sort_key key xs)
      \<and> (\<forall>x. x \<notin> set xs \<longrightarrow> h' x = h x) \<and> dom h' = dom h"
proof (cases "xs = []")
  case True
  with cd show ?thesis by (auto simp: CD_def CDL_SORT_def)
next
  case False
  then have "head \<noteq> NULL" using CD_null_iff [OF cd] by simp
  with cdls.sort_correct [OF cd False len cmp] show ?thesis by (auto simp: CDL_SORT_def)
qed

section \<open>The version of the ordered insertion without decltype\<close>

definition CDL_INSERT_INORDER_nd ::
    "(addr \<Rightarrow> addr \<Rightarrow> int) \<Rightarrow> addr \<Rightarrow> addr \<Rightarrow> dlheap \<Rightarrow> (addr \<times> dlheap) option" where
  "CDL_INSERT_INORDER_nd cmp head add h =
     (if head = NULL then do {
        h \<leftarrow> wr_prev h add add;
        h \<leftarrow> wr_next h add add;
        Some (add, h)
      } else if 0 \<le> cmp head add then do {
        hp \<leftarrow> rd_prev h head;
        h \<leftarrow> wr_prev h add hp;
        h \<leftarrow> wr_next h add head;
        ap \<leftarrow> rd_prev h add;
        h \<leftarrow> wr_next h ap add;
        h \<leftarrow> wr_prev h head add;
        Some (add, h)
      } else do {
        cur \<leftarrow> cdl_lower_bound_loop cmp h head head add;
        h \<leftarrow> wr_prev h add cur;
        cn \<leftarrow> rd_next h cur;
        h \<leftarrow> wr_next h add cn;
        an \<leftarrow> rd_next h add;
        h \<leftarrow> wr_prev h an add;
        h \<leftarrow> wr_next h cur add;
        Some (head, h)
      })"

lemma CDL_INSERT_INORDER_versions:
  assumes cd: "CD h head xs" and a: "h a \<noteq> None" "a \<notin> set xs" "a \<noteq> NULL"
  shows "CDL_INSERT_INORDER_nd cmp head a h = CDL_INSERT_INORDER cmp head a h"
proof (cases "xs = []")
  case True
  with cd a show ?thesis
    by (auto simp: CDL_INSERT_INORDER_nd_def CDL_INSERT_INORDER_def CD_def dl_access link_swap)
next
  case False
  have head: "head \<noteq> NULL" "head \<in> set xs" using cd False by (cases xs; auto simp: CD_def)+
  show ?thesis
  proof (cases "0 \<le> cmp head a")
    case True
    then have "CDL_INSERT_INORDER cmp head a h = CDL_PREPEND head a h"
      using head by (simp add: CDL_INSERT_INORDER_def CDL_LOWER_BOUND_def CDL_APPEND_ELEM_def)
    moreover have "CDL_INSERT_INORDER_nd cmp head a h = CDL_PREPEND head a h"
      using True cd a head
      by (cases xs rule: two_ended_cases)
        (auto simp: CDL_INSERT_INORDER_nd_def CDL_PREPEND_def CD_def dl_access links_append fun_upd_twist link_swap)
    ultimately show ?thesis by simp
  next
    case neg: False
    define L R where "L = takeWhile (\<lambda>y. cmp y a < 0) xs" and "R = dropWhile (\<lambda>y. cmp y a < 0) xs"
    have xs: "xs = L @ R" by (simp add: L_def R_def)
    have "L \<noteq> []" using cd False neg by (cases xs) (auto simp: CD_def L_def)
    then obtain M e where L: "L = M @ [e]" by (cases L rule: rev_cases) auto
    have lb: "cdl_lower_bound_loop cmp h head head a = Some e"
      using CDL_LOWER_BOUND_correct [OF cd, of cmp a] neg head L unfolding L_def [symmetric]
      by (simp add: CDL_LOWER_BOUND_def)
    have e: "e \<noteq> NULL" using CD_nonnull [OF cd, of e] xs L by simp
    show ?thesis
      using cd a lb e head neg unfolding xs L
      by (cases M; cases R rule: two_ended_cases)
        (auto simp: CDL_INSERT_INORDER_nd_def CDL_INSERT_INORDER_def CDL_LOWER_BOUND_def CDL_APPEND_ELEM_def
          CD_def dl_access links_append fun_upd_twist link_swap)
  qed
qed

end
