(* ===== verification/Uthash_Sort.thy ===== *)
theory Uthash_Sort
  imports Uthash Link_Sort
begin

text \<open>
  \<open>HASH_SRT\<close> of \<open>src/uthash.h\<close>: the merge sort of Link_Sort on the insertion order of a table. It
  relinks \<open>prev\<close> and \<open>next\<close> and leaves the buckets alone, so the table keeps its elements and their
  keys and is afterwards in the order of the comparison.
\<close>

section \<open>The macro\<close>

text \<open>Following \<open>next\<close>, with the tests for null pointers that the macro makes.\<close>

definition hash_sort_next :: "handles \<Rightarrow> addr \<Rightarrow> addr option" where
  "hash_sort_next hh a = (if a \<noteq> NULL then map_option app_next (hh a) else Some NULL)"

definition hash_sort_link :: "addr \<Rightarrow> addr \<Rightarrow> addr \<Rightarrow> handles \<Rightarrow> (addr \<times> handles) option" where
  "hash_sort_link list0 tail e hh = do {
     (list0, hh) \<leftarrow> (if tail \<noteq> NULL then do {
         hh \<leftarrow> wr_hh tail (\<lambda>h. h\<lparr>app_next := e\<rparr>) hh;
         Some (list0, hh)
       } else Some (e, hh));
     hh \<leftarrow> (if e \<noteq> NULL then wr_hh e (\<lambda>h. h\<lparr>app_prev := tail\<rparr>) hh else Some hh);
     Some (list0, hh)
   }"

definition hash_sort_close :: "addr \<Rightarrow> addr \<Rightarrow> handles \<Rightarrow> handles option" where
  "hash_sort_close list0 tail hh = (if tail \<noteq> NULL then wr_hh tail (\<lambda>h. h\<lparr>app_next := NULL\<rparr>) hh else Some hh)"

definition hash_sorter :: "handle sorter" where
  "hash_sorter = \<lparr>s_next = (\<lambda>_. hash_sort_next), s_link = hash_sort_link, s_close = hash_sort_close,
                  s_inc = uint_inc, s_double = uint_double\<rparr>"

definition HASH_SRT :: "(addr \<Rightarrow> addr \<Rightarrow> int) \<Rightarrow> hash \<Rightarrow> hash option" where
  "HASH_SRT cmp H =
     (if hs_head H \<noteq> NULL then do {
        (list0, tail, hh) \<leftarrow> sort_loop hash_sorter cmp 1 (hs_head H) (hs_hh H);
        t \<leftarrow> hs_tbl H;
        Some \<lparr>hs_head = list0, hs_tbl = Some (t\<lparr>ht_tail := tail\<rparr>), hs_hh = hh\<rparr>
      } else Some H)"

section \<open>The links during the sort\<close>

text \<open>\<open>V\<close> is the content of the handles apart from the links that the sort writes.\<close>

definition hash_out :: "handles \<Rightarrow> addr list \<Rightarrow> handles \<Rightarrow> bool" where
  "hash_out V zs hh \<longleftrightarrow> bkt_view hh = V \<and> (\<exists>e. nexts (hash_sort_next hh) zs e) \<and> prev_links (fld app_prev hh) NULL zs"

definition hash_list :: "handles \<Rightarrow> handles \<Rightarrow> addr \<Rightarrow> addr list \<Rightarrow> bool" where
  "hash_list V hh head xs \<longleftrightarrow>
     bkt_view hh = V \<and> set xs \<subseteq> dom hh \<and> chain (fld app_next hh) (fld app_prev hh) head xs"

lemma nexts_next_links:
  "NULL \<notin> set xs \<Longrightarrow> nexts (hash_sort_next hh) xs e \<longleftrightarrow> set xs \<subseteq> dom hh \<and> next_links (fld app_next hh) xs e"
  by (induction xs) (auto simp: hash_sort_next_def fld_def)

lemma bkt_view_app: "hh a = Some g \<Longrightarrow> bkt_view (hh(a \<mapsto> g\<lparr>app_next := n, app_prev := p\<rparr>)) = bkt_view hh"
  "hh a = Some g \<Longrightarrow> bkt_view (hh(a \<mapsto> g\<lparr>app_next := n\<rparr>)) = bkt_view hh"
  "hh a = Some g \<Longrightarrow> bkt_view (hh(a \<mapsto> g\<lparr>app_prev := p\<rparr>)) = bkt_view hh"
  by (auto simp: bkt_view_def fun_eq_iff)

lemma hash_link_run:
  assumes out: "hash_out V zs hh" and e: "hh e \<noteq> None" "distinct (zs @ [e])" "NULL \<notin> set (zs @ [e])"
  shows "\<exists>h'. hash_sort_link (hd_or NULL zs) (last_or NULL zs) e hh = Some (hd_or e zs, h') \<and> hash_out V (zs @ [e]) h'
      \<and> (\<forall>b. b \<notin> set (zs @ [e]) \<longrightarrow> h' b = hh b) \<and> dom h' = dom hh"
proof -
  obtain g where g: "hh e = Some g" using e(1) by blast
  show ?thesis
  proof (cases zs rule: rev_cases)
    case Nil
    with out e g show ?thesis
      by (auto simp: hash_sort_link_def hash_out_def wr_hh_def bkt_view_app hash_sort_next_def)
  next
    case (snoc ys z)
    obtain n where n: "set zs \<subseteq> dom hh" "next_links (fld app_next hh) zs n"
      using out e(3) by (auto simp: hash_out_def nexts_next_links)
    then obtain gz where gz: "hh z = Some gz" using snoc by auto
    let ?h1 = "hh(z \<mapsto> gz\<lparr>app_next := e\<rparr>)"
    let ?h' = "?h1(e \<mapsto> g\<lparr>app_prev := z\<rparr>)"
    have ze: "z \<noteq> e" "z \<noteq> NULL" "e \<noteq> NULL" "z \<notin> set ys" "e \<notin> set ys" using e snoc by auto
    have run: "hash_sort_link (hd_or NULL zs) (last_or NULL zs) e hh = Some (hd_or e zs, ?h')"
      using snoc ze g gz by (cases ys) (simp_all add: hash_sort_link_def wr_hh_def hd_or_append)
    have "bkt_view ?h' = bkt_view ?h1" by (rule bkt_view_app(3)) (use ze g in simp)
    then have view: "bkt_view ?h' = V" using out bkt_view_app(2) [of hh z gz, OF gz] by (simp add: hash_out_def)
    have "next_links (fld app_next ?h') ys z = next_links (fld app_next hh) ys z"
      using ze by (intro next_links_cong) (auto simp: fld_def)
    then have nl: "next_links (fld app_next ?h') (zs @ [e]) (app_next g)"
      using n(2) snoc ze by (auto simp: next_links_append fld_def)
    have "prev_links (fld app_prev ?h') NULL zs = prev_links (fld app_prev hh) NULL zs"
      using gz e(2) by (intro prev_links_cong) (auto simp: fld_def)
    then have pl: "prev_links (fld app_prev ?h') NULL (zs @ [e])"
      using out snoc ze by (auto simp: prev_links_append hash_out_def fld_def)
    have "nexts (hash_sort_next ?h') (zs @ [e]) (app_next g)"
      using nl n(1) nexts_next_links [OF e(3)] by auto
    with run view pl snoc g gz show ?thesis by (auto simp: hash_out_def)
  qed
qed

lemma hash_close_run:
  assumes out: "hash_out V xs hh" and xs: "xs \<noteq> []" "distinct xs" "NULL \<notin> set xs"
  shows "\<exists>h'. hash_sort_close (hd xs) (last xs) hh = Some h' \<and> hash_list V h' (hd xs) xs
      \<and> (\<forall>b. b \<notin> set xs \<longrightarrow> h' b = hh b) \<and> dom h' = dom hh"
proof -
  obtain ys z where z: "xs = ys @ [z]" using xs(1) by (metis append_butlast_last_id)
  obtain n where n: "set xs \<subseteq> dom hh" "next_links (fld app_next hh) xs n"
    using out xs(3) by (auto simp: hash_out_def nexts_next_links)
  then obtain gz where gz: "hh z = Some gz" using z by auto
  let ?h' = "hh(z \<mapsto> gz\<lparr>app_next := NULL\<rparr>)"
  have zn: "z \<noteq> NULL" "z \<notin> set ys" using xs z by auto
  have run: "hash_sort_close (hd xs) (last xs) hh = Some ?h'"
    using z zn gz by (simp add: hash_sort_close_def wr_hh_def)
  have "next_links (fld app_next ?h') ys z = next_links (fld app_next hh) ys z"
    using zn by (intro next_links_cong) auto
  then have nl: "next_links (fld app_next ?h') xs NULL"
    using n(2) z by (auto simp: next_links_append)
  have "prev_links (fld app_prev ?h') NULL xs = prev_links (fld app_prev hh) NULL xs"
    using gz by (intro prev_links_cong) (auto simp: fld_def)
  then have "chain (fld app_next ?h') (fld app_prev ?h') (hd xs) xs"
    using out nl xs by (auto simp: chain_def hash_out_def hd_or_hd)
  moreover have "bkt_view ?h' = V" using out bkt_view_app(2) [of hh z gz, OF gz] by (simp add: hash_out_def)
  ultimately show ?thesis using run n(1) z gz by (auto simp: hash_list_def)
qed

interpretation hss: relinker hash_sorter "hash_out V" "hash_list V" for V
proof unfold_locales
  fix zs h e assume "hash_out V zs h" "h e \<noteq> None" "distinct (zs @ [e])" "NULL \<notin> set (zs @ [e])"
  from hash_link_run [OF this] show "\<exists>h'. s_link hash_sorter (hd_or NULL zs) (last_or NULL zs) e h = Some (hd_or e zs, h')
      \<and> hash_out V (zs @ [e]) h' \<and> (\<forall>b. b \<notin> set (zs @ [e]) \<longrightarrow> h' b = h b) \<and> dom h' = dom h"
    by (simp add: hash_sorter_def)
next
  fix xs h assume "hash_out V xs h" "xs \<noteq> []" "distinct xs" "NULL \<notin> set xs"
  from hash_close_run [OF this] show "\<exists>h'. s_close hash_sorter (hd xs) (last xs) h = Some h' \<and> hash_list V h' (hd xs) xs
      \<and> (\<forall>b. b \<notin> set xs \<longrightarrow> h' b = h b) \<and> dom h' = dom h"
    by (simp add: hash_sorter_def)
next
  fix h head xs assume "hash_list V h head xs"
  then show "head = hd_or NULL xs \<and> distinct xs \<and> NULL \<notin> set xs \<and> nexts (s_next hash_sorter head h) xs NULL"
    by (simp add: hash_list_def hash_sorter_def chain_def nexts_next_links)
qed (auto simp: hash_sorter_def counters hash_sort_next_def hash_out_def hash_list_def split: if_splits)

section \<open>The sort\<close>

lemma hash_sort_ok:
  assumes ok: "hash_ok H xs" and len: "length xs \<le> 2 ^ 30" and cmp: "cmp_by cmp key"
  shows "\<exists>H'. HASH_SRT cmp H = Some H' \<and> hash_ok H' (sort_key key xs) \<and> (\<forall>b\<in>set xs. key_of H' b = key_of H b)"
proof (cases "xs = []")
  case True
  with ok show ?thesis by (auto simp: HASH_SRT_def hash_ok_def)
next
  case False
  let ?hh = "hs_hh H" and ?ys = "sort_key key xs"
  have c: "chain (fld app_next ?hh) (fld app_prev ?hh) (hs_head H) xs" and el: "\<And>a. a \<in> set xs \<Longrightarrow> elem_ok ?hh a"
    using ok unfolding hash_ok_def by blast+
  obtain t where t: "hs_tbl H = Some t" "table_ok ?hh t xs" using ok False by (auto simp: hash_ok_def)
  have "set xs \<subseteq> dom ?hh" using el by (auto simp: elem_ok_def)
  then have "hash_list (bkt_view ?hh) ?hh (hs_head H) xs" using c by (simp add: hash_list_def)
  from hss.sort_correct [OF this False len cmp] obtain hh' where
    r: "sort_loop hash_sorter cmp 1 (hs_head H) ?hh = Some (hd ?ys, last ?ys, hh')" "hash_list (bkt_view ?hh) hh' (hd ?ys) ?ys"
    by blast
  have view: "bkt_view hh' = bkt_view ?hh" using r(2) by (simp add: hash_list_def)
  let ?H' = "\<lparr>hs_head = hd ?ys, hs_tbl = Some (t\<lparr>ht_tail := last ?ys\<rparr>), hs_hh = hh'\<rparr>"
  have "hs_head H \<noteq> NULL" using chain_null [OF c] False by simp
  then have run: "HASH_SRT cmp H = Some ?H'" using r(1) t(1) by (simp add: HASH_SRT_def)
  have "table_ok hh' (t\<lparr>ht_tail := last ?ys\<rparr>) ?ys"
    using t(2) bkt_view_buckets [OF view] by (fastforce simp: table_ok_def sized_def)
  moreover have "?ys \<noteq> []" using False by (metis set_empty set_sort)
  ultimately have "hash_ok ?H' ?ys"
    using r(2) elem_ok_bkt_view [OF view el] False by (simp add: hash_ok_def hash_list_def)
  moreover have "key_of ?H' b = key_of H b" if "b \<in> set xs" for b
    using elem_ok_bkt_view(2) [OF view el [OF that]] by (simp add: key_of_def)
  ultimately show ?thesis using run by blast
qed

end
