(* ===== verification/Uthash_Insert.thy ===== *)
theory Uthash_Insert
  imports Uthash Link_Sort
begin

text \<open>
  Macros of \<open>src/uthash.h\<close> on top of those of Uthash: ordered insertion, replacement, the forms for
  elements that hold their key as a string, \<open>HASH_CLEAR\<close> and \<open>HASH_OVERHEAD\<close>. \<open>str a\<close> is the field
  of the element \<open>a\<close> that holds its key.
\<close>

section \<open>The macros\<close>

definition HASH_ADD_BYHASHVALUE :: "(addr \<Rightarrow> string) \<Rightarrow> u32 \<Rightarrow> u32 \<Rightarrow> addr \<Rightarrow> hash \<Rightarrow> hash option" where
  "HASH_ADD_BYHASHVALUE str keylen hashval a H = HASH_ADD_KEYPTR_BYHASHVALUE (str a) keylen hashval a H"

definition HASH_ADD :: "(addr \<Rightarrow> string) \<Rightarrow> u32 \<Rightarrow> addr \<Rightarrow> hash \<Rightarrow> hash option" where
  "HASH_ADD str keylen a H = HASH_ADD_KEYPTR (str a) keylen a H"

definition HASH_ADD_STR :: "(addr \<Rightarrow> string) \<Rightarrow> addr \<Rightarrow> hash \<Rightarrow> hash option" where
  "HASH_ADD_STR str a H = (let keylen = of_nat (length (str a)) in HASH_ADD str keylen a H)"

text \<open>The loop that finds the element before which the new one goes; it runs at least once.\<close>

partial_function (option) HASH_AKBI_INNER_LOOP ::
    "(addr \<Rightarrow> addr \<Rightarrow> int) \<Rightarrow> handles \<Rightarrow> addr \<Rightarrow> addr \<Rightarrow> addr option" where
  "HASH_AKBI_INNER_LOOP cmp hh iter a =
     (if cmp iter a > 0 then Some iter
      else do {
        h \<leftarrow> hh iter;
        let iter = app_next h;
        if iter \<noteq> NULL then HASH_AKBI_INNER_LOOP cmp hh iter a else Some iter
      })"

text \<open>Linking the element \<open>a\<close> into the list before \<open>iter\<close>; the head of the list after it.\<close>

definition insert_before :: "addr \<Rightarrow> addr \<Rightarrow> addr \<Rightarrow> handles \<Rightarrow> (addr \<times> handles) option" where
  "insert_before head iter a hh = do {
     hh \<leftarrow> wr_hh a (\<lambda>h. h\<lparr>app_next := iter\<rparr>) hh;
     i \<leftarrow> hh iter;
     hh \<leftarrow> wr_hh a (\<lambda>h. h\<lparr>app_prev := app_prev i\<rparr>) hh;
     (head, hh) \<leftarrow> (if app_prev i \<noteq> NULL then do {
         hh \<leftarrow> wr_hh (app_prev i) (\<lambda>h. h\<lparr>app_next := a\<rparr>) hh;
         Some (head, hh)
       } else Some (a, hh));
     hh \<leftarrow> wr_hh iter (\<lambda>h. h\<lparr>app_prev := a\<rparr>) hh;
     Some (head, hh)
   }"

definition inorder_link :: "(addr \<Rightarrow> addr \<Rightarrow> int) \<Rightarrow> addr \<Rightarrow> hash \<Rightarrow> handles \<Rightarrow> (addr \<times> table \<times> handles) option" where
  "inorder_link cmp a H hh =
     (if hs_head H = NULL then do {
        hh \<leftarrow> wr_hh a (\<lambda>h. h\<lparr>app_next := NULL, app_prev := NULL\<rparr>) hh;
        Some (a, HASH_MAKE_TABLE a, hh)
      } else do {
        t \<leftarrow> hs_tbl H;
        iter \<leftarrow> HASH_AKBI_INNER_LOOP cmp hh (hs_head H) a;
        if iter \<noteq> NULL then do {
          (head, hh) \<leftarrow> insert_before (hs_head H) iter a hh;
          Some (head, t, hh)
        } else do {
          (t, hh) \<leftarrow> HASH_APPEND_LIST a t hh;
          Some (hs_head H, t, hh)
        }
      })"

definition HASH_ADD_KEYPTR_BYHASHVALUE_INORDER ::
    "(addr \<Rightarrow> addr \<Rightarrow> int) \<Rightarrow> string \<Rightarrow> u32 \<Rightarrow> u32 \<Rightarrow> addr \<Rightarrow> hash \<Rightarrow> hash option" where
  "HASH_ADD_KEYPTR_BYHASHVALUE_INORDER cmp key keylen hashval a H = do {
     hh \<leftarrow> wr_hh a (\<lambda>h. h\<lparr>hh_hashv := hashval, hh_key := key, hh_keylen := keylen\<rparr>) (hs_hh H);
     (head, t, hh) \<leftarrow> inorder_link cmp a H hh;
     (t, hh) \<leftarrow> HASH_ADD_TO_TABLE hashval a t hh;
     Some \<lparr>hs_head = head, hs_tbl = Some t, hs_hh = hh\<rparr>
   }"

definition HASH_ADD_KEYPTR_INORDER :: "(addr \<Rightarrow> addr \<Rightarrow> int) \<Rightarrow> string \<Rightarrow> u32 \<Rightarrow> addr \<Rightarrow> hash \<Rightarrow> hash option" where
  "HASH_ADD_KEYPTR_INORDER cmp key keylen a H =
     HASH_ADD_KEYPTR_BYHASHVALUE_INORDER cmp key keylen (HASH_VALUE key keylen) a H"

definition HASH_ADD_BYHASHVALUE_INORDER ::
    "(addr \<Rightarrow> addr \<Rightarrow> int) \<Rightarrow> (addr \<Rightarrow> string) \<Rightarrow> u32 \<Rightarrow> u32 \<Rightarrow> addr \<Rightarrow> hash \<Rightarrow> hash option" where
  "HASH_ADD_BYHASHVALUE_INORDER cmp str keylen hashval a H =
     HASH_ADD_KEYPTR_BYHASHVALUE_INORDER cmp (str a) keylen hashval a H"

definition HASH_ADD_INORDER ::
    "(addr \<Rightarrow> addr \<Rightarrow> int) \<Rightarrow> (addr \<Rightarrow> string) \<Rightarrow> u32 \<Rightarrow> addr \<Rightarrow> hash \<Rightarrow> hash option" where
  "HASH_ADD_INORDER cmp str keylen a H = HASH_ADD_KEYPTR_INORDER cmp (str a) keylen a H"

text \<open>The element that was replaced (null if there was none), and the table.\<close>

definition HASH_REPLACE_BYHASHVALUE :: "(addr \<Rightarrow> string) \<Rightarrow> u32 \<Rightarrow> u32 \<Rightarrow> addr \<Rightarrow> hash \<Rightarrow> (addr \<times> hash) option" where
  "HASH_REPLACE_BYHASHVALUE str keylen hashval a H = do {
     replaced \<leftarrow> HASH_FIND_BYHASHVALUE (str a) keylen hashval H;
     H \<leftarrow> (if replaced \<noteq> NULL then HASH_DELETE_HH replaced H else Some H);
     H \<leftarrow> HASH_ADD_KEYPTR_BYHASHVALUE (str a) keylen hashval a H;
     Some (replaced, H)
   }"

definition HASH_REPLACE :: "(addr \<Rightarrow> string) \<Rightarrow> u32 \<Rightarrow> addr \<Rightarrow> hash \<Rightarrow> (addr \<times> hash) option" where
  "HASH_REPLACE str keylen a H = HASH_REPLACE_BYHASHVALUE str keylen (HASH_VALUE (str a) keylen) a H"

definition HASH_REPLACE_STR :: "(addr \<Rightarrow> string) \<Rightarrow> addr \<Rightarrow> hash \<Rightarrow> (addr \<times> hash) option" where
  "HASH_REPLACE_STR str a H = (let keylen = of_nat (length (str a)) in HASH_REPLACE str keylen a H)"

text \<open>The forms for keys that are an \<open>int\<close> or a pointer: their bytes in memory, 4 and 8 of them.\<close>

definition HASH_FIND_INT :: "string \<Rightarrow> hash \<Rightarrow> addr option" where
  "HASH_FIND_INT findint H = HASH_FIND findint 4 H"

definition HASH_ADD_INT :: "(addr \<Rightarrow> string) \<Rightarrow> addr \<Rightarrow> hash \<Rightarrow> hash option" where
  "HASH_ADD_INT intfield a H = HASH_ADD intfield 4 a H"

definition HASH_REPLACE_INT :: "(addr \<Rightarrow> string) \<Rightarrow> addr \<Rightarrow> hash \<Rightarrow> (addr \<times> hash) option" where
  "HASH_REPLACE_INT intfield a H = HASH_REPLACE intfield 4 a H"

definition HASH_FIND_PTR :: "string \<Rightarrow> hash \<Rightarrow> addr option" where
  "HASH_FIND_PTR findptr H = HASH_FIND findptr 8 H"

definition HASH_ADD_PTR :: "(addr \<Rightarrow> string) \<Rightarrow> addr \<Rightarrow> hash \<Rightarrow> hash option" where
  "HASH_ADD_PTR ptrfield a H = HASH_ADD ptrfield 8 a H"

definition HASH_REPLACE_PTR :: "(addr \<Rightarrow> string) \<Rightarrow> addr \<Rightarrow> hash \<Rightarrow> (addr \<times> hash) option" where
  "HASH_REPLACE_PTR ptrfield a H = HASH_REPLACE ptrfield 8 a H"

definition HASH_REPLACE_BYHASHVALUE_INORDER ::
    "(addr \<Rightarrow> addr \<Rightarrow> int) \<Rightarrow> (addr \<Rightarrow> string) \<Rightarrow> u32 \<Rightarrow> u32 \<Rightarrow> addr \<Rightarrow> hash \<Rightarrow> (addr \<times> hash) option" where
  "HASH_REPLACE_BYHASHVALUE_INORDER cmp str keylen hashval a H = do {
     replaced \<leftarrow> HASH_FIND_BYHASHVALUE (str a) keylen hashval H;
     H \<leftarrow> (if replaced \<noteq> NULL then HASH_DELETE_HH replaced H else Some H);
     H \<leftarrow> HASH_ADD_KEYPTR_BYHASHVALUE_INORDER cmp (str a) keylen hashval a H;
     Some (replaced, H)
   }"

definition HASH_REPLACE_INORDER ::
    "(addr \<Rightarrow> addr \<Rightarrow> int) \<Rightarrow> (addr \<Rightarrow> string) \<Rightarrow> u32 \<Rightarrow> addr \<Rightarrow> hash \<Rightarrow> (addr \<times> hash) option" where
  "HASH_REPLACE_INORDER cmp str keylen a H =
     HASH_REPLACE_BYHASHVALUE_INORDER cmp str keylen (HASH_VALUE (str a) keylen) a H"

definition HASH_CLEAR :: "hash \<Rightarrow> hash option" where
  "HASH_CLEAR H =
     (if hs_head H \<noteq> NULL then do {
        _ \<leftarrow> hs_tbl H;
        Some (H\<lparr>hs_head := NULL, hs_tbl := None\<rparr>)
      } else Some H)"

text \<open>In bytes; the arguments are the sizes of the three structs.\<close>

definition HASH_OVERHEAD :: "u64 \<Rightarrow> u64 \<Rightarrow> u64 \<Rightarrow> hash \<Rightarrow> u64 option" where
  "HASH_OVERHEAD sz_handle sz_bucket sz_table H =
     (if hs_head H \<noteq> NULL then do {
        t \<leftarrow> hs_tbl H;
        Some (ucast (ht_num_items t) * sz_handle + ucast (ht_num_buckets t) * sz_bucket + sz_table)
      } else Some 0)"

text \<open>The forms for numbers and pointers are those for strings on keys of their length, so what is shown of these holds of them.\<close>

lemma scalar_forms:
  "length s = 4 \<Longrightarrow> HASH_FIND_INT s H = HASH_FIND_STR s H" "length s = 8 \<Longrightarrow> HASH_FIND_PTR s H = HASH_FIND_STR s H"
  "length (f a) = 4 \<Longrightarrow> HASH_ADD_INT f a H = HASH_ADD_STR f a H" "length (f a) = 8 \<Longrightarrow> HASH_ADD_PTR f a H = HASH_ADD_STR f a H"
  "length (f a) = 4 \<Longrightarrow> HASH_REPLACE_INT f a H = HASH_REPLACE_STR f a H"
  "length (f a) = 8 \<Longrightarrow> HASH_REPLACE_PTR f a H = HASH_REPLACE_STR f a H"
  by (simp_all add: HASH_FIND_INT_def HASH_FIND_PTR_def HASH_FIND_STR_def HASH_ADD_INT_def HASH_ADD_PTR_def HASH_ADD_STR_def
      HASH_REPLACE_INT_def HASH_REPLACE_PTR_def HASH_REPLACE_STR_def)

section \<open>Ordered insertion\<close>

lemma akbi_run:
  "next_links (fld app_next hh) (x # xs) NULL \<Longrightarrow> NULL \<notin> set xs \<Longrightarrow> set (x # xs) \<subseteq> dom hh \<Longrightarrow>
   HASH_AKBI_INNER_LOOP cmp hh x a = Some (hd_or NULL (dropWhile (\<lambda>y. cmp y a \<le> 0) (x # xs)))"
proof (induction xs arbitrary: x)
  case Nil
  then show ?case by (subst HASH_AKBI_INNER_LOOP.simps) (auto simp: fld_def)
next
  case (Cons y xs)
  obtain h where h: "hh x = Some h" using Cons.prems(3) by auto
  have "app_next h = y" using Cons.prems(1) h by (simp add: fld_def)
  moreover have "next_links (fld app_next hh) (y # xs) NULL" "NULL \<notin> set xs" "set (y # xs) \<subseteq> dom hh" "y \<noteq> NULL"
    using Cons.prems by auto
  ultimately show ?case
    using Cons.IH [of y] h by (subst HASH_AKBI_INNER_LOOP.simps) (simp add: Let_def)
qed

lemma chain_insert:
  assumes c: "chain nx pv head (xs @ y # ys)" and a: "a \<notin> set (xs @ y # ys)" "a \<noteq> NULL"
    and nx: "nx' = (if pv y = NULL then nx(a := y) else nx(a := y, pv y := a))" and pv: "pv' = pv(a := pv y, y := a)"
  shows "chain nx' pv' (if pv y = NULL then a else head) (xs @ a # y # ys)"
proof -
  note at = chain_at [OF c] and d = c [unfolded chain_def]
  have ya: "y \<noteq> a" "y \<notin> set xs" "y \<notin> set ys" using d a by auto
  have "last_or NULL xs \<notin> set (y # ys)"
    using d last_or_in_set [of xs NULL] by (cases "xs = []") auto
  then have n: "next_links nx' (y # ys) NULL = next_links nx (y # ys) NULL"
    using a ya at(2) by (intro next_links_cong) (auto simp: nx)
  have p: "prev_links pv' y ys = prev_links pv y ys" "prev_links pv' NULL xs = prev_links pv NULL xs"
    using a ya by (auto intro!: prev_links_cong simp: pv)
  have nxs: "next_links nx' xs a"
  proof (cases xs rule: rev_cases)
    case (snoc zs z)
    have z: "pv y = z" "z \<noteq> NULL" "z \<notin> set zs" "z \<noteq> a" using at(2) d snoc a by auto
    have "next_links nx' zs z = next_links nx zs z"
      using z a snoc by (intro next_links_cong) (auto simp: nx)
    then show ?thesis using d snoc z by (auto simp: nx next_links_append)
  qed simp
  have "last_or NULL xs \<noteq> a" using a last_or_in_set [of xs NULL] by (cases "xs = []") auto
  then have na: "nx' a = y" using at(2) by (simp add: nx)
  show ?thesis
    unfolding chain_def next_links_append prev_links_append
    using n p nxs na d a ya at(2,4) by (cases xs) (auto simp: hd_or_append next_links_append prev_links_append pv)
qed

lemma insert_linked:
  assumes kd: "keyed H a key hh1" and c: "chain (fld app_next (hs_hh H)) (fld app_prev (hs_hh H)) (hs_head H) (xs @ y # ys)"
    and t: "table_ok (hs_hh H) t (xs @ y # ys)" and dom: "set (xs @ y # ys) \<subseteq> dom (hs_hh H)"
    and a: "a \<notin> set (xs @ y # ys)" "a \<noteq> NULL" and size: "unat (ht_log2_num_buckets t) < 31"
  shows "\<exists>hd' hh2. insert_before (hs_head H) y a hh1 = Some (hd', hh2) \<and> hh_linked hh1 (xs @ y # ys) a hd' t hh2 (xs @ a # y # ys)"
proof -
  obtain h1 where h1: "hh1 = (hs_hh H)(a \<mapsto> h1)" using kd by (auto simp: keyed_def)
  obtain hy where hy: "hs_hh H y = Some hy" using dom by auto
  let ?p = "app_prev hy"
  have p: "?p = last_or NULL xs" "?p = NULL \<longleftrightarrow> xs = []" using chain_at(2,4) [OF c] hy by (simp_all add: fld_def)
  have pin: "?p \<in> set xs" if "?p \<noteq> NULL" using that p last_or_in_set [of xs NULL] by (cases "xs = []") auto
  have ya: "y \<noteq> a" using a by auto
  have pne: "?p \<noteq> a" "?p \<noteq> y" if "?p \<noteq> NULL" using pin [OF that] a c by (auto simp: chain_def)
  obtain hp where hp: "?p \<noteq> NULL \<Longrightarrow> hs_hh H ?p = Some hp" using pin dom by (metis Un_iff domD set_append subsetD)
  define g where "g = hh1(a \<mapsto> h1\<lparr>app_next := y, app_prev := ?p\<rparr>)"
  define g2 where "g2 = (if ?p = NULL then g else g(?p \<mapsto> hp\<lparr>app_next := a\<rparr>))"
  define hh2 where "hh2 = g2(y \<mapsto> hy\<lparr>app_prev := a\<rparr>)"
  have view: "bkt_view hh2 = bkt_view hh1"
  proof
    fix b show "bkt_view hh2 b = bkt_view hh1 b"
      using ya pne hp hy by (cases "?p = NULL") (auto simp: bkt_view_def hh2_def g2_def g_def h1)
  qed
  have fy: "fld app_prev (hs_hh H) y = ?p" using hy by (simp add: fld_def)
  have fn: "fld app_next hh2 = (if ?p = NULL then (fld app_next (hs_hh H))(a := y) else (fld app_next (hs_hh H))(a := y, ?p := a))"
    using ya pne hy by (auto simp: fun_eq_iff fld_def hh2_def g2_def g_def h1)
  have fp: "fld app_prev hh2 = (fld app_prev (hs_hh H))(a := ?p, y := a)"
    using ya pne hp by (auto simp: fun_eq_iff fld_def hh2_def g2_def g_def h1)
  let ?hd = "if ?p = NULL then a else hs_head H"
  have ch: "chain (fld app_next hh2) (fld app_prev hh2) ?hd (xs @ a # y # ys)"
    using chain_insert [OF c a, of "fld app_next hh2" "fld app_prev hh2"] fn fp unfolding fy by simp
  have "hh_linked hh1 (xs @ y # ys) a ?hd t hh2 (xs @ a # y # ys)"
    unfolding hh_linked_def using ch view t table_linked [OF kd t a(1) size view refl refl refl]
    by (auto simp: table_ok_def)
  moreover have "insert_before (hs_head H) y a hh1 = Some (?hd, hh2)"
    using ya pne hp hy by (cases "?p = NULL") (simp_all add: insert_before_def wr_hh_def h1 hh2_def g2_def g_def)
  ultimately show ?thesis by blast
qed


text \<open>The place of a new element: before the first one that is greater.\<close>

definition place :: "(addr \<Rightarrow> addr \<Rightarrow> int) \<Rightarrow> addr \<Rightarrow> addr list \<Rightarrow> addr list" where
  "place cmp a xs = takeWhile (\<lambda>y. cmp y a \<le> 0) xs @ a # dropWhile (\<lambda>y. cmp y a \<le> 0) xs"

lemma place_sorted:
  assumes cmp: "cmp_by cmp key" and s: "sorted (map key xs)"
  shows "sorted (map key (place cmp a xs))"
proof -
  have k: "cmp y a \<le> 0 \<longleftrightarrow> key y \<le> key a" for y using cmp by (simp add: cmp_by_def)
  have t: "key y \<le> key a" if "y \<in> set (takeWhile (\<lambda>y. key y \<le> key a) xs)" for y
    using set_takeWhileD [OF that] by simp
  have d: "key a \<le> key y" if "y \<in> set (dropWhile (\<lambda>y. key y \<le> key a) xs)" for y
  proof -
    let ?d = "dropWhile (\<lambda>y. key y \<le> key a) xs"
    have ne: "?d \<noteq> []" using that by (metis empty_iff list.set(1))
    have "sorted (map key ?d)" using sorted_wrt_drop [OF s] by (simp add: dropWhile_eq_drop drop_map)
    then have "key (hd ?d) \<le> key y" using that ne by (cases ?d) auto
    moreover have "\<not> key (hd ?d) \<le> key a" using hd_dropWhile [OF ne] .
    ultimately show ?thesis by simp
  qed
  have "sorted (map key (takeWhile (\<lambda>y. key y \<le> key a) xs) @ map key (dropWhile (\<lambda>y. key y \<le> key a) xs))"
    using s by (simp only: takeWhile_dropWhile_id flip: map_append)
  then have "sorted (map key (takeWhile (\<lambda>y. key y \<le> key a) xs))" "sorted (map key (dropWhile (\<lambda>y. key y \<le> key a) xs))"
    by (simp_all only: sorted_append)
  then show ?thesis using t d by (auto simp: place_def k sorted_append intro: order_trans)
qed

lemma inorder_linked:
  assumes ok: "hash_ok H xs" and kd: "keyed H a key hh1" and a: "a \<noteq> NULL" "a \<notin> set xs"
    and size: "\<And>t. hs_tbl H = Some t \<Longrightarrow> unat (ht_log2_num_buckets t) < 31"
  shows "\<exists>hd' t hh2. inorder_link cmp a H hh1 = Some (hd', t, hh2) \<and> hh_linked hh1 xs a hd' t hh2 (place cmp a xs)"
proof (cases xs)
  case Nil
  then have "hs_head H = NULL" using ok by (simp add: hash_ok_def)
  with Nil make_table_linked [OF kd a(1)] show ?thesis by (auto simp: inorder_link_def place_def)
next
  case (Cons x xs')
  then have ne: "xs \<noteq> []" by simp
  have c: "chain (fld app_next (hs_hh H)) (fld app_prev (hs_hh H)) (hs_head H) xs" and dom: "set xs \<subseteq> dom (hs_hh H)"
    using ok by (auto simp: hash_ok_def elem_ok_def)
  have h: "hs_head H \<noteq> NULL" "hs_head H = x" "NULL \<notin> set xs" using c Cons by (auto simp: chain_def)
  obtain t where t: "hs_tbl H = Some t" "table_ok (hs_hh H) t xs" using ok ne by (auto simp: hash_ok_def)
  note small = size [OF t(1)]
  obtain g where g: "hh1 = (hs_hh H)(a \<mapsto> g)" using kd by (auto simp: keyed_def)
  have "next_links (fld app_next hh1) xs NULL = next_links (fld app_next (hs_hh H)) xs NULL"
    using a(2) by (intro next_links_cong) (auto simp: g)
  then have "next_links (fld app_next hh1) (x # xs') NULL" "NULL \<notin> set xs'" "set (x # xs') \<subseteq> dom hh1"
    using c h(3) dom Cons by (auto simp: chain_def g)
  from akbi_run [OF this] have w: "HASH_AKBI_INNER_LOOP cmp hh1 x a = Some (hd_or NULL (dropWhile (\<lambda>y. cmp y a \<le> 0) xs))"
    unfolding Cons .
  show ?thesis
  proof (cases "dropWhile (\<lambda>y. cmp y a \<le> 0) xs")
    case Nil
    then have "place cmp a xs = xs @ [a]" by (simp add: place_def takeWhile_eq_all_conv dropWhile_eq_Nil_conv)
    with append_list_linked [OF kd c t(2) dom a(2,1) ne small] show ?thesis
      using h t(1) w Nil by (auto simp: inorder_link_def)
  next
    case (Cons y zs)
    let ?ws = "takeWhile (\<lambda>y. cmp y a \<le> 0) xs"
    have xs: "?ws @ y # zs = xs" using takeWhile_dropWhile_id [of "\<lambda>y. cmp y a \<le> 0" xs] Cons by simp
    have y: "y \<noteq> NULL" using h(3) xs by (metis in_set_conv_decomp)
    obtain hd' hh2 where "insert_before (hs_head H) y a hh1 = Some (hd', hh2)" "hh_linked hh1 xs a hd' t hh2 (?ws @ a # y # zs)"
      using insert_linked [of H a key hh1 ?ws y zs t, unfolded xs, OF kd c t(2) dom a(2,1) small] by blast
    then show ?thesis using h t(1) w Cons y by (auto simp: inorder_link_def place_def)
  qed
qed

lemma hash_add_inorder_ok:
  assumes ok: "hash_ok H xs" and a: "hs_hh H a = Some h0" "a \<noteq> NULL" "a \<notin> set xs" and key: "length key < 2 ^ 32"
    and size: "\<And>t. hs_tbl H = Some t \<Longrightarrow> unat (ht_log2_num_buckets t) < 31"
  shows "\<exists>H'. HASH_ADD_KEYPTR_INORDER cmp key (of_nat (length key)) a H = Some H' \<and> hash_ok H' (place cmp a xs)
      \<and> key_of H' a = key \<and> (\<forall>b\<in>set xs. key_of H' b = key_of H b)"
proof -
  let ?kl = "of_nat (length key) :: u32" and ?ys = "place cmp a xs"
  let ?hv = "HASH_VALUE key ?kl"
  define hh1 where "hh1 = (hs_hh H)(a \<mapsto> h0\<lparr>hh_hashv := ?hv, hh_key := key, hh_keylen := ?kl\<rparr>)"
  have kd: "keyed H a key hh1" by (auto simp: keyed_def hh1_def)
  have el: "\<forall>b\<in>set xs. elem_ok (hs_hh H) b" using ok by (simp add: hash_ok_def)
  obtain hd' t hh2 where 2: "inorder_link cmp a H hh1 = Some (hd', t, hh2)" "hh_linked hh1 xs a hd' t hh2 ?ys"
    using inorder_linked [OF ok kd a(2,3) size] by blast
  obtain t3 hh3 where 3: "HASH_ADD_TO_TABLE ?hv a t hh2 = Some (t3, hh3)"
    "hash_ok \<lparr>hs_head = hd', hs_tbl = Some t3, hs_hh = hh3\<rparr> ?ys" "hh_key (the (hh3 a)) = key"
    "\<forall>b\<in>set xs. hh_key (the (hh3 b)) = key_of H b"
    using add_to_table_ok [OF kd key el 2(2) a(3,2)] by blast
  have "wr_hh a (\<lambda>h. h\<lparr>hh_hashv := ?hv, hh_key := key, hh_keylen := ?kl\<rparr>) (hs_hh H) = Some hh1"
    using a(1) by (simp add: wr_hh_def hh1_def)
  then have "HASH_ADD_KEYPTR_INORDER cmp key ?kl a H = Some \<lparr>hs_head = hd', hs_tbl = Some t3, hs_hh = hh3\<rparr>"
    unfolding HASH_ADD_KEYPTR_INORDER_def HASH_ADD_KEYPTR_BYHASHVALUE_INORDER_def using 2(1) 3(1) by simp
  with 3 show ?thesis by (auto simp: key_of_def)
qed

section \<open>Replacement\<close>

text \<open>There is room to double the buckets once more.\<close>

definition expandable :: "hash \<Rightarrow> bool" where
  "expandable H \<longleftrightarrow> (\<forall>t. hs_tbl H = Some t \<longrightarrow> unat (ht_log2_num_buckets t) < 31)"

lemma expandable_delete: "HASH_DEL a H = Some H' \<Longrightarrow> expandable H \<Longrightarrow> expandable H'"
  by (auto simp: HASH_DEL_def HASH_DELETE_HH_def HASH_DEL_IN_BKT_def expandable_def Let_def
      split: Option.bind_splits if_splits prod.splits)

lemma delete_frame: "HASH_DEL a H = Some H' \<Longrightarrow> hs_hh H b \<noteq> None \<Longrightarrow> hs_hh H' b \<noteq> None"
  by (auto simp: HASH_DEL_def HASH_DELETE_HH_def HASH_DEL_IN_BKT_def wr_hh_def Let_def
      split: Option.bind_splits if_splits prod.splits)

text \<open>Both replacements find the element with the key of \<open>a\<close> and delete it; then they add \<open>a\<close>.\<close>

lemma replace_find_delete:
  assumes ok: "hash_ok H xs" and key: "length key < 2 ^ 32" and dis: "distinct (map (key_of H) xs)"
    and x: "expandable H" and a: "hs_hh H a \<noteq> None"
  defines "kl \<equiv> of_nat (length key)"
  shows "\<exists>r H1. HASH_FIND_BYHASHVALUE key kl (HASH_VALUE key kl) H = Some r
      \<and> (if r \<noteq> NULL then HASH_DELETE_HH r H else Some H) = Some H1
      \<and> r = (case find (\<lambda>b. key_of H b = key) xs of None \<Rightarrow> NULL | Some b \<Rightarrow> b)
      \<and> hash_ok H1 (filter (\<lambda>b. key_of H b \<noteq> key) xs) \<and> (\<forall>b\<in>set xs. key_of H b \<noteq> key \<longrightarrow> key_of H1 b = key_of H b)
      \<and> expandable H1 \<and> hs_hh H1 a \<noteq> None"
proof -
  have "HASH_FIND_STR key H = HASH_FIND_BYHASHVALUE key kl (HASH_VALUE key kl) H"
    by (simp add: HASH_FIND_STR_def HASH_FIND_def HASH_FIND_BYHASHVALUE_def kl_def)
  then have f: "HASH_FIND_BYHASHVALUE key kl (HASH_VALUE key kl) H
      = Some (case find (\<lambda>b. key_of H b = key) xs of None \<Rightarrow> NULL | Some b \<Rightarrow> b)"
    using hash_find_ok [OF ok key dis] by simp
  show ?thesis
  proof (cases "find (\<lambda>b. key_of H b = key) xs")
    case None
    then have "filter (\<lambda>b. key_of H b \<noteq> key) xs = xs" by (auto simp: find_None_iff filter_id_conv)
    with None f ok x a show ?thesis by auto
  next
    case (Some d)
    then have d: "d \<in> set xs" "key_of H d = key" by (auto simp: find_Some_iff)
    obtain us vs where xs: "xs = us @ d # vs" using d(1) by (meson split_list)
    have "NULL \<notin> set xs" using ok by (simp add: hash_ok_def chain_def)
    then have dn: "d \<noteq> NULL" using d(1) by metis
    obtain H1 where H1: "HASH_DEL d H = Some H1" "hash_ok H1 (us @ vs)" "\<forall>b\<in>set (us @ vs). key_of H1 b = key_of H b"
      using hash_delete_ok [OF ok [unfolded xs]] by blast
    have "key_of H b \<noteq> key" if "b \<in> set (us @ vs)" for b 
      using dis d(2) imageI [OF that, of "key_of H"] by (simp add: xs image_Un) (metis UnE)
    then have fl: "filter (\<lambda>b. key_of H b \<noteq> key) xs = us @ vs" using d(2) by (auto simp: xs filter_id_conv)
    have "key_of H1 b = key_of H b" if "b \<in> set xs" "key_of H b \<noteq> key" for b using that H1(3) d(2) by (auto simp: xs)
    with Some f dn H1 fl expandable_delete [OF H1(1) x] delete_frame [OF H1(1) a] show ?thesis
      by (auto simp: HASH_DEL_def)
  qed
qed

lemma hash_replace_ok:
  assumes ok: "hash_ok H xs" and a: "hs_hh H a \<noteq> None" "a \<noteq> NULL" "a \<notin> set xs" and key: "length (str a) < 2 ^ 32"
    and dis: "distinct (map (key_of H) xs)" and x: "expandable H"
  shows "\<exists>H'. HASH_REPLACE_STR str a H = Some (case find (\<lambda>b. key_of H b = str a) xs of None \<Rightarrow> NULL | Some b \<Rightarrow> b, H')
      \<and> hash_ok H' (filter (\<lambda>b. key_of H b \<noteq> str a) xs @ [a]) \<and> key_of H' a = str a
      \<and> (\<forall>b\<in>set xs. key_of H b \<noteq> str a \<longrightarrow> key_of H' b = key_of H b)"
proof -
  let ?xs = "filter (\<lambda>b. key_of H b \<noteq> str a) xs" and ?kl = "of_nat (length (str a)) :: u32"
  obtain r H1 where 1: "HASH_FIND_BYHASHVALUE (str a) ?kl (HASH_VALUE (str a) ?kl) H = Some r"
    "(if r \<noteq> NULL then HASH_DELETE_HH r H else Some H) = Some H1"
    "r = (case find (\<lambda>b. key_of H b = str a) xs of None \<Rightarrow> NULL | Some b \<Rightarrow> b)"
    "hash_ok H1 ?xs" "\<forall>b\<in>set xs. key_of H b \<noteq> str a \<longrightarrow> key_of H1 b = key_of H b" "expandable H1" "hs_hh H1 a \<noteq> None"
    using replace_find_delete [OF ok key dis x a(1)] by blast
  obtain h where "hs_hh H1 a = Some h" using 1(7) by blast
  moreover have "a \<notin> set ?xs" using a(3) by simp
  ultimately obtain H' where "HASH_ADD_KEYPTR (str a) ?kl a H1 = Some H'" "hash_ok H' (?xs @ [a])" "key_of H' a = str a"
    "\<forall>b\<in>set ?xs. key_of H' b = key_of H1 b"
    using hash_add_ok [OF 1(4) _ a(2) _ key] 1(6) unfolding expandable_def by blast
  with 1(1,2,3,5) show ?thesis
    by (auto simp: HASH_REPLACE_STR_def HASH_REPLACE_def HASH_REPLACE_BYHASHVALUE_def HASH_ADD_KEYPTR_def)
qed

lemma hash_replace_inorder_ok:
  assumes ok: "hash_ok H xs" and a: "hs_hh H a \<noteq> None" "a \<noteq> NULL" "a \<notin> set xs" and key: "length (str a) < 2 ^ 32"
    and dis: "distinct (map (key_of H) xs)" and x: "expandable H"
  shows "\<exists>H'. HASH_REPLACE_INORDER cmp str (of_nat (length (str a))) a H
        = Some (case find (\<lambda>b. key_of H b = str a) xs of None \<Rightarrow> NULL | Some b \<Rightarrow> b, H')
      \<and> hash_ok H' (place cmp a (filter (\<lambda>b. key_of H b \<noteq> str a) xs)) \<and> key_of H' a = str a
      \<and> (\<forall>b\<in>set xs. key_of H b \<noteq> str a \<longrightarrow> key_of H' b = key_of H b)"
proof -
  let ?xs = "filter (\<lambda>b. key_of H b \<noteq> str a) xs" and ?kl = "of_nat (length (str a)) :: u32"
  obtain r H1 where 1: "HASH_FIND_BYHASHVALUE (str a) ?kl (HASH_VALUE (str a) ?kl) H = Some r"
    "(if r \<noteq> NULL then HASH_DELETE_HH r H else Some H) = Some H1"
    "r = (case find (\<lambda>b. key_of H b = str a) xs of None \<Rightarrow> NULL | Some b \<Rightarrow> b)"
    "hash_ok H1 ?xs" "\<forall>b\<in>set xs. key_of H b \<noteq> str a \<longrightarrow> key_of H1 b = key_of H b" "expandable H1" "hs_hh H1 a \<noteq> None"
    using replace_find_delete [OF ok key dis x a(1)] by blast
  obtain h where "hs_hh H1 a = Some h" using 1(7) by blast
  moreover have "a \<notin> set ?xs" using a(3) by simp
  ultimately obtain H' where "HASH_ADD_KEYPTR_INORDER cmp (str a) ?kl a H1 = Some H'" "hash_ok H' (place cmp a ?xs)"
    "key_of H' a = str a" "\<forall>b\<in>set ?xs. key_of H' b = key_of H1 b"
    using hash_add_inorder_ok [OF 1(4) _ a(2) _ key] 1(6) unfolding expandable_def by blast
  with 1(1,2,3,5) show ?thesis
    by (auto simp: HASH_REPLACE_INORDER_def HASH_REPLACE_BYHASHVALUE_INORDER_def HASH_ADD_KEYPTR_INORDER_def)
qed

text \<open>Searching the list after a replacement.\<close>

lemma find_replaced:
  assumes "\<forall>b\<in>set xs. k b \<noteq> c \<longrightarrow> k' b = k b" and "k' a = c"
  shows "find (\<lambda>b. k' b = s) (filter (\<lambda>b. k b \<noteq> c) xs @ [a]) = (if s = c then Some a else find (\<lambda>b. k b = s) xs)"
  using assms by (induction xs) auto

section \<open>Clearing\<close>

lemma hash_clear_ok:
  assumes ok: "hash_ok H xs"
  shows "\<exists>H'. HASH_CLEAR H = Some H' \<and> hash_ok H' [] \<and> hs_hh H' = hs_hh H"
  using ok chain_null [of "fld app_next (hs_hh H)" "fld app_prev (hs_hh H)" "hs_head H" xs]
  by (cases "xs = []") (auto simp: HASH_CLEAR_def hash_ok_def)

lemma hash_overhead_empty: "hash_ok H [] \<Longrightarrow> HASH_OVERHEAD sh sb st H = Some 0"
  by (simp add: HASH_OVERHEAD_def hash_ok_def)

end
