(* ===== verification/Uthash_Check.thy ===== *)
theory Uthash_Check
  imports Uthash
begin

text \<open>
  \<open>HASH_FSCK\<close> of \<open>src/uthash.h\<close>, the integrity check that the macros run under \<open>HASH_DEBUG\<close>. A failed
  test calls \<open>HASH_OOPS\<close>, which ends the program; here it is \<open>None\<close>, like any call that does not
  return. The check is shown to be exact: it passes if and only if every bucket holds a chain of the
  length that it counts, the list of insertion is a chain, and both have \<open>num_items\<close> elements. So it
  passes on every well formed table.
\<close>

section \<open>The macro\<close>

text \<open>The walk of a list by \<open>nx\<close> that compares each node's \<open>pv\<close> with the node before and counts.\<close>

partial_function (option) fsck_walk ::
    "(handle \<Rightarrow> addr) \<Rightarrow> (handle \<Rightarrow> addr) \<Rightarrow> handles \<Rightarrow> addr \<Rightarrow> addr \<Rightarrow> u32 \<Rightarrow> u32 option" where
  "fsck_walk nx pv hh thh prev' cnt =
     (if thh = NULL then Some cnt
      else do {
        h \<leftarrow> hh thh;
        guard_ok (prev' = pv h);
        fsck_walk nx pv hh (nx h) thh (cnt + 1)
      })"

primrec fsck_buckets :: "handles \<Rightarrow> bucket list \<Rightarrow> u32 \<Rightarrow> u32 option" where
  "fsck_buckets hh [] cnt = Some cnt"
| "fsck_buckets hh (b # bs) cnt = do {
     bkt_cnt \<leftarrow> fsck_walk hh_next hh_prev hh (bk_head b) NULL 0;
     guard_ok (bk_count b = bkt_cnt);
     fsck_buckets hh bs (cnt + bkt_cnt)
   }"

definition HASH_FSCK :: "hash \<Rightarrow> unit option" where
  "HASH_FSCK H =
     (if hs_head H \<noteq> NULL then do {
        t \<leftarrow> hs_tbl H;
        cnt \<leftarrow> fsck_buckets (hs_hh H) (take (unat (ht_num_buckets t)) (ht_buckets t)) 0;
        guard_ok (cnt = ht_num_items t);
        cnt \<leftarrow> fsck_walk app_next app_prev (hs_hh H) (hs_head H) NULL 0;
        guard_ok (cnt = ht_num_items t)
      } else Some ())"

section \<open>The walk is exact\<close>

lemma fsck_walk_run:
  "next_links (fld nx hh) xs NULL \<Longrightarrow> prev_links (fld pv hh) p xs \<Longrightarrow> NULL \<notin> set xs \<Longrightarrow> set xs \<subseteq> dom hh \<Longrightarrow>
   fsck_walk nx pv hh (hd_or NULL xs) p n = Some (n + of_nat (length xs))"
proof (induction xs arbitrary: p n)
  case Nil
  then show ?case by (simp add: fsck_walk.simps)
next
  case (Cons x xs)
  then obtain h where h: "hh x = Some h" by auto
  have "nx h = hd_or NULL xs" "pv h = p" using Cons.prems(1,2) h by (simp_all add: fld_def)
  then show ?case using Cons h by (subst fsck_walk.simps) (simp add: algebra_simps)
qed

lemma fsck_walk_sound:
  "fsck_walk nx pv hh thh p n = Some m \<Longrightarrow>
   \<exists>xs. thh = hd_or NULL xs \<and> next_links (fld nx hh) xs NULL \<and> prev_links (fld pv hh) p xs \<and> NULL \<notin> set xs
      \<and> set xs \<subseteq> dom hh \<and> m = n + of_nat (length xs)"
proof (induction rule: fsck_walk.raw_induct [rotated 1, of nx pv hh thh p n m, consumes 1])
  case (1 f nx pv hh thh p n m)
  show ?case
  proof (cases "thh = NULL")
    case True
    with 1(2) show ?thesis by (intro exI [of _ "[]"]) simp
  next
    case False
    then obtain h where h: "hh thh = Some h" "p = pv h" "f nx pv hh (nx h) thh (n + 1) = Some m"
      using 1(2) by (auto split: Option.bind_splits)
    obtain xs where "nx h = hd_or NULL xs" "next_links (fld nx hh) xs NULL" "prev_links (fld pv hh) thh xs" "NULL \<notin> set xs"
      "set xs \<subseteq> dom hh" "m = n + 1 + of_nat (length xs)"
      using 1(1) [OF h(3)] by blast
    moreover have "fld nx hh thh = nx h" "fld pv hh thh = pv h" using h(1) by (simp_all add: fld_def)
    ultimately show ?thesis using False h by (intro exI [of _ "thh # xs"]) (auto simp: algebra_simps)
  qed
qed

text \<open>A list that ends visits no node twice.\<close>

lemma next_links_same:
  "next_links nx xs NULL \<Longrightarrow> next_links nx ys NULL \<Longrightarrow> NULL \<notin> set xs \<Longrightarrow> NULL \<notin> set ys \<Longrightarrow>
   hd_or NULL xs = hd_or NULL ys \<Longrightarrow> xs = ys"
proof (induction xs arbitrary: ys)
  case Nil
  then show ?case by (cases ys) auto
next
  case (Cons x xs)
  then obtain zs where ys: "ys = x # zs" by (cases ys) auto
  have "xs = zs" by (rule Cons.IH) (use Cons.prems ys in auto)
  with ys show ?case by simp
qed

lemma next_links_distinct: "next_links nx xs NULL \<Longrightarrow> NULL \<notin> set xs \<Longrightarrow> distinct xs"
proof (induction xs)
  case (Cons x xs)
  have "x \<notin> set xs"
  proof
    assume "x \<in> set xs"
    then obtain us vs where xs: "xs = us @ x # vs" by (meson split_list)
    have "x # xs = x # vs"
      by (rule next_links_same [of nx]) (use Cons.prems xs in \<open>auto simp: next_links_append\<close>)
    with xs show False by simp
  qed
  with Cons show ?case by simp
qed simp

lemma fsck_walk_exact:
  "fsck_walk nx pv hh head NULL 0 = Some m \<longleftrightarrow>
     (\<exists>xs. chain (fld nx hh) (fld pv hh) head xs \<and> set xs \<subseteq> dom hh \<and> m = of_nat (length xs))"
proof
  assume "fsck_walk nx pv hh head NULL 0 = Some m"
  from fsck_walk_sound [OF this] obtain xs where "head = hd_or NULL xs" "next_links (fld nx hh) xs NULL"
    "prev_links (fld pv hh) NULL xs" "NULL \<notin> set xs" "set xs \<subseteq> dom hh" "m = of_nat (length xs)" by auto
  then show "\<exists>xs. chain (fld nx hh) (fld pv hh) head xs \<and> set xs \<subseteq> dom hh \<and> m = of_nat (length xs)"
    using next_links_distinct by (intro exI [of _ xs]) (simp add: chain_def)
next
  assume "\<exists>xs. chain (fld nx hh) (fld pv hh) head xs \<and> set xs \<subseteq> dom hh \<and> m = of_nat (length xs)"
  then show "fsck_walk nx pv hh head NULL 0 = Some m"
    using fsck_walk_run [of nx hh _ pv NULL 0] by (auto simp: chain_def)
qed

section \<open>The check is exact\<close>

text \<open>A bucket whose chain is \<open>xs\<close>, of the length that it counts.\<close>

definition counted :: "handles \<Rightarrow> bucket \<Rightarrow> addr list \<Rightarrow> bool" where
  "counted hh b xs \<longleftrightarrow>
     chain (fld hh_next hh) (fld hh_prev hh) (bk_head b) xs \<and> set xs \<subseteq> dom hh \<and> bk_count b = of_nat (length xs)"

lemma fsck_buckets_exact:
  "fsck_buckets hh bs n = Some m \<longleftrightarrow>
     (\<exists>Ls. list_all2 (counted hh) bs Ls \<and> m = n + of_nat (length (concat Ls)))"
proof (induction bs arbitrary: n)
  case (Cons b bs)
  have "fsck_buckets hh (b # bs) n = Some m \<longleftrightarrow>
      (\<exists>c. fsck_walk hh_next hh_prev hh (bk_head b) NULL 0 = Some c \<and> bk_count b = c \<and> fsck_buckets hh bs (n + c) = Some m)"
    by (auto simp: bind_eq_Some_conv)
  also have "\<dots> \<longleftrightarrow> (\<exists>xs. counted hh b xs \<and> fsck_buckets hh bs (n + of_nat (length xs)) = Some m)"
    unfolding fsck_walk_exact counted_def by blast
  also have "\<dots> \<longleftrightarrow> (\<exists>xs Ls. counted hh b xs \<and> list_all2 (counted hh) bs Ls \<and> m = n + of_nat (length (concat (xs # Ls))))"
    unfolding Cons.IH by (simp add: add.assoc)
  also have "\<dots> \<longleftrightarrow> (\<exists>Ls. list_all2 (counted hh) (b # bs) Ls \<and> m = n + of_nat (length (concat Ls)))"
    by (simp only: list_all2_Cons1) blast
  finally show ?case .
qed auto

lemma fsck_exact:
  "HASH_FSCK H = Some () \<longleftrightarrow>
     hs_head H = NULL \<or>
     (\<exists>t Ls xs. hs_tbl H = Some t \<and> list_all2 (counted (hs_hh H)) (take (unat (ht_num_buckets t)) (ht_buckets t)) Ls
        \<and> chain (fld app_next (hs_hh H)) (fld app_prev (hs_hh H)) (hs_head H) xs \<and> set xs \<subseteq> dom (hs_hh H)
        \<and> ht_num_items t = of_nat (length (concat Ls)) \<and> ht_num_items t = of_nat (length xs))"
proof (cases "hs_head H = NULL")
  case False
  have "HASH_FSCK H = Some () \<longleftrightarrow>
      (\<exists>t. hs_tbl H = Some t
         \<and> fsck_buckets (hs_hh H) (take (unat (ht_num_buckets t)) (ht_buckets t)) 0 = Some (ht_num_items t)
         \<and> fsck_walk app_next app_prev (hs_hh H) (hs_head H) NULL 0 = Some (ht_num_items t))"
    using False by (auto simp: HASH_FSCK_def bind_eq_Some_conv)
  then show ?thesis
    unfolding fsck_walk_exact fsck_buckets_exact add_0 using False by blast
qed (simp add: HASH_FSCK_def)

text \<open>It passes on every well formed table, so on every table that the macros build.\<close>

lemma fsck_passes:
  assumes ok: "hash_ok H xs"
  shows "HASH_FSCK H = Some ()"
proof (cases "xs = []")
  case True
  with ok show ?thesis by (simp add: fsck_exact hash_ok_def)
next
  case False
  obtain t where t: "hs_tbl H = Some t" "table_ok (hs_hh H) t xs" using ok False by (auto simp: hash_ok_def)
  obtain k L where kL: "sized k t" "buckets_ok (hs_hh H) k (ht_buckets t) L" "members k L = set xs"
    using t(2) by (auto simp: table_ok_def)
  let ?Ls = "map L [0..<2 ^ k]"
  have c: "chain (fld app_next (hs_hh H)) (fld app_prev (hs_hh H)) (hs_head H) xs" "set xs \<subseteq> dom (hs_hh H)"
    using ok by (auto simp: hash_ok_def elem_ok_def)
  have n: "unat (ht_num_buckets t) = 2 ^ k" using kL(1) by (simp add: sized_def unat_pow2)
  have "list_all2 (counted (hs_hh H)) (ht_buckets t) ?Ls"
    unfolding list_all2_conv_all_nth using kL(2) by (auto simp: buckets_ok_def bucket_ok_def counted_def)
  moreover have "take (2 ^ k) (ht_buckets t) = ht_buckets t" using kL(2) by (simp add: buckets_ok_def)
  moreover have "length (concat ?Ls) = length xs"
  proof -
    have "set (concat ?Ls) = set xs" using kL(3) by (simp add: members_def atLeast0LessThan)
    moreover have "distinct (concat ?Ls)" by (rule buckets_concat_distinct [OF kL(2)])
    moreover have "distinct xs" using c(1) by (simp add: chain_def)
    ultimately show ?thesis by (metis distinct_card)
  qed
  moreover have "ht_num_items t = of_nat (length xs)" using t(2) by (simp add: table_ok_def)
  ultimately show ?thesis unfolding fsck_exact using t(1) c n by (metis (no_types, lifting))
qed

end
