(* ===== verification/Uthash_Select.thy ===== *)
theory Uthash_Select
  imports Uthash
begin

text \<open>
  \<open>HASH_SELECT\<close> of \<open>src/uthash.h\<close>: the elements of one table that satisfy a condition also join a
  second table, through a second handle. An element has one address and two handles, so the stores
  of the two tables are different maps over the same addresses.
\<close>

section \<open>The macro\<close>

text \<open>
  The body of the loops: the element \<open>elt\<close>, whose handle in the source is \<open>s\<close>, joins \<open>D\<close> behind
  \<open>last_elt\<close>.
\<close>

definition select_elt :: "addr \<Rightarrow> handle \<Rightarrow> addr \<Rightarrow> hash \<Rightarrow> hash option" where
  "select_elt elt s last_elt D = do {
     hh \<leftarrow> wr_hh elt (\<lambda>h. h\<lparr>hh_key := hh_key s, hh_keylen := hh_keylen s, hh_hashv := hh_hashv s\<rparr>) (hs_hh D);
     hh \<leftarrow> wr_hh elt (\<lambda>h. h\<lparr>app_prev := last_elt, app_next := NULL\<rparr>) hh;
     hh \<leftarrow> (if last_elt \<noteq> NULL then wr_hh last_elt (\<lambda>h. h\<lparr>app_next := elt\<rparr>) hh else Some hh);
     (dst, t) \<leftarrow> (if hs_head D = NULL then Some (elt, HASH_MAKE_TABLE elt)
       else do { t \<leftarrow> hs_tbl D; Some (hs_head D, t) });
     (t, hh) \<leftarrow> HASH_ADD_TO_BKT (unat (HASH_TO_BKT (hh_hashv s) (ht_num_buckets t))) elt t hh;
     Some \<lparr>hs_head = dst, hs_tbl = Some (t\<lparr>ht_num_items := ht_num_items t + 1\<rparr>), hs_hh = hh\<rparr>
   }"

text \<open>The loop over the chain of a bucket; its state is \<open>last_elt\<close> and the second table.\<close>

partial_function (option) select_chain ::
    "(addr \<Rightarrow> bool) \<Rightarrow> handles \<Rightarrow> addr \<Rightarrow> addr \<times> hash \<Rightarrow> (addr \<times> hash) option" where
  "select_chain cond hh elt s =
     (if elt = NULL then Some s
      else do {
        h \<leftarrow> hh elt;
        s \<leftarrow> (if cond elt then do {
             D \<leftarrow> select_elt elt h (fst s) (snd s);
             Some (elt, D)
           } else Some s);
        select_chain cond hh (hh_next h) s
      })"

primrec select_loop :: "(addr \<Rightarrow> bool) \<Rightarrow> handles \<Rightarrow> bucket list \<Rightarrow> addr \<times> hash \<Rightarrow> (addr \<times> hash) option" where
  "select_loop cond hh [] s = Some s"
| "select_loop cond hh (b # bs) s = do {
     s \<leftarrow> select_chain cond hh (bk_head b) s;
     select_loop cond hh bs s
   }"

definition HASH_SELECT :: "(addr \<Rightarrow> bool) \<Rightarrow> hash \<Rightarrow> hash \<Rightarrow> hash option" where
  "HASH_SELECT cond S D =
     (if hs_head S \<noteq> NULL then do {
        t \<leftarrow> hs_tbl S;
        (_, D) \<leftarrow> select_loop cond (hs_hh S) (take (unat (ht_num_buckets t)) (ht_buckets t)) (NULL, D);
        Some D
      } else Some D)"

section \<open>One element\<close>

text \<open>
  \<open>selected D ys\<close>: the table under construction. It is what \<open>hash_ok\<close> says, with one exception:
  \<open>tail\<close>, set when the table was made, still is the first element.
\<close>

definition selected :: "hash \<Rightarrow> addr list \<Rightarrow> bool" where
  "selected D ys \<longleftrightarrow>
     chain (fld app_next (hs_hh D)) (fld app_prev (hs_hh D)) (hs_head D) ys \<and>
     (\<forall>a\<in>set ys. elem_ok (hs_hh D) a) \<and>
     (if ys = [] then hs_tbl D = None
      else \<exists>t k L. hs_tbl D = Some t \<and> sized k t \<and> buckets_ok (hs_hh D) k (ht_buckets t) L \<and> members k L = set ys
             \<and> ht_num_items t = of_nat (length ys) \<and> ht_tail t = hd ys)"

definition is_key :: "handle \<Rightarrow> bool" where
  "is_key s \<longleftrightarrow> hh_keylen s = of_nat (length (hh_key s)) \<and> length (hh_key s) < 2 ^ 32 \<and> hh_hashv s = HASH_VALUE (hh_key s) (hh_keylen s)"

lemma elem_ok_is_key: "elem_ok hh a \<longleftrightarrow> (\<exists>h. hh a = Some h \<and> is_key h)"
  by (auto simp: elem_ok_def is_key_def)

lemma sized_tail: "sized k (t\<lparr>ht_tail := x\<rparr>) = sized k t" "sized k (t\<lparr>ht_num_items := n\<rparr>) = sized k t"
  by (simp_all add: sized_def)

lemma selected_tail:
  "selected D ys \<Longrightarrow> hash_ok (D\<lparr>hs_tbl := map_option (\<lambda>t. t\<lparr>ht_tail := last ys\<rparr>) (hs_tbl D)\<rparr>) ys"
proof (cases "ys = []")
  case False
  assume s: "selected D ys"
  with False obtain t k L where t: "hs_tbl D = Some t" "sized k t" "buckets_ok (hs_hh D) k (ht_buckets t) L"
    "members k L = set ys" "ht_num_items t = of_nat (length ys)" unfolding selected_def by auto
  then have "table_ok (hs_hh D) (t\<lparr>ht_tail := last ys\<rparr>) ys" by (auto simp: table_ok_def sized_tail)
  with s t(1) False show ?thesis by (simp add: selected_def hash_ok_def)
qed (simp add: selected_def hash_ok_def)

lemma selected_one: "selected D ys \<Longrightarrow> length ys \<le> 1 \<Longrightarrow> hash_ok D ys"
  by (cases ys) (simp_all add: selected_def hash_ok_def table_ok_def, blast)

text \<open>Linking the element behind the last one: the store before the element joins its bucket.\<close>

lemma select_link:
  fixes s :: handle
  assumes sel: "selected D ys" and a: "hs_hh D a = Some h0" "a \<noteq> NULL" "a \<notin> set ys"
  defines "g \<equiv> h0\<lparr>hh_key := hh_key s, hh_keylen := hh_keylen s, hh_hashv := hh_hashv s, app_prev := last_or NULL ys, app_next := NULL\<rparr>"
  defines "hh1 \<equiv> (hs_hh D)(a \<mapsto> g)"
  shows "\<exists>hh2. (if last_or NULL ys \<noteq> NULL then wr_hh (last_or NULL ys) (\<lambda>h. h\<lparr>app_next := a\<rparr>) hh1 else Some hh1) = Some hh2
      \<and> chain (fld app_next hh2) (fld app_prev hh2) (hd (ys @ [a])) (ys @ [a]) \<and> bkt_view hh2 = bkt_view hh1"
proof (cases "ys = []")
  case True
  then show ?thesis using a(2) by (simp add: chain_def hh1_def g_def fld_def)
next
  case False
  have c: "chain (fld app_next (hs_hh D)) (fld app_prev (hs_hh D)) (hs_head D) ys" and el: "elem_ok (hs_hh D) (last ys)"
    using sel False by (simp_all add: selected_def)
  have z: "last_or NULL ys = last ys" "last ys \<in> set ys" using False by (simp_all add: last_or_def)
  have zn: "last ys \<noteq> NULL" "last ys \<noteq> a" using z(2) a(3) chain_D(3) [OF c] by metis+
  obtain hz where hz: "hs_hh D (last ys) = Some hz" using el by (auto simp: elem_ok_def)
  let ?hh2 = "hh1(last ys \<mapsto> hz\<lparr>app_next := a\<rparr>)"
  have fn: "fld app_next ?hh2 = ((fld app_next (hs_hh D))(a := NULL))(last ys := a)"
    using zn by (auto simp: fun_eq_iff fld_def hh1_def g_def)
  have fp: "fld app_prev ?hh2 = (fld app_prev (hs_hh D))(a := last ys)"
    using zn hz z(1) by (auto simp: fun_eq_iff fld_def hh1_def g_def)
  have "hs_head D = hd (ys @ [a])" using chain_D(1) [OF c] False by (cases ys) auto
  then have "chain (fld app_next ?hh2) (fld app_prev ?hh2) (hd (ys @ [a])) (ys @ [a])"
    using chain_snoc [OF c a(3,2) False fn fp] by simp
  moreover have "bkt_view ?hh2 = bkt_view hh1" using zn hz by (auto simp: fun_eq_iff bkt_view_def hh1_def)
  moreover have "hh1 (last ys) = Some hz" using zn hz by (simp add: hh1_def)
  ultimately show ?thesis using z(1) zn by (simp add: wr_hh_def)
qed

text \<open>The table before the element joins its bucket, made for the first one.\<close>

lemma select_table:
  assumes sel: "selected D ys" and a: "a \<notin> set ys" and hh1: "\<And>b. b \<noteq> a \<Longrightarrow> hh1 b = hs_hh D b"
    and view: "bkt_view hh2 = bkt_view hh1" and size: "log_buckets D < 31"
  shows "\<exists>t k L. (if hs_head D = NULL then Some (a, HASH_MAKE_TABLE a) else do { t \<leftarrow> hs_tbl D; Some (hs_head D, t) })
        = Some (hd (ys @ [a]), t)
      \<and> sized k t \<and> k < 31 \<and> buckets_ok hh2 k (ht_buckets t) L \<and> members k L = set ys
      \<and> ht_num_items t = of_nat (length ys) \<and> ht_tail t = hd (ys @ [a]) \<and> k = log_buckets D"
proof (cases "ys = []")
  case True
  have "sized 5 (HASH_MAKE_TABLE a)" "buckets_ok hh2 5 (ht_buckets (HASH_MAKE_TABLE a)) (\<lambda>_. [])"
    by (simp_all add: sized_def HASH_MAKE_TABLE_def buckets_ok_def bucket_ok_def empty_bucket_def)
  moreover have "hs_head D = NULL" "hs_tbl D = None" using sel True by (simp_all add: selected_def)
  ultimately show ?thesis
    using True by (intro exI [of _ "HASH_MAKE_TABLE a"] exI [of _ 5] exI [of _ "\<lambda>_. []"])
      (simp add: members_def HASH_MAKE_TABLE_def log_buckets_def)
next
  case False
  have c: "chain (fld app_next (hs_hh D)) (fld app_prev (hs_hh D)) (hs_head D) ys" using sel by (simp add: selected_def)
  obtain t k L where t: "hs_tbl D = Some t" "sized k t" "buckets_ok (hs_hh D) k (ht_buckets t) L" "members k L = set ys"
    "ht_num_items t = of_nat (length ys)" "ht_tail t = hd ys" using sel False unfolding selected_def by auto
  have "bucket_ok hh1 k i b (L i) = bucket_ok (hs_hh D) k i b (L i)" if "i < 2 ^ k" for i b
    using a t(4) that by (intro bucket_ok_cong hh1) (auto simp: members_def)
  then have "buckets_ok hh1 k (ht_buckets t) L" using t(3) by (simp add: buckets_ok_def)
  then have b: "buckets_ok hh2 k (ht_buckets t) L" by (rule bkt_view_buckets [OF view])
  have "unat (of_nat k :: u32) = k" using t(2) by (intro unat_len) (simp add: sized_def)
  then have k: "k = log_buckets D" using t(1,2) by (simp add: log_buckets_def sized_def)
  have "hs_head D \<noteq> NULL" "hs_head D = hd (ys @ [a])" "hd (ys @ [a]) = hd ys"
    using chain_null [OF c] chain_D(1) [OF c] False by (cases ys; simp)+
  then show ?thesis using t b k size by (intro exI [of _ t] exI [of _ k] exI [of _ L]) simp
qed

lemma select_elt_ok:
  assumes sel: "selected D ys" and a: "hs_hh D a \<noteq> None" "a \<noteq> NULL" "a \<notin> set ys" and s: "is_key s"
    and size: "log_buckets D < 31"
  shows "\<exists>D'. select_elt a s (last_or NULL ys) D = Some D' \<and> selected D' (ys @ [a]) \<and> dom (hs_hh D') = dom (hs_hh D)
      \<and> log_buckets D' \<le> Suc (log_buckets D) \<and> key_of D' a = hh_key s \<and> (\<forall>b\<in>set ys. key_of D' b = key_of D b)"
proof -
  obtain h0 where h0: "hs_hh D a = Some h0" using a(1) by blast
  define g where "g = h0\<lparr>hh_key := hh_key s, hh_keylen := hh_keylen s, hh_hashv := hh_hashv s, app_prev := last_or NULL ys, app_next := NULL\<rparr>"
  define hh1 where "hh1 = (hs_hh D)(a \<mapsto> g)"
  obtain hh2 where 2: "(if last_or NULL ys \<noteq> NULL then wr_hh (last_or NULL ys) (\<lambda>h. h\<lparr>app_next := a\<rparr>) hh1 else Some hh1) = Some hh2"
    "chain (fld app_next hh2) (fld app_prev hh2) (hd (ys @ [a])) (ys @ [a])" "bkt_view hh2 = bkt_view hh1"
    using select_link [OF sel h0 a(2,3), of s] unfolding hh1_def g_def by blast
  have "hh1 b = hs_hh D b" if "b \<noteq> a" for b using that by (simp add: hh1_def)
  from select_table [OF sel a(3) this 2(3) size] obtain t k L where
    t: "(if hs_head D = NULL then Some (a, HASH_MAKE_TABLE a) else do { t \<leftarrow> hs_tbl D; Some (hs_head D, t) }) = Some (hd (ys @ [a]), t)"
    "sized k t" "k < 31" "buckets_ok hh2 k (ht_buckets t) L" "members k L = set ys"
    "ht_num_items t = of_nat (length ys)" "ht_tail t = hd (ys @ [a])" "k = log_buckets D" by blast
  obtain h2 where h2: "hh2 a = Some h2" "hh_hashv h2 = hh_hashv s"
    using bkt_view_D(4) [OF 2(3), of a g] by (auto simp: hh1_def g_def)
  have i: "unat (HASH_TO_BKT (hh_hashv s) (ht_num_buckets t)) = bkt_of k h2"
    using t(2) h2(2) by (simp add: sized_def to_bkt bkt_of_def)
  have "a \<notin> members k L" using t(5) a(3) by simp
  from add_to_bkt_ok [OF t(4,2,3) h2(1) a(2) this refl] obtain t3 hh3 k3 L3 where
    3: "HASH_ADD_TO_BKT (bkt_of k h2) a t hh2 = Some (t3, hh3)" "buckets_ok hh3 k3 (ht_buckets t3) L3"
    "members k3 L3 = insert a (members k L)" "app_view hh3 = app_view hh2" "sized k3 t3" "k3 \<le> Suc k"
    "ht_num_items t3 = ht_num_items t" "ht_tail t3 = ht_tail t" by blast
  let ?t = "t3\<lparr>ht_num_items := ht_num_items t3 + 1\<rparr>"
  let ?D = "\<lparr>hs_head = hd (ys @ [a]), hs_tbl = Some ?t, hs_hh = hh3\<rparr>"
  obtain hh0 where w: "wr_hh a (\<lambda>h. h\<lparr>hh_key := hh_key s, hh_keylen := hh_keylen s, hh_hashv := hh_hashv s\<rparr>) (hs_hh D) = Some hh0"
    "wr_hh a (\<lambda>h. h\<lparr>app_prev := last_or NULL ys, app_next := NULL\<rparr>) hh0 = Some hh1"
    using h0 by (simp add: wr_hh_run hh1_def g_def)
  have run: "select_elt a s (last_or NULL ys) D = Some ?D"
    unfolding select_elt_def using w 2(1) t(1) 3(1) i by simp
  have el: "elem_ok hh3 b \<and> hh_key (the (hh3 b)) = hh_key (the (hh1 b))" if "b \<in> set (ys @ [a])" for b
  proof -
    have "elem_ok hh1 b" using that sel a(3) s by (auto simp: elem_ok_is_key hh1_def is_key_def g_def selected_def)
    then show ?thesis using elem_ok_bkt_view [OF 2(3)] elem_ok_app_view [OF 3(4)] by simp
  qed
  have "sized k3 ?t \<and> buckets_ok hh3 k3 (ht_buckets ?t) L3 \<and> members k3 L3 = set (ys @ [a])
      \<and> ht_num_items ?t = of_nat (length (ys @ [a])) \<and> ht_tail ?t = hd (ys @ [a])"
    using 3 t by (simp add: sized_tail)
  then have "selected ?D (ys @ [a])"
    using 2(2) app_view_D(1,2) [OF 3(4)] el unfolding selected_def hash.simps by (intro conjI) auto
  moreover have "dom hh3 = dom (hs_hh D)"
    using app_view_D(3) [OF 3(4)] bkt_view_D(3) [OF 2(3)] h0 by (auto simp: hh1_def)
  moreover have "log_buckets ?D \<le> Suc (log_buckets D)"
    using 3(5,6) t(8) unat_len [of k3] by (simp add: log_buckets_def sized_def)
  moreover have "key_of ?D a = hh_key s" using el [of a] by (simp add: key_of_def hh1_def g_def)
  moreover have "\<forall>b\<in>set ys. key_of ?D b = key_of D b" using el a(3) by (auto simp: key_of_def hh1_def)
  ultimately show ?thesis using run by (intro exI [of _ ?D]) simp
qed

section \<open>All elements\<close>

lemma select_chain_ok:
  assumes src: "\<And>a. a \<in> set xs \<Longrightarrow> \<exists>h. hh a = Some h \<and> is_key h"
    and links: "next_links (fld hh_next hh) xs NULL" "NULL \<notin> set xs" "distinct xs"
    and D: "selected D ys" "set xs \<inter> set ys = {}" "\<And>a. a \<in> set xs \<Longrightarrow> cond a \<Longrightarrow> hs_hh D a \<noteq> None"
    and size: "log_buckets D + length (filter cond xs) \<le> 31"
  shows "\<exists>D'. select_chain cond hh (hd_or NULL xs) (last_or NULL ys, D) = Some (last_or NULL (ys @ filter cond xs), D')
      \<and> selected D' (ys @ filter cond xs) \<and> dom (hs_hh D') = dom (hs_hh D)
      \<and> log_buckets D' \<le> log_buckets D + length (filter cond xs)
      \<and> (\<forall>b\<in>set xs. cond b \<longrightarrow> key_of D' b = hh_key (the (hh b))) \<and> (\<forall>b\<in>set ys. key_of D' b = key_of D b)"
  using assms
proof (induction xs arbitrary: D ys)
  case Nil
  then show ?case by (simp add: select_chain.simps)
next
  case (Cons x xs)
  obtain h where h: "hh x = Some h" "is_key h" using Cons.prems(1) by auto
  have fx: "fld hh_next hh x = hh_next h" using h(1) by (simp add: fld_def)
  have n: "hh_next h = hd_or NULL xs" "next_links (fld hh_next hh) xs NULL" "NULL \<notin> set xs" "distinct xs" "x \<noteq> NULL" "x \<notin> set xs"
    using Cons.prems(2-4) fx by auto
  have src: "\<exists>h. hh a = Some h \<and> is_key h" if "a \<in> set xs" for a using Cons.prems(1) that by simp
  show ?case
  proof (cases "cond x")
    case False
    have "select_chain cond hh x (last_or NULL ys, D) = select_chain cond hh (hd_or NULL xs) (last_or NULL ys, D)"
      using n h(1) False by (subst select_chain.simps) simp
    moreover have "set xs \<inter> set ys = {}" "\<And>a. a \<in> set xs \<Longrightarrow> cond a \<Longrightarrow> hs_hh D a \<noteq> None"
      "log_buckets D + length (filter cond xs) \<le> 31" using Cons.prems(6-8) False by auto
    ultimately show ?thesis using Cons.IH [OF src n(2-4) Cons.prems(5)] False by simp
  next
    case True
    have x: "hs_hh D x \<noteq> None" "x \<notin> set ys" "log_buckets D < 31" using Cons.prems(6-8) True by auto
    obtain D1 where 1: "select_elt x h (last_or NULL ys) D = Some D1" "selected D1 (ys @ [x])" "dom (hs_hh D1) = dom (hs_hh D)"
      "log_buckets D1 \<le> Suc (log_buckets D)" "key_of D1 x = hh_key h" "\<forall>b\<in>set ys. key_of D1 b = key_of D b"
      using select_elt_ok [OF Cons.prems(5) x(1) n(5) x(2) h(2) x(3)] by blast
    have step: "select_chain cond hh x (last_or NULL ys, D) = select_chain cond hh (hd_or NULL xs) (last_or NULL (ys @ [x]), D1)"
      using n h(1) True 1(1) by (subst select_chain.simps) simp
    have d: "set xs \<inter> set (ys @ [x]) = {}" "log_buckets D1 + length (filter cond xs) \<le> 31"
      using Cons.prems(6,8) n(6) True 1(4) by auto
    have a: "hs_hh D1 a \<noteq> None" if "a \<in> set xs" "cond a" for a
      using Cons.prems(7) [of a] that 1(3) by (auto simp: domIff)
    obtain D' where 2: "select_chain cond hh (hd_or NULL xs) (last_or NULL (ys @ [x]), D1)
        = Some (last_or NULL ((ys @ [x]) @ filter cond xs), D')" "selected D' ((ys @ [x]) @ filter cond xs)"
      "dom (hs_hh D') = dom (hs_hh D1)" "log_buckets D' \<le> log_buckets D1 + length (filter cond xs)"
      "\<forall>b\<in>set xs. cond b \<longrightarrow> key_of D' b = hh_key (the (hh b))" "\<forall>b\<in>set (ys @ [x]). key_of D' b = key_of D1 b"
      using Cons.IH [OF src n(2-4) 1(2) d(1) a d(2)] by blast
    show ?thesis
      using step 1 2 True h(1) by (intro exI [of _ D']) auto
  qed
qed

lemma select_loop_ok:
  assumes src: "\<And>a. a \<in> set (concat Ls) \<Longrightarrow> \<exists>h. hh a = Some h \<and> is_key h"
    and heads: "map bk_head bs = map (hd_or NULL) Ls"
    and links: "\<And>xs. xs \<in> set Ls \<Longrightarrow> next_links (fld hh_next hh) xs NULL" "NULL \<notin> set (concat Ls)" "distinct (concat Ls)"
    and D: "selected D ys" "set (concat Ls) \<inter> set ys = {}" "\<And>a. a \<in> set (concat Ls) \<Longrightarrow> cond a \<Longrightarrow> hs_hh D a \<noteq> None"
    and size: "log_buckets D + length (filter cond (concat Ls)) \<le> 31"
  shows "\<exists>D'. select_loop cond hh bs (last_or NULL ys, D) = Some (last_or NULL (ys @ filter cond (concat Ls)), D')
      \<and> selected D' (ys @ filter cond (concat Ls)) \<and> dom (hs_hh D') = dom (hs_hh D)
      \<and> (\<forall>b\<in>set (concat Ls). cond b \<longrightarrow> key_of D' b = hh_key (the (hh b))) \<and> (\<forall>b\<in>set ys. key_of D' b = key_of D b)"
  using assms
proof (induction Ls arbitrary: bs D ys)
  case Nil
  then show ?case by simp
next
  case (Cons xs Ls)
  obtain b bs' where bs: "bs = b # bs'" "bk_head b = hd_or NULL xs" "map bk_head bs' = map (hd_or NULL) Ls"
    using Cons.prems(2) by auto
  have c: "\<And>a. a \<in> set xs \<Longrightarrow> \<exists>h. hh a = Some h \<and> is_key h" "next_links (fld hh_next hh) xs NULL" "NULL \<notin> set xs"
    "distinct xs" "set xs \<inter> set ys = {}" "\<And>a. a \<in> set xs \<Longrightarrow> cond a \<Longrightarrow> hs_hh D a \<noteq> None"
    "log_buckets D + length (filter cond xs) \<le> 31"
    using Cons.prems by auto
  obtain D1 where 1: "select_chain cond hh (hd_or NULL xs) (last_or NULL ys, D) = Some (last_or NULL (ys @ filter cond xs), D1)"
    "selected D1 (ys @ filter cond xs)" "dom (hs_hh D1) = dom (hs_hh D)" "log_buckets D1 \<le> log_buckets D + length (filter cond xs)"
    "\<forall>b\<in>set xs. cond b \<longrightarrow> key_of D1 b = hh_key (the (hh b))" "\<forall>b\<in>set ys. key_of D1 b = key_of D b"
    using select_chain_ok [OF c(1-4) Cons.prems(6) c(5-7)] by blast
  have r: "\<And>a. a \<in> set (concat Ls) \<Longrightarrow> \<exists>h. hh a = Some h \<and> is_key h" "\<And>xs. xs \<in> set Ls \<Longrightarrow> next_links (fld hh_next hh) xs NULL"
    "NULL \<notin> set (concat Ls)" "distinct (concat Ls)" "set (concat Ls) \<inter> set (ys @ filter cond xs) = {}"
    "log_buckets D1 + length (filter cond (concat Ls)) \<le> 31"
    using Cons.prems 1(4) by auto
  have a: "hs_hh D1 a \<noteq> None" if "a \<in> set (concat Ls)" "cond a" for a
    using Cons.prems(8) [of a] that 1(3) by (auto simp: domIff)
  obtain D' where 2: "select_loop cond hh bs' (last_or NULL (ys @ filter cond xs), D1)
      = Some (last_or NULL ((ys @ filter cond xs) @ filter cond (concat Ls)), D')"
    "selected D' ((ys @ filter cond xs) @ filter cond (concat Ls))" "dom (hs_hh D') = dom (hs_hh D1)"
    "\<forall>b\<in>set (concat Ls). cond b \<longrightarrow> key_of D' b = hh_key (the (hh b))"
    "\<forall>b\<in>set (ys @ filter cond xs). key_of D' b = key_of D1 b"
    using Cons.IH [OF r(1) bs(3) r(2-4) 1(2) r(5) a r(6)] by blast
  show ?case
    using bs 1 2 by (intro exI [of _ D']) auto
qed

text \<open>
  Selecting into an empty table. The new table holds the elements that satisfy the condition, with
  their keys; in which order, the buckets of the source decide.
\<close>

lemma hash_select_ok:
  assumes ok: "hash_ok S xs" and few: "length (filter cond xs) \<le> 26"
    and D: "hs_head D = NULL" "hs_tbl D = None" "\<And>a. a \<in> set xs \<Longrightarrow> cond a \<Longrightarrow> hs_hh D a \<noteq> None"
  shows "\<exists>D' ys. HASH_SELECT cond S D = Some D' \<and> selected D' ys \<and> mset ys = mset (filter cond xs)
      \<and> (\<forall>b\<in>set ys. key_of D' b = key_of S b)"
proof (cases "xs = []")
  case True
  with ok D show ?thesis by (simp add: HASH_SELECT_def hash_ok_def selected_def)
next
  case False
  obtain t where t: "hs_tbl S = Some t" "table_ok (hs_hh S) t xs" using ok False by (auto simp: hash_ok_def)
  obtain k L where kL: "sized k t" "buckets_ok (hs_hh S) k (ht_buckets t) L" "members k L = set xs"
    using t(2) by (auto simp: table_ok_def)
  let ?Ls = "map L [0..<2 ^ k]"
  have c: "chain (fld app_next (hs_hh S)) (fld app_prev (hs_hh S)) (hs_head S) xs" using ok by (simp add: hash_ok_def)
  have head: "hs_head S \<noteq> NULL" using chain_null [OF c] False by simp
  have mem: "set (concat ?Ls) = set xs" using kL(3) by (simp add: members_def atLeast0LessThan)
  have m: "mset (concat ?Ls) = mset xs"
    using mem buckets_concat_distinct [OF kL(2)] chain_D(2) [OF c] by (metis set_eq_iff_mset_eq_distinct)
  then have fm: "mset (filter cond (concat ?Ls)) = mset (filter cond xs)" by (simp only: mset_filter)
  have b: "bucket_ok (hs_hh S) k i (ht_buckets t ! i) (L i)" if "i < 2 ^ k" for i
    using kL(2) that by (simp add: buckets_ok_def)
  have heads: "map bk_head (ht_buckets t) = map (hd_or NULL) ?Ls"
    using b kL(2) by (intro nth_equalityI) (auto simp: buckets_ok_def bucket_ok_def chain_def)
  have nl: "next_links (fld hh_next (hs_hh S)) ys NULL" if "ys \<in> set ?Ls" for ys
    using that b by (auto simp: bucket_ok_def chain_def)
  have src: "\<exists>h. hs_hh S a = Some h \<and> is_key h" if "a \<in> set (concat ?Ls)" for a
    using ok that unfolding mem hash_ok_def elem_ok_is_key by blast
  have nn: "NULL \<notin> set (concat ?Ls)" using mem chain_D(3) [OF c] by simp
  have tk: "take (unat (ht_num_buckets t)) (ht_buckets t) = ht_buckets t"
    using kL by (simp add: sized_def unat_pow2 buckets_ok_def)
  have len: "length (filter cond (concat ?Ls)) \<le> 26" using few fm by (metis size_mset)
  have e: "selected D []" "log_buckets D = 5" using D by (simp_all add: selected_def log_buckets_def)
  have da: "hs_hh D a \<noteq> None" if "a \<in> set (concat ?Ls)" "cond a" for a using D(3) that mem by blast
  have sz: "log_buckets D + length (filter cond (concat ?Ls)) \<le> 31" using len e(2) by linarith
  obtain D' where "select_loop cond (hs_hh S) (ht_buckets t) (last_or NULL [], D)
      = Some (last_or NULL ([] @ filter cond (concat ?Ls)), D')" "selected D' ([] @ filter cond (concat ?Ls))"
    "\<forall>b\<in>set (concat ?Ls). cond b \<longrightarrow> key_of D' b = hh_key (the (hs_hh S b))"
    using select_loop_ok [OF src heads nl nn buckets_concat_distinct [OF kL(2)] e(1) _ da sz] by auto
  then show ?thesis
    using head t(1) tk fm by (intro exI [of _ D'] exI [of _ "filter cond (concat ?Ls)"])
      (auto simp: HASH_SELECT_def key_of_def)
qed

section \<open>The stale tail\<close>

text \<open>
  \<open>HASH_SELECT\<close> does not move \<open>tail\<close>. An element that is added to the new table afterwards is linked
  behind the first element, and the others are no longer on the list of insertion: \<open>HASH_ITER\<close>
  visits the first element and the new one only, although \<open>num_items\<close> counts all.
\<close>

lemma select_then_append:
  assumes sel: "selected D (x # y # ys)" and t: "hs_tbl D = Some t" and a: "hs_hh D a \<noteq> None" "a \<noteq> NULL" "a \<notin> set (x # y # ys)"
  shows "\<exists>t' hh. HASH_APPEND_LIST a t (hs_hh D) = Some (t', hh) \<and> chain (fld app_next hh) (fld app_prev hh) (hs_head D) [x, a]
      \<and> ht_num_items t' = of_nat (length (x # y # ys))"
proof -
  have c: "chain (fld app_next (hs_hh D)) (fld app_prev (hs_hh D)) (hs_head D) (x # y # ys)"
    and el: "elem_ok (hs_hh D) x" using sel by (simp_all add: selected_def)
  have tt: "ht_tail t = x" "ht_num_items t = of_nat (length (x # y # ys))" using sel t by (auto simp: selected_def)
  obtain hx ha where h: "hs_hh D x = Some hx" "hs_hh D a = Some ha" using el a(1) by (auto simp: elem_ok_def)
  have p: "hs_head D = x" "x \<noteq> NULL" "x \<noteq> a" "app_prev hx = NULL" using c a(3) h(1) by (auto simp: chain_def fld_def)
  show ?thesis using h p tt a(2)
    by (simp add: HASH_APPEND_LIST_def wr_hh_def chain_def fld_def)
qed

end
