(* ===== verification/Uthash_Bloom.thy ===== *)
theory Uthash_Bloom
  imports Uthash
begin

text \<open>
  The Bloom filter of \<open>src/uthash.h\<close>, which the macros use when \<open>HASH_BLOOM\<close> is defined (as the
  number \<open>n\<close> of bits of a hash value that it looks at): a table of \<open>2 ^ n\<close> bits that an insertion sets
  and a search tests before it walks a bucket. The test is exact for the hash values that were added,
  up to their low bits, so it never rejects an element of the table, and searches with the filter
  and without it agree.
\<close>

unbundle bit_operations_syntax

section \<open>The macros\<close>

definition HASH_BLOOM_BYTELEN :: "nat \<Rightarrow> nat" where
  "HASH_BLOOM_BYTELEN n = 2 ^ n div 8 + (if 2 ^ n mod 8 \<noteq> (0 :: nat) then 1 else 0)"

definition HASH_BLOOM_MAKE :: "nat \<Rightarrow> u8 list" where
  "HASH_BLOOM_MAKE n = replicate (HASH_BLOOM_BYTELEN n) 0"

definition HASH_BLOOM_BITSET :: "u8 list \<Rightarrow> u32 \<Rightarrow> u8 list option" where
  "HASH_BLOOM_BITSET bv idx = do {
     b \<leftarrow> arr_get bv (unat (idx div 8));
     arr_set bv (unat (idx div 8)) (ucast ((ucast b :: u32) OR push_bit (unat (idx mod 8)) 1))
   }"

definition HASH_BLOOM_BITTEST :: "u8 list \<Rightarrow> u32 \<Rightarrow> u32 option" where
  "HASH_BLOOM_BITTEST bv idx = do {
     b \<leftarrow> arr_get bv (unat (idx div 8));
     Some ((ucast b :: u32) AND push_bit (unat (idx mod 8)) 1)
   }"

text \<open>\<open>(hashv) & (uint32_t)((1UL << (tbl)->bloom_nbits) - 1U)\<close>\<close>

definition bloom_idx :: "nat \<Rightarrow> u32 \<Rightarrow> u32" where
  "bloom_idx n hashv = hashv AND ucast (push_bit n (1 :: u64) - 1)"

definition HASH_BLOOM_ADD :: "nat \<Rightarrow> u8 list \<Rightarrow> u32 \<Rightarrow> u8 list option" where
  "HASH_BLOOM_ADD n bv hashv = HASH_BLOOM_BITSET bv (bloom_idx n hashv)"

definition HASH_BLOOM_TEST :: "nat \<Rightarrow> u8 list \<Rightarrow> u32 \<Rightarrow> u32 option" where
  "HASH_BLOOM_TEST n bv hashv = HASH_BLOOM_BITTEST bv (bloom_idx n hashv)"

text \<open>The macros of Uthash as they are with the filter compiled in; it is part of the table.\<close>

type_synonym bloom_hash = "hash \<times> u8 list option"

definition find_bloom :: "nat \<Rightarrow> string \<Rightarrow> u32 \<Rightarrow> u32 \<Rightarrow> bloom_hash \<Rightarrow> addr option" where
  "find_bloom n key keylen hashval B =
     (if hs_head (fst B) \<noteq> NULL then do {
        t \<leftarrow> hs_tbl (fst B);
        bv \<leftarrow> snd B;
        x \<leftarrow> HASH_BLOOM_TEST n bv hashval;
        if x \<noteq> 0 then do {
          b \<leftarrow> arr_get (ht_buckets t) (unat (HASH_TO_BKT hashval (ht_num_buckets t)));
          HASH_FIND_IN_BKT (hs_hh (fst B)) (bk_head b) key keylen hashval
        } else Some NULL
      } else Some NULL)"

definition find_str_bloom :: "nat \<Rightarrow> string \<Rightarrow> bloom_hash \<Rightarrow> addr option" where
  "find_str_bloom n s B =
     (let keylen = of_nat (length s) in
      if hs_head (fst B) \<noteq> NULL then find_bloom n s keylen (HASH_VALUE s keylen) B else Some NULL)"

definition add_bloom :: "nat \<Rightarrow> string \<Rightarrow> u32 \<Rightarrow> addr \<Rightarrow> bloom_hash \<Rightarrow> bloom_hash option" where
  "add_bloom n key keylen a B = do {
     let bv = (if hs_head (fst B) = NULL then Some (HASH_BLOOM_MAKE n) else snd B);
     H \<leftarrow> HASH_ADD_KEYPTR key keylen a (fst B);
     bv \<leftarrow> bv;
     bv \<leftarrow> HASH_BLOOM_ADD n bv (HASH_VALUE key keylen);
     Some (H, Some bv)
   }"

text \<open>The filter is freed with the table.\<close>

definition delete_bloom :: "addr \<Rightarrow> bloom_hash \<Rightarrow> bloom_hash option" where
  "delete_bloom a B = do {
     H \<leftarrow> HASH_DEL a (fst B);
     Some (H, if hs_tbl H = None then None else snd B)
   }"

section \<open>The filter is exact\<close>

text \<open>The bit of a hash value.\<close>

definition bloom_bit :: "nat \<Rightarrow> u8 list \<Rightarrow> u32 \<Rightarrow> bool" where
  "bloom_bit n bv w = bit (bv ! (unat w mod 2 ^ n div 8)) (unat w mod 2 ^ n mod 8)"

lemma bloom_idx: "n \<le> 32 \<Longrightarrow> unat (bloom_idx n w) = unat w mod 2 ^ n"
proof -
  assume n: "n \<le> 32"
  have "bloom_idx n w = take_bit n w"
    using n by (intro bit_word_eqI) (auto simp: bloom_idx_def bit_and_iff bit_take_bit_iff bit_ucast_iff
        push_bit_eq_mult bit_mask_iff simp flip: mask_eq_exp_minus_1)
  then show ?thesis by (simp add: unsigned_take_bit_eq take_bit_nat_def)
qed

lemma bloom_index_less: "unat w mod 2 ^ n div 8 < HASH_BLOOM_BYTELEN n"
proof -
  have less: "m div 8 < N div 8 + (if N mod 8 \<noteq> 0 then 1 else 0)" if "m < N" for m N :: nat
  proof (cases "N mod 8 = 0")
    case True
    then have "m < N div 8 * 8" using that by auto
    with True show ?thesis by (simp add: less_mult_imp_div_less)
  next
    case False
    with that show ?thesis using div_le_mono [of m N 8] by simp
  qed
  show ?thesis unfolding HASH_BLOOM_BYTELEN_def by (rule less) simp
qed

lemma unat_parts: "unat (w div 8) = unat w div 8" "unat (w mod 8) = unat w mod 8" for w :: u32
  by (simp_all add: unat_div unat_mod)

lemma bloom_test:
  assumes n: "n \<le> 32" and len: "length bv = HASH_BLOOM_BYTELEN n"
  shows "\<exists>x. HASH_BLOOM_TEST n bv w = Some x \<and> (x \<noteq> 0 \<longleftrightarrow> bloom_bit n bv w)"
proof -
  let ?i = "unat w mod 2 ^ n"
  have j: "?i mod 8 < 32" by (rule less_trans [of _ 8]) simp_all
  have "(ucast (bv ! (?i div 8)) :: u32) AND 2 ^ (?i mod 8) \<noteq> 0 \<longleftrightarrow> bit (ucast (bv ! (?i div 8)) :: u32) (?i mod 8)"
    by (simp add: and_exp_eq_0_iff_not_bit)
  then have "(ucast (bv ! (?i div 8)) :: u32) AND 2 ^ (?i mod 8) \<noteq> 0 \<longleftrightarrow> bloom_bit n bv w"
    using j by (simp add: bloom_bit_def bit_ucast_iff)
  then show ?thesis
    using bloom_index_less [of w n] len
    by (simp add: HASH_BLOOM_TEST_def HASH_BLOOM_BITTEST_def unat_parts bloom_idx [OF n] push_bit_eq_mult)
qed

lemma bloom_add:
  assumes n: "n \<le> 32" and len: "length bv = HASH_BLOOM_BYTELEN n"
  shows "\<exists>bv'. HASH_BLOOM_ADD n bv w = Some bv' \<and> length bv' = HASH_BLOOM_BYTELEN n
      \<and> (\<forall>v. bloom_bit n bv' v \<longleftrightarrow> bloom_bit n bv v \<or> unat v mod 2 ^ n = unat w mod 2 ^ n)"
proof -
  let ?i = "unat w mod 2 ^ n"
  let ?b = "ucast ((ucast (bv ! (?i div 8)) :: u32) OR 2 ^ (?i mod 8)) :: u8"
  let ?bv = "bv[?i div 8 := ?b]"
  have b: "bit ?b j \<longleftrightarrow> bit (bv ! (?i div 8)) j \<or> j = ?i mod 8" if "j < 8" for j
    using that by (auto simp: bit_ucast_iff bit_or_iff bit_exp_iff)
  have same: "j div 8 = k div 8 \<and> j mod 8 = k mod 8 \<longleftrightarrow> j = k" for j k :: nat by (metis div_mult_mod_eq)
  have "bloom_bit n ?bv v \<longleftrightarrow> bloom_bit n bv v \<or> unat v mod 2 ^ n = ?i" for v
  proof -
    define k where "k = unat v mod 2 ^ n"
    have k: "k mod 8 < 8" by simp
    have l: "?i div 8 < length bv" using bloom_index_less [of w n] len by simp
    show ?thesis
    proof (cases "k div 8 = ?i div 8")
      case True
      then have "bit (?bv ! (k div 8)) (k mod 8) \<longleftrightarrow> bit (bv ! (k div 8)) (k mod 8) \<or> k = ?i"
        using l b [OF k] same [of k ?i] by simp
      then show ?thesis by (simp only: bloom_bit_def k_def)
    next
      case False
      then have "?bv ! (k div 8) = bv ! (k div 8)" "k \<noteq> ?i" by auto
      then show ?thesis by (simp add: bloom_bit_def k_def)
    qed
  qed
  moreover have "HASH_BLOOM_ADD n bv w = Some ?bv"
    using bloom_index_less [of w n] len
    by (simp add: HASH_BLOOM_ADD_def HASH_BLOOM_BITSET_def unat_parts bloom_idx [OF n] push_bit_eq_mult)
  ultimately show ?thesis using len by auto
qed

lemma bloom_make: "length (HASH_BLOOM_MAKE n) = HASH_BLOOM_BYTELEN n" "\<not> bloom_bit n (HASH_BLOOM_MAKE n) w"
  using bloom_index_less [of w n] by (simp_all add: HASH_BLOOM_MAKE_def bloom_bit_def)

text \<open>After any sequence of insertions, the test says whether a value with the same low bits was added.\<close>

primrec bloom_adds :: "nat \<Rightarrow> u32 list \<Rightarrow> u8 list \<Rightarrow> u8 list option" where
  "bloom_adds n [] bv = Some bv"
| "bloom_adds n (w # ws) bv = do { bv \<leftarrow> HASH_BLOOM_ADD n bv w; bloom_adds n ws bv }"

lemma bloom_adds_run:
  assumes n: "n \<le> 32"
  shows "length bv = HASH_BLOOM_BYTELEN n \<Longrightarrow> \<exists>bv'. bloom_adds n ws bv = Some bv' \<and> length bv' = HASH_BLOOM_BYTELEN n
      \<and> (\<forall>v. bloom_bit n bv' v \<longleftrightarrow> bloom_bit n bv v \<or> (\<exists>w\<in>set ws. unat v mod 2 ^ n = unat w mod 2 ^ n))"
proof (induction ws arbitrary: bv)
  case (Cons w ws)
  obtain bv1 where 1: "HASH_BLOOM_ADD n bv w = Some bv1" "length bv1 = HASH_BLOOM_BYTELEN n"
    "\<forall>v. bloom_bit n bv1 v \<longleftrightarrow> bloom_bit n bv v \<or> unat v mod 2 ^ n = unat w mod 2 ^ n"
    using bloom_add [OF n Cons.prems] by blast
  show ?case using Cons.IH [OF 1(2)] 1(1,3) by auto
qed simp

lemma bloom_exact:
  assumes n: "n \<le> 32"
  shows "\<exists>bv x. bloom_adds n ws (HASH_BLOOM_MAKE n) = Some bv \<and> HASH_BLOOM_TEST n bv v = Some x
      \<and> (x \<noteq> 0 \<longleftrightarrow> (\<exists>w\<in>set ws. unat v mod 2 ^ n = unat w mod 2 ^ n))"
  using bloom_adds_run [OF n bloom_make(1), of ws] bloom_test [OF n] bloom_make(2) by metis

section \<open>Searching with the filter\<close>

definition key_hash :: "string \<Rightarrow> u32" where
  "key_hash s = HASH_VALUE s (of_nat (length s))"

text \<open>The bit of every element is set.\<close>

definition bloom_ok :: "nat \<Rightarrow> bloom_hash \<Rightarrow> addr list \<Rightarrow> bool" where
  "bloom_ok n B xs \<longleftrightarrow>
     hash_ok (fst B) xs \<and>
     (xs \<noteq> [] \<longrightarrow> (\<exists>bv. snd B = Some bv \<and> length bv = HASH_BLOOM_BYTELEN n
        \<and> (\<forall>a\<in>set xs. bloom_bit n bv (key_hash (key_of (fst B) a)))))"

lemma bloom_add_ok:
  assumes n: "n \<le> 32" and ok: "bloom_ok n B xs" and a: "hs_hh (fst B) a = Some h0" "a \<noteq> NULL" "a \<notin> set xs"
    and key: "length key < 2 ^ 32" and size: "\<And>t. hs_tbl (fst B) = Some t \<Longrightarrow> unat (ht_log2_num_buckets t) < 31"
  shows "\<exists>B'. add_bloom n key (of_nat (length key)) a B = Some B' \<and> bloom_ok n B' (xs @ [a])
      \<and> HASH_ADD_KEYPTR key (of_nat (length key)) a (fst B) = Some (fst B')"
proof -
  have h: "hash_ok (fst B) xs" using ok by (simp add: bloom_ok_def)
  obtain H' where H': "HASH_ADD_KEYPTR key (of_nat (length key)) a (fst B) = Some H'" "hash_ok H' (xs @ [a])"
    "key_of H' a = key" "\<forall>b\<in>set xs. key_of H' b = key_of (fst B) b"
    using hash_add_ok [OF h a key size] by blast
  have head: "hs_head (fst B) = NULL \<longleftrightarrow> xs = []" using h chain_null by (auto simp: hash_ok_def)
  obtain bv where bv: "(if hs_head (fst B) = NULL then Some (HASH_BLOOM_MAKE n) else snd B) = Some bv"
    "length bv = HASH_BLOOM_BYTELEN n" "\<forall>b\<in>set xs. bloom_bit n bv (key_hash (key_of (fst B) b))"
    using ok head bloom_make(1) by (cases "xs = []") (auto simp: bloom_ok_def)
  obtain bv' where bv': "HASH_BLOOM_ADD n bv (key_hash key) = Some bv'" "length bv' = HASH_BLOOM_BYTELEN n"
    "\<forall>v. bloom_bit n bv' v \<longleftrightarrow> bloom_bit n bv v \<or> unat v mod 2 ^ n = unat (key_hash key) mod 2 ^ n"
    using bloom_add [OF n bv(2)] by blast
  have "bloom_ok n (H', Some bv') (xs @ [a])" using H' bv bv' by (auto simp: bloom_ok_def)
  moreover have "add_bloom n key (of_nat (length key)) a B = Some (H', Some bv')"
    using H'(1) bv(1) bv'(1) by (simp add: add_bloom_def key_hash_def Let_def)
  ultimately show ?thesis using H'(1) by simp
qed

lemma bloom_delete_ok:
  assumes ok: "bloom_ok n B (xs @ a # ys)"
  shows "\<exists>B'. delete_bloom a B = Some B' \<and> bloom_ok n B' (xs @ ys) \<and> HASH_DEL a (fst B) = Some (fst B')"
proof -
  have "hash_ok (fst B) (xs @ a # ys)" using ok by (simp add: bloom_ok_def)
  from hash_delete_ok [OF this] obtain H' where
    H': "HASH_DEL a (fst B) = Some H'" "hash_ok H' (xs @ ys)" "\<forall>b\<in>set (xs @ ys). key_of H' b = key_of (fst B) b" by blast
  then have "hs_tbl H' = None \<longleftrightarrow> xs @ ys = []" by (auto simp: hash_ok_def split: if_splits)
  then have "bloom_ok n (H', if hs_tbl H' = None then None else snd B) (xs @ ys)"
    using ok H'(2,3) by (cases "xs @ ys = []") (auto simp: bloom_ok_def)
  then show ?thesis using H'(1) by (simp add: delete_bloom_def)
qed

theorem bloom_find:
  assumes n: "n \<le> 32" and ok: "bloom_ok n B xs" and s: "length s < 2 ^ 32" and dis: "distinct (map (key_of (fst B)) xs)"
  shows "find_str_bloom n s B = HASH_FIND_STR s (fst B)"
proof (cases "xs = []")
  case True
  with ok show ?thesis by (simp add: bloom_ok_def hash_ok_def find_str_bloom_def HASH_FIND_STR_def HASH_FIND_def)
next
  case False
  have h: "hash_ok (fst B) xs" using ok by (simp add: bloom_ok_def)
  obtain t where t: "hs_tbl (fst B) = Some t" using h False by (auto simp: hash_ok_def)
  obtain bv where bv: "snd B = Some bv" "length bv = HASH_BLOOM_BYTELEN n"
    "\<forall>a\<in>set xs. bloom_bit n bv (key_hash (key_of (fst B) a))" using ok False by (auto simp: bloom_ok_def)
  obtain x where x: "HASH_BLOOM_TEST n bv (key_hash s) = Some x" "x \<noteq> 0 \<longleftrightarrow> bloom_bit n bv (key_hash s)"
    using bloom_test [OF n bv(2)] by blast
  show ?thesis
  proof (cases "x = 0")
    case False
    then show ?thesis
      using t bv(1) x(1) by (simp add: find_str_bloom_def find_bloom_def HASH_FIND_STR_def HASH_FIND_def
          HASH_FIND_BYHASHVALUE_def key_hash_def Let_def)
  next
    case True
    then have "find (\<lambda>a. key_of (fst B) a = s) xs = None" using bv(3) x(2) by (auto simp: find_None_iff)
    then have "HASH_FIND_STR s (fst B) = Some NULL" using hash_find_ok [OF h s dis] by simp
    moreover have "find_str_bloom n s B = Some NULL"
      using True t bv(1) x(1) by (simp add: find_str_bloom_def find_bloom_def key_hash_def Let_def)
    ultimately show ?thesis by simp
  qed
qed

end
