(* ===== verification/Uthash_Functions.thy ===== *)
theory Uthash_Functions
  imports Uthash
begin

text \<open>
  The hash functions of \<open>src/uthash.h\<close> other than the default one: Bernstein's, SAX, FNV, one-at-a-time,
  Hsieh's and Murmur (this one as it is read on x86). A key is the list of its bytes. Four of them are
  built from steps that can be undone, so they never map two keys to the same value that differ in one
  byte only; the locale \<open>mixer\<close> proves this once for the functions that run over single bytes. The mix
  of Jenkins' hash, the default, can be undone as well.
\<close>

unbundle bit_operations_syntax

section \<open>The functions\<close>

definition ber_step :: "u32 \<Rightarrow> u8 \<Rightarrow> u32" where
  "ber_step hashv c = (push_bit 5 hashv + hashv) + ucast c"

definition HASH_BER :: "u8 list \<Rightarrow> u32" where
  "HASH_BER key = foldl ber_step 0 key"

definition sax_step :: "u32 \<Rightarrow> u8 \<Rightarrow> u32" where
  "sax_step hashv c = hashv XOR (push_bit 5 hashv + drop_bit 2 hashv + ucast c)"

definition HASH_SAX :: "u8 list \<Rightarrow> u32" where
  "HASH_SAX key = foldl sax_step 0 key"

definition fnv_step :: "u32 \<Rightarrow> u8 \<Rightarrow> u32" where
  "fnv_step hashv c = (let hashv = hashv XOR ucast c in hashv * 16777619)"

definition HASH_FNV :: "u8 list \<Rightarrow> u32" where
  "HASH_FNV key = foldl fnv_step 2166136261 key"

definition oat_step :: "u32 \<Rightarrow> u8 \<Rightarrow> u32" where
  "oat_step hashv c =
     (let hashv = hashv + ucast c;
          hashv = hashv + push_bit 10 hashv;
          hashv = hashv XOR drop_bit 6 hashv in
      hashv)"

definition oat_final :: "u32 \<Rightarrow> u32" where
  "oat_final hashv =
     (let hashv = hashv + push_bit 3 hashv;
          hashv = hashv XOR drop_bit 11 hashv;
          hashv = hashv + push_bit 15 hashv in
      hashv)"

definition HASH_OAT :: "u8 list \<Rightarrow> u32" where
  "HASH_OAT key = oat_final (foldl oat_step 0 key)"

text \<open>Hsieh's function: four bytes at a time, then the one to three that are left.\<close>

definition get16bits :: "u8 \<Rightarrow> u8 \<Rightarrow> u32" where
  "get16bits d0 d1 = push_bit 8 (ucast d1) + ucast d0"

fun sfh_loop :: "u8 list \<Rightarrow> u32 \<Rightarrow> u8 list \<times> u32" where
  "sfh_loop (a # b # c # d # key) hashv =
     (let hashv = hashv + get16bits a b;
          tmp = push_bit 11 (get16bits c d) XOR hashv;
          hashv = push_bit 16 hashv XOR tmp;
          hashv = hashv + drop_bit 11 hashv in
      sfh_loop key hashv)"
| "sfh_loop key hashv = (key, hashv)"

fun sfh_tail :: "u8 list \<Rightarrow> u32 \<Rightarrow> u32" where
  "sfh_tail [a, b, c] hashv =
     (let hashv = hashv + get16bits a b;
          hashv = hashv XOR push_bit 16 hashv;
          hashv = hashv XOR push_bit 18 (ucast c) in
      hashv + drop_bit 11 hashv)"
| "sfh_tail [a, b] hashv =
     (let hashv = hashv + get16bits a b;
          hashv = hashv XOR push_bit 11 hashv in
      hashv + drop_bit 17 hashv)"
| "sfh_tail [a] hashv =
     (let hashv = hashv + ucast a;
          hashv = hashv XOR push_bit 10 hashv in
      hashv + drop_bit 1 hashv)"
| "sfh_tail _ hashv = hashv"

definition HASH_SFH :: "u8 list \<Rightarrow> u32" where
  "HASH_SFH key =
     (let (rest, hashv) = sfh_loop key 0xcafebabe;
          hashv = sfh_tail rest hashv;
          hashv = hashv XOR push_bit 3 hashv;
          hashv = hashv + drop_bit 5 hashv;
          hashv = hashv XOR push_bit 4 hashv;
          hashv = hashv + drop_bit 17 hashv;
          hashv = hashv XOR push_bit 25 hashv;
          hashv = hashv + drop_bit 6 hashv in
      hashv)"

text \<open>Murmur: \<open>MUR_GETBLOCK\<close> is a little-endian load.\<close>

definition MUR_GETBLOCK :: "u8 \<Rightarrow> u8 \<Rightarrow> u8 \<Rightarrow> u8 \<Rightarrow> u32" where
  "MUR_GETBLOCK a b c d = ucast a + push_bit 8 (ucast b) + push_bit 16 (ucast c) + push_bit 24 (ucast d)"

definition MUR_ROTL32 :: "u32 \<Rightarrow> nat \<Rightarrow> u32" where
  "MUR_ROTL32 x r = push_bit r x OR drop_bit (32 - r) x"

definition MUR_FMIX :: "u32 \<Rightarrow> u32" where
  "MUR_FMIX h =
     (let h = h XOR drop_bit 16 h;
          h = h * 0x85ebca6b;
          h = h XOR drop_bit 13 h;
          h = h * 0xc2b2ae35 in
      h XOR drop_bit 16 h)"

definition mur_k :: "u32 \<Rightarrow> u32" where
  "mur_k k1 = (let k1 = k1 * 0xcc9e2d51; k1 = MUR_ROTL32 k1 15 in k1 * 0x1b873593)"

definition mur_block :: "u32 \<Rightarrow> u32 \<Rightarrow> u32" where
  "mur_block h1 k1 = (let h1 = h1 XOR mur_k k1; h1 = MUR_ROTL32 h1 13 in h1 * 5 + 0xe6546b64)"

fun mur_loop :: "u8 list \<Rightarrow> u32 \<Rightarrow> u8 list \<times> u32" where
  "mur_loop (a # b # c # d # key) h1 = mur_loop key (mur_block h1 (MUR_GETBLOCK a b c d))"
| "mur_loop key h1 = (key, h1)"

fun mur_tail :: "u8 list \<Rightarrow> u32 \<Rightarrow> u32" where
  "mur_tail [a, b, c] h1 =
     (let k1 = 0 XOR push_bit 16 (ucast c); k1 = k1 XOR push_bit 8 (ucast b); k1 = k1 XOR ucast a in h1 XOR mur_k k1)"
| "mur_tail [a, b] h1 = (let k1 = 0 XOR push_bit 8 (ucast b); k1 = k1 XOR ucast a in h1 XOR mur_k k1)"
| "mur_tail [a] h1 = (let k1 = 0 XOR ucast a in h1 XOR mur_k k1)"
| "mur_tail _ h1 = h1"

definition HASH_MUR :: "u8 list \<Rightarrow> u32" where
  "HASH_MUR key =
     (let (rest, h1) = mur_loop key 0xf88D5353;
          h1 = mur_tail rest h1;
          h1 = h1 XOR of_nat (length key) in
      MUR_FMIX h1)"

section \<open>Steps that can be undone\<close>

lemma mult_inverse: "a * b = 1 \<Longrightarrow> x * a = y * a \<longleftrightarrow> x = y" for a b x y :: u32
proof
  assume ab: "a * b = 1" and eq: "x * a = y * a"
  have "x = x * (a * b)" "y * (a * b) = y" by (simp_all only: ab mult_1_right)
  moreover have "x * (a * b) = y * (a * b)" by (simp only: eq flip: mult.assoc)
  ultimately show "x = y" by (simp only:)
qed simp

lemma odd_factors:
  "x * 33 = y * 33 \<longleftrightarrow> x = y" "x * 16777619 = y * 16777619 \<longleftrightarrow> x = y" "x * 1025 = y * 1025 \<longleftrightarrow> x = y"
  "x * 9 = y * 9 \<longleftrightarrow> x = y" "x * 32769 = y * 32769 \<longleftrightarrow> x = y" "x * 5 = y * 5 \<longleftrightarrow> x = y"
  "x * 0xcc9e2d51 = y * 0xcc9e2d51 \<longleftrightarrow> x = y" "x * 0x1b873593 = y * 0x1b873593 \<longleftrightarrow> x = y"
  "x * 0x85ebca6b = y * 0x85ebca6b \<longleftrightarrow> x = y" "x * 0xc2b2ae35 = y * 0xc2b2ae35 \<longleftrightarrow> x = y" for x y :: u32
  by (simp_all add: mult_inverse [of 33 1041204193] mult_inverse [of 16777619 899433627] mult_inverse [of 1025 3222273025]
      mult_inverse [of 9 954437177] mult_inverse [of 32769 1073709057] mult_inverse [of 5 3435973837]
      mult_inverse [of 3432918353 3739302833] mult_inverse [of 461845907 1458385051]
      mult_inverse [of 2246822507 2781581891] mult_inverse [of 3266489909 2127672349])

lemma xor_same: "x XOR z = y XOR z \<longleftrightarrow> x = y" "z XOR x = z XOR y \<longleftrightarrow> x = y" for x y z :: u32
proof -
  have undo: "(w XOR z) XOR z = w" for w :: u32 by (simp add: xor.assoc)
  show 1: "x XOR z = y XOR z \<longleftrightarrow> x = y" by (metis undo)
  show "z XOR x = z XOR y \<longleftrightarrow> x = y" using 1 by (simp add: xor.commute)
qed

lemma xor_zero: "x XOR y = 0 \<longleftrightarrow> x = y" for x y :: u32
  using xor_same(1) [of x y y] by simp

lemma shift_add:
  "push_bit 5 x + x = x * 33" "x + push_bit 10 x = x * 1025" "x + push_bit 3 x = x * 9" "x + push_bit 15 x = x * 32769"
  for x :: u32
  by (simp_all add: push_bit_eq_mult algebra_simps)

lemma xor_drop_inj: "0 < k \<Longrightarrow> x XOR drop_bit k x = y XOR drop_bit k y \<longleftrightarrow> x = y" for x y :: u32
proof
  assume k: "0 < k" and eq: "x XOR drop_bit k x = y XOR drop_bit k y"
  let ?d = "x XOR y"
  have "(x XOR drop_bit k x) XOR (y XOR drop_bit k y) = 0" using eq by simp
  then have "?d XOR drop_bit k ?d = 0" by (simp add: drop_bit_xor ac_simps)
  then have "?d = drop_bit k ?d" by (simp only: xor_zero)
  then have fixed: "unat ?d = unat ?d div 2 ^ k" by (metis unat_drop_bit_eq drop_bit_eq_div)
  have zero: "n = 0" if "n = n div 2 ^ k" for n :: nat
  proof (rule ccontr)
    assume "n \<noteq> 0"
    moreover have "(1 :: nat) < 2 ^ k" using k by (intro one_less_power) simp_all
    ultimately have "n div 2 ^ k < n" by (intro div_less_dividend) simp_all
    then show False using that by simp
  qed
  have "unat ?d = 0" by (rule zero [OF fixed])
  then have "?d = 0" by (simp add: unat_eq_zero)
  then show "x = y" by (simp only: xor_zero)
qed simp

lemma rotl_inj: "r \<le> 32 \<Longrightarrow> MUR_ROTL32 x r = MUR_ROTL32 y r \<longleftrightarrow> x = y"
proof
  assume r: "r \<le> 32" and eq: "MUR_ROTL32 x r = MUR_ROTL32 y r"
  have b: "bit (MUR_ROTL32 w r) i \<longleftrightarrow> (if i < r then bit w (i + (32 - r)) else bit w (i - r))" if "i < 32" for w i
    using that r by (auto simp: MUR_ROTL32_def bit_or_iff bit_push_bit_iff bit_drop_bit_eq add.commute dest: bit_imp_le_length)
  show "x = y"
  proof (rule bit_word_eqI)
    fix j assume "j < LENGTH(32)"
    then have j: "j < 32" by simp
    show "bit x j \<longleftrightarrow> bit y j"
    proof (cases "j + r < 32")
      case True
      then show ?thesis using b [of "j + r" x] b [of "j + r" y] eq by simp
    next
      case False
      then have "j + r - 32 < 32" "j + r - 32 < r" "j + r - 32 + (32 - r) = j" using j r by auto
      then show ?thesis using b [of "j + r - 32" x] b [of "j + r - 32" y] eq by simp
    qed
  qed
qed simp

lemma byte_inj: "k \<le> 24 \<Longrightarrow> push_bit k (ucast x :: u32) = push_bit k (ucast y) \<longleftrightarrow> x = y" for x y :: u8
proof
  assume k: "k \<le> 24" and eq: "push_bit k (ucast x :: u32) = push_bit k (ucast y)"
  show "x = y"
  proof (rule bit_word_eqI)
    fix j assume "j < LENGTH(8)"
    then have "j + k < 32" using k by simp
    moreover have "bit (push_bit k (ucast x :: u32)) (j + k) \<longleftrightarrow> bit (push_bit k (ucast y :: u32)) (j + k)" using eq by simp
    ultimately show "bit x j \<longleftrightarrow> bit y j" by (simp add: bit_push_bit_iff bit_ucast_iff)
  qed
qed simp

lemma byte_inj_0: "(ucast x :: u32) = ucast y \<longleftrightarrow> x = y" for x y :: u8
  using byte_inj [of 0 x y] by simp

section \<open>Functions that run over single bytes\<close>

locale mixer =
  fixes f :: "u32 \<Rightarrow> u8 \<Rightarrow> u32"
  assumes inj_state: "f h c = f h' c \<Longrightarrow> h = h'"
    and inj_byte: "f h c = f h c' \<Longrightarrow> c = c'"
begin

lemma fold_inj: "foldl f h vs = foldl f h' vs \<Longrightarrow> h = h'"
  by (induction vs arbitrary: h h') (auto dest: inj_state)

lemma one_byte: "foldl f h (us @ x # vs) = foldl f h (us @ y # vs) \<longleftrightarrow> x = y"
  by (auto dest: fold_inj inj_byte)

end

interpretation ber: mixer ber_step
  by unfold_locales (simp_all add: ber_step_def shift_add odd_factors byte_inj_0)

interpretation fnv: mixer fnv_step
  by unfold_locales (simp_all add: fnv_step_def odd_factors xor_same byte_inj_0 Let_def)

interpretation oat: mixer oat_step
  by unfold_locales (simp_all add: oat_step_def shift_add odd_factors xor_drop_inj byte_inj_0 Let_def)

lemma oat_final_inj: "oat_final x = oat_final y \<longleftrightarrow> x = y"
  by (simp add: oat_final_def shift_add odd_factors xor_drop_inj Let_def)

section \<open>Murmur\<close>

lemma mur_k_inj: "mur_k x = mur_k y \<longleftrightarrow> x = y"
  by (simp add: mur_k_def odd_factors rotl_inj Let_def)

lemma mur_block_inj: "mur_block h x = mur_block h y \<longleftrightarrow> x = y" "mur_block h k = mur_block h' k \<longleftrightarrow> h = h'"
  by (simp_all add: mur_block_def odd_factors rotl_inj xor_same mur_k_inj Let_def)

lemma fmix_inj: "MUR_FMIX x = MUR_FMIX y \<longleftrightarrow> x = y"
  by (simp add: MUR_FMIX_def odd_factors xor_drop_inj Let_def)

lemma getblock_byte:
  "MUR_GETBLOCK x b c d = MUR_GETBLOCK y b c d \<longleftrightarrow> x = y" "MUR_GETBLOCK a x c d = MUR_GETBLOCK a y c d \<longleftrightarrow> x = y"
  "MUR_GETBLOCK a b x d = MUR_GETBLOCK a b y d \<longleftrightarrow> x = y" "MUR_GETBLOCK a b c x = MUR_GETBLOCK a b c y \<longleftrightarrow> x = y"
  by (simp_all add: MUR_GETBLOCK_def byte_inj byte_inj_0)

text \<open>The state after the blocks and the tail.\<close>

definition mur_state :: "u8 list \<Rightarrow> u32 \<Rightarrow> u32" where
  "mur_state key h = (case mur_loop key h of (rest, h1) \<Rightarrow> mur_tail rest h1)"

lemma mur_state_block: "mur_state (a # b # c # d # key) h = mur_state key (mur_block h (MUR_GETBLOCK a b c d))"
  by (simp add: mur_state_def)

lemma mur_state_inj: "mur_state key h = mur_state key h' \<longleftrightarrow> h = h'"
proof (induction key h arbitrary: h' rule: mur_loop.induct)
  case (1 a b c d key h)
  then show ?case by (simp add: mur_state_block mur_block_inj)
qed (auto simp: mur_state_def xor_same Let_def)

lemma mur_state_short:
  "mur_state [x] h = mur_state [y] h \<longleftrightarrow> x = y"
  "mur_state [x, b] h = mur_state [y, b] h \<longleftrightarrow> x = y" "mur_state [a, x] h = mur_state [a, y] h \<longleftrightarrow> x = y"
  "mur_state [x, b, c] h = mur_state [y, b, c] h \<longleftrightarrow> x = y" "mur_state [a, x, c] h = mur_state [a, y, c] h \<longleftrightarrow> x = y"
  "mur_state [a, b, x] h = mur_state [a, b, y] h \<longleftrightarrow> x = y"
  by (simp_all add: mur_state_def xor_same mur_k_inj byte_inj byte_inj_0)

lemma mur_state_byte: "mur_state (us @ x # vs) h = mur_state (us @ y # vs) h \<longleftrightarrow> x = y"
proof (induction us h rule: mur_loop.induct)
  case (1 a b c d us h)
  then show ?case by (simp add: mur_state_block)
next
  case "2_1"
  consider "vs = []" | b where "vs = [b]" | b c where "vs = [b, c]" | b c d ws where "vs = b # c # d # ws"
    by (metis neq_Nil_conv)
  then show ?case
    by cases (simp_all add: mur_state_block mur_state_inj mur_block_inj getblock_byte mur_state_short)
next
  case "2_2"
  consider "vs = []" | c where "vs = [c]" | c d ws where "vs = c # d # ws"
    by (metis neq_Nil_conv)
  then show ?case
    by cases (simp_all add: mur_state_block mur_state_inj mur_block_inj getblock_byte mur_state_short)
next
  case "2_3"
  consider "vs = []" | d ws where "vs = d # ws" by (metis neq_Nil_conv)
  then show ?case
    by cases (simp_all add: mur_state_block mur_state_inj mur_block_inj getblock_byte mur_state_short)
next
  case "2_4"
  then show ?case by (simp add: mur_state_block mur_state_inj mur_block_inj getblock_byte)
qed

section \<open>Keys that differ in one byte\<close>

lemma one_byte_apart:
  "HASH_BER (us @ x # vs) = HASH_BER (us @ y # vs) \<longleftrightarrow> x = y"
  "HASH_FNV (us @ x # vs) = HASH_FNV (us @ y # vs) \<longleftrightarrow> x = y"
  "HASH_OAT (us @ x # vs) = HASH_OAT (us @ y # vs) \<longleftrightarrow> x = y"
  "HASH_MUR (us @ x # vs) = HASH_MUR (us @ y # vs) \<longleftrightarrow> x = y"
proof -
  show "HASH_BER (us @ x # vs) = HASH_BER (us @ y # vs) \<longleftrightarrow> x = y"
    unfolding HASH_BER_def by (rule ber.one_byte)
  show "HASH_FNV (us @ x # vs) = HASH_FNV (us @ y # vs) \<longleftrightarrow> x = y"
    unfolding HASH_FNV_def by (rule fnv.one_byte)
  show "HASH_OAT (us @ x # vs) = HASH_OAT (us @ y # vs) \<longleftrightarrow> x = y"
    unfolding HASH_OAT_def oat_final_inj by (rule oat.one_byte)
  have e: "HASH_MUR key = MUR_FMIX (mur_state key 0xf88D5353 XOR of_nat (length key))" for key
    by (simp add: HASH_MUR_def mur_state_def Let_def split: prod.splits)
  show "HASH_MUR (us @ x # vs) = HASH_MUR (us @ y # vs) \<longleftrightarrow> x = y"
    by (simp add: e fmix_inj xor_same mur_state_byte)
qed

text \<open>Bernstein's function is a polynomial in 33, and the rest of Hsieh's loop has at most three bytes.\<close>

lemma ber_polynomial: "HASH_BER (key @ [c]) = HASH_BER key * 33 + ucast c"
  by (simp add: HASH_BER_def ber_step_def shift_add)

lemma sfh_rest: "length (fst (sfh_loop key h)) = length key mod 4"
proof (induction key h rule: sfh_loop.induct)
  case (1 a b c d key h)
  have "Suc (Suc (Suc (Suc n))) mod 4 = n mod 4" for n :: nat by presburger
  with 1 show ?case by (simp add: Let_def)
qed simp_all

section \<open>Jenkins' mix\<close>

text \<open>One line of the mix, and three of them.\<close>

definition jen_line :: "(u32 \<Rightarrow> u32) \<Rightarrow> u32 \<Rightarrow> u32 \<Rightarrow> u32 \<Rightarrow> u32" where
  "jen_line sh a b c = (a - b - c) XOR sh c"

definition jen_round :: "(u32 \<Rightarrow> u32) \<Rightarrow> (u32 \<Rightarrow> u32) \<Rightarrow> (u32 \<Rightarrow> u32) \<Rightarrow> u32 \<times> u32 \<times> u32 \<Rightarrow> u32 \<times> u32 \<times> u32" where
  "jen_round s1 s2 s3 = (\<lambda>(a, b, c).
     let a = jen_line s1 a b c; b = jen_line s2 b c a; c = jen_line s3 c a b in (a, b, c))"

lemma jen_line_inj: "jen_line sh a b c = jen_line sh a' b c \<longleftrightarrow> a = a'"
  by (simp add: jen_line_def xor_same)

lemma jen_round_inj: "jen_round s1 s2 s3 t = jen_round s1 s2 s3 t' \<longleftrightarrow> t = t'"
proof (cases t; cases t')
  fix a b c a' b' c' assume t: "t = (a, b, c)" "t' = (a', b', c')"
  show ?thesis
  proof
    assume eq: "jen_round s1 s2 s3 t = jen_round s1 s2 s3 t'"
    define x where "x = jen_line s1 a b c"
    define y where "y = jen_line s2 b c x"
    have e: "jen_round s1 s2 s3 t = (x, y, jen_line s3 c x y)" by (simp add: t jen_round_def x_def y_def Let_def)
    have e': "jen_round s1 s2 s3 t' = (jen_line s1 a' b' c', jen_line s2 b' c' (jen_line s1 a' b' c'),
        jen_line s3 c' (jen_line s1 a' b' c') (jen_line s2 b' c' (jen_line s1 a' b' c')))"
      by (simp add: t jen_round_def Let_def)
    have x: "x = jen_line s1 a' b' c'" using eq e e' by simp
    have y: "y = jen_line s2 b' c' x" using eq e e' unfolding x by simp
    have z: "jen_line s3 c x y = jen_line s3 c' x y" using eq e e' unfolding y unfolding x by simp
    from z have c: "c = c'" by (simp only: jen_line_inj)
    from y have b: "b = b'" by (simp only: y_def c jen_line_inj)
    from x have "a = a'" by (simp only: x_def b c jen_line_inj)
    with b c show "t = t'" by (simp add: t)
  qed simp
qed

lemma jen_mix_rounds:
  "HASH_JEN_MIX a b c =
     jen_round (drop_bit 3) (push_bit 10) (drop_bit 15)
      (jen_round (drop_bit 12) (push_bit 16) (drop_bit 5)
        (jen_round (drop_bit 13) (push_bit 8) (drop_bit 13) (a, b, c)))"
  by (simp add: HASH_JEN_MIX_def jen_line_def jen_round_def Let_def)

lemma jen_mix_inj: "HASH_JEN_MIX a b c = HASH_JEN_MIX a' b' c' \<longleftrightarrow> a = a' \<and> b = b' \<and> c = c'"
  unfolding jen_mix_rounds jen_round_inj by simp

end
