(* ===== verification/Uthash_Oom.thy ===== *)
theory Uthash_Oom
  imports Uthash_Insert
begin

text \<open>
  The insertion macros of \<open>src/uthash.h\<close> as they are compiled with \<open>HASH_NONFATAL_OOM\<close>: an
  allocation that fails does not end the program, and the insertion is undone. The results of the
  allocations to come are part of the state, with the number of blocks that are allocated. Shown
  below: an insertion adds the element or leaves the list of elements as it was, and no block is
  lost in either case.
\<close>

section \<open>Memory\<close>

text \<open>When no results are left, allocations succeed. A free without an allocated block faults.\<close>

record mem =
  mm_results :: "bool list"
  mm_blocks :: nat

definition uthash_malloc :: "mem \<Rightarrow> bool \<times> mem" where
  "uthash_malloc m =
     (let ok = (mm_results m = [] \<or> hd (mm_results m)) in
      (ok, \<lparr>mm_results = tl (mm_results m), mm_blocks = (if ok then mm_blocks m + 1 else mm_blocks m)\<rparr>))"

definition uthash_free :: "mem \<Rightarrow> mem option" where
  "uthash_free m = (if mm_blocks m = 0 then None else Some (m\<lparr>mm_blocks := mm_blocks m - 1\<rparr>))"

section \<open>The macros\<close>

definition HASH_MAKE_TABLE_oom :: "addr \<Rightarrow> mem \<Rightarrow> (table option \<times> mem) option" where
  "HASH_MAKE_TABLE_oom a m =
     (let (ok, m) = uthash_malloc m in
      if \<not> ok then Some (None, m)
      else let (ok, m) = uthash_malloc m in
        if \<not> ok then do {
          m \<leftarrow> uthash_free m;
          Some (None, m)
        } else Some (Some (HASH_MAKE_TABLE a), m))"

text \<open>The first component is the variable \<open>oomed\<close>, here and below.\<close>

definition HASH_EXPAND_BUCKETS_oom :: "table \<Rightarrow> handles \<Rightarrow> mem \<Rightarrow> (bool \<times> table \<times> handles \<times> mem) option" where
  "HASH_EXPAND_BUCKETS_oom t hh m =
     (let (ok, m) = uthash_malloc m in
      if \<not> ok then Some (True, t, hh, m)
      else do {
        (t, hh) \<leftarrow> HASH_EXPAND_BUCKETS t hh;
        m \<leftarrow> uthash_free m;
        Some (False, t, hh, m)
      })"

definition HASH_ADD_TO_BKT_oom :: "nat \<Rightarrow> addr \<Rightarrow> table \<Rightarrow> handles \<Rightarrow> mem \<Rightarrow> (bool \<times> table \<times> handles \<times> mem) option" where
  "HASH_ADD_TO_BKT_oom i addhh t hh m = do {
     (t, hh) \<leftarrow> bkt_push i addhh t hh;
     expand \<leftarrow> bkt_full i t;
     if expand then do {
       (oomed, t, hh, m) \<leftarrow> HASH_EXPAND_BUCKETS_oom t hh m;
       if oomed then do {
         (t, hh) \<leftarrow> HASH_DEL_IN_BKT i addhh t hh;
         Some (True, t, hh, m)
       } else Some (False, t, hh, m)
     } else Some (False, t, hh, m)
   }"

text \<open>The element is in no bucket any more; this prepares it for \<open>HASH_DELETE_HH\<close>, which counts it out again.\<close>

definition HASH_ROLLBACK_BKT :: "addr \<Rightarrow> table \<Rightarrow> handles \<Rightarrow> (table \<times> handles) option" where
  "HASH_ROLLBACK_BKT item t hh = do {
     h \<leftarrow> hh item;
     let i = unat (HASH_TO_BKT (hh_hashv h) (ht_num_buckets t));
     b \<leftarrow> arr_get (ht_buckets t) i;
     bs \<leftarrow> arr_set (ht_buckets t) i (b\<lparr>bk_count := bk_count b + 1\<rparr>);
     hh \<leftarrow> wr_hh item (\<lambda>h. h\<lparr>hh_next := NULL\<rparr>) hh;
     hh \<leftarrow> wr_hh item (\<lambda>h. h\<lparr>hh_prev := NULL\<rparr>) hh;
     Some (t\<lparr>ht_buckets := bs\<rparr>, hh)
   }"

text \<open>\<open>HASH_DELETE_HH\<close> with its effect on the memory: it frees the table with the last element.\<close>

definition HASH_DELETE_mem :: "addr \<Rightarrow> hash \<Rightarrow> mem \<Rightarrow> (hash \<times> mem) option" where
  "HASH_DELETE_mem del H m = do {
     d \<leftarrow> hs_hh H del;
     m \<leftarrow> (if app_prev d = NULL \<and> app_next d = NULL then do {
          m \<leftarrow> uthash_free m;
          uthash_free m
        } else Some m);
     H \<leftarrow> HASH_DELETE_HH del H;
     Some (H, m)
   }"

text \<open>The first component of the result: whether \<open>add->hh.tbl\<close> is not null in the end, that is, whether the element
was added.\<close>

definition HASH_ADD_TO_TABLE_oom :: "u32 \<Rightarrow> addr \<Rightarrow> bool \<Rightarrow> hash \<Rightarrow> mem \<Rightarrow> (bool \<times> hash \<times> mem) option" where
  "HASH_ADD_TO_TABLE_oom hashval a oomed H m =
     (if \<not> oomed then do {
        t \<leftarrow> hs_tbl H;
        let t = t\<lparr>ht_num_items := ht_num_items t + 1\<rparr>;
        (oomed, t, hh, m) \<leftarrow> HASH_ADD_TO_BKT_oom (unat (HASH_TO_BKT hashval (ht_num_buckets t))) a t (hs_hh H) m;
        if oomed then do {
          (t, hh) \<leftarrow> HASH_ROLLBACK_BKT a t hh;
          (H, m) \<leftarrow> HASH_DELETE_mem a \<lparr>hs_head = hs_head H, hs_tbl = Some t, hs_hh = hh\<rparr> m;
          Some (False, H, m)
        } else Some (True, \<lparr>hs_head = hs_head H, hs_tbl = Some t, hs_hh = hh\<rparr>, m)
      } else Some (False, H, m))"

text \<open>The first element makes the table.\<close>

definition first_link_oom :: "addr \<Rightarrow> hash \<Rightarrow> handles \<Rightarrow> mem \<Rightarrow> (bool \<times> hash \<times> mem) option" where
  "first_link_oom a H hh m = do {
     hh \<leftarrow> wr_hh a (\<lambda>h. h\<lparr>app_next := NULL, app_prev := NULL\<rparr>) hh;
     (t, m) \<leftarrow> HASH_MAKE_TABLE_oom a m;
     case t of None \<Rightarrow> Some (True, H\<lparr>hs_hh := hh\<rparr>, m)
     | Some t \<Rightarrow> Some (False, \<lparr>hs_head = a, hs_tbl = Some t, hs_hh = hh\<rparr>, m)
   }"

definition HASH_ADD_KEYPTR_BYHASHVALUE_oom ::
    "string \<Rightarrow> u32 \<Rightarrow> u32 \<Rightarrow> addr \<Rightarrow> hash \<Rightarrow> mem \<Rightarrow> (bool \<times> hash \<times> mem) option" where
  "HASH_ADD_KEYPTR_BYHASHVALUE_oom key keylen hashval a H m = do {
     hh \<leftarrow> wr_hh a (\<lambda>h. h\<lparr>hh_hashv := hashval, hh_key := key, hh_keylen := keylen\<rparr>) (hs_hh H);
     (oomed, H, m) \<leftarrow>
       (if hs_head H = NULL then first_link_oom a H hh m
        else do {
          t \<leftarrow> hs_tbl H;
          (t, hh) \<leftarrow> HASH_APPEND_LIST a t hh;
          Some (False, \<lparr>hs_head = hs_head H, hs_tbl = Some t, hs_hh = hh\<rparr>, m) });
     HASH_ADD_TO_TABLE_oom hashval a oomed H m
   }"

definition HASH_ADD_KEYPTR_oom :: "string \<Rightarrow> u32 \<Rightarrow> addr \<Rightarrow> hash \<Rightarrow> mem \<Rightarrow> (bool \<times> hash \<times> mem) option" where
  "HASH_ADD_KEYPTR_oom key keylen a H m = HASH_ADD_KEYPTR_BYHASHVALUE_oom key keylen (HASH_VALUE key keylen) a H m"

definition HASH_ADD_KEYPTR_BYHASHVALUE_INORDER_oom ::
    "(addr \<Rightarrow> addr \<Rightarrow> int) \<Rightarrow> string \<Rightarrow> u32 \<Rightarrow> u32 \<Rightarrow> addr \<Rightarrow> hash \<Rightarrow> mem \<Rightarrow> (bool \<times> hash \<times> mem) option" where
  "HASH_ADD_KEYPTR_BYHASHVALUE_INORDER_oom cmp key keylen hashval a H m = do {
     hh \<leftarrow> wr_hh a (\<lambda>h. h\<lparr>hh_hashv := hashval, hh_key := key, hh_keylen := keylen\<rparr>) (hs_hh H);
     (oomed, H, m) \<leftarrow>
       (if hs_head H = NULL then first_link_oom a H hh m
        else do {
          (head, t, hh) \<leftarrow> inorder_link cmp a H hh;
          Some (False, \<lparr>hs_head = head, hs_tbl = Some t, hs_hh = hh\<rparr>, m) });
     HASH_ADD_TO_TABLE_oom hashval a oomed H m
   }"

definition HASH_ADD_KEYPTR_INORDER_oom ::
    "(addr \<Rightarrow> addr \<Rightarrow> int) \<Rightarrow> string \<Rightarrow> u32 \<Rightarrow> addr \<Rightarrow> hash \<Rightarrow> mem \<Rightarrow> (bool \<times> hash \<times> mem) option" where
  "HASH_ADD_KEYPTR_INORDER_oom cmp key keylen a H m =
     HASH_ADD_KEYPTR_BYHASHVALUE_INORDER_oom cmp key keylen (HASH_VALUE key keylen) a H m"

section \<open>Blocks\<close>

text \<open>A table has two blocks: the struct and the array of buckets.\<close>

definition table_blocks :: "hash \<Rightarrow> nat" where
  "table_blocks H = (case hs_tbl H of None \<Rightarrow> 0 | Some _ \<Rightarrow> 2)"

definition all_succeed :: "mem \<Rightarrow> bool" where
  "all_succeed m \<longleftrightarrow> list_all id (mm_results m)"

lemma malloc_cases:
  obtains m' where "uthash_malloc m = (True, m')" "mm_blocks m' = mm_blocks m + 1" "all_succeed m \<Longrightarrow> all_succeed m'"
  | m' where "uthash_malloc m = (False, m')" "mm_blocks m' = mm_blocks m" "\<not> all_succeed m"
  by (cases "mm_results m"; cases "hd (mm_results m)") (auto simp: uthash_malloc_def Let_def all_succeed_def)

lemma free_run:
  "0 < mm_blocks m \<Longrightarrow> \<exists>m'. uthash_free m = Some m' \<and> Suc (mm_blocks m') = mm_blocks m \<and> mm_results m' = mm_results m"
  by (simp add: uthash_free_def)

lemma make_table_oom:
  "(\<exists>m'. HASH_MAKE_TABLE_oom a m = Some (None, m') \<and> mm_blocks m' = mm_blocks m \<and> \<not> all_succeed m) \<or>
   (\<exists>m'. HASH_MAKE_TABLE_oom a m = Some (Some (HASH_MAKE_TABLE a), m') \<and> mm_blocks m' = mm_blocks m + 2
      \<and> (all_succeed m \<longrightarrow> all_succeed m'))"
proof (cases rule: malloc_cases [of m])
  case (1 m1)
  then show ?thesis
  proof (cases rule: malloc_cases [of m1])
    case (2 m2)
    with 1 free_run [of m2] show ?thesis by (auto simp: HASH_MAKE_TABLE_oom_def)
  qed (auto simp: HASH_MAKE_TABLE_oom_def)
qed (auto simp: HASH_MAKE_TABLE_oom_def)

section \<open>Undoing an insertion\<close>

text \<open>An insertion into a bucket runs as without this option, or finds no memory for the expansion and leaves the bucket.\<close>

lemma add_to_bkt_oom:
  assumes run: "HASH_ADD_TO_BKT i a t hh = Some (t', hh')" and m: "0 < mm_blocks m"
  shows "\<exists>m'. mm_blocks m' = mm_blocks m \<and> (all_succeed m \<longrightarrow> all_succeed m')
      \<and> (HASH_ADD_TO_BKT_oom i a t hh m = Some (False, t', hh', m')
         \<or> \<not> all_succeed m \<and> (\<exists>t1 hh1. bkt_push i a t hh = Some (t1, hh1) \<and> bkt_full i t1 = Some True
            \<and> HASH_ADD_TO_BKT_oom i a t hh m = do {
                (t2, hh2) \<leftarrow> HASH_DEL_IN_BKT i a t1 hh1;
                Some (True, t2, hh2, m') }))"
proof -
  obtain t1 hh1 e where 1: "bkt_push i a t hh = Some (t1, hh1)" "bkt_full i t1 = Some e"
    "(if e then HASH_EXPAND_BUCKETS t1 hh1 else Some (t1, hh1)) = Some (t', hh')"
    using run by (auto simp: HASH_ADD_TO_BKT_def bind_eq_Some_conv)
  show ?thesis
  proof (cases e)
    case True
    show ?thesis
    proof (cases rule: malloc_cases [of m])
      case (1 m1)
      then obtain m2 where "uthash_free m1 = Some m2" "mm_blocks m2 = mm_blocks m" "mm_results m2 = mm_results m1"
        using free_run [of m1] by auto
      with 1 \<open>bkt_push i a t hh = Some (t1, hh1)\<close> \<open>bkt_full i t1 = Some e\<close> True show ?thesis
        using \<open>(if e then HASH_EXPAND_BUCKETS t1 hh1 else Some (t1, hh1)) = Some (t', hh')\<close>
        by (intro exI [of _ m2]) (auto simp: HASH_ADD_TO_BKT_oom_def HASH_EXPAND_BUCKETS_oom_def all_succeed_def)
    next
      case (2 m1)
      with 1 True show ?thesis
        by (intro exI [of _ m1]) (auto simp: HASH_ADD_TO_BKT_oom_def HASH_EXPAND_BUCKETS_oom_def)
    qed
  next
    case False
    with 1 show ?thesis by (intro exI [of _ m]) (auto simp: HASH_ADD_TO_BKT_oom_def)
  qed
qed

text \<open>\<open>HASH_DELETE_HH\<close> on an element that is in the list, and whose bucket counts it without having it.\<close>

lemma delete_rolled_back:
  assumes c: "chain (fld app_next hh) (fld app_prev hh) hd' (us @ a # vs)" and dom: "set (us @ a # vs) \<subseteq> dom hh"
    and ne: "us @ vs \<noteq> []" and d: "hh a = Some d" "hh_next d = NULL" "hh_prev d = NULL"
    and tl: "ht_tail t = last (us @ a # vs)"
    and i: "i = unat (HASH_TO_BKT (hh_hashv d) (ht_num_buckets t))" "i < length (ht_buckets t)"
    and b: "ht_buckets t ! i = b\<lparr>bk_count := bk_count b + 1\<rparr>" "bk_head b \<noteq> a"
  shows "\<exists>hd2 hh2. HASH_DELETE_mem a \<lparr>hs_head = hd', hs_tbl = Some t, hs_hh = hh\<rparr> m =
        Some (\<lparr>hs_head = hd2, hs_tbl = Some (t\<lparr>ht_tail := last (us @ vs), ht_buckets := (ht_buckets t)[i := b],
          ht_num_items := ht_num_items t - 1\<rparr>), hs_hh = hh2\<rparr>, m)
      \<and> chain (fld app_next hh2) (fld app_prev hh2) hd2 (us @ vs) \<and> bkt_view hh2 = bkt_view hh"
proof -
  let ?H = "\<lparr>hs_head = hd', hs_tbl = Some t, hs_hh = hh\<rparr>"
  obtain hd2 hh2 where 2: "HASH_DELETE_HH a ?H = do {
        (t, hh) \<leftarrow> HASH_DEL_IN_BKT i a (t\<lparr>ht_tail := last (us @ vs)\<rparr>) hh2;
        Some \<lparr>hs_head = hd2, hs_tbl = Some (t\<lparr>ht_num_items := ht_num_items t - 1\<rparr>), hs_hh = hh\<rparr> }"
      "chain (fld app_next hh2) (fld app_prev hh2) hd2 (us @ vs)" "bkt_view hh2 = bkt_view hh"
    using delete_unlink [of ?H us a vs d t] c dom ne d(1) tl by (auto simp: i(1))
  have "fld hh_next hh2 a = NULL" "fld hh_prev hh2 a = NULL" "a \<in> dom hh2"
    using d bkt_view_D(1-3) [OF 2(3)] by (auto simp: fld_def)
  then obtain d2 where d2: "hh2 a = Some d2" "hh_next d2 = NULL" "hh_prev d2 = NULL" by (auto simp: fld_def)
  have "\<not> (app_prev d = NULL \<and> app_next d = NULL)" using chain_at(3,4) [OF c] d(1) ne by (auto simp: fld_def)
  then show ?thesis
    using 2 d(1) d2 i(2) b by (auto simp: HASH_DELETE_mem_def HASH_DEL_IN_BKT_def Let_def)
qed

text \<open>The whole way back: the element was put into its bucket, is taken out, rolled back and deleted.\<close>

lemma rollback_ok:
  assumes el: "\<forall>b\<in>set (us @ vs). elem_ok hh b" and c: "chain (fld app_next hh) (fld app_prev hh) hd' (us @ a # vs)"
    and ok: "buckets_ok hh k (ht_buckets t) L" and mem: "members k L = set (us @ vs)" and s: "sized k t" and ne: "us @ vs \<noteq> []"
    and h: "hh a = Some h" and items: "ht_num_items t = of_nat (Suc (length (us @ vs)))" and tl: "ht_tail t = last (us @ a # vs)"
    and i: "i = bkt_of k h" and push: "bkt_push i a t hh = Some (t1, hh1)"
  shows "\<exists>t2 hh2 t3 hh3 H'. HASH_DEL_IN_BKT i a t1 hh1 = Some (t2, hh2) \<and> HASH_ROLLBACK_BKT a t2 hh2 = Some (t3, hh3)
      \<and> HASH_DELETE_mem a \<lparr>hs_head = hd', hs_tbl = Some t3, hs_hh = hh3\<rparr> m = Some (H', m)
      \<and> hash_ok H' (us @ vs) \<and> (\<forall>b\<in>set (us @ vs). key_of H' b = hh_key (the (hh b)))"
proof -
  have ik: "i < 2 ^ k" by (simp add: i bkt_of_less)
  have a: "a \<noteq> NULL" "a \<notin> members k L" using c mem by (auto simp: chain_def)
  have len: "length (ht_buckets t) = 2 ^ k" using ok by (simp add: buckets_ok_def)
  obtain b1 where 1: "t1 = t\<lparr>ht_buckets := (ht_buckets t)[i := b1]\<rparr>"
      "buckets_ok hh1 k ((ht_buckets t)[i := b1]) (L(i := a # L i))" "app_view hh1 = app_view hh"
    using bkt_push_ok [OF ok h a i] push by auto
  obtain b hh2 where 2: "HASH_DEL_IN_BKT i a t1 hh1 = Some (t\<lparr>ht_buckets := (ht_buckets t)[i := b]\<rparr>, hh2)"
      "buckets_ok hh2 k ((ht_buckets t)[i := b]) L" "app_view hh2 = app_view hh1"
    using del_in_bkt_ok [OF 1(2) _ ik, of t1 "[]" a "L i"] by (auto simp: 1(1))
  have view: "app_view hh2 = app_view hh" using 2(3) 1(3) by simp
  obtain d where d: "hh2 a = Some d" "hh_hashv d = hh_hashv h" using app_view_D(4) [OF view h] by auto
  have ti: "unat (HASH_TO_BKT (hh_hashv d) (ht_num_buckets t)) = i" using s d(2) by (simp add: sized_def to_bkt bkt_of_def i)
  define g where "g = d\<lparr>hh_next := NULL, hh_prev := NULL\<rparr>"
  define hh3 where "hh3 = hh2(a \<mapsto> g)"
  define t3 where "t3 = t\<lparr>ht_buckets := (ht_buckets t)[i := b\<lparr>bk_count := bk_count b + 1\<rparr>]\<rparr>"
  have roll: "HASH_ROLLBACK_BKT a (t\<lparr>ht_buckets := (ht_buckets t)[i := b]\<rparr>) hh2 = Some (t3, hh3)"
    using d(1) ti ik len by (simp add: HASH_ROLLBACK_BKT_def Let_def wr_hh_def hh3_def g_def t3_def)
  have "app_view hh3 = app_view hh2" using d(1) by (auto simp: fun_eq_iff app_view_def hh3_def g_def)
  then have view3: "app_view hh3 = app_view hh" using view by simp
  have ok3: "buckets_ok hh3 k ((ht_buckets t)[i := b]) L" unfolding hh3_def by (rule buckets_frame [OF a(2) 2(2)])
  have "chain (fld hh_next hh3) (fld hh_prev hh3) (bk_head b) (L i)" using ok3 ik len by (auto simp: buckets_ok_def bucket_ok_def)
  then have "bk_head b = hd_or NULL (L i)" by (simp add: chain_def)
  moreover have "a \<notin> set (L i)" using a(2) ik by (auto simp: members_def)
  ultimately have ba: "bk_head b \<noteq> a" using a(1) hd_or_in_set [of "L i" NULL] by (cases "L i = []") auto
  have c3: "chain (fld app_next hh3) (fld app_prev hh3) hd' (us @ a # vs)" using c app_view_D(1,2) [OF view3] by simp
  have dom: "set (us @ a # vs) \<subseteq> dom hh3" using el h app_view_D(3) [OF view3] by (auto simp: elem_ok_def)
  have g: "hh3 a = Some g" "hh_next g = NULL" "hh_prev g = NULL" "hh_hashv g = hh_hashv d" by (simp_all add: hh3_def g_def)
  have t3: "ht_tail t3 = last (us @ a # vs)" "i = unat (HASH_TO_BKT (hh_hashv g) (ht_num_buckets t3))" "i < length (ht_buckets t3)"
    "ht_buckets t3 ! i = b\<lparr>bk_count := bk_count b + 1\<rparr>" using tl ti ik len g(4) by (simp_all add: t3_def)
  obtain hd4 hh4 where 4: "HASH_DELETE_mem a \<lparr>hs_head = hd', hs_tbl = Some t3, hs_hh = hh3\<rparr> m =
        Some (\<lparr>hs_head = hd4, hs_tbl = Some (t3\<lparr>ht_tail := last (us @ vs), ht_buckets := (ht_buckets t3)[i := b],
          ht_num_items := ht_num_items t3 - 1\<rparr>), hs_hh = hh4\<rparr>, m)"
      "chain (fld app_next hh4) (fld app_prev hh4) hd4 (us @ vs)" "bkt_view hh4 = bkt_view hh3"
    using delete_rolled_back [OF c3 dom ne g(1-3) t3 ba] by blast
  define t4 where "t4 = t3\<lparr>ht_tail := last (us @ vs), ht_buckets := (ht_buckets t3)[i := b], ht_num_items := ht_num_items t3 - 1\<rparr>"
  have "table_ok hh4 t4 (us @ vs)"
    using bkt_view_buckets [OF 4(3) ok3] s mem items unfolding table_ok_def
    by (intro conjI exI [of _ k] exI [of _ L]) (simp_all add: t4_def t3_def sized_def)
  moreover have keys: "elem_ok hh4 x \<and> hh_key (the (hh4 x)) = hh_key (the (hh x))" if "x \<in> set (us @ vs)" for x
    using elem_ok_bkt_view [OF 4(3), of x] elem_ok_app_view [OF view3, of x] el that by auto
  ultimately have "hash_ok \<lparr>hs_head = hd4, hs_tbl = Some t4, hs_hh = hh4\<rparr> (us @ vs)"
    using 4(2) ne by (auto simp: hash_ok_def)
  then show ?thesis using 2(1) roll 4(1) keys by (auto simp: t4_def key_of_def)
qed

section \<open>Insertions\<close>

text \<open>
  \<open>oom_result H xs a key ys m (added, H', m')\<close>: what an insertion may do to the table \<open>H\<close> with the elements \<open>xs\<close>:
  with the element \<open>a\<close> they are \<open>ys\<close>.
\<close>

definition oom_result :: "hash \<Rightarrow> addr list \<Rightarrow> addr \<Rightarrow> string \<Rightarrow> addr list \<Rightarrow> mem \<Rightarrow> bool \<times> hash \<times> mem \<Rightarrow> bool" where
  "oom_result H xs a key ys m r \<longleftrightarrow>
     (case r of (added, H', m') \<Rightarrow>
        hash_ok H' (if added then ys else xs) \<and> (added \<longrightarrow> key_of H' a = key) \<and> (\<forall>b\<in>set xs. key_of H' b = key_of H b) \<and>
        mm_blocks m' + table_blocks H = mm_blocks m + table_blocks H' \<and>
        (if all_succeed m then added \<and> all_succeed m' else added \<or> table_blocks H' = table_blocks H))"

text \<open>The first element of a table never expands it.\<close>

lemma first_no_expand:
  assumes "ht_buckets t = replicate 32 empty_bucket" "i < 32"
  shows "bkt_push i a t hh = Some (t1, hh1) \<Longrightarrow> bkt_full i t1 = Some False"
proof -
  have "\<not> (10 :: u32) \<le> 1" by (simp add: word_le_nat_alt)
  then show "bkt_push i a t hh = Some (t1, hh1) \<Longrightarrow> bkt_full i t1 = Some False" using assms
    by (auto simp: bkt_push_def bkt_full_def empty_bucket_def HASH_BKT_CAPACITY_THRESH_def Let_def split: Option.bind_splits)
qed

lemma add_to_table_oom:
  assumes kd: "keyed H a key hh1" and key: "length key < 2 ^ 32" and el: "\<forall>b\<in>set (us @ vs). elem_ok (hs_hh H) b"
    and li: "hh_linked hh1 (us @ vs) a hd' t hh2 (us @ a # vs)" and m: "0 < mm_blocks m"
    and one: "us @ vs = [] \<Longrightarrow> t = HASH_MAKE_TABLE a"
  shows "\<exists>added H' m'. HASH_ADD_TO_TABLE_oom (HASH_VALUE key (of_nat (length key))) a False \<lparr>hs_head = hd', hs_tbl = Some t, hs_hh = hh2\<rparr> m
        = Some (added, H', m') \<and> hash_ok H' (if added then us @ a # vs else us @ vs) \<and> (added \<longrightarrow> key_of H' a = key)
      \<and> (\<forall>b\<in>set (us @ vs). key_of H' b = key_of H b) \<and> mm_blocks m' = mm_blocks m
      \<and> (if all_succeed m then added \<and> all_succeed m' else added \<or> us @ vs \<noteq> [])"
proof -
  let ?hv = "HASH_VALUE key (of_nat (length key))" and ?t = "t\<lparr>ht_num_items := ht_num_items t + 1\<rparr>"
  let ?i = "unat (HASH_TO_BKT ?hv (ht_num_buckets t))"
  have c: "chain (fld app_next hh2) (fld app_prev hh2) hd' (us @ a # vs)" using li by (simp add: hh_linked_def)
  then have a: "a \<notin> set (us @ vs)" "a \<noteq> NULL" by (auto simp: chain_def)
  obtain t3 hh3 where 3: "HASH_ADD_TO_TABLE ?hv a t hh2 = Some (t3, hh3)"
      "hash_ok \<lparr>hs_head = hd', hs_tbl = Some t3, hs_hh = hh3\<rparr> (us @ a # vs)" "hh_key (the (hh3 a)) = key"
      "\<forall>b\<in>set (us @ vs). hh_key (the (hh3 b)) = key_of H b"
    using add_to_table_ok [OF kd key el li a] by blast
  have run: "HASH_ADD_TO_BKT ?i a ?t hh2 = Some (t3, hh3)" using 3(1) by (simp add: HASH_ADD_TO_TABLE_def Let_def)
  obtain m' where m': "mm_blocks m' = mm_blocks m" "all_succeed m \<Longrightarrow> all_succeed m'"
    and cases: "HASH_ADD_TO_BKT_oom ?i a ?t hh2 m = Some (False, t3, hh3, m')
      \<or> \<not> all_succeed m \<and> (\<exists>t1 g1. bkt_push ?i a ?t hh2 = Some (t1, g1) \<and> bkt_full ?i t1 = Some True
         \<and> HASH_ADD_TO_BKT_oom ?i a ?t hh2 m = do { (t2, g2) \<leftarrow> HASH_DEL_IN_BKT ?i a t1 g1; Some (True, t2, g2, m') })"
    using add_to_bkt_oom [OF run m] by blast
  from cases show ?thesis
  proof (elim disjE conjE exE)
    assume "HASH_ADD_TO_BKT_oom ?i a ?t hh2 m = Some (False, t3, hh3, m')"
    then show ?thesis using 3 m' by (intro exI [of _ True]) (simp add: HASH_ADD_TO_TABLE_oom_def Let_def key_of_def)
  next
    fix t1 g1
    assume oom: "\<not> all_succeed m" "bkt_push ?i a ?t hh2 = Some (t1, g1)" "bkt_full ?i t1 = Some True"
      "HASH_ADD_TO_BKT_oom ?i a ?t hh2 m = do { (t2, g2) \<leftarrow> HASH_DEL_IN_BKT ?i a t1 g1; Some (True, t2, g2, m') }"
    obtain k L where 2: "bkt_view hh2 = bkt_view hh1" "sized k t" "buckets_ok hh2 k (ht_buckets t) L" "members k L = set (us @ vs)"
        "ht_num_items t = of_nat (length (us @ vs))" "ht_tail t = last (us @ a # vs)"
      using li unfolding hh_linked_def by blast
    obtain h0 where hh1: "hh1 = (hs_hh H)(a \<mapsto> h0\<lparr>hh_hashv := ?hv, hh_key := key, hh_keylen := of_nat (length key)\<rparr>)"
      using kd by (auto simp: keyed_def)
    obtain h2 where h2: "hh2 a = Some h2" "hh_hashv h2 = ?hv"
      using bkt_view_D(4) [OF 2(1), of a "h0\<lparr>hh_hashv := ?hv, hh_key := key, hh_keylen := of_nat (length key)\<rparr>"] by (auto simp: hh1)
    have i: "?i = bkt_of k h2" using 2(2) h2(2) by (simp add: sized_def to_bkt bkt_of_def)
    have ne: "us @ vs \<noteq> []"
    proof
      assume "us @ vs = []"
      then have t: "t = HASH_MAKE_TABLE a" by (rule one)
      then have "?i < 32" using to_bkt [of ?hv 5] by (simp add: HASH_MAKE_TABLE_def)
      with first_no_expand [OF _ this oom(2)] oom(3) show False by (simp add: t HASH_MAKE_TABLE_def)
    qed
    have keys: "elem_ok hh2 x \<and> hh_key (the (hh2 x)) = key_of H x" if "x \<in> set (us @ vs)" for x
    proof -
      have "elem_ok hh1 x \<and> hh1 x = hs_hh H x" using el that a(1) by (auto simp: elem_ok_def hh1)
      then show ?thesis using elem_ok_bkt_view [OF 2(1), of x] by (simp add: key_of_def)
    qed
    have el2: "\<forall>x\<in>set (us @ vs). elem_ok hh2 x" using keys by blast
    have tt: "buckets_ok hh2 k (ht_buckets ?t) L" "sized k ?t" "ht_num_items ?t = of_nat (Suc (length (us @ vs)))"
        "ht_tail ?t = last (us @ a # vs)"
      using 2 by (simp_all add: sized_def)
    obtain t2 g2 t4 g4 H' where 4: "HASH_DEL_IN_BKT ?i a t1 g1 = Some (t2, g2)" "HASH_ROLLBACK_BKT a t2 g2 = Some (t4, g4)"
        "HASH_DELETE_mem a \<lparr>hs_head = hd', hs_tbl = Some t4, hs_hh = g4\<rparr> m' = Some (H', m')" "hash_ok H' (us @ vs)"
        "\<forall>b\<in>set (us @ vs). key_of H' b = hh_key (the (hh2 b))"
      using rollback_ok [OF el2 c tt(1) 2(4) tt(2) ne h2(1) tt(3,4) i oom(2)] by blast
    then show ?thesis using oom ne m' keys by (intro exI [of _ False]) (simp add: HASH_ADD_TO_TABLE_oom_def Let_def)
  qed
qed

text \<open>The element is the first of its table.\<close>

lemma add_first_oom:
  assumes ok: "hash_ok H []" and a: "a \<noteq> NULL" and kd: "keyed H a key hh1" and key: "length key < 2 ^ 32"
  shows "\<exists>r. (do { (oomed, H, m) \<leftarrow> first_link_oom a H hh1 m;
        HASH_ADD_TO_TABLE_oom (HASH_VALUE key (of_nat (length key))) a oomed H m }) = Some r \<and> oom_result H [] a key [a] m r"
proof -
  obtain hh2 where 2: "wr_hh a (\<lambda>h. h\<lparr>app_next := NULL, app_prev := NULL\<rparr>) hh1 = Some hh2"
      "hh_linked hh1 [] a a (HASH_MAKE_TABLE a) hh2 [a]" using make_table_linked [OF kd a] by blast
  have H: "hs_tbl H = None" "hs_head H = NULL" using ok by (simp_all add: hash_ok_def)
  from make_table_oom [of a m] show ?thesis
  proof (elim disjE exE conjE)
    fix m' assume "HASH_MAKE_TABLE_oom a m = Some (None, m')" "mm_blocks m' = mm_blocks m" "\<not> all_succeed m"
    then show ?thesis using 2(1) H
      by (simp add: first_link_oom_def HASH_ADD_TO_TABLE_oom_def oom_result_def table_blocks_def hash_ok_def)
  next
    fix m' assume m': "HASH_MAKE_TABLE_oom a m = Some (Some (HASH_MAKE_TABLE a), m')" "mm_blocks m' = mm_blocks m + 2"
      "all_succeed m \<longrightarrow> all_succeed m'"
    have "0 < mm_blocks m'" "hh_linked hh1 ([] @ []) a a (HASH_MAKE_TABLE a) hh2 ([] @ [a])"
      "\<forall>b\<in>set ([] @ []). elem_ok (hs_hh H) b" using m'(2) 2(2) by simp_all
    from add_to_table_oom [OF kd key this(3,2,1) refl] obtain added H' m2 where
      run: "HASH_ADD_TO_TABLE_oom (HASH_VALUE key (of_nat (length key))) a False
            \<lparr>hs_head = a, hs_tbl = Some (HASH_MAKE_TABLE a), hs_hh = hh2\<rparr> m' = Some (added, H', m2)"
      and 3: "hash_ok H' (if added then [] @ [a] else [] @ [])" "added \<longrightarrow> key_of H' a = key" "mm_blocks m2 = mm_blocks m'"
        "if all_succeed m' then added \<and> all_succeed m2 else added \<or> [] @ [] \<noteq> ([] :: addr list)" by blast
    have "added" using 3(4) by (cases "all_succeed m'") simp_all
    moreover from this 3(1) obtain t where "hs_tbl H' = Some t" by (auto simp: hash_ok_def)
    ultimately show ?thesis using 2(1) H run 3 m'
      by (auto simp: first_link_oom_def oom_result_def table_blocks_def split: if_splits)
  qed
qed

lemma add_linked_oom:
  assumes ok: "hash_ok H (us @ vs)" and ne: "us @ vs \<noteq> []" and kd: "keyed H a key hh1" and key: "length key < 2 ^ 32"
    and li: "hh_linked hh1 (us @ vs) a hd' t hh2 (us @ a # vs)" and m: "table_blocks H \<le> mm_blocks m"
  shows "\<exists>r. HASH_ADD_TO_TABLE_oom (HASH_VALUE key (of_nat (length key))) a False \<lparr>hs_head = hd', hs_tbl = Some t, hs_hh = hh2\<rparr> m
      = Some r \<and> oom_result H (us @ vs) a key (us @ a # vs) m r"
proof -
  have el: "\<forall>b\<in>set (us @ vs). elem_ok (hs_hh H) b" and tb: "table_blocks H = 2"
    using ok ne by (auto simp: hash_ok_def table_blocks_def)
  have "0 < mm_blocks m" using m tb by simp
  from add_to_table_oom [OF kd key el li this] ne obtain added H' m' where
    1: "HASH_ADD_TO_TABLE_oom (HASH_VALUE key (of_nat (length key))) a False \<lparr>hs_head = hd', hs_tbl = Some t, hs_hh = hh2\<rparr> m
          = Some (added, H', m')" "hash_ok H' (if added then us @ a # vs else us @ vs)" "added \<longrightarrow> key_of H' a = key"
      "\<forall>b\<in>set (us @ vs). key_of H' b = key_of H b" "mm_blocks m' = mm_blocks m"
      "if all_succeed m then added \<and> all_succeed m' else added \<or> us @ vs \<noteq> []" by blast
  have "table_blocks H' = 2" using 1(2) ne by (auto simp: hash_ok_def table_blocks_def split: if_splits)
  with 1 tb show ?thesis by (auto simp: oom_result_def)
qed

text \<open>So an insertion appends the element, or leaves the elements as they were, and accounts for every block.\<close>

lemma hash_add_oom_ok:
  assumes ok: "hash_ok H xs" and a: "hs_hh H a = Some h0" "a \<noteq> NULL" "a \<notin> set xs" and key: "length key < 2 ^ 32"
    and size: "\<And>t. hs_tbl H = Some t \<Longrightarrow> unat (ht_log2_num_buckets t) < 31" and m: "table_blocks H \<le> mm_blocks m"
  shows "\<exists>r. HASH_ADD_KEYPTR_oom key (of_nat (length key)) a H m = Some r \<and> oom_result H xs a key (xs @ [a]) m r"
proof -
  let ?kl = "of_nat (length key) :: u32"
  let ?hv = "HASH_VALUE key ?kl"
  define hh1 where "hh1 = (hs_hh H)(a \<mapsto> h0\<lparr>hh_hashv := ?hv, hh_key := key, hh_keylen := ?kl\<rparr>)"
  have kd: "keyed H a key hh1" by (auto simp: keyed_def hh1_def)
  have w: "wr_hh a (\<lambda>h. h\<lparr>hh_hashv := ?hv, hh_key := key, hh_keylen := ?kl\<rparr>) (hs_hh H) = Some hh1"
    using a(1) by (simp add: wr_hh_def hh1_def)
  have c: "chain (fld app_next (hs_hh H)) (fld app_prev (hs_hh H)) (hs_head H) xs" using ok by (simp add: hash_ok_def)
  show ?thesis
  proof (cases "xs = []")
    case True
    then have "hs_head H = NULL" using c by simp
    with add_first_oom [OF ok [unfolded True] a(2) kd key] w True show ?thesis
      by (simp add: HASH_ADD_KEYPTR_oom_def HASH_ADD_KEYPTR_BYHASHVALUE_oom_def)
  next
    case False
    then have h: "hs_head H \<noteq> NULL" using chain_null [OF c] by simp
    obtain t where t: "hs_tbl H = Some t" "table_ok (hs_hh H) t xs" using ok False by (auto simp: hash_ok_def)
    have dom: "set xs \<subseteq> dom (hs_hh H)" using ok by (auto simp: hash_ok_def elem_ok_def)
    obtain t' hh2 where 2: "HASH_APPEND_LIST a t hh1 = Some (t', hh2)" "hh_linked hh1 (xs @ []) a (hs_head H) t' hh2 (xs @ [a])"
      using append_list_linked [OF kd c t(2) dom a(3,2) False size [OF t(1)]] by auto
    from add_linked_oom [OF _ _ kd key 2(2) m] ok False 2(1) w h t(1) show ?thesis
      by (simp add: HASH_ADD_KEYPTR_oom_def HASH_ADD_KEYPTR_BYHASHVALUE_oom_def)
  qed
qed

lemma hash_add_inorder_oom_ok:
  assumes ok: "hash_ok H xs" and a: "hs_hh H a = Some h0" "a \<noteq> NULL" "a \<notin> set xs" and key: "length key < 2 ^ 32"
    and size: "\<And>t. hs_tbl H = Some t \<Longrightarrow> unat (ht_log2_num_buckets t) < 31" and m: "table_blocks H \<le> mm_blocks m"
  shows "\<exists>r. HASH_ADD_KEYPTR_INORDER_oom cmp key (of_nat (length key)) a H m = Some r \<and> oom_result H xs a key (place cmp a xs) m r"
proof -
  let ?kl = "of_nat (length key) :: u32"
  let ?hv = "HASH_VALUE key ?kl"
  define hh1 where "hh1 = (hs_hh H)(a \<mapsto> h0\<lparr>hh_hashv := ?hv, hh_key := key, hh_keylen := ?kl\<rparr>)"
  have kd: "keyed H a key hh1" by (auto simp: keyed_def hh1_def)
  have w: "wr_hh a (\<lambda>h. h\<lparr>hh_hashv := ?hv, hh_key := key, hh_keylen := ?kl\<rparr>) (hs_hh H) = Some hh1"
    using a(1) by (simp add: wr_hh_def hh1_def)
  have c: "chain (fld app_next (hs_hh H)) (fld app_prev (hs_hh H)) (hs_head H) xs" using ok by (simp add: hash_ok_def)
  show ?thesis
  proof (cases "xs = []")
    case True
    then have "hs_head H = NULL" "place cmp a xs = [a]" using c by (simp_all add: place_def)
    with add_first_oom [OF ok [unfolded True] a(2) kd key] w True show ?thesis
      by (simp add: HASH_ADD_KEYPTR_INORDER_oom_def HASH_ADD_KEYPTR_BYHASHVALUE_INORDER_oom_def)
  next
    case False
    then have h: "hs_head H \<noteq> NULL" using chain_null [OF c] by simp
    let ?us = "takeWhile (\<lambda>y. cmp y a \<le> 0) xs" and ?vs = "dropWhile (\<lambda>y. cmp y a \<le> 0) xs"
    obtain hd' t hh2 where 2: "inorder_link cmp a H hh1 = Some (hd', t, hh2)" "hh_linked hh1 xs a hd' t hh2 (?us @ a # ?vs)"
      using inorder_linked [OF ok kd a(2,3) size] unfolding place_def by blast
    have xs: "?us @ ?vs = xs" by (rule takeWhile_dropWhile_id)
    from add_linked_oom [of H ?us ?vs, unfolded xs, OF ok False kd key 2(2) m] 2(1) w h show ?thesis
      by (simp add: HASH_ADD_KEYPTR_INORDER_oom_def HASH_ADD_KEYPTR_BYHASHVALUE_INORDER_oom_def place_def)
  qed
qed

text \<open>A deletion frees the table exactly when it takes the last element.\<close>

lemma hash_delete_mem_ok:
  assumes ok: "hash_ok H (us @ a # vs)" and m: "2 \<le> mm_blocks m"
  shows "\<exists>H' m'. HASH_DELETE_mem a H m = Some (H', m') \<and> hash_ok H' (us @ vs) \<and> (\<forall>b\<in>set (us @ vs). key_of H' b = key_of H b)
      \<and> mm_blocks m' + table_blocks H = mm_blocks m + table_blocks H'"
proof -
  obtain H' where 1: "HASH_DELETE_HH a H = Some H'" "hash_ok H' (us @ vs)" "\<forall>b\<in>set (us @ vs). key_of H' b = key_of H b"
    using hash_delete_ok [OF ok] by (auto simp: HASH_DEL_def)
  have c: "chain (fld app_next (hs_hh H)) (fld app_prev (hs_hh H)) (hs_head H) (us @ a # vs)" using ok by (simp add: hash_ok_def)
  obtain d where d: "hs_hh H a = Some d" using ok by (auto simp: hash_ok_def elem_ok_def)
  have last: "app_prev d = NULL \<and> app_next d = NULL \<longleftrightarrow> us @ vs = []" using chain_at(3,4) [OF c] d by (auto simp: fld_def)
  have tb: "table_blocks H = 2" "table_blocks H' = (if us @ vs = [] then 0 else 2)"
    using ok 1(2) by (auto simp: hash_ok_def table_blocks_def split: if_splits)
  show ?thesis
  proof (cases "us @ vs = []")
    case True
    then show ?thesis using 1 d last tb m by (simp add: HASH_DELETE_mem_def uthash_free_def)
  next
    case False
    then have "\<not> (app_prev d = NULL \<and> app_next d = NULL)" using last by blast
    then have "HASH_DELETE_mem a H m = Some (H', m)" using 1(1) d by (auto simp: HASH_DELETE_mem_def)
    then show ?thesis using 1 tb False by simp
  qed
qed

end
