(* ===== verification/Spec2Isabelle.thy ===== *)
theory Spec2Isabelle
  imports Pubsub_Macros Broker_Conc Uthash Psqueue_conc Psqueue_ll_conc Sync_freertos Utlist_Insert Utlist_Sort
    Utlist_Single Utlist_Circular Uthash_Sort Uthash_Insert Uthash_Check Uthash_Select Uthash_Bloom Uthash_Functions Uthash_Oom
begin

text \<open>
  A verification of pubsub-c, a publish/subscribe library for C programs.

  THE PROGRAM. User code creates subscribers, each with a bounded queue (\<open>ps_new_subscriber\<close>), subscribes them to topics
  (\<open>ps_subscribe\<close>), and publishes messages (\<open>ps_new_msg\<close>, \<open>ps_publish\<close>). A message for \<open>a.b.c\<close> goes to the subscribers
  of \<open>a.b.c\<close> and, unless it is non-recursive, to those of \<open>a.b\<close>, \<open>a\<close> and the root. A queue holds references to shared,
  reference counted messages. A topic exists as long as it has a subscriber or a sticky message, the last one published
  with that flag, which new subscribers receive. \<open>src/pubsub.c\<close> is the broker; it is built with one of two queues
  (\<open>src/psqueue_b.c\<close>, ten priorities, or \<open>src/psqueue_ll.c\<close>, a ring) behind the interface \<open>src/psqueue.h\<close>, and with one of
  two synchronisation backends (\<open>src/sync_linux.c\<close>, \<open>src/sync_freertos.c\<close>) behind \<open>src/sync.h\<close>. Lists and the hash
  table of topics are macros of \<open>src/utlist.h\<close> and \<open>src/uthash.h\<close>.

  THE MODEL. Addresses are natural numbers and \<open>NULL\<close> is 0; structs are records in stores indexed by address. Every
  function that can fault is in the option monad: \<open>None\<close> is a read of a null or dangling pointer, an index out of bounds, a
  free of what is not allocated, a wrong member of a union, or a call that does not return (a lock taken twice, a wait
  that nothing ends). So \<open>f x = Some y\<close> says that the call returns, and does so without undefined behaviour. Counters
  and flags are words of the width that the code has.

  THEORIES, with the files they model.
  \<open>Ps_Prelude\<close>: addresses, arrays, the collections of simp rules, lemmas on words, lists and the option monad.
  \<open>Utlist\<close> (\<open>utlist.h\<close>): \<open>DL_APPEND\<close>, \<open>DL_DELETE\<close>, \<open>DL_FOREACH\<close>, \<open>DL_SEARCH_SCALAR\<close>, \<open>DL_COUNT\<close> on the link fields of nodes,
    and the predicate \<open>DL\<close> that relates a pointer structure to the list of its nodes.
  \<open>Utlist_Insert\<close> (\<open>utlist.h\<close>): the other macros of doubly linked lists: insertion at the head, next to a node and
    in order, replacement, concatenation, search, the traversal that allows deletion.
  \<open>Utlist_Single\<close>, \<open>Utlist_Circular\<close> (\<open>utlist.h\<close>): all macros of singly linked and of circular lists, with the predicates \<open>SL\<close>
    and \<open>CD\<close> in the place of \<open>DL\<close>. The versions that the header has for compilers without \<open>decltype\<close> end in \<open>_nd\<close>; they
    are proved to have the same results.
  \<open>Link_Sort\<close> (\<open>utlist.h\<close>, \<open>uthash.h\<close>): the loops of the merge sort that the headers repeat for every kind of links, over a record
    of the operations that differ (\<open>sorter\<close>), and the proof, in the locale \<open>relinker\<close>, that they are a stable sort. The locale is
    interpreted on the three kinds of lists and on the hash table: \<open>DL_SORT\<close> in \<open>Utlist_Sort\<close>, \<open>LL_SORT\<close>, \<open>CDL_SORT\<close>, and
    \<open>HASH_SRT\<close> in \<open>Uthash_Sort\<close>.
  \<open>Uthash\<close> (\<open>uthash.h\<close>): find, add, delete and iterate down to the bucket chains, Jenkins' hash, bucket expansion; the
    table refines the list of its elements in insertion order, which is what the broker theory uses.
  \<open>Uthash_Insert\<close>, \<open>Uthash_Check\<close>, \<open>Uthash_Select\<close> (\<open>uthash.h\<close>): the macros of the table that the program does not use: ordered
    insertion, replacement, the forms for string, integer and pointer keys, clearing; the consistency check \<open>HASH_FSCK\<close>; and
    \<open>HASH_SELECT\<close>, which makes a second table of the same elements.
  \<open>Uthash_Functions\<close> (\<open>uthash.h\<close>): the six other hash functions, with the locale \<open>mixer\<close> for those that take the key byte by byte.
  \<open>Uthash_Bloom\<close> (\<open>uthash.h\<close>): the Bloom filter, and find, add and delete with the filter compiled in.
  \<open>Uthash_Oom\<close> (\<open>uthash.h\<close>): insertion as it is compiled with \<open>HASH_NONFATAL_OOM\<close>. The results of the allocations are an input, and
    the blocks are counted.
  \<open>Cstring\<close>, \<open>Cdouble\<close>: topic strings, flags and parents; the conversions between \<open>double\<close> and \<open>int64_t\<close>.
  \<open>Message\<close>, \<open>Message_Ok\<close> (\<open>pubsub.c\<close>, first third, and the inline functions of \<open>pubsub.h\<close>): creation, duplication, setters,
    readers, reference counts, destructors; \<open>heap_ok n\<close> says that \<open>n\<close> gives the exact number of references to each message.
  \<open>Sync\<close> (\<open>sync_linux.c\<close>), \<open>Sync_freertos\<close> (\<open>sync_freertos.c\<close>): mutexes, semaphores, deadlines. The FreeRTOS kernel is a
    parameter; \<open>rtos_contract\<close> is the documented behaviour of its semaphore calls, and \<open>kernel_api\<close> a kernel that keeps it.
  \<open>Psqueue\<close>: the operations of \<open>psqueue.h\<close> as the record \<open>qops\<close>; the locale \<open>msg_queue\<close> states what a client may assume of them
    (a push with room stores the message, without room refuses it or gives one up, a pull takes the first message), and
    \<open>fifo_queue\<close> extends it. \<open>Psqueue_ll\<close> and \<open>Psqueue_b\<close> define the two queues and interpret the locales on them;
    \<open>Psqueue_b\<close> works on the nodes and their links, and refines the abstract queue \<open>spec_push\<close>/\<open>spec_pull\<close> of ten lists.
  \<open>Psqueue_threads\<close>: a queue under any interleaving of the atomic actions of any number of threads; its locale \<open>threads\<close> is
    interpreted on the priority queue in \<open>Psqueue_conc\<close> and on the ring in \<open>Psqueue_ll_conc\<close>.
  \<open>Broker\<close> (\<open>pubsub.c\<close>, the rest): the static variables as the record \<open>state\<close> and one definition per function, over any \<open>qops\<close>.
  \<open>Broker_Links\<close>, \<open>Broker_Ok\<close>: the invariant \<open>broker_ok\<close>: the subscriber lists of topics and the topic lists of subscribers agree,
    topics are distinct and needed, the queues are well formed, the lock is free, statistics and every reference count are
    exact (references of user code are counted by the argument \<open>U\<close>).
  \<open>Broker_Publish\<close>, \<open>Broker_Subscribe\<close>, \<open>Broker_Unsubscribe\<close>, \<open>Broker_Api\<close>, \<open>Broker_Call\<close>: what each function does, proved once in
    the locale \<open>msg_queue\<close>, hence for both queues. \<open>Broker_Call\<close> treats \<open>ps_call\<close> and \<open>ps_wait_one\<close>, whose waits let other threads run:
    \<open>env\<close> is what these do to the state, and \<open>rely\<close> says that they call the API and leave the private subscriber alive.
  \<open>Broker_Reach\<close>: runs of the API. \<open>api_call\<close> lists the calls of user code, \<open>allowed\<close> their contract, \<open>exec\<close> runs one.
  \<open>Broker_Conc\<close>: one publication, cut into its deliveries, interleaved with the calls of other threads that take no lock.
  \<open>Pubsub_Macros\<close> (\<open>pubsub.h\<close>): the macros that make and publish a message in one expression, encodings and flag strings.

  WHAT IS SHOWN BELOW. Safety of every run of the API and absence of leaks; the effect of every operation of the broker on
  topics, queues and references; delivery from a publishing macro to the typed reader of the subscriber; refinement of the
  queues, lists and the hash table to lists; that the four sorts agree, that replacing an element of the table changes that key alone,
  that \<open>HASH_FSCK\<close> accepts the consistent tables only, that the Bloom filter changes no lookup,
  that a failed insertion leaves the table as it was; linearisability of both queues; agreement of the two backends; the
  round trips and the bounds of strings, values and times; and, as theorems, the defects that the code has.

  BOUNDS. \<open>room cap k U s\<close> keeps 32-bit reference counts from wrapping: the places for references (user code, queue
  capacities, sticky messages) and \<open>k\<close> more are fewer than \<open>2 ^ 32\<close>. Queue sizes are at most \<open>SEM_VALUE_MAX\<close>, the range of
  a POSIX semaphore, and lists that are sorted have at most \<open>2 ^ 30\<close> nodes. There is no fuel: loops are recursive functions, or partial functions in the option monad whose
  results are proved to be \<open>Some\<close>. Allocation does not fail, as the code assumes, except in \<open>Uthash_Oom\<close>.

  NOT MODELLED. Time: a wait that has to wait ends by its timeout or by another thread, with no measure of how long; the branch
  of \<open>deadline_ms\<close> under \<open>PS_USE_GETTIMEOFDAY\<close> differs only in where the clock is read. Interleavings finer
  than those of \<open>Psqueue_threads\<close> (atomic actions of a queue) and \<open>Broker_Conc\<close> (deliveries of a publication): elsewhere an API
  call is one step, as the global lock makes it for the functions that take it.
  Callbacks: a call of one is logged, its body is user code. Of \<open>uthash.h\<close>: the branches of
  \<open>HASH_SELECT\<close> and \<open>HASH_BLOOM_MAKE\<close> under \<open>HASH_NONFATAL_OOM\<close>, which the program does not define; \<open>HASH_EMIT_KEY\<close>, which writes
  the keys to a file; and the variants of \<open>MUR_GETBLOCK\<close> for processors without unaligned reads. \<open>HASH_SELECT\<close> is shown correct for selections
  of at most 26 elements: it may double the buckets of the new table with each one. The aliases without prefix at the end of
  \<open>pubsub.h\<close> are other names of the macros of \<open>Pubsub_Macros\<close>.
\<close>

unbundle bit_operations_syntax

section \<open>Runs of the library\<close>


text \<open>A small broker: subscriber 1 with room for three messages on topic \<open>a\<close>, and user code with a message \<open>m\<close> for \<open>a.b\<close>.\<close>

lemma demo:
  assumes f: "f AND PS_MSK_TYP = PS_INT_TYP"
  obtains s u m where "reachable b_ops b_msgs b_cap ((\<lambda>_. 0)(m := 1), s)" and "broker_ok b_inv b_msgs ((\<lambda>_. 0)(m := 1)) s" and "g_subs s = [1 \<mapsto> u]"
    and "b_inv (su_q u)" and "b_msgs (su_q u) = []" and "b_cap (su_q u) = 3" and "su_overflow u = 0"
    and "topic_at s = [''a'' \<mapsto> \<lparr>tm_topic = ''a'', tm_subscribers = [new_link 1 no_flags], tm_sticky = NULL\<rparr>]"
    and "mh_msgs (g_heap s) = [m \<mapsto> \<lparr>m_ref = 1, m_topic = Some ''a.b'', m_rtopic = None, m_flags = f, m_priority = 0, m_val = V_int 7\<rparr>]"
    and "room b_cap 9 ((\<lambda>_. 0)(m := 1)) s"
proof -
  let ?none = "(\<lambda>_. 0) :: addr \<Rightarrow> nat" and ?init = "ps_init static_state :: bqueue state"
  have f0: "g_subs ?init = Map.empty" "g_tms ?init = Map.empty" "g_heap ?init = mheap_init" "g_next ?init = 1"
    "topic_at ?init = Map.empty"
    by (simp_all add: ps_init_def static_state_def topic_at_def lookup_def fun_eq_iff)
  have sem: "3 \<le> SEM_VALUE_MAX" by (simp add: SEM_VALUE_MAX_def)
  have ok0: "broker_ok b_inv b_msgs ?none ?init" by (rule broker_ok_start)
  obtain s1 u1 where s1: "ps_new_subscriber b_ops 3 None ?init = Some (1, s1)" "broker_ok b_inv b_msgs ?none s1"
    "g_subs s1 = [1 \<mapsto> u1]" "b_inv (su_q u1)" "b_msgs (su_q u1) = []" "b_cap (su_q u1) = 3" "su_overflow u1 = 0"
    "g_tms s1 = Map.empty" "g_heap s1 = mheap_init" "topic_at s1 = Map.empty"
    using bq.ps_new_subscriber_none [OF ok0 sem] unfolding f0 by blast
  have room0: "room b_cap 9 ?none ?init" and room1: "room b_cap 9 ?none s1"
    by (simp_all add: room_def f0 s1(3,6,8) hsum_def)
  have "exec b_ops (New_subscriber 3 []) (?none, ?init) = Some (?none, s1)"
    using s1(1) by (simp add: ps_new_subscriber_def ps_subscribe_many_def Let_def)
  moreover have "allowed b_msgs b_cap (New_subscriber 3 []) (?none, ?init)"
    using sem room_mono [OF room0, of ?init 4] by simp
  ultimately have r1: "reachable b_ops b_msgs b_cap (?none, s1)"
    using reachable.step [OF reachable.start] api_step_iff by blast
  have fl: "parse_flags (flag_chars ''a'') no_flags = no_flags" and cut: "cut_topic ''a'' = ''a''" by code_simp+
  have new: "find_su 1 (subs_at (topic_at s1) ''a'') = None" by (simp add: s1(10) subs_at_def find_su_def)
  have u1: "g_subs s1 1 = Some u1" by (simp add: s1(3))
  have np: "unat (fl_priority g) < 10" if "None = Some g" for g using that by simp
  have nul: "NUL \<notin> set ''a''" by code_simp
  obtain s2 u2 where s2: "ps_subscribe_flags b_ops 1 ''a'' None s1 = Some (0, s2)" "idle_ok b_inv b_msgs ?none s2"
    "topic_at s2 = subscribe_update 1 no_flags ''a'' (topic_at s1)"
    "\<forall>su'. su' \<noteq> 1 \<longrightarrow> g_subs s2 su' = g_subs s1 su'" "g_subs s2 1 = Some u2" "b_cap (su_q u2) = b_cap (su_q u1)"
    "card (dom (g_tms s2)) \<le> card (dom (g_tms s1)) + 1" "same_content (g_heap s1) (g_heap s2)"
    "length (b_msgs (su_q u1)) + length (sticky_due no_flags ''a'' s1) \<le> b_cap (su_q u1) \<longrightarrow>
       mset (b_msgs (su_q u2)) = mset (b_msgs (su_q u1)) + mset (sticky_due no_flags ''a'' s1) \<and> su_overflow u2 = su_overflow u1"
    using bq.ps_subscribe_new [of ?none s1 1 u1 "''a''" None "''a''" no_flags, OF _ u1 nul room_mono [OF room1] np _ _ new]
      s1(2) by (auto simp: broker_ok_idle fl cut)
  have due: "sticky_due no_flags ''a'' s1 = []" by (simp add: sticky_due_def no_flags_def s1(10))
  then have u2: "b_msgs (su_q u2) = []" "b_cap (su_q u2) = 3" "su_overflow u2 = 0" using s2(6,9) s1(5-7) by simp_all
  have subs2: "g_subs s2 = [1 \<mapsto> u2]"
  proof
    show "g_subs s2 x = [1 \<mapsto> u2] x" for x using s2(4,5) s1(3) by (cases "x = 1") auto
  qed
  have a2: "allowed b_msgs b_cap (Subscribe 1 ''a'' None) (?none, s1)"
    using nul room_mono [OF room1, of s1 2] by (simp add: s1(3))
  have "exec b_ops (Subscribe 1 ''a'' None) (?none, s1) = Some (?none, s2)" using s2(1) by simp
  with a2 have r2: "reachable b_ops b_msgs b_cap (?none, s2)" using reachable.step [OF r1] api_step_iff by blast
  have T2: "topic_at s2 = [''a'' \<mapsto> \<lparr>tm_topic = ''a'', tm_subscribers = [new_link 1 no_flags], tm_sticky = NULL\<rparr>]"
    by (simp add: s2(3) s1(10) subscribe_update_def)
  have ok2: "broker_ok b_inv b_msgs ?none s2" using bq.reachable_broker_ok [OF r2] by simp
  have "\<not> (\<exists>m. mh_msgs (g_heap s2) x = Some m)" for x using s2(8) by (auto simp: same_content_def s1(9))
  then have h2: "mh_msgs (g_heap s2) = Map.empty" by (auto simp: fun_eq_iff)
  let ?m = "mh_brk (g_heap s2)" and ?U = "(\<lambda>_. 0)(mh_brk (g_heap s2) := 1) :: addr \<Rightarrow> nat"
  obtain h where h: "ps_new_msg (Some ''a.b'') f [VA_int64 7] (g_heap s2) = Some (?m, h)"
    "mh_msgs h = (mh_msgs (g_heap s2))(?m \<mapsto> \<lparr>m_ref = 1, m_topic = Some ''a.b'', m_rtopic = None, m_flags = f,
       m_priority = 0, m_val = V_int 7\<rparr>)"
    using new_int_msg [OF broker_ok_heap [OF ok2] f, of "''a.b''" 7] by blast
  let ?s = "s2\<lparr>g_heap := h\<rparr>"
  have a3: "allowed b_msgs b_cap (Make_msg ''a.b'' f [VA_int64 7]) (?none, s2)" by (simp add: f va_ok_def va_value_def)
  have "exec b_ops (Make_msg ''a.b'' f [VA_int64 7]) (?none, s2) = Some (?U, ?s)" using h(1) by simp
  with a3 have r3: "reachable b_ops b_msgs b_cap (?U, ?s)" using reachable.step [OF r2] api_step_iff by blast
  have "card (dom (g_tms s2)) \<le> 1" using s2(7) by (simp add: s1(8))
  then have "room b_cap 9 ?U ?s" by (auto simp: room_def subs2 u2(2) hsum_def)
  then show ?thesis
    using that [OF r3 _ _ _ u2(1,2,3)] bq.reachable_broker_ok [OF r3] subs2 T2 h(2) h2 broker_ok_queue [OF ok2, of 1 u2] by (simp add: topic_at_links)
qed


section \<open>Publishing\<close>


lemma demo_targets:
  assumes "T = [''a'' \<mapsto> \<lparr>tm_topic = ''a'', tm_subscribers = [new_link 1 no_flags], tm_sticky = NULL\<rparr>]"
  shows "publish_targets T True (cut_topic ''a.b'') = [new_link 1 no_flags]"
proof -
  have "ancestors (cut_topic ''a.b'') = [''a.b'', ''a'', []]" by code_simp
  then show ?thesis by (simp add: publish_targets_def subs_at_def assms)
qed

lemma demo_int: "PS_INT_TYP AND PS_MSK_TYP = PS_INT_TYP" "PS_INT_TYP AND PS_FL_NONRECURSIVE = 0"
    "PS_INT_TYP AND PS_FL_STICKY = 0" "NUL \<notin> set ''a.b''"
  by code_simp+


text \<open>C9: whatever the state of the queues, publishing returns, counts at most the subscriptions that are not hidden, uses up
the reference of the caller, keeps the invariant, and changes nothing in the topic map but the sticky message of the
topic itself: a sticky message takes the slot, any other message clears it.\<close>

theorem publish_effect:
  assumes "broker_ok b_inv b_msgs U s" and "0 < U m" and "mh_msgs (g_heap s) m = Some mm"
    and "m_topic mm = Some topic" and "NUL \<notin> set topic" and "room b_cap 2 U s"
  shows "\<exists>n s'. ps_publish b_ops m s = Some (int n, s') \<and> broker_ok b_inv b_msgs (U(m := U m - 1)) s'
      \<and> n \<le> shown (publish_targets (topic_at s) (m_flags mm AND PS_FL_NONRECURSIVE = 0) (cut_topic topic))
      \<and> topic_at s' = sticky_update m (m_flags mm AND PS_FL_STICKY \<noteq> 0) (cut_topic topic) (topic_at s)
      \<and> dom (g_subs s') = dom (g_subs s)"
proof -
  let ?sls = "publish_targets (topic_at s) (m_flags mm AND PS_FL_NONRECURSIVE = 0) (cut_topic topic)"
  obtain r s1 s2 h where p: "ps_publish b_ops m s = Some (int r, s2\<lparr>g_heap := h, g_lock := False\<rparr>)"
    "core_ok b_inv b_msgs U s1" "room b_cap 1 U s1" "sls_ok s1 ?sls" "deliver_loop b_ops m ?sls 0 s1 = Some (r, s2)"
    "broker_ok b_inv b_msgs (U(m := U m - 1)) (s2\<lparr>g_heap := h, g_lock := False\<rparr>)"
    "topic_at s2 = sticky_update m (m_flags mm AND PS_FL_STICKY \<noteq> 0) (cut_topic topic) (topic_at s)"
    "keeps b_cap s2 = keeps b_cap s"
    using bq.ps_publish_run [OF assms] by blast
  have "r \<le> shown ?sls" using bq.deliver_loop_ok [OF p(2) assms(2) p(4,3), of 0] p(5) by (auto simp: shown_def)
  moreover have "dom (g_subs s2) = dom (g_subs s)" using keeps_dom [OF p(8)] .
  ultimately show ?thesis
    using p(1,6,7) by (intro exI [of _ r] exI [of _ "s2\<lparr>g_heap := h, g_lock := False\<rparr>"]) (simp add: topic_at_links)
qed

lemma demo_sticky: "(PS_INT_TYP OR PS_FL_STICKY) AND PS_MSK_TYP = PS_INT_TYP" "(PS_INT_TYP OR PS_FL_STICKY) AND PS_FL_STICKY \<noteq> 0"
  by code_simp+

lemma publish_effect_witness:
  "\<exists>U m s s' n t. reachable b_ops b_msgs b_cap (U, s) \<and> ps_publish b_ops m s = Some (n, s')
     \<and> topic_at s ''a.b'' = None \<and> topic_at s' ''a.b'' = Some t \<and> tm_sticky t = m \<and> m \<noteq> NULL"
proof -
  let ?f = "PS_INT_TYP OR PS_FL_STICKY"
  obtain s u m where d: "reachable b_ops b_msgs b_cap ((\<lambda>_. 0)(m := 1), s)" "room b_cap 9 ((\<lambda>_. 0)(m := 1)) s"
    "topic_at s = [''a'' \<mapsto> \<lparr>tm_topic = ''a'', tm_subscribers = [new_link 1 no_flags], tm_sticky = NULL\<rparr>]"
    "mh_msgs (g_heap s) = [m \<mapsto> \<lparr>m_ref = 1, m_topic = Some ''a.b'', m_rtopic = None, m_flags = ?f, m_priority = 0, m_val = V_int 7\<rparr>]"
    by (rule demo [OF demo_sticky(1)])
  let ?U = "((\<lambda>_. 0)(m := 1)) :: addr \<Rightarrow> nat"
  have ok: "broker_ok b_inv b_msgs ?U s" using bq.reachable_broker_ok [OF d(1)] by simp
  have m: "0 < ?U m" and mm: "mh_msgs (g_heap s) m = Some \<lparr>m_ref = 1, m_topic = Some ''a.b'', m_rtopic = None, m_flags = ?f, m_priority = 0, m_val = V_int 7\<rparr>"
    by (simp_all add: d(4))
  have cut: "cut_topic ''a.b'' = ''a.b''" by code_simp
  obtain n s' where s': "ps_publish b_ops m s = Some (int n, s')" "topic_at s' = sticky_update m True ''a.b'' (topic_at s)"
    using publish_effect [OF ok m mm _ demo_int(4) room_mono [OF d(2)]] demo_sticky(2) by (auto simp: cut)
  have "m \<noteq> NULL" using broker_ok_user [OF ok] by (auto split: if_splits)
  then show ?thesis
    using d(1,3) s' by (intro exI [of _ ?U] exI [of _ m] exI [of _ s] exI [of _ s'] exI [of _ "int n"]) (simp add: sticky_update_def)
qed

text \<open>C10: handing a message to one queue: with room it is stored, the result is 0 and the callbacks fire (the non-empty
callback only for the first message); with a full queue the result is -1, the overflow counter goes up, no callback
fires and the queue either keeps its messages or gives one up for the new one; in both cases every reference count stays
exact and nothing else changes.\<close>

theorem push_queue:
  assumes "core_ok b_inv b_msgs U s" and "0 < U m + held b_msgs s m" and "g_subs s su = Some u"
    and "unat p < 10" and "room b_cap 1 U s"
  shows "\<exists>r s'. push_subscriber_queue b_ops su m p s = Some (r, s') \<and> core_ok b_inv b_msgs U s'
      \<and> push_result b_msgs b_cap su m s r s'"
  by (rule bq.push_subscriber_queue_ok [OF assms])

lemma push_queue_witness:
  "\<exists>m s s'. push_subscriber_queue b_ops 1 m 4 s = Some (0, s')"
proof -
  obtain s u m where d: "reachable b_ops b_msgs b_cap ((\<lambda>_. 0)(m := 1), s)" "g_subs s = [1 \<mapsto> u]"
    "b_msgs (su_q u) = []" "b_cap (su_q u) = 3" "room b_cap 9 ((\<lambda>_. 0)(m := 1)) s"
    by (rule demo [OF demo_int(1)])
  have "core_ok b_inv b_msgs ((\<lambda>_. 0)(m := 1)) s" using broker_ok_D(1) [OF bq.reachable_broker_ok [OF d(1)]] by simp
  from push_queue [OF this, of m 1 u 4] obtain r s' where
    "push_subscriber_queue b_ops 1 m 4 s = Some (r, s')" "push_result b_msgs b_cap 1 m s r s'"
    using d(2) room_mono [OF d(5)] by auto
  then show ?thesis using d(2-4) by (auto simp: push_result_def)
qed

section \<open>Subscribing and unsubscribing\<close>

text \<open>C11: subscribing to a new topic adds one link with the flags of the topic string over those of the argument, touches no
other topic and no other subscriber, and, when the queue has room, puts exactly the sticky messages that the flags ask
for into the queue: none, that of the topic, or those of the topic and everything below it.\<close>

theorem subscribe_links:
  assumes "broker_ok b_inv b_msgs U s" and "g_subs s su = Some u" and "NUL \<notin> set topic" and "room b_cap 2 U s"
    and "\<And>f. pflags = Some f \<Longrightarrow> unat (fl_priority f) < 10"
    and "x = cut_topic topic" and "fl = parse_flags (flag_chars topic) (case pflags of None \<Rightarrow> no_flags | Some f \<Rightarrow> f)"
    and "x \<notin> subscribed s su"
  shows "\<exists>s' u'. ps_subscribe_flags b_ops su topic pflags s = Some (0, s') \<and> broker_ok b_inv b_msgs U s'
      \<and> topic_at s' = subscribe_update su fl x (topic_at s)
      \<and> (\<forall>su'. su' \<noteq> su \<longrightarrow> g_subs s' su' = g_subs s su') \<and> g_subs s' su = Some u'
      \<and> (length (b_msgs (su_q u)) + length (sticky_due fl x s) \<le> b_cap (su_q u) \<longrightarrow>
           mset (b_msgs (su_q u')) = mset (b_msgs (su_q u)) + mset (sticky_due fl x s) \<and> su_overflow u' = su_overflow u)"
proof -
  have idle: "idle_ok b_inv b_msgs U s" and new: "find_su su (subs_at (topic_at s) x) = None"
    using assms(1,8) by (simp_all add: broker_ok_idle subscribed_def)
  obtain s' where s': "ps_subscribe_flags b_ops su topic pflags s = Some (0, s')" "broker_ok b_inv b_msgs U s'"
    using bq.api_subscribe_ok [OF assms(1-4), of pflags] assms(5,6,8) by auto
  from bq.ps_subscribe_new [OF idle assms(2-7) new] s' show ?thesis by auto
qed

lemma subscribe_links_witness:
  "\<exists>U s s'. reachable b_ops b_msgs b_cap (U, s) \<and> ps_subscribe_flags b_ops 1 ''b hp7'' None s = Some (0, s')
     \<and> topic_at s' ''b'' = Some \<lparr>tm_topic = ''b'', tm_subscribers = [\<lparr>sl_su = 1, sl_hidden = True, sl_on_empty = False, sl_priority = 7\<rparr>],
                               tm_sticky = NULL\<rparr>"
proof -
  obtain s u m where d: "reachable b_ops b_msgs b_cap ((\<lambda>_. 0)(m := 1), s)" "broker_ok b_inv b_msgs ((\<lambda>_. 0)(m := 1)) s"
    "g_subs s = [1 \<mapsto> u]" "room b_cap 9 ((\<lambda>_. 0)(m := 1)) s"
    "topic_at s = [''a'' \<mapsto> \<lparr>tm_topic = ''a'', tm_subscribers = [new_link 1 no_flags], tm_sticky = NULL\<rparr>]"
    by (rule demo [OF demo_int(1)])
  let ?fl = "parse_flags (flag_chars ''b hp7'') no_flags"
  have fl: "new_link 1 ?fl = \<lparr>sl_su = 1, sl_hidden = True, sl_on_empty = False, sl_priority = 7\<rparr>" by code_simp
  have x: "''b'' = cut_topic ''b hp7''" and nul: "NUL \<notin> set ''b hp7''" by code_simp+
  have u: "g_subs s 1 = Some u" by (simp add: d(3))
  have new: "''b'' \<notin> subscribed s 1" by (simp add: subscribed_def subs_at_def d(5) find_su_def)
  have np: "unat (fl_priority g) < 10" if "None = Some g" for g using that by simp
  have fe: "?fl = parse_flags (flag_chars ''b hp7'') (case None of None \<Rightarrow> no_flags | Some f \<Rightarrow> f)" by simp
  obtain s' where "ps_subscribe_flags b_ops 1 ''b hp7'' None s = Some (0, s')" "topic_at s' = subscribe_update 1 ?fl ''b'' (topic_at s)"
    using subscribe_links [OF d(2) u nul room_mono [OF d(4)] np x fe new] by auto
  moreover have "subscribe_update 1 ?fl ''b'' (topic_at s) ''b'' = Some \<lparr>tm_topic = ''b'', tm_subscribers = [new_link 1 ?fl], tm_sticky = NULL\<rparr>"
    by (simp add: subscribe_update_def d(5))
  ultimately show ?thesis using d(1) unfolding fl by metis
qed

text \<open>C12: unsubscribing right after subscribing gives back the topic map, with the topic gone again if it was made by the
subscription, and the set of topics of every subscriber.\<close>

theorem subscribe_unsubscribe:
  assumes "broker_ok b_inv b_msgs U s" and "g_subs s su = Some u" and "NUL \<notin> set topic" and "room b_cap 2 U s"
    and "cut_topic topic \<notin> subscribed s su"
  shows "\<exists>s1 s2. ps_subscribe b_ops su topic s = Some (0, s1) \<and> ps_unsubscribe su topic s1 = Some (0, s2)
      \<and> broker_ok b_inv b_msgs U s2 \<and> topic_at s2 = topic_at s \<and> (\<forall>su'. subscribed s2 su' = subscribed s su')"
proof -
  let ?x = "cut_topic topic" and ?fl = "parse_flags (flag_chars topic) no_flags"
  have np: "unat (fl_priority g) < 10" if "None = Some g" for g using that by simp
  have fe: "?fl = parse_flags (flag_chars topic) (case None of None \<Rightarrow> no_flags | Some f \<Rightarrow> f)" by simp
  have idle: "idle_ok b_inv b_msgs U s" and new: "find_su su (subs_at (topic_at s) ?x) = None"
    using assms(1,5) by (simp_all add: broker_ok_idle subscribed_def)
  obtain s1 u1 where s1: "ps_subscribe_flags b_ops su topic None s = Some (0, s1)" "g_subs s1 su = Some u1"
    "topic_at s1 = subscribe_update su ?fl ?x (topic_at s)"
    using bq.ps_subscribe_new [OF idle assms(2-4) np refl fe new] by auto
  have ok1: "broker_ok b_inv b_msgs U s1" and sub1: "?x \<in> subscribed s1 su"
    using bq.api_subscribe_ok [OF assms(1-4), of None] s1(1) by auto
  obtain s2 where s2: "ps_unsubscribe su topic s1 = Some (0, s2)" "broker_ok b_inv b_msgs U s2"
    "topic_at s2 = unsubscribe_update su ?x (topic_at s1)"
    using ps_unsubscribe_ok [OF ok1 s1(2) refl, of topic] sub1 by auto
  have "topic_at s2 = topic_at s"
    unfolding s2(3) s1(3)
    by (rule unsubscribe_subscribe) (use assms(5) all_needed_at [OF broker_ok_D(5) [OF assms(1)]] broker_ok_D(2) [OF assms(1)] in
        \<open>auto simp: subscribed_iff\<close>)
  then show ?thesis using s1(1) s2(1,2) by (auto simp: ps_subscribe_def subscribed_def)
qed

lemma subscribe_unsubscribe_witness:
  "\<exists>s s1 s2. ps_subscribe b_ops 1 ''b p3'' s = Some (0, s1) \<and> ps_unsubscribe 1 ''b p3'' s1 = Some (0, s2)
     \<and> topic_at s2 = topic_at s \<and> topic_at s ''a'' \<noteq> None"
proof -
  obtain s u m where d: "broker_ok b_inv b_msgs ((\<lambda>_. 0)(m := 1)) s" "g_subs s = [1 \<mapsto> u]" "room b_cap 9 ((\<lambda>_. 0)(m := 1)) s"
    "topic_at s = [''a'' \<mapsto> \<lparr>tm_topic = ''a'', tm_subscribers = [new_link 1 no_flags], tm_sticky = NULL\<rparr>]"
    by (rule demo [OF demo_int(1)])
  have x: "cut_topic ''b p3'' = ''b''" and nul: "NUL \<notin> set ''b p3''" by code_simp+
  have u: "g_subs s 1 = Some u" by (simp add: d(2))
  have "cut_topic ''b p3'' \<notin> subscribed s 1" by (simp add: x subscribed_def subs_at_def d(4) find_su_def)
  then obtain s1 s2 where "ps_subscribe b_ops 1 ''b p3'' s = Some (0, s1)" "ps_unsubscribe 1 ''b p3'' s1 = Some (0, s2)"
    "topic_at s2 = topic_at s" using subscribe_unsubscribe [OF d(1) u nul room_mono [OF d(3)]] by auto
  then show ?thesis using d(4) by (intro exI [of _ s] exI [of _ s1] exI [of _ s2]) simp
qed

text \<open>C23: a list of topics is subscribed to as a whole: the subscriber has its topics and those of the list afterwards, and
the result is the number of the new ones, duplicates in the list counted once.\<close>

theorem subscribe_many_union:
  assumes "broker_ok b_inv b_msgs U s" and "g_subs s su = Some u" and "\<forall>t\<in>set topics. NUL \<notin> set t"
    and "room b_cap (length topics + 1) U s"
  shows "\<exists>s'. ps_subscribe_many b_ops su (Some topics) s = Some (int (card (cut_topic ` set topics - subscribed s su)), s')
      \<and> broker_ok b_inv b_msgs U s' \<and> subscribed s' su = subscribed s su \<union> cut_topic ` set topics
      \<and> (\<forall>su'. su' \<noteq> su \<longrightarrow> subscribed s' su' = subscribed s su')"
  using bq.api_subscribe_many_ok [OF assms order_refl] by auto

lemma demo_subscribed:
  assumes "topic_at s = [''a'' \<mapsto> \<lparr>tm_topic = ''a'', tm_subscribers = [new_link 1 no_flags], tm_sticky = NULL\<rparr>]"
  shows "subscribed s 1 = {''a''}"
  by (auto simp: subscribed_iff subs_at_def assms new_link_def split: if_splits)

lemma subscribe_many_union_witness:
  "\<exists>s s'. ps_subscribe_many b_ops 1 (Some [''a'', ''b'', ''b h'']) s = Some (1, s') \<and> subscribed s' 1 = {''a'', ''b''}"
proof -
  obtain s u m where d: "broker_ok b_inv b_msgs ((\<lambda>_. 0)(m := 1)) s" "g_subs s = [1 \<mapsto> u]" "room b_cap 9 ((\<lambda>_. 0)(m := 1)) s"
    "topic_at s = [''a'' \<mapsto> \<lparr>tm_topic = ''a'', tm_subscribers = [new_link 1 no_flags], tm_sticky = NULL\<rparr>]"
    by (rule demo [OF demo_int(1)])
  have ts: "cut_topic ` set [''a'', ''b'', ''b h''] = {''a'', ''b''}" and nul: "\<forall>t\<in>set [''a'', ''b'', ''b h'']. NUL \<notin> set t"
    by code_simp+
  have u: "g_subs s 1 = Some u" by (simp add: d(2))
  have "room b_cap (length [''a'', ''b'', ''b h''] + 1) ((\<lambda>_. 0)(m := 1)) s" by (rule room_mono [OF d(3)]) simp_all
  from subscribe_many_union [OF d(1) u nul this] show ?thesis
    unfolding ts demo_subscribed [OF d(4)] by auto
qed

text \<open>C21: unsubscribing from all topics returns their number, takes the subscriber out of every topic and out of nothing else,
and drops exactly the topics that then have neither subscribers nor a sticky message.\<close>

theorem unsubscribe_all_complete:
  assumes "broker_ok b_inv b_msgs U s" and "g_subs s su = Some u"
  shows "\<exists>s'. ps_unsubscribe_all su s = Some (int (card (subscribed s su)), s') \<and> broker_ok b_inv b_msgs U s'
      \<and> topic_at s' = (\<lambda>x. Option.bind (topic_at s x) (unlinked su)) \<and> subscribed s' su = {}
      \<and> (\<forall>su'. su' \<noteq> su \<longrightarrow> subscribed s' su' = subscribed s su')
      \<and> g_subs s' = (g_subs s)(su \<mapsto> u\<lparr>su_subs := []\<rparr>) \<and> g_heap s' = g_heap s"
  using ps_unsubscribe_all_ok [OF assms] by (auto simp: unsubscribe_result_def)

lemma unsubscribe_all_complete_witness:
  "\<exists>(s :: bqueue state) s'. subscribed s 1 = {''a''} \<and> ps_unsubscribe_all 1 s = Some (1, s') \<and> topic_at s' = Map.empty"
proof -
  obtain s u m where d: "broker_ok b_inv b_msgs ((\<lambda>_. 0)(m := 1)) s" "g_subs s = [1 \<mapsto> u]"
    "topic_at s = [''a'' \<mapsto> \<lparr>tm_topic = ''a'', tm_subscribers = [new_link 1 no_flags], tm_sticky = NULL\<rparr>]"
    by (rule demo [OF demo_int(1)])
  have "g_subs s 1 = Some u" by (simp add: d(2))
  then obtain s' where "ps_unsubscribe_all 1 s = Some (int (card (subscribed s 1)), s')"
    "topic_at s' = (\<lambda>x. Option.bind (topic_at s x) (unlinked 1))"
    using unsubscribe_all_complete [OF d(1)] by blast
  moreover have "(\<lambda>x. Option.bind (topic_at s x) (unlinked 1)) = Map.empty"
    by (simp add: fun_eq_iff d(3) unlinked_def needed_def new_link_def)
  moreover have "int (card (subscribed s 1)) = 1" unfolding demo_subscribed [OF d(3)] by simp
  ultimately show ?thesis using demo_subscribed [OF d(3)] by metis
qed

text \<open>C22: unsubscribing from a topic returns 0 and removes that link if there is one, and returns -1 with nothing changed
otherwise.\<close>

theorem unsubscribe_link:
  assumes "broker_ok b_inv b_msgs U s" and "g_subs s su = Some u"
  shows "\<exists>s'. ps_unsubscribe su topic s = Some (if cut_topic topic \<in> subscribed s su then 0 else -1, s')
      \<and> broker_ok b_inv b_msgs U s' \<and> topic_at s' = unsubscribe_update su (cut_topic topic) (topic_at s)
      \<and> (cut_topic topic \<notin> subscribed s su \<longrightarrow> s' = s)
      \<and> subscribed s' su = subscribed s su - {cut_topic topic}"
proof -
  obtain s' where s': "ps_unsubscribe su topic s = Some (if cut_topic topic \<in> subscribed s su then 0 else -1, s')"
    "broker_ok b_inv b_msgs U s'" "topic_at s' = unsubscribe_update su (cut_topic topic) (topic_at s)"
    using ps_unsubscribe_ok [OF assms refl, of topic] by blast
  then show ?thesis using unsubscribe_none [OF assms(1), of topic su] by (auto simp: subscribed_unsubscribe)
qed

lemma unsubscribe_link_witness:
  "\<exists>(s :: bqueue state) s'. ps_unsubscribe 1 ''b'' s = Some (-1, s) \<and> ps_unsubscribe 1 ''a'' s = Some (0, s') \<and> subscribed s' 1 = {}"
proof -
  obtain s u m where d: "broker_ok b_inv b_msgs ((\<lambda>_. 0)(m := 1)) s" "g_subs s = [1 \<mapsto> u]"
    "topic_at s = [''a'' \<mapsto> \<lparr>tm_topic = ''a'', tm_subscribers = [new_link 1 no_flags], tm_sticky = NULL\<rparr>]"
    by (rule demo [OF demo_int(1)])
  have u: "g_subs s 1 = Some u" by (simp add: d(2))
  have x: "cut_topic ''a'' = ''a''" "cut_topic ''b'' = ''b''" by code_simp+
  note sub = demo_subscribed [OF d(3)]
  have "ps_unsubscribe 1 ''b'' s = Some (-1, s)"
    using unsubscribe_link [OF d(1) u, of "''b''"] unfolding x sub by auto
  moreover obtain s' where "ps_unsubscribe 1 ''a'' s = Some (0, s')" "subscribed s' 1 = {}"
    using unsubscribe_link [OF d(1) u, of "''a''"] unfolding x sub by auto
  ultimately show ?thesis by blast
qed

section \<open>Receiving, cleaning and freeing\<close>



text \<open>C18: receiving takes the first message of the queue, of the highest priority and the oldest of it, and hands its reference
to the caller; on an empty queue it returns null when the time is up.\<close>

theorem get_first:
  assumes "broker_ok b_inv b_msgs U s" and "g_subs s su = Some u" and "b_msgs (su_q u) \<noteq> [] \<or> \<not> pull_timeout t <s 0"
  shows "case b_msgs (su_q u) of
      [] \<Rightarrow> ps_get b_ops su t s = Some (NULL, s)
    | m # ms \<Rightarrow> \<exists>s' u'. ps_get b_ops su t s = Some (m, s') \<and> m \<noteq> NULL \<and> g_subs s' = (g_subs s)(su \<mapsto> u')
        \<and> b_msgs (su_q u') = ms \<and> g_heap s' = g_heap s \<and> broker_ok b_inv b_msgs (U(m := U m + 1)) s'"
proof (cases "b_msgs (su_q u)")
  case Nil
  then show ?thesis using bq.ps_get_none [OF assms(1,2) Nil] assms(3) by simp
next
  case (Cons m ms)
  then show ?thesis using bq.ps_get_some [OF assms(1,2) Cons, of t] by fastforce
qed

lemma get_first_witness: "\<exists>(s :: bqueue state) u. g_subs s 1 = Some u \<and> ps_get b_ops 1 250 s = Some (NULL, s)"
proof -
  obtain s u m where d: "broker_ok b_inv b_msgs ((\<lambda>_. 0)(m := 1)) s" "g_subs s = [1 \<mapsto> u]" "b_msgs (su_q u) = []"
    by (rule demo [OF demo_int(1)])
  have u: "g_subs s 1 = Some u" by (simp add: d(2))
  have t: "\<not> pull_timeout 250 <s 0" by code_simp
  show ?thesis using get_first [OF d(1) u, of 250] t u d(3) by auto
qed

text \<open>C19: flushing ends, returns the number of messages that were waiting, drops their references and leaves the queue empty.\<close>

theorem flush_empties:
  assumes "broker_ok b_inv b_msgs U s" and "g_subs s su = Some u"
  shows "\<exists>s' u'. ps_flush b_ops su s = Some (int (length (b_msgs (su_q u))), s') \<and> broker_ok b_inv b_msgs U s'
      \<and> g_subs s' = (g_subs s)(su \<mapsto> u') \<and> b_msgs (su_q u') = [] \<and> topic_at s' = topic_at s"
proof -
  obtain q h where q: "ps_flush b_ops su s = Some (int (length (b_msgs (su_q u))), (put_su su (u\<lparr>su_q := q\<rparr>) s)\<lparr>g_heap := h\<rparr>)"
    "broker_ok b_inv b_msgs U ((put_su su (u\<lparr>su_q := q\<rparr>) s)\<lparr>g_heap := h\<rparr>)" "b_msgs q = []"
    using bq.ps_flush_ok [OF assms] by blast
  have "topic_at ((put_su su (u\<lparr>su_q := q\<rparr>) s)\<lparr>g_heap := h\<rparr>) = topic_at s" by (rule topic_at_cong) simp_all
  then show ?thesis
    using q by (intro exI [of _ "(put_su su (u\<lparr>su_q := q\<rparr>) s)\<lparr>g_heap := h\<rparr>"] exI [of _ "u\<lparr>su_q := q\<rparr>"]) simp
qed

lemma flush_empties_witness: "\<exists>s s'. ps_flush b_ops 1 s = Some (0, s')"
proof -
  obtain s u m where d: "broker_ok b_inv b_msgs ((\<lambda>_. 0)(m := 1)) s" "g_subs s = [1 \<mapsto> u]" "b_msgs (su_q u) = []"
    by (rule demo [OF demo_int(1)])
  have u: "g_subs s 1 = Some u" by (simp add: d(2))
  show ?thesis using flush_empties [OF d(1) u] d(3) by auto
qed

text \<open>C14: freeing a subscriber takes it out of every topic, drops the references of its queue, and removes it; the topics that
nobody needs any more are gone, and the invariant holds without it.\<close>

theorem free_subscriber_complete:
  assumes "broker_ok b_inv b_msgs U s" and "g_subs s su = Some u"
  shows "\<exists>s'. ps_free_subscriber b_ops su s = Some s' \<and> broker_ok b_inv b_msgs U s'
      \<and> g_subs s' = (g_subs s)(su := None) \<and> topic_at s' = (\<lambda>x. Option.bind (topic_at s x) (unlinked su))"
  using bq.ps_free_subscriber_ok [OF assms] by blast

lemma free_subscriber_complete_witness:
  "\<exists>s s'. ps_free_subscriber b_ops 1 s = Some s' \<and> g_subs s 1 \<noteq> None \<and> g_subs s' = Map.empty"
proof -
  obtain s u m where d: "broker_ok b_inv b_msgs ((\<lambda>_. 0)(m := 1)) s" "g_subs s = [1 \<mapsto> u]"
    by (rule demo [OF demo_int(1)])
  have u: "g_subs s 1 = Some u" by (simp add: d(2))
  obtain s' where "ps_free_subscriber b_ops 1 s = Some s'" "g_subs s' = (g_subs s)(1 := None)"
    using free_subscriber_complete [OF d(1) u] by blast
  then show ?thesis using d(2) u by (intro exI [of _ s] exI [of _ s']) simp
qed

text \<open>C20: clearing sticky messages under a prefix takes the sticky message out of exactly the topics at or below it, drops their
references, frees the topics that have no subscribers, and leaves every queue alone.\<close>

theorem clean_sticky_exact:
  assumes "broker_ok b_inv b_msgs U s"
  shows "\<exists>s'. ps_clean_sticky prefix s = Some s' \<and> broker_ok b_inv b_msgs U s'
      \<and> g_tms s' = (\<lambda>a. Option.bind (g_tms s a) (cleaned prefix)) \<and> g_subs s' = g_subs s"
  using ps_clean_sticky_ok [OF assms, of prefix] by (auto simp: quiet_def)

lemma clean_sticky_exact_witness: "\<exists>s s'. ps_clean_sticky ''a'' s = Some s' \<and> broker_ok b_inv b_msgs (\<lambda>_. 0) s'"
  using clean_sticky_exact [OF broker_ok_start] by blast



section \<open>Calls, counts and values\<close>



text \<open>C33: \<open>ps_subs_count\<close> is the number of subscriptions that are not hidden among those to which a recursive message for the
topic is delivered, less those to the root topic.\<close>

theorem subs_count_exact:
  assumes "broker_ok b_inv b_msgs U s" and "t \<noteq> []"
  shows "ps_subs_count (Some t) s = Some (int (shown (publish_targets (topic_at s) True (cut_topic t))) - int (shown (subs_at (topic_at s) [])), s)"
  by (rule ps_subs_count_ok [OF assms])

lemma subs_count_exact_witness: "\<exists>s :: bqueue state. topic_at s ''a'' \<noteq> None \<and> ps_subs_count (Some ''a.b'') s = Some (1, s)"
proof -
  obtain s u m where d: "broker_ok b_inv b_msgs ((\<lambda>_. 0)(m := 1)) s"
    "topic_at s = [''a'' \<mapsto> \<lparr>tm_topic = ''a'', tm_subscribers = [new_link 1 no_flags], tm_sticky = NULL\<rparr>]"
    by (rule demo [OF demo_int(1)])
  have "shown (publish_targets (topic_at s) True (cut_topic ''a.b'')) = 1" "shown (subs_at (topic_at s) []) = 0"
    unfolding demo_targets [OF d(2)] by (simp_all add: shown_def new_link_def no_flags_def subs_at_def d(2))
  then show ?thesis using subs_count_exact [OF d(1), of "''a.b''"] d(2) by (intro exI [of _ s]) simp
qed



text \<open>The same safety holds for the library built with the ring queue.\<close>

lemma ring_reachable_safe:
  assumes "reachable ll_ops ll_msgs r_size (U, s)"
  shows "broker_ok ll_inv ll_msgs U s \<and> (\<forall>c. allowed ll_msgs r_size c (U, s) \<longrightarrow> (\<exists>y. api_step ll_ops ll_msgs r_size c (U, s) y))"
  using ll.reachable_broker_ok [OF assms] ll.reachable_progress [OF assms] by simp

lemma ring_reachable_start: "reachable ll_ops ll_msgs r_size (\<lambda>_. 0, ps_init static_state)"
  by (rule reachable.start)

section \<open>The priority queue\<close>

text \<open>C15: pushing on the priority queue of \<open>psqueue_b.c\<close> refines the abstract push: with a free node the
message is appended to its bucket; without one the newest message of the lowest non-empty bucket below the
priority is dropped, its reference with it, and the code is \<open>EOVERFLOW\<close>; otherwise \<open>EFULL\<close> and no change.
The pointer structure stays well formed.\<close>

theorem queue_push_refines:
  assumes "b_inv q" and "m \<noteq> NULL" and "unat p < PRIORITIES"
    and "spec_push (b_abs q) m (unat p) = (r, dropped, s')"
  shows "\<exists>q'. b_inv q' \<and> b_abs q' = s' \<and>
     b_queue_push q m p h = map_option (\<lambda>h'. (r, q', h')) (case dropped of None \<Rightarrow> Some h | Some e \<Rightarrow> ps_unref_msg e h)"
  by (rule b_queue_push_refines [OF assms])

lemma queue_push_refines_witness:
  "\<exists>q q'. b_new_queue 2 = Some q \<and> b_queue_push q 7 5 mheap_init = Some (PS_QUEUE_OK, q', mheap_init)
     \<and> b_abs q' = ([[], [], [], [], [], [7], [], [], [], []], 1)"
proof -
  have "(2 :: nat) \<le> SEM_VALUE_MAX" by (simp add: SEM_VALUE_MAX_def)
  then obtain q where q: "b_new_queue 2 = Some q" "b_inv q" "b_abs q = (replicate PRIORITIES [], 2)"
    using b_new_queue_ok by blast
  have "spec_push (b_abs q) 7 (unat (5 :: u8)) = (PS_QUEUE_OK, None, [[], [], [], [], [], [7], [], [], [], []], 1)"
    unfolding q(3) by code_simp
  from queue_push_refines [OF q(2) _ _ this, of mheap_init] q(1) show ?thesis
    by (auto simp: PRIORITIES_def)
qed



text \<open>C17: a queue that is filled and then emptied sorts: the messages come out by falling priority, those of one
priority in the order in which they were pushed.\<close>

theorem queue_drain_sorted:
  assumes "\<And>x. x \<in> set ms \<Longrightarrow> fst x \<noteq> NULL \<and> unat (snd x) < 10"
    and "length ms \<le> n" and "n \<le> SEM_VALUE_MAX"
  shows "\<exists>q q' q''. b_new_queue n = Some q \<and> push_all b_ops q ms h = Some (q', map fst ms)
      \<and> pull_all b_ops (length ms) q' = Some (map fst (sort_key (\<lambda>x. 9 - unat (snd x)) ms), q'') \<and> b_msgs q'' = []"
  using assms by (rule b_drain_sorted)

lemma queue_drain_sorted_witness:
  "\<exists>q q' q''. b_new_queue 3 = Some q \<and> push_all b_ops q [(7, 1), (8, 5), (9, 1)] mheap_init = Some (q', [7, 8, 9])
      \<and> pull_all b_ops 3 q' = Some ([8, 7, 9], q'') \<and> b_msgs q'' = []"
proof -
  define ms :: "(addr \<times> u8) list" where "ms = [(7, 1), (8, 5), (9, 1)]"
  have "\<exists>q q' q''. b_new_queue 3 = Some q \<and> push_all b_ops q ms mheap_init = Some (q', map fst ms)
      \<and> pull_all b_ops (length ms) q' = Some (map fst (sort_key (\<lambda>x. 9 - unat (snd x)) ms), q'') \<and> b_msgs q'' = []"
    by (rule queue_drain_sorted) (auto simp: ms_def SEM_VALUE_MAX_def)
  moreover have "map fst ms = [7, 8, 9]" "length ms = 3" "map fst (sort_key (\<lambda>x. 9 - unat (snd x)) ms) = [8, 7, 9]"
    by (simp_all add: ms_def)
  ultimately show ?thesis by (simp add: ms_def [symmetric] del: push_all.simps pull_all.simps)
qed

text \<open>C35: the ring of \<open>psqueue_ll.c\<close> is a bounded first-in first-out queue: of a run of pushes the first ones
that fit are stored, behind what was there, and the rest are refused.\<close>

theorem ring_push_fifo:
  assumes "ll_inv q" and "NULL \<notin> fst ` set ms" and "\<And>x. x \<in> set ms \<Longrightarrow> unat (snd x) < 10"
  shows "\<exists>q' acc. push_all ll_ops q ms h = Some (q', acc) \<and> ll_inv q' \<and> r_size q' = r_size q
      \<and> ll_msgs q' = ll_msgs q @ acc \<and> acc = map fst (take (r_size q - length (ll_msgs q)) ms)"
  using assms by (rule ll.push_all_fifo)

lemma ring_push_fifo_witness:
  "\<exists>q q'. ll_new_queue 2 = Some q \<and> push_all ll_ops q [(7, 1), (8, 5), (9, 1)] mheap_init = Some (q', [7, 8])
      \<and> ll_msgs q' = [7, 8]"
proof -
  have "(2 :: nat) \<le> SEM_VALUE_MAX" by (simp add: SEM_VALUE_MAX_def)
  then obtain q where q: "ll_new_queue 2 = Some q" "ll_inv q" "ll_msgs q = []" "r_size q = 2"
    using ll_new by blast
  define ms :: "(addr \<times> u8) list" where "ms = [(7, 1), (8, 5), (9, 1)]"
  have "\<exists>q' acc. push_all ll_ops q ms mheap_init = Some (q', acc) \<and> ll_inv q' \<and> r_size q' = r_size q
      \<and> ll_msgs q' = ll_msgs q @ acc \<and> acc = map fst (take (r_size q - length (ll_msgs q)) ms)"
    by (rule ring_push_fifo [OF q(2)]) (auto simp: ms_def)
  with q show ?thesis unfolding ms_def by (auto simp del: push_all.simps)
qed

text \<open>A pull from a non-empty ring gives the oldest message and leaves the others in order; from an empty
one, with a timeout that is not negative after the conversion to 32 bits, it gives null and changes nothing.\<close>

lemma ring_pull:
  assumes "ll_inv q" and "\<not> pull_timeout t <s 0"
  shows "\<exists>q'. ll_queue_pull q t = Some (hd_or NULL (ll_msgs q), q') \<and> ll_inv q' \<and> r_size q' = r_size q
      \<and> ll_msgs q' = tl (ll_msgs q)"
  using ll_pull_some [OF assms(1)] ll_pull_none [OF assms(1) _ assms(2)] assms(1)
  by (cases "ll_msgs q") auto

lemma ring_pull_witness:
  "\<exists>q. ll_new_queue 2 = Some q \<and> (\<exists>q'. ll_queue_pull q 1 = Some (NULL, q') \<and> ll_msgs q' = [])"
proof -
  have "(2 :: nat) \<le> SEM_VALUE_MAX" by (simp add: SEM_VALUE_MAX_def)
  then obtain q where q: "ll_new_queue 2 = Some q" "ll_inv q" "ll_msgs q = []" "r_size q = 2"
    using ll_new by blast
  from ring_pull [OF q(2), of 1] q(1,3) show ?thesis by (auto simp: pull_timeout_def word_sless_alt)
qed

text \<open>C31: \<open>ps_free_queue\<close> of the priority queue ends, frees every node it allocated, and drops the reference of
each stored message once, in bucket order; the lock that it destroys is free.\<close>

theorem queue_free_complete:
  assumes "b_inv q"
  shows "\<exists>q'. b_free_queue_run q h = map_option (\<lambda>h'. (q', h')) (unref_all (concat (fst (b_abs q))) h)
      \<and> b_links q' = Map.empty \<and> b_msg q' = Map.empty"
  using assms by (rule b_free_queue_run_ok)

lemma queue_free_complete_witness:
  "\<exists>q q'. b_new_queue 5 = Some q \<and> b_free_queue_run q mheap_init = Some (q', mheap_init) \<and> b_links q' = Map.empty"
proof -
  have "(5 :: nat) \<le> SEM_VALUE_MAX" by (simp add: SEM_VALUE_MAX_def)
  then obtain q where q: "b_new_queue 5 = Some q" "b_inv q" "b_abs q = (replicate PRIORITIES [], 5)"
    using b_new_queue_ok by blast
  have "unref_all (concat (fst (b_abs q))) mheap_init = Some mheap_init" by (simp add: q(3) concat_replicate_trivial)
  then show ?thesis using queue_free_complete [OF q(2), of mheap_init] q(1) by auto
qed



text \<open>C39: a priority above 9, which the string flags cannot express but \<open>ps_sub_flags_t\<close> can, makes the insertion
into the array of ten lists run out of its bounds.\<close>

theorem queue_priority_out_of_bounds:
  assumes "b_inv q" and "m \<noteq> NULL" and "10 \<le> unat p" and "0 < snd (b_abs q)"
  shows "b_queue_push q m p h = None"
proof -
  note d = b_inv_D [OF assms(1)]
  have "b_nodes q ! PRIORITIES \<noteq> []" using assms(4) d(8) by auto
  then obtain n r where L: "b_nodes q ! PRIORITIES = n # r" by (cases "b_nodes q ! PRIORITIES") auto
  let ?q = "q\<lparr>b_mux := True\<rparr>"
  have rel: "b_rel {} ?q (b_nodes q)" using d(1) by (simp add: b_rel_def)
  obtain x l where g: "bqueue_get_available ?q p h = Some (PS_QUEUE_OK, n, ?q\<lparr>b_links := l, b_available := x\<rparr>, h)"
    and rel': "b_rel {n} (?q\<lparr>b_links := l, b_available := x\<rparr>) ((b_nodes q)[PRIORITIES := r])"
    using get_available_ok [OF rel L, of p h] by blast
  have "length (b_priorities q) \<le> unat p" using b_rel_D(1) [OF rel] assms(3) by (simp add: PRIORITIES_def)
  then have "bqueue_insert q' n p = None" if "b_priorities q' = b_priorities q" for q'
    using that by (simp add: bqueue_insert_def)
  then show ?thesis
    using d(2) g b_rel_wr_msg(1) [OF rel', of m]
    by (simp add: b_queue_push_def mutex_lock_def queue_codes)
qed

lemma queue_priority_out_of_bounds_witness:
  "\<exists>q. b_new_queue 1 = Some q \<and> b_queue_push q 7 10 mheap_init = None"
proof -
  have "(1 :: nat) \<le> SEM_VALUE_MAX" by (simp add: SEM_VALUE_MAX_def)
  then obtain q where q: "b_new_queue 1 = Some q" "b_inv q" "b_abs q = (replicate PRIORITIES [], 1)"
    using b_new_queue_ok by blast
  then show ?thesis using queue_priority_out_of_bounds [OF q(2), of 7 10 mheap_init] by simp
qed

section \<open>Threads on one queue\<close>

text \<open>C7: the priority queue is linearisable and loses no wake-up. Whatever pushes, semaphore waits and critical sections of
pulls any number of threads interleave on a new queue, the run has the results of the same operations in sequence on the
abstract queue; the semaphore and the \<open>k\<close> threads that have passed it and not yet taken a message count exactly the stored
messages; and such a thread takes one when it runs: it neither blocks nor comes back empty-handed.\<close>

theorem concurrent_queue:
  assumes "n \<le> SEM_VALUE_MAX" and "b_new_queue n = Some q0" and "conc_run b_atomics es (q0, 0, h0) (q, k, h)"
  shows "spec_events b_aspec es (replicate PRIORITIES [], n) = Some (b_abs q)
      \<and> b_not_empty q + k = length (concat (fst (b_abs q)))
      \<and> (0 < k \<longrightarrow> (\<exists>m q'. b_pull_take q = Some (m, q') \<and> m \<noteq> NULL
            \<and> conc_step b_atomics (C_take m) (q, k, h) (q', k - 1, h)))"
proof -
  have new: "conc_inv 0 q0" "b_abs q0 = (replicate PRIORITIES [], n)"
    using conc_inv_new [OF assms(1,2)] by blast+
  show ?thesis
    using bt.linearisable [OF new(1) assms(3)] unfolding new(2) by (simp add: b_atomics_def del: length_concat)
qed

text \<open>One thread pushes message 7, another passes the semaphore.\<close>

lemma concurrent_queue_witness:
  "\<exists>q0 q q' h. b_new_queue 2 = Some q0 \<and> conc_run b_atomics [C_push 7 5 PS_QUEUE_OK, C_acquire] (q0, 0, h) (q, 1, h)
     \<and> conc_step b_atomics (C_take 7) (q, 1, h) (q', 0, h)"
proof -
  have sem: "(2 :: nat) \<le> SEM_VALUE_MAX" by (simp add: SEM_VALUE_MAX_def)
  then obtain q0 where q0: "b_new_queue 2 = Some q0" "b_inv q0" "b_abs q0 = (replicate PRIORITIES [], 2)"
    using b_new_queue_ok by blast
  have spec: "spec_push (b_abs q0) 7 (unat (5 :: u8)) = (PS_QUEUE_OK, None, [[], [], [], [], [], [7], [], [], [], []], 1)"
    unfolding q0(3) by code_simp
  obtain q1 where q1: "b_queue_push q0 7 5 mheap_init = Some (PS_QUEUE_OK, q1, mheap_init)" "b_inv q1"
    "b_abs q1 = ([[], [], [], [], [], [7], [], [], [], []], 1)"
    using b_queue_push_refines [OF q0(2) _ _ spec, of mheap_init] by (auto simp: PRIORITIES_def)
  have push: "conc_step b_atomics (C_push 7 5 PS_QUEUE_OK) (q0, 0, mheap_init) (q1, 0, mheap_init)"
    by (rule conc_step.push) (simp_all add: b_atomics_def q1(1))
  have "b_not_empty q1 = length (concat (fst (b_abs q1)))"
    using conc_inv_D(3) [of 0 q1] q1(2) by (simp add: conc_inv_def)
  then have s: "b_not_empty q1 = 1" by (simp add: q1(3))
  have acq: "conc_step b_atomics C_acquire (q1, 0, mheap_init) (q1\<lparr>b_not_empty := 0\<rparr>, 1, mheap_init)"
    using conc_step.acquire [of b_atomics q1 0 0 0 mheap_init] by (simp add: b_atomics_def s)
  have run: "conc_run b_atomics [C_push 7 5 PS_QUEUE_OK, C_acquire] (q0, 0, mheap_init) (q1\<lparr>b_not_empty := 0\<rparr>, 1, mheap_init)"
    using conc_run.more [OF conc_run.more [OF conc_run.none push] acq] by simp
  from concurrent_queue [OF sem q0(1) run]
  obtain m q' where t: "b_pull_take (q1\<lparr>b_not_empty := 0\<rparr>) = Some (m, q')" "conc_step b_atomics (C_take m) (q1\<lparr>b_not_empty := 0\<rparr>, 1, mheap_init) (q', 0, mheap_init)"
    by auto
  have "b_queue_pull q1 0 = Some (m, q')" using t(1) by (simp add: b_queue_pull_split s)
  moreover have ne: "concat (fst (b_abs q1)) \<noteq> []" by (simp add: q1(3))
  have pull: "spec_pull (b_abs q1) = (7, [[], [], [], [], [], [], [], [], [], []], 2)" unfolding q1(3) by code_simp
  obtain q2 where "b_queue_pull q1 0 = Some (7, q2)" using b_queue_pull_refines [OF q1(2) ne pull] by blast
  ultimately have "m = 7" by simp
  then show ?thesis using q0(1) run t(2) by blast
qed

text \<open>C8: the ring queue is linearisable and loses no wake-up: under any interleaving of pushes, semaphore waits and critical
sections of pulls on a new ring, the results are those of the same operations in sequence on a bounded first-in first-out list;
the semaphore and the threads that have passed it count exactly the stored messages, and each of these threads takes one when it runs.\<close>

theorem concurrent_ring:
  assumes "n \<le> SEM_VALUE_MAX" and "ll_new_queue n = Some q0" and "conc_run ll_atomics es (q0, 0, h0) (q, k, h)"
  shows "spec_events ll_aspec es ([], n) = Some (ll_msgs q, r_size q)
      \<and> r_not_empty q + k = length (ll_msgs q)
      \<and> (0 < k \<longrightarrow> (\<exists>m q'. ll_pull_take q = Some (m, q') \<and> m \<noteq> NULL
            \<and> conc_step ll_atomics (C_take m) (q, k, h) (q', k - 1, h)))"
proof -
  have new: "ring_inv 0 q0" "ll_abs q0 = ([], n)" using ring_inv_new [OF assms(1,2)] by blast+
  show ?thesis
    using lt.linearisable [OF new(1) assms(3)] unfolding new(2) by (simp add: ll_atomics_def ll_abs_def)
qed

text \<open>Two messages are pushed, two threads pass the semaphore, and one takes the older message.\<close>

lemma concurrent_ring_witness:
  "\<exists>q0 q q'. ll_new_queue 2 = Some q0
     \<and> conc_run ll_atomics [C_push 7 0 0, C_push 8 0 0, C_acquire, C_acquire] (q0, 0, mheap_init) (q, 2, mheap_init)
     \<and> conc_step ll_atomics (C_take 7) (q, 2, mheap_init) (q', 1, mheap_init)"
proof -
  let ?r = "\<lambda>ms c hp s. \<lparr>r_messages = ms, r_size = 2, r_count = c, r_head = hp, r_tail = 0, r_mux = False, r_not_empty = s\<rparr>"
  let ?q = "?r [7, 8] 2 0 0"
  have new: "ll_new_queue 2 = Some (?r [0, 0] 0 0 0)"
    by (simp add: ll_new_queue_def mutex_defs semaphore_init_def numeral_2_eq_2)
  have p1: "conc_step ll_atomics (C_push 7 0 0) (?r [0, 0] 0 0 0, 0, mheap_init) (?r [7, 0] 1 1 1, 0, mheap_init)"
    by (rule conc_step.push) (simp_all add: ll_atomics_def ll_queue_push_def mutex_defs semaphore_post_def SEM_VALUE_MAX_def)
  have p2: "conc_step ll_atomics (C_push 8 0 0) (?r [7, 0] 1 1 1, 0, mheap_init) (?r [7, 8] 2 0 2, 0, mheap_init)"
    by (rule conc_step.push) (simp_all add: ll_atomics_def ll_queue_push_def mutex_defs semaphore_post_def SEM_VALUE_MAX_def)
  have a1: "conc_step ll_atomics C_acquire (?r [7, 8] 2 0 2, 0, mheap_init) (?r [7, 8] 2 0 1, 1, mheap_init)"
    using conc_step.acquire [of ll_atomics "?r [7, 8] 2 0 2" 0 1 0 mheap_init] by (simp add: ll_atomics_def)
  have a2: "conc_step ll_atomics C_acquire (?r [7, 8] 2 0 1, 1, mheap_init) (?q, 2, mheap_init)"
    using conc_step.acquire [of ll_atomics "?r [7, 8] 2 0 1" 0 0 1 mheap_init] by (simp add: ll_atomics_def numeral_2_eq_2)
  have run: "conc_run ll_atomics [C_push 7 0 0, C_push 8 0 0, C_acquire, C_acquire]
      (?r [0, 0] 0 0 0, 0, mheap_init) (?q, 2, mheap_init)"
    using conc_run.more [OF conc_run.more [OF conc_run.more [OF conc_run.more [OF conc_run.none p1] p2] a1] a2] by simp
  have sem: "(2 :: nat) \<le> SEM_VALUE_MAX" by (simp add: SEM_VALUE_MAX_def)
  obtain m q' where t: "ll_pull_take ?q = Some (m, q')" "conc_step ll_atomics (C_take m) (?q, 2, mheap_init) (q', 1, mheap_init)"
    using concurrent_ring [OF sem new run] by auto
  have "m = 7" using t(1) by (simp add: ll_pull_take_def mutex_defs)
  then show ?thesis using new run t(2) by blast
qed

section \<open>From macro to reader\<close>



section \<open>Publishing while others receive\<close>

text \<open>C6: a publication is safe under concurrency. Between its deliveries other threads may receive, take and drop references,
make messages and read counters, in any order; then in every state in between the message is alive, the next delivery
returns, the calls of the other threads return, and after the last delivery the call ends with the invariant intact and
every reference accounted for, having counted at most the subscriptions that are not hidden. Without other threads the
pieces are \<open>ps_publish\<close>.\<close>

theorem publish_concurrent:
  assumes "broker_ok b_inv b_msgs (with_ref m E) s" and "mh_msgs (g_heap s) m = Some mm"
    and "m_topic mm = Some topic" and "NUL \<notin> set topic" and "room b_cap 2 (with_ref m E) s"
    and "publish_begin m s = Some (sls, s1)" and "pub_run b_ops b_msgs b_cap m (sls, 0, E, s1) (rest, ret, E', s2)"
  shows "ps_publish b_ops m s = do { (r, s2) \<leftarrow> deliver_loop b_ops m sls 0 s1; publish_end m r s2 }
      \<and> (\<exists>mm'. mh_msgs (g_heap s2) m = Some mm')
      \<and> (\<forall>c. lock_free c \<and> allowed b_msgs b_cap c (E', s2) \<and> allowed b_msgs b_cap c (with_ref m E', s2)
            \<longrightarrow> (\<exists>y. exec b_ops c (E', s2) = Some y))
      \<and> (case rest of
           [] \<Rightarrow> \<exists>s'. publish_end m ret s2 = Some (int ret, s') \<and> broker_ok b_inv b_msgs E' s'
              \<and> ret \<le> length (filter (\<lambda>sl. \<not> sl_hidden sl) sls)
         | sl # tail \<Rightarrow> room b_cap 1 (with_ref m E') s2 \<longrightarrow> (\<exists>ret' s'. deliver_one b_ops m sl ret s2 = Some (ret', s')))"
proof -
  have m: "0 < with_ref m E m" by (simp add: with_ref_def)
  have seq: "ps_publish b_ops m s = do { (r, s2) \<leftarrow> deliver_loop b_ops m sls 0 s1; publish_end m r s2 }"
    using bq.publish_begin_run [OF assms(1) m assms(2-5)] assms(6) by auto
  have "pub_ok b_inv b_msgs m (sls, 0, E, s1)" using bq.pub_begin_ok [OF assms(1-5)] assms(6) by auto
  note ok = bq.pub_run_ok [OF assms(7) this] and cnt = bq.pub_run_count [OF assms(7) this]
  have others: "\<exists>y. exec b_ops c (E', s2) = Some y"
    if "lock_free c \<and> allowed b_msgs b_cap c (E', s2) \<and> allowed b_msgs b_cap c (with_ref m E', s2)" for c
    using bq.pub_other_ok [OF ok, of c] that by blast
  have go: "case rest of
           [] \<Rightarrow> \<exists>s'. publish_end m ret s2 = Some (int ret, s') \<and> broker_ok b_inv b_msgs E' s'
              \<and> ret \<le> length (filter (\<lambda>sl. \<not> sl_hidden sl) sls)
         | sl # tail \<Rightarrow> room b_cap 1 (with_ref m E') s2 \<longrightarrow> (\<exists>ret' s'. deliver_one b_ops m sl ret s2 = Some (ret', s'))"
  proof (cases rest)
    case Nil
    then show ?thesis using bq.pub_end_ok [of m ret E' s2] ok cnt by auto
  next
    case (Cons sl tail)
    then show ?thesis using bq.pub_deliver_ok [of m sl tail ret E' s2] ok by auto
  qed
  show ?thesis using seq bq.pub_live [OF ok] others go by blast
qed

text \<open>Subscriber 1 receives the message before the publisher has dropped its own reference.\<close>

lemma publish_concurrent_witness:
  "\<exists>m (s :: bqueue state) sls s1 ret E' s2 s'. publish_begin m s = Some (sls, s1) \<and> sls \<noteq> []
     \<and> pub_run b_ops b_msgs b_cap m (sls, 0, \<lambda>_. 0, s1) ([], ret, E', s2) \<and> exec b_ops (Get 1 0) (\<lambda>_. 0, s') = Some (E', s2)
     \<and> (\<exists>s3. publish_end m ret s2 = Some (int ret, s3))"
proof -
  obtain s u m where d: "broker_ok b_inv b_msgs ((\<lambda>_. 0)(m := 1)) s" "g_subs s = [1 \<mapsto> u]" "room b_cap 9 ((\<lambda>_. 0)(m := 1)) s"
    "topic_at s = [''a'' \<mapsto> \<lparr>tm_topic = ''a'', tm_subscribers = [new_link 1 no_flags], tm_sticky = NULL\<rparr>]"
    "mh_msgs (g_heap s) = [m \<mapsto> \<lparr>m_ref = 1, m_topic = Some ''a.b'', m_rtopic = None, m_flags = PS_INT_TYP, m_priority = 0, m_val = V_int 7\<rparr>]"
    by (rule demo [OF demo_int(1)])
  let ?E = "(\<lambda>_. 0) :: addr \<Rightarrow> nat"
  let ?mm = "\<lparr>m_ref = 1, m_topic = Some ''a.b'', m_rtopic = None, m_flags = PS_INT_TYP, m_priority = 0, m_val = V_int 7\<rparr>"
  let ?sls = "[new_link 1 no_flags]"
  have U: "with_ref m ?E = (\<lambda>_. 0)(m := 1)" by (simp add: with_ref_def)
  have ok: "broker_ok b_inv b_msgs (with_ref m ?E) s" unfolding U by (rule d(1))
  have m: "0 < with_ref m ?E m" by (simp add: U)
  have mm: "mh_msgs (g_heap s) m = Some ?mm" and tp: "m_topic ?mm = Some ''a.b''" by (simp_all add: d(5))
  have r: "room b_cap 2 (with_ref m ?E) s" unfolding U by (rule room_mono [OF d(3)]) simp_all
  have tg: "publish_targets (topic_at s) (m_flags ?mm AND PS_FL_NONRECURSIVE = 0) (cut_topic ''a.b'') = ?sls"
    using demo_targets [OF d(4)] by (simp add: demo_int(2))
  obtain s1 where s1: "publish_begin m s = Some (?sls, s1)" "room b_cap 1 (with_ref m ?E) s1" "quiet (s\<lparr>g_lock := True\<rparr>) s1"
    using bq.publish_begin_run [OF ok m mm tp demo_int(4) r] unfolding tg by blast
  have r0: "pub_run b_ops b_msgs b_cap m (?sls, 0, ?E, s1) (?sls, 0, ?E, s1)" by (rule pub_run.none)
  obtain ret s' where s': "deliver_one b_ops m (new_link 1 no_flags) 0 s1 = Some (ret, s')"
    using publish_concurrent [OF ok mm tp demo_int(4) r s1(1) r0] s1(2) by auto
  have r1: "pub_run b_ops b_msgs b_cap m (?sls, 0, ?E, s1) ([], ret, ?E, s')"
    by (rule pub_run.more [OF r0 pub_step.deliver [OF s1(2) s']])
  have "pub_ok b_inv b_msgs m (?sls, 0, ?E, s1)"
    using bq.pub_begin_ok [OF ok mm tp demo_int(4) r] s1(1) unfolding tg by auto
  then have "delivered b_cap s1 s'"
    using bq.pub_deliver_ok [of m "new_link 1 no_flags" "[]" 0 ?E s1] s1(2) s' by auto
  then have "dom (g_subs s') = {1}" using delivered_D(10) [of b_cap s1 s'] s1(3) d(2) by (simp add: quiet_def)
  then obtain v where v: "g_subs s' 1 = Some v" by (metis domD insertI1)
  have t: "\<not> pull_timeout 0 <s 0" by code_simp
  have al: "allowed b_msgs b_cap (Get 1 0) (X, s')" for X using v t by simp
  note conc = publish_concurrent [OF ok mm tp demo_int(4) r s1(1) r1]
  have lf: "lock_free (Get 1 0)" by simp
  obtain y where y: "exec b_ops (Get 1 0) (?E, s') = Some y"
    using conjunct1 [OF conjunct2 [OF conjunct2 [OF conc]]] lf al by blast
  obtain E' s2 where "y = (E', s2)" by (cases y)
  then have g: "exec b_ops (Get 1 0) (?E, s') = Some (E', s2)" using y by (simp only:)
  have r2: "pub_run b_ops b_msgs b_cap m (?sls, 0, ?E, s1) ([], ret, E', s2)"
    by (rule pub_run.more [OF r1 pub_step.other [OF lf al al g]])
  have "\<exists>s3. publish_end m ret s2 = Some (int ret, s3)"
    using publish_concurrent [OF ok mm tp demo_int(4) r s1(1) r2] by auto
  then show ?thesis using s1(1) r2 g by blast
qed

section \<open>Lists, time and text\<close>

text \<open>C38: the absolute deadline of a timed wait is exactly the timeout away from the clock, and its nanoseconds
stay in range, except that they can be \<open>10 ^ 9\<close> itself, which \<open>sem_timedwait\<close> refuses: exactly when the
nanoseconds add up to one full second. A valid deadline is not before the clock.\<close>

theorem deadline_exact:
  assumes "0 \<le> ms" and "valid_timespec now"
  shows "ns_of (deadline_ms ms now) = ns_of now + ms * 1000000
    \<and> (valid_timespec (deadline_ms ms now) \<longleftrightarrow> tv_nsec now + ms mod 1000 * 1000000 \<noteq> 1000000000)
    \<and> (valid_timespec (deadline_ms ms now) \<longrightarrow> now \<le> deadline_ms ms now)"
  using deadline_nsec [OF assms] deadline_ns [OF assms(1), of now] deadline_later [OF assms]
  by (auto simp: valid_timespec_def)

lemma deadline_exact_witness:
  "\<not> valid_timespec (deadline_ms 500 \<lparr>tv_sec = 7, tv_nsec = 500000000\<rparr>)"
  using deadline_exact [of 500 "\<lparr>tv_sec = 7, tv_nsec = 500000000\<rparr>"] by (simp add: valid_timespec_def)



text \<open>the prefix test of the sticky functions holds exactly for the topic itself, the root and the parents
that the publish loop visits.\<close>

theorem topic_match_is_ancestor:
  assumes "NUL \<notin> set t"
  shows "topic_match p t = Some (p \<in> set (ancestors t))"
  by (rule topic_match_ancestors [OF assms])

lemma topic_match_is_ancestor_witness: "topic_match ''a.b'' ''a.b.c'' = Some True"
proof -
  have "topic_match ''a.b'' ''a.b.c'' = Some (''a.b'' \<in> set (ancestors ''a.b.c''))"
    by (rule topic_match_is_ancestor) simp
  moreover have "''a.b'' \<in> set (ancestors ''a.b.c'')" by (auto simp: in_ancestors_iff)
  ultimately show ?thesis by simp
qed

text \<open>the flag string of a subscription sets exactly the flags whose letters it contains, on top of the
struct that was passed, and the priority it leaves is a digit, so below ten, if the struct's was.\<close>

theorem flags_parse:
  assumes "unat (fl_priority f) < 10"
  shows "(fl_hidden (parse_flags s f) \<longleftrightarrow> fl_hidden f \<or> CHR ''h'' \<in> set s)
    \<and> (fl_on_empty (parse_flags s f) \<longleftrightarrow> fl_on_empty f \<or> CHR ''e'' \<in> set s)
    \<and> (fl_no_sticky (parse_flags s f) \<longleftrightarrow> fl_no_sticky f \<or> CHR ''s'' \<in> set s)
    \<and> (fl_child_sticky (parse_flags s f) \<longleftrightarrow> fl_child_sticky f \<or> CHR ''S'' \<in> set s)
    \<and> unat (fl_priority (parse_flags s f)) < 10"
  using parse_flags_priority_bound [OF assms, of s] by (simp add: parse_flags_bools)

lemma flags_parse_witness: "fl_hidden (parse_flags ''h p7 e'' no_flags) \<and> unat (fl_priority (parse_flags ''h p7 e'' no_flags)) < 10"
  using flags_parse [of no_flags "''h p7 e''"] by (simp add: no_flags_def)

text \<open>The response topics of \<open>ps_call\<close> are distinct for distinct counter values, and fit the 32 byte buffer.\<close>

lemma rtopic_unique:
  "((rtopic_of m = rtopic_of n) = (m = n)) \<and> length (rtopic_of n) < 32 \<and> take 31 (rtopic_of n) = rtopic_of n"
proof -
  have "(rtopic_of m = rtopic_of n) = (m = n)"
    by (auto simp: rtopic_of_def intro: unsigned_word_eqI dest!: print_u_inj)
  moreover have "unat n < 2 ^ LENGTH(32)" by (rule unsigned_less)
  then have "unat n < 10 ^ Suc 9" by simp
  then have "length (print_u (unat n)) \<le> Suc 9" by (rule length_print_u)
  then have "length (rtopic_of n) < 32 \<and> take 31 (rtopic_of n) = rtopic_of n" by (simp add: rtopic_of_def)
  ultimately show ?thesis by blast
qed

text \<open>\<open>ps_msg_value_int\<close> after \<open>ps_msg_value_double\<close> is the identity on the integers that a double holds
exactly, up to \<open>2 ^ 53\<close> in absolute value.\<close>

lemma int_double_roundtrip:
  assumes "\<bar>sint w\<bar> \<le> 2 ^ 53"
  shows "int64_of_dbl (dbl_of_int64 w) = Some w"
  by (rule int64_dbl_roundtrip [OF assms])


section \<open>Messages\<close>

text \<open>A new message has one reference, the topic, the flags and the value that was passed, at a fresh address;
no other message changes and the store stays well formed.\<close>

lemma new_msg_ok:
  assumes "heap_ok n h" and "va_ok (f AND PS_MSK_TYP) args h"
  shows "\<exists>v h'. ps_new_msg (Some t) f args h = Some (mh_brk h, h')
      \<and> mh_msgs h' = (mh_msgs h)(mh_brk h \<mapsto> \<lparr>m_ref = 1, m_topic = Some t, m_rtopic = None, m_flags = f,
                                       m_priority = 0, m_val = v\<rparr>)
      \<and> va_value (f AND PS_MSK_TYP) args v = Some v
      \<and> heap_ok (n(mh_brk h := 1)) h'"
  using ps_new_msg_ok [OF assms, of t] by blast

lemma new_msg_ok_witness:
  "\<exists>v h'. ps_new_msg (Some ''a'') PS_INT_TYP [VA_int64 7] mheap_init = Some (1, h')
     \<and> mh_msgs h' = [1 \<mapsto> \<lparr>m_ref = 1, m_topic = Some ''a'', m_rtopic = None, m_flags = PS_INT_TYP, m_priority = 0,
                         m_val = v\<rparr>]"
proof -
  have "va_ok (PS_INT_TYP AND PS_MSK_TYP) [VA_int64 7] mheap_init" by (simp add: va_ok_def va_value_def typ_masked)
  from new_msg_ok [OF heap_ok_init this, of "''a''"] show ?thesis by auto
qed



text \<open>Taking a reference and dropping it again gives back the store.\<close>

lemma ref_unref_roundtrip:
  assumes "heap_ok n h" and "0 < n a" and "n a + 1 < 2 ^ 32"
  shows "Option.bind (ps_ref_msg a h) (ps_unref_msg a) = Some h"
proof -
  obtain m h1 where h1: "mh_msgs h a = Some m" "ps_ref_msg a h = Some h1" "h1 = put_msg a (m\<lparr>m_ref := m_ref m + 1\<rparr>) h"
    using ps_ref_msg_ok [OF assms] by blast
  have u: "unat (m_ref m) = n a" using heap_ok_D(5) [OF assms(1) h1(1)] .
  then have "m_ref m \<noteq> 0" using assms(2) by auto
  moreover have "a \<noteq> NULL" using heap_ok_D(3) [OF assms(1)] assms(2) by (metis less_irrefl)
  moreover have "put_msg a m h = h" using h1(1) by (simp add: fun_upd_idem)
  ultimately show ?thesis using h1 by (simp add: ps_unref_msg_def Let_def)
qed

text \<open>a duplicate has one reference of its own and the content of the original; text is copied, and a buffer is
copied into a fresh block that the duplicate owns.\<close>

theorem dup_msg_ok:
  assumes "heap_ok n h" and "mh_msgs h a = Some m"
    and "msg_typ m = PS_BUF_TYP \<Longrightarrow>
       \<exists>p sz d bs. m_val m = V_buf p sz d \<and> mh_bufs h p = Some bs \<and> unat sz \<le> length bs"
  shows "\<exists>v h'. ps_dup_msg a h = Some (mh_brk h, h')
      \<and> mh_msgs h' = (mh_msgs h)(mh_brk h \<mapsto> m\<lparr>m_ref := 1, m_val := v\<rparr>)
      \<and> heap_ok (n(mh_brk h := 1)) h'
      \<and> (msg_typ m = PS_STR_TYP \<longrightarrow> rd_str v = rd_str (m_val m))
      \<and> (msg_typ m = PS_BUF_TYP \<longrightarrow> (\<exists>p sz d bs p'. m_val m = V_buf p sz d \<and> mh_bufs h p = Some bs
           \<and> v = V_buf p' sz (Some D_free) \<and> p' \<noteq> p \<and> mh_bufs h' = (mh_bufs h)(p' \<mapsto> take (unat sz) bs)))"
  using ps_dup_msg_ok [OF assms] by blast

lemma dup_msg_ok_witness:
  "\<exists>h h'. ps_new_msg (Some ''a'') PS_INT_TYP [VA_int64 7] mheap_init = Some (1, h) \<and> ps_dup_msg 1 h = Some (2, h')"
proof -
  obtain h where h: "ps_new_msg (Some ''a'') PS_INT_TYP [VA_int64 7] mheap_init = Some (mh_brk mheap_init, h)"
    "heap_ok ((\<lambda>_. 0)(mh_brk mheap_init := 1)) h" "mh_msgs h = (mh_msgs mheap_init)(mh_brk mheap_init \<mapsto> \<lparr>m_ref = 1,
       m_topic = Some ''a'', m_rtopic = None, m_flags = PS_INT_TYP, m_priority = 0, m_val = V_int 7\<rparr>)"
    "mh_brk h = mh_brk mheap_init + 1"
    by (rule new_int_msg [OF heap_ok_init typ_masked(1)])
  have m: "mh_msgs h 1 = Some \<lparr>m_ref = 1, m_topic = Some ''a'', m_rtopic = None, m_flags = PS_INT_TYP, m_priority = 0,
      m_val = V_int 7\<rparr>" by (simp add: h(3))
  have "PS_INT_TYP \<noteq> PS_BUF_TYP" by (simp add: typ_defs)
  then show ?thesis using dup_msg_ok [OF h(2) m] h(1,4) by (auto simp: msg_typ_def typ_masked eval_nat_numeral)
qed

section \<open>The hash table\<close>

text \<open>The broker holds the hash table as the list of its elements; \<open>topics_in H s\<close>: \<open>H\<close> is that table.\<close>

definition topics_in :: "hash \<Rightarrow> 'q state \<Rightarrow> bool" where
  "topics_in H s \<longleftrightarrow> hash_ok H (g_topic_map s) \<and>
     (\<forall>a\<in>set (g_topic_map s). \<exists>t. g_tms s a = Some t \<and> tm_topic t = key_of H a)"

text \<open>A table with one element, for the witnesses.\<close>

definition blank_handle :: handle where
  "blank_handle = \<lparr>app_prev = NULL, app_next = NULL, hh_prev = NULL, hh_next = NULL, hh_key = [], hh_keylen = 0, hh_hashv = 0\<rparr>"

definition empty_hash :: hash where
  "empty_hash = \<lparr>hs_head = NULL, hs_tbl = None, hs_hh = [5 \<mapsto> blank_handle, 6 \<mapsto> blank_handle, 7 \<mapsto> blank_handle]\<rparr>"

lemma one_element:
  obtains H where "HASH_ADD_KEYPTR ''a'' 1 5 empty_hash = Some H" and "hash_ok H [5]" and "key_of H 5 = ''a''"
proof -
  have "hash_ok empty_hash []" unfolding empty_hash_def by (rule hash_ok_empty)
  from hash_add_ok [OF this, of 5 blank_handle "''a''"] that show ?thesis by (auto simp: empty_hash_def)
qed

text \<open>C24: \<open>HASH_FIND_STR\<close>, which hashes the name, masks the hash to a bucket and walks the chain, finds exactly the
element that the broker's \<open>fetch_topic\<close> finds.\<close>

theorem hash_find_fetches:
  assumes "topics_in H s" and "linked s" and "length topic < 2 ^ 32"
  shows "HASH_FIND_STR topic H = fetch_topic topic s"
proof -
  note d = links_ok_D [OF assms(2)]
  have k: "\<exists>t. g_tms s a = Some t \<and> tm_topic t = key_of H a" if "a \<in> set (g_topic_map s)" for a
    using assms(1) that by (simp add: topics_in_def)
  have "inj_on (key_of H) (set (g_topic_map s))"
    by (rule inj_onI) (metis k d(6))
  then have dis: "distinct (map (key_of H) (g_topic_map s))" using d(2) by (simp add: distinct_map)
  have "hash_find_str (g_tms s) topic as = Some (case find (\<lambda>a. key_of H a = topic) as of None \<Rightarrow> NULL | Some a \<Rightarrow> a)"
    if "set as \<subseteq> set (g_topic_map s)" for "as"
    using that k by (induction "as") fastforce+
  then show ?thesis
    using hash_find_ok [OF _ assms(3) dis] assms(1) by (simp add: topics_in_def fetch_topic_def)
qed

lemma hash_find_fetches_witness:
  "\<exists>H. HASH_ADD_KEYPTR ''a'' 1 5 empty_hash = Some H \<and> HASH_FIND_STR ''b'' H = Some NULL \<and> HASH_FIND_STR ''a'' H = Some 5"
proof -
  obtain H where H: "HASH_ADD_KEYPTR ''a'' 1 5 empty_hash = Some H" "hash_ok H [5]" "key_of H 5 = ''a''"
    by (rule one_element)
  define s :: "unit state" where "s = static_state\<lparr>g_tms := [5 \<mapsto> \<lparr>tm_topic = ''a'', tm_subscribers = [], tm_sticky = NULL\<rparr>],
      g_topic_map := [5], g_next := 6\<rparr>"
  have l: "linked s" by (auto simp: links_ok_def s_def static_state_def topic_ok_def subs_view_def)
  have t: "topics_in H s" using H by (simp add: topics_in_def s_def)
  have "fetch_topic ''a'' s = Some 5" "fetch_topic ''b'' s = Some NULL" by (simp_all add: fetch_topic_def s_def)
  then show ?thesis using H(1) hash_find_fetches [OF t l, of "''a''"] hash_find_fetches [OF t l, of "''b''"] by auto
qed

text \<open>C25: \<open>HASH_ADD_KEYPTR\<close> appends the element to the insertion order, whatever the buckets do: also when the chain
of its bucket has become long enough for the table to double and redistribute every element. The keys of the
others stay.\<close>

theorem hash_add_appends:
  assumes "hash_ok H xs" and "hs_hh H a = Some h0" and "a \<noteq> NULL" and "a \<notin> set xs" and "length key < 2 ^ 32"
    and "\<And>t. hs_tbl H = Some t \<Longrightarrow> unat (ht_log2_num_buckets t) < 31"
  shows "\<exists>H'. HASH_ADD_KEYPTR key (of_nat (length key)) a H = Some H' \<and> hash_ok H' (xs @ [a])
      \<and> key_of H' a = key \<and> (\<forall>b\<in>set xs. key_of H' b = key_of H b)"
  by (rule hash_add_ok [OF assms])

lemma hash_add_appends_witness:
  "\<exists>H'. HASH_ADD_KEYPTR ''ab'' 2 6 empty_hash = Some H' \<and> hash_ok H' [6] \<and> key_of H' 6 = ''ab''"
proof -
  have "hash_ok empty_hash []" unfolding empty_hash_def by (rule hash_ok_empty)
  from hash_add_appends [OF this, of 6 blank_handle "''ab''"] show ?thesis by (auto simp: empty_hash_def)
qed

text \<open>C26: \<open>HASH_DEL\<close> takes exactly the given element out of the table and out of its bucket; with the last one the table
is gone.\<close>

theorem hash_delete_removes:
  assumes "hash_ok H xs" and "a \<in> set xs"
  shows "\<exists>H'. HASH_DEL a H = Some H' \<and> hash_ok H' (remove1 a xs) \<and> (\<forall>b\<in>set (remove1 a xs). key_of H' b = key_of H b)"
proof -
  obtain us vs where xs: "xs = us @ a # vs" "a \<notin> set us" using assms(2) by (metis split_list_first)
  then have "remove1 a xs = us @ vs" by (simp add: remove1_append)
  then show ?thesis using hash_delete_ok [of H us a vs] assms(1) xs(1) by simp
qed

lemma hash_delete_removes_witness:
  "\<exists>H H'. HASH_ADD_KEYPTR ''a'' 1 5 empty_hash = Some H \<and> HASH_DEL 5 H = Some H' \<and> hash_ok H' []"
proof -
  obtain H where H: "HASH_ADD_KEYPTR ''a'' 1 5 empty_hash = Some H" "hash_ok H [5]"
    by (rule one_element)
  then show ?thesis using hash_delete_removes [OF H(2), of 5] by auto
qed

text \<open>A table with two elements.\<close>

lemma two_elements:
  obtains H where "hash_ok H [5, 6]" and "key_of H 5 = ''a''" and "key_of H 6 = ''b''" and "expandable H" and "hs_hh H 7 \<noteq> None"
proof -
  have e: "hash_ok empty_hash []" unfolding empty_hash_def by (rule hash_ok_empty)
  have "hs_hh empty_hash 5 = Some blank_handle" "(5 :: addr) \<noteq> NULL" "(5 :: addr) \<notin> set []" "length ''a'' < 2 ^ 32"
    "\<And>t. hs_tbl empty_hash = Some t \<Longrightarrow> unat (ht_log2_num_buckets t) < 31" by (simp_all add: empty_hash_def)
  from hash_add_dom [OF e this] obtain H where
    H: "HASH_ADD_KEYPTR ''a'' (of_nat (length ''a'')) 5 empty_hash = Some H" "hash_ok H ([] @ [5])" "key_of H 5 = ''a''"
    "dom (hs_hh H) = dom (hs_hh empty_hash)" by blast
  have l: "log_buckets H \<le> Suc (log_buckets empty_hash)" by (rule log_hash_add [OF H(1)]) (simp add: empty_hash_def)
  then have "unat (ht_log2_num_buckets t) < 31" if "hs_tbl H = Some t" for t
    using that by (simp add: log_buckets_def empty_hash_def)
  moreover have "6 \<in> dom (hs_hh H)" by (simp add: H(4) empty_hash_def)
  then obtain h6 where "hs_hh H 6 = Some h6" by blast
  ultimately obtain H2 where H2: "HASH_ADD_KEYPTR ''b'' (of_nat (length ''b'')) 6 H = Some H2" "hash_ok H2 ([5] @ [6])"
    "key_of H2 6 = ''b''" "\<forall>b\<in>set [5]. key_of H2 b = key_of H b" "dom (hs_hh H2) = dom (hs_hh H)"
    using hash_add_dom [of H "[5]" 6 h6 "''b''"] H(2) by auto
  have "hs_head H \<noteq> NULL" "hs_tbl H \<noteq> None" using H(2) by (auto simp: hash_ok_def chain_def)
  then have "hs_head H = NULL \<longleftrightarrow> hs_tbl H = None" by simp
  from log_hash_add [OF H2(1) this] l have "expandable H2"
    by (auto simp: expandable_def log_buckets_def empty_hash_def split: option.splits)
  moreover have "7 \<in> dom (hs_hh H2)" by (simp add: H(4) H2(5) empty_hash_def)
  ultimately show ?thesis using that [of H2] H(3) H2 by auto
qed

text \<open>C37: the merge sorts of the list headers and of the hash table agree: on the same nodes, \<open>DL_SORT\<close>, \<open>LL_SORT\<close>, \<open>CDL_SORT\<close> and
\<open>HASH_SRT\<close> all end and leave a well formed list, respectively table, of these nodes, sorted by the key that the comparison function
orders by, nodes of equal keys in their old order; nothing outside of the list is written, and the table keeps its keys. The length
is bounded so that the run length, which is doubled after every pass, does not overflow an \<open>int\<close>.\<close>

theorem utlist_sort:
  assumes "DL h1 head1 xs" and "SL h2 head2 xs" and "CD h3 head3 xs" and "hash_ok H xs"
    and "length xs \<le> 2 ^ 30" and "cmp_by cmp key"
  shows "(\<exists>l h'. DL_SORT cmp head1 h1 = Some (l, h') \<and> DL h' l (sort_key key xs) \<and> (\<forall>b. b \<notin> set xs \<longrightarrow> h' b = h1 b))
    \<and> (\<exists>l h'. LL_SORT cmp head2 h2 = Some (l, h') \<and> SL h' l (sort_key key xs) \<and> (\<forall>b. b \<notin> set xs \<longrightarrow> h' b = h2 b))
    \<and> (\<exists>l h'. CDL_SORT cmp head3 h3 = Some (l, h') \<and> CD h' l (sort_key key xs) \<and> (\<forall>b. b \<notin> set xs \<longrightarrow> h' b = h3 b))
    \<and> (\<exists>H'. HASH_SRT cmp H = Some H' \<and> hash_ok H' (sort_key key xs) \<and> (\<forall>b\<in>set xs. key_of H' b = key_of H b))"
  using DL_SORT_correct [OF assms(1,5,6)] LL_SORT_correct [OF assms(2,5,6)] CDL_SORT_correct [OF assms(3,5,6)]
    hash_sort_ok [OF assms(4-6)] by blast

lemma utlist_sort_witness:
  "(\<exists>l h'. DL_SORT (\<lambda>x y. int (x mod 3) - int (y mod 3)) 5 [5 \<mapsto> \<lparr>prev = 6, next = 6\<rparr>, 6 \<mapsto> \<lparr>prev = 5, next = NULL\<rparr>]
        = Some (l, h') \<and> DL h' l [6, 5])
    \<and> (\<exists>l h'. LL_SORT (\<lambda>x y. int (x mod 3) - int (y mod 3)) 5 [5 \<mapsto> 6, 6 \<mapsto> NULL] = Some (l, h') \<and> SL h' l [6, 5])
    \<and> (\<exists>H H'. hash_ok H [5, 6] \<and> HASH_SRT (\<lambda>x y. int (x mod 3) - int (y mod 3)) H = Some H' \<and> hash_ok H' [6, 5])"
proof -
  obtain H where H: "hash_ok H [5, 6]" by (rule two_elements)
  let ?h1 = "[5 \<mapsto> \<lparr>prev = 6, next = 6\<rparr>, 6 \<mapsto> \<lparr>prev = 5, next = NULL\<rparr>]"
  let ?h3 = "[5 \<mapsto> \<lparr>prev = 6, next = 6\<rparr>, 6 \<mapsto> \<lparr>prev = 5, next = 5\<rparr>]"
  have l: "DL ?h1 5 [5, 6]" "SL [5 \<mapsto> 6, 6 \<mapsto> NULL] 5 [5, 6]" "CD ?h3 5 [5, 6]"
    by (simp_all add: DL_def SL_def CD_def)
  have k: "length [5, 6 :: addr] \<le> 2 ^ 30" "cmp_by (\<lambda>x y. int (x mod 3) - int (y mod 3)) (\<lambda>x :: addr. x mod 3)"
    by (auto simp: cmp_by_def)
  have "sort_key (\<lambda>x. x mod 3) [5, 6 :: addr] = [6, 5]" by simp
  then show ?thesis using utlist_sort [OF l H k] H by auto
qed

text \<open>C27: \<open>HASH_REPLACE_STR\<close> gives back the element that a search for the new element's key found, or null, and puts the new element
in its place, at the end of the list; afterwards a search for its key finds the new element, and every other search what it found
before.\<close>

theorem hash_replace_exact:
  assumes "hash_ok H xs" and "distinct (map (key_of H) xs)" and "expandable H"
    and "hs_hh H a \<noteq> None" and "a \<noteq> NULL" and "a \<notin> set xs" and "length (str a) < 2 ^ 32" and "length s < 2 ^ 32"
  shows "\<exists>r H'. HASH_FIND_STR (str a) H = Some r \<and> HASH_REPLACE_STR str a H = Some (r, H')
      \<and> hash_ok H' (filter (\<lambda>b. key_of H b \<noteq> str a) xs @ [a])
      \<and> HASH_FIND_STR s H' = (if s = str a then Some a else HASH_FIND_STR s H)"
proof -
  let ?xs = "filter (\<lambda>b. key_of H b \<noteq> str a) xs"
  obtain H' where H': "HASH_REPLACE_STR str a H = Some (case find (\<lambda>b. key_of H b = str a) xs of None \<Rightarrow> NULL | Some b \<Rightarrow> b, H')"
    "hash_ok H' (?xs @ [a])" "key_of H' a = str a" "\<forall>b\<in>set xs. key_of H b \<noteq> str a \<longrightarrow> key_of H' b = key_of H b"
    using hash_replace_ok [of H xs a str, OF assms(1,4-7,2,3)] by blast
  have keys: "map (key_of H') ?xs = map (key_of H) ?xs" using H'(4) by simp
  have "distinct (map (key_of H') (?xs @ [a]))"
    using assms(2) H'(3) keys by (auto simp: distinct_map_filter simp del: map_eq_conv)
  from hash_find_ok [OF H'(2) assms(8) this] have "HASH_FIND_STR s H' = (if s = str a then Some a else HASH_FIND_STR s H)"
    using find_replaced [of xs "key_of H" "str a" "key_of H'" a s] H'(3,4) hash_find_ok [OF assms(1,8,2)] by auto
  then show ?thesis using H'(1,2) hash_find_ok [OF assms(1,7,2)] by auto
qed

lemma hash_replace_exact_witness:
  "\<exists>H H'. hash_ok H [5, 6] \<and> HASH_REPLACE_STR (\<lambda>_. ''a'') 7 H = Some (5, H') \<and> hash_ok H' [6, 7] \<and> HASH_FIND_STR ''a'' H' = Some 7"
proof -
  obtain H where H: "hash_ok H [5, 6]" "key_of H 5 = ''a''" "key_of H 6 = ''b''" "expandable H" "hs_hh H 7 \<noteq> None"
    by (rule two_elements)
  have d: "distinct (map (key_of H) [5, 6])" using H(2,3) by simp
  have "HASH_FIND_STR ''a'' H = Some 5" using hash_find_ok [OF H(1) _ d, of "''a''"] H(2) by simp
  moreover have "\<exists>r H'. HASH_FIND_STR ''a'' H = Some r \<and> HASH_REPLACE_STR (\<lambda>_. ''a'') 7 H = Some (r, H')
      \<and> hash_ok H' (filter (\<lambda>b. key_of H b \<noteq> ''a'') [5, 6] @ [7])
      \<and> HASH_FIND_STR ''a'' H' = (if ''a'' = ''a'' then Some 7 else HASH_FIND_STR ''a'' H)"
    by (rule hash_replace_exact [OF H(1) d H(4,5)]) simp_all
  ultimately obtain H' where "HASH_REPLACE_STR (\<lambda>_. ''a'') 7 H = Some (5, H')" "hash_ok H' [6, 7]" "HASH_FIND_STR ''a'' H' = Some 7"
    using H(2,3) by auto
  then show ?thesis using H(1) by blast
qed

text \<open>C29: \<open>HASH_FSCK\<close>, the integrity check of the debug build, is exact: it passes if and only if the table is empty, or every
bucket is a doubly linked chain without repetitions of the length that the bucket counts, the list of insertion is one too, and both have
\<open>num_items\<close> elements.\<close>

theorem hash_fsck_exact:
  "HASH_FSCK H = Some () \<longleftrightarrow>
     hs_head H = NULL \<or>
     (\<exists>t Ls xs. hs_tbl H = Some t \<and> list_all2 (counted (hs_hh H)) (take (unat (ht_num_buckets t)) (ht_buckets t)) Ls
        \<and> chain (fld app_next (hs_hh H)) (fld app_prev (hs_hh H)) (hs_head H) xs \<and> set xs \<subseteq> dom (hs_hh H)
        \<and> ht_num_items t = of_nat (length (concat Ls)) \<and> ht_num_items t = of_nat (length xs))"
  by (rule fsck_exact)

text \<open>So it passes on every table that the macros build.\<close>

lemma hash_fsck_passes:
  "hash_ok H xs \<Longrightarrow> HASH_FSCK H = Some ()"
  by (rule fsck_passes)

text \<open>C30: With \<open>HASH_NONFATAL_OOM\<close> an insertion returns whatever the allocations do: it appends the element, or it undoes what it
did to the bucket and to the list, so that the table holds the elements that it held. No block of memory is lost, and the
element is only refused if an allocation failed.\<close>

theorem hash_oom_undone:
  assumes "hash_ok H xs" and "hs_hh H a = Some h0" and "a \<noteq> NULL" and "a \<notin> set xs" and "length key < 2 ^ 32"
    and "\<And>t. hs_tbl H = Some t \<Longrightarrow> unat (ht_log2_num_buckets t) < 31" and "table_blocks H \<le> mm_blocks m"
  shows "\<exists>added H' m'. HASH_ADD_KEYPTR_oom key (of_nat (length key)) a H m = Some (added, H', m')
      \<and> hash_ok H' (if added then xs @ [a] else xs) \<and> (added \<longrightarrow> key_of H' a = key) \<and> (\<forall>b\<in>set xs. key_of H' b = key_of H b)
      \<and> mm_blocks m' + table_blocks H = mm_blocks m + table_blocks H' \<and> (list_all id (mm_results m) \<longrightarrow> added)"
proof -
  obtain added H' m' where r: "HASH_ADD_KEYPTR_oom key (of_nat (length key)) a H m = Some (added, H', m')"
      "oom_result H xs a key (xs @ [a]) m (added, H', m')"
    using hash_add_oom_ok [OF assms] by (metis prod_cases3)
  moreover have "list_all id (mm_results m) \<longrightarrow> added" using r(2) by (simp add: oom_result_def all_succeed_def)
  ultimately show ?thesis by (intro exI [of _ added] exI [of _ H'] exI [of _ m']) (simp add: oom_result_def)
qed

lemma hash_oom_undone_witness:
  "\<exists>H' m'. HASH_ADD_KEYPTR_oom ''ab'' 2 6 empty_hash \<lparr>mm_results = [True, False], mm_blocks = 0\<rparr> = Some (False, H', m')
     \<and> hash_ok H' [] \<and> mm_blocks m' = 0"
proof -
  have H: "hash_ok empty_hash []" unfolding empty_hash_def by (rule hash_ok_empty)
  have run: "\<exists>H' m'. HASH_ADD_KEYPTR_oom ''ab'' 2 6 empty_hash \<lparr>mm_results = [True, False], mm_blocks = 0\<rparr> = Some (False, H', m')
      \<and> hs_tbl H' = None"
    by (simp add: HASH_ADD_KEYPTR_oom_def HASH_ADD_KEYPTR_BYHASHVALUE_oom_def first_link_oom_def HASH_MAKE_TABLE_oom_def
        uthash_malloc_def uthash_free_def HASH_ADD_TO_TABLE_oom_def wr_hh_def empty_hash_def)
  from hash_oom_undone [OF H, of 6 blank_handle "''ab''" "\<lparr>mm_results = [True, False], mm_blocks = 0\<rparr>"] run
  show ?thesis by (auto simp: empty_hash_def table_blocks_def)
qed

text \<open>C28: compiling the Bloom filter in does not change what the table does: with the filter as without it an insertion makes the same
table, whose filter has the bit of every element, so that a search with the filter finds what a search without it finds.\<close>

theorem bloom_transparent:
  assumes "n \<le> 32" and "bloom_ok n B xs" and "distinct (map (key_of (fst B)) xs)" and "expandable (fst B)"
    and "hs_hh (fst B) a \<noteq> None" and "a \<noteq> NULL" and "a \<notin> set xs" and "length key < 2 ^ 32" and "key \<notin> key_of (fst B) ` set xs"
    and "length s < 2 ^ 32"
  shows "\<exists>B'. add_bloom n key (of_nat (length key)) a B = Some B'
      \<and> HASH_ADD_KEYPTR key (of_nat (length key)) a (fst B) = Some (fst B') \<and> bloom_ok n B' (xs @ [a])
      \<and> find_str_bloom n s B' = HASH_FIND_STR s (fst B')"
proof -
  obtain h0 where h0: "hs_hh (fst B) a = Some h0" using assms(5) by blast
  have x: "\<And>t. hs_tbl (fst B) = Some t \<Longrightarrow> unat (ht_log2_num_buckets t) < 31" using assms(4) by (simp add: expandable_def)
  obtain B' where B': "add_bloom n key (of_nat (length key)) a B = Some B'" "bloom_ok n B' (xs @ [a])"
    "HASH_ADD_KEYPTR key (of_nat (length key)) a (fst B) = Some (fst B')"
    using bloom_add_ok [OF assms(1,2) h0 assms(6-8) x] by blast
  have "hash_ok (fst B) xs" using assms(2) by (simp add: bloom_ok_def)
  from hash_add_ok [OF this h0 assms(6-8) x] have k: "key_of (fst B') a = key" "\<forall>b\<in>set xs. key_of (fst B') b = key_of (fst B) b"
    using B'(3) by auto
  then have "map (key_of (fst B')) xs = map (key_of (fst B)) xs" by simp
  then have "distinct (map (key_of (fst B')) (xs @ [a]))" using assms(3,9) k by (auto simp del: map_eq_conv)
  from bloom_find [OF assms(1) B'(2) assms(10) this] B' show ?thesis by blast
qed

lemma bloom_transparent_witness:
  "\<exists>B'. add_bloom 8 ''ab'' 2 6 (empty_hash, None) = Some B' \<and> bloom_ok 8 B' [6] \<and> find_str_bloom 8 ''cd'' B' = HASH_FIND_STR ''cd'' (fst B')"
proof -
  have "hash_ok empty_hash []" unfolding empty_hash_def by (rule hash_ok_empty)
  then have "bloom_ok 8 (empty_hash, None) []" by (simp add: bloom_ok_def)
  from bloom_transparent [OF _ this, of 6 "''ab''" "''cd''"] show ?thesis by (auto simp: empty_hash_def expandable_def)
qed

text \<open>\<open>HASH_ITER\<close> visits every element once, in insertion order, and ends, also when the body deletes the element
that it is at, as \<open>ps_clean_sticky\<close> does.\<close>

lemma hash_iter_visits:
  assumes "hash_ok H xs"
  shows "\<exists>H'. HASH_ITER (visit del f) (H, s) = Some (H', fold f xs s) \<and> hash_ok H' (filter (\<lambda>x. \<not> del x) xs)"
proof -
  obtain H' where "HASH_ITER (visit del f) (H, s) = Some (H', fold f xs s)" "hash_ok H' (filter (\<lambda>x. \<not> del x) xs)"
    using hash_iter_ok [OF assms, of del f s] by (elim exE conjE)
  then show ?thesis by (intro exI conjI)
qed

end
